(* ===== verification/Prelude.thy ===== *)
theory Prelude
  imports Main "HOL-Library.Word"
begin

unbundle bit_operations_syntax

text \<open>
  Shared material of the development: the result type of code that may panic, the loops of
  the kernel that search a static table, slices of byte arrays, and the little-endian
  representation of integers that \<open>ptr::read_unaligned\<close>, \<open>ptr::write_unaligned\<close> and
  \<open>to_ne_bytes\<close> use on RISC-V.

  The kernel is built with Cargo's debug profile (\<open>Makefile\<close>), so an arithmetic overflow is
  a panic there.  A kernel function that can panic returns a value of \<open>panic + 'a\<close>.
\<close>

section \<open>Integers and panics\<close>

type_synonym byte = "8 word"
type_synonym u16 = "16 word"
type_synonym u32 = "32 word"
type_synonym u64 = "64 word"
type_synonym usize = "64 word"

datatype panic = Panic string

type_synonym 'a res = "panic + 'a"

abbreviation Ok :: "'a \<Rightarrow> 'a res" where
  "Ok \<equiv> Inr"

abbreviation panic :: "string \<Rightarrow> 'a res" where
  "panic msg \<equiv> Inl (Panic msg)"

definition bindE :: "'a res \<Rightarrow> ('a \<Rightarrow> 'b res) \<Rightarrow> 'b res" where
  "bindE m f = (case m of Inl e \<Rightarrow> Inl e | Inr x \<Rightarrow> f x)"

lemma bindE_simps [simp]:
  "bindE (Inr x) f = f x"
  "bindE (Inl e) f = Inl e"
  by (simp_all add: bindE_def)

lemma bindE_Ok_iff: "bindE m f = Inr y \<longleftrightarrow> (\<exists>x. m = Inr x \<and> f x = Inr y)"
  by (cases m) auto

lemma bindE_OkE:
  assumes "bindE m f = Inr y"
  obtains x where "m = Inr x" "f x = Inr y"
  using assms by (cases m) auto

lemma bindE_cong [fundef_cong]:
  assumes "m = m'" and "\<And>x. m' = Inr x \<Longrightarrow> f x = f' x"
  shows "bindE m f = bindE m' f'"
  using assms by (cases m') (auto simp: bindE_def)

lemma bindE_assoc: "bindE (bindE m f) g = bindE m (\<lambda>x. bindE (f x) g)"
  by (cases m) auto

text \<open>\<open>Option::expect\<close> on the result of a stateful call.\<close>

definition expect :: "string \<Rightarrow> 'a option \<times> 's \<Rightarrow> ('a \<times> 's) res" where
  "expect msg r = (case r of (None, _) \<Rightarrow> panic msg | (Some x, s) \<Rightarrow> Ok (x, s))"

lemma expect_simps [simp]:
  "expect msg (Some x, s) = Ok (x, s)"
  "expect msg (None, s) = panic msg"
  by (simp_all add: expect_def)

section \<open>Searching a table\<close>

text \<open>
  The kernel's tables are static arrays that are searched by a \<open>for\<close> loop which acts on the
  first slot with a property and returns: \<^term>\<open>find_slot\<close> is the index of that slot.
\<close>

fun find_slot :: "('a \<Rightarrow> bool) \<Rightarrow> 'a list \<Rightarrow> nat option" where
  "find_slot P [] = None"
| "find_slot P (x # xs) = (if P x then Some 0 else map_option Suc (find_slot P xs))"

lemma find_slot_SomeD:
  "find_slot P xs = Some i \<Longrightarrow> i < length xs \<and> P (xs ! i) \<and> (\<forall>j < i. \<not> P (xs ! j))"
proof (induction xs arbitrary: i)
  case Nil
  then show ?case by simp
next
  case (Cons x xs)
  show ?case
  proof (cases "P x")
    case True
    with Cons.prems show ?thesis by simp
  next
    case False
    with Cons.prems obtain k where "find_slot P xs = Some k" and "i = Suc k"
      by auto
    with Cons.IH [of k] False show ?thesis
      by (auto simp: less_Suc_eq_0_disj)
  qed
qed

lemma find_slot_None_iff: "find_slot P xs = None \<longleftrightarrow> (\<forall>x \<in> set xs. \<not> P x)"
  by (induction xs) auto

lemma find_slot_NoneD: "find_slot P xs = None \<Longrightarrow> i < length xs \<Longrightarrow> \<not> P (xs ! i)"
  by (simp add: find_slot_None_iff)

lemma find_slot_ex: "\<exists>x \<in> set xs. P x \<Longrightarrow> \<exists>i. find_slot P xs = Some i"
  by (cases "find_slot P xs") (auto simp: find_slot_None_iff)

lemma find_slot_Some_iff:
  "find_slot P xs = Some i \<longleftrightarrow> i < length xs \<and> P (xs ! i) \<and> (\<forall>j < i. \<not> P (xs ! j))"
  (is "?l = ?r")
proof
  assume ?l
  then show ?r by (rule find_slot_SomeD)
next
  assume r: ?r
  then obtain k where k: "find_slot P xs = Some k"
    using find_slot_ex [of xs P] nth_mem by blast
  from find_slot_SomeD [OF k] r have "k = i"
    by (metis linorder_neqE_nat)
  with k show ?l by simp
qed

section \<open>Slices of arrays\<close>

text \<open>\<open>a[off..off + n]\<close> and \<open>a[off..off + d.len()].copy_from_slice(d)\<close>.\<close>

definition get_slice :: "'a list \<Rightarrow> nat \<Rightarrow> nat \<Rightarrow> 'a list" where
  "get_slice xs off n = take n (drop off xs)"

definition put_slice :: "'a list \<Rightarrow> nat \<Rightarrow> 'a list \<Rightarrow> 'a list" where
  "put_slice xs off ys = take off xs @ ys @ drop (off + length ys) xs"

lemma length_get_slice [simp]: "length (get_slice xs off n) = min n (length xs - off)"
  by (simp add: get_slice_def)

lemma length_put_slice [simp]:
  "off + length ys \<le> length xs \<Longrightarrow> length (put_slice xs off ys) = length xs"
  by (simp add: put_slice_def)

lemma nth_get_slice:
  "i < n \<Longrightarrow> off + i < length xs \<Longrightarrow> get_slice xs off n ! i = xs ! (off + i)"
  by (simp add: get_slice_def)

lemma nth_put_slice:
  assumes "off + length ys \<le> length xs" and "i < length xs"
  shows "put_slice xs off ys ! i =
    (if off \<le> i \<and> i < off + length ys then ys ! (i - off) else xs ! i)"
  using assms by (auto simp: put_slice_def nth_append)

lemma get_put_slice_same:
  "off + length ys \<le> length xs \<Longrightarrow> n = length ys \<Longrightarrow> get_slice (put_slice xs off ys) off n = ys"
  by (simp add: get_slice_def put_slice_def)

lemma get_put_slice_other:
  assumes "off + length ys \<le> length xs" and "off' + n \<le> off \<or> off + length ys \<le> off'"
    and "off' + n \<le> length xs"
  shows "get_slice (put_slice xs off ys) off' n = get_slice xs off' n"
  using assms by (auto simp: list_eq_iff_nth_eq nth_get_slice nth_put_slice)

section \<open>Little-endian integers\<close>

primrec word_of_le :: "byte list \<Rightarrow> 'a::len word" where
  "word_of_le [] = 0"
| "word_of_le (b # bs) = ucast b OR push_bit 8 (word_of_le bs)"

definition le_of_word :: "'a::len word \<Rightarrow> byte list" where
  "le_of_word w = map (\<lambda>i. ucast (drop_bit (8 * i) w)) [0..<LENGTH('a) div 8]"

lemma length_le_of_word [simp]: "length (le_of_word (w :: 'a::len word)) = LENGTH('a) div 8"
  by (simp add: le_of_word_def)

lemma bit_word_of_le:
  "n < LENGTH('a) \<Longrightarrow>
   bit (word_of_le bs :: 'a::len word) n \<longleftrightarrow> n div 8 < length bs \<and> bit (bs ! (n div 8)) (n mod 8)"
proof (induction bs arbitrary: n)
  case Nil
  then show ?case by simp
next
  case (Cons b bs)
  show ?case
  proof (cases "n < 8")
    case True
    with Cons.prems show ?thesis
      by (simp add: bit_simps)
  next
    case False
    then have d: "n div 8 = Suc ((n - 8) div 8)" and m: "(n - 8) mod 8 = n mod 8"
      by (simp_all add: le_div_geq le_mod_geq)
    have "\<not> bit b n"
      using False by (simp add: bit_word.rep_eq)
    with False Cons.prems Cons.IH [of "n - 8"] show ?thesis
      by (simp add: bit_simps d m)
  qed
qed

lemma word_of_le_of_word:
  assumes "8 dvd LENGTH('a::len)"
  shows "word_of_le (le_of_word w) = (w :: 'a word)"
proof (rule bit_word_eqI)
  fix n assume n: "n < LENGTH('a)"
  from assms obtain k where k: "LENGTH('a) = 8 * k" ..
  with n have "n div 8 < k" by simp
  with n k show "bit (word_of_le (le_of_word w) :: 'a word) n = bit w n"
    by (simp add: bit_word_of_le le_of_word_def bit_simps)
qed

lemma le_of_word_of_le:
  assumes "length bs = LENGTH('a::len) div 8" and "8 dvd LENGTH('a)"
  shows "le_of_word (word_of_le bs :: 'a word) = bs"
proof (rule nth_equalityI)
  show "length (le_of_word (word_of_le bs :: 'a word)) = length bs"
    using assms(1) by simp
next
  fix i assume "i < length (le_of_word (word_of_le bs :: 'a word))"
  then have i: "i < length bs" using assms(1) by simp
  show "le_of_word (word_of_le bs :: 'a word) ! i = bs ! i"
  proof (rule bit_word_eqI)
    fix n assume n: "n < LENGTH(8)"
    have "8 * i + n < LENGTH('a)"
      using n i assms by (auto elim!: dvdE)
    with n i assms(1) show "bit (le_of_word (word_of_le bs :: 'a word) ! i) n = bit (bs ! i) n"
      by (simp add: le_of_word_def bit_simps bit_word_of_le)
  qed
qed

lemmas le_words [simp] =
  word_of_le_of_word [where 'a = 16, simplified]
  word_of_le_of_word [where 'a = 32, simplified]
  word_of_le_of_word [where 'a = 64, simplified]

end
