(* ===== verification/Slot_Cache.thy ===== *)
theory Slot_Cache
  imports Prelude
begin

text \<open>
  The contract of a reference-counted cache over a static table of slots.  \<open>fs.rs\<close> has two
  of them with one discipline: the buffer cache (\<open>bget\<close>/\<open>brelse\<close>) and the inode cache
  (\<open>iget\<close>/\<open>idup\<close>/\<open>iput\<close>).  A lookup returns the slot that holds the key, with one more
  reference, and otherwise takes over the first slot without references.  What the clients
  of the caches rely on is proved here once, from that contract.
\<close>

locale slot_cache =
  fixes key :: "'c \<Rightarrow> 'k"
    and refs :: "'c \<Rightarrow> nat"
    and live :: "'c \<Rightarrow> bool"
    and get :: "'k \<Rightarrow> 'c list \<Rightarrow> nat option \<times> 'c list"
  assumes refs_live: "0 < refs c \<Longrightarrow> live c"
    and get_hit: "find_slot (\<lambda>c. live c \<and> key c = k) cs = Some i \<Longrightarrow>
      \<exists>c. get k cs = (Some i, cs[i := c]) \<and> key c = k \<and> refs c = Suc (refs (cs ! i))"
    and get_take: "find_slot (\<lambda>c. live c \<and> key c = k) cs = None \<Longrightarrow>
      find_slot (\<lambda>c. refs c = 0) cs = Some i \<Longrightarrow>
      \<exists>c. get k cs = (Some i, cs[i := c]) \<and> key c = k \<and> refs c = 1"
    and get_full: "find_slot (\<lambda>c. live c \<and> key c = k) cs = None \<Longrightarrow>
      find_slot (\<lambda>c. refs c = 0) cs = None \<Longrightarrow> get k cs = (None, cs)"
begin

text \<open>No key is held by two live slots.\<close>

definition uniq :: "'c list \<Rightarrow> bool" where
  "uniq cs \<longleftrightarrow> (\<forall>i < length cs. \<forall>j < length cs.
     live (cs ! i) \<longrightarrow> live (cs ! j) \<longrightarrow> key (cs ! i) = key (cs ! j) \<longrightarrow> i = j)"

lemma uniqD:
  "uniq cs \<Longrightarrow> i < length cs \<Longrightarrow> j < length cs \<Longrightarrow> live (cs ! i) \<Longrightarrow> live (cs ! j) \<Longrightarrow>
   key (cs ! i) = key (cs ! j) \<Longrightarrow> i = j"
  by (simp add: uniq_def)

lemma get_cases:
  obtains (hit) i c where "get k cs = (Some i, cs[i := c])" "i < length cs" "key c = k"
      "refs c = Suc (refs (cs ! i))" "live (cs ! i)" "key (cs ! i) = k"
  | (take) i c where "get k cs = (Some i, cs[i := c])" "i < length cs" "key c = k"
      "refs c = 1" "refs (cs ! i) = 0" "\<forall>c \<in> set cs. live c \<longrightarrow> key c \<noteq> k"
  | (full) "get k cs = (None, cs)" "\<forall>c \<in> set cs. live c \<longrightarrow> key c \<noteq> k" "\<forall>c \<in> set cs. 0 < refs c"
proof (cases "find_slot (\<lambda>c. live c \<and> key c = k) cs")
  case (Some i)
  from find_slot_SomeD [OF Some] get_hit [OF Some] hit show ?thesis by blast
next
  case None
  then have miss: "\<forall>c \<in> set cs. live c \<longrightarrow> key c \<noteq> k" by (auto simp: find_slot_None_iff)
  show ?thesis
  proof (cases "find_slot (\<lambda>c. refs c = 0) cs")
    case (Some i)
    from find_slot_SomeD [OF Some] get_take [OF None Some] miss take show ?thesis by blast
  next
    case full': None
    from get_full [OF None this] miss full full' show ?thesis by (simp add: find_slot_None_iff)
  qed
qed

lemma get_length: "length (snd (get k cs)) = length cs"
  by (rule get_cases [of k cs]) auto

text \<open>A lookup that succeeds returns a slot that holds the key and is referenced.\<close>

lemma get_returns:
  assumes "get k cs = (Some i, cs')"
  shows "i < length cs' \<and> key (cs' ! i) = k \<and> 0 < refs (cs' ! i)"
  using assms by (cases rule: get_cases [of k cs]) auto

text \<open>No slot but the returned one changes, and that one only if it was free or held the key.\<close>

lemma get_frame:
  assumes "get k cs = (Some i, cs')"
  shows "\<exists>c. cs' = cs[i := c]" and "0 < refs (cs ! i) \<Longrightarrow> key (cs ! i) = k"
  using assms by (cases rule: get_cases [of k cs]; auto)+

lemma get_none: "get k cs = (None, cs') \<Longrightarrow> cs' = cs"
  by (cases rule: get_cases [of k cs]) auto

text \<open>Uniqueness of the keys is kept.\<close>

lemma get_uniq:
  assumes u: "uniq cs" and g: "get k cs = (r, cs')"
  shows "uniq cs'"
proof (cases rule: get_cases [of k cs])
  case (hit i c)
  have "uniq (cs[i := c])"
    unfolding uniq_def
  proof (intro allI impI)
    fix a b
    assume ab: "a < length (cs[i := c])" "b < length (cs[i := c])"
      and l: "live (cs[i := c] ! a)" "live (cs[i := c] ! b)"
      and e: "key (cs[i := c] ! a) = key (cs[i := c] ! b)"
    have *: "live (cs ! d)" if "live (cs[i := c] ! d)" for d
      using that hit(5) by (cases "d = i") auto
    have **: "key (cs[i := c] ! d) = key (cs ! d)" for d
      using hit(2,3,6) by (cases "d = i") auto
    from ab l e * ** show "a = b"
      using uniqD [OF u, of a b] by simp
  qed
  with g hit(1) show ?thesis by simp
next
  case (take i c)
  have "uniq (cs[i := c])"
    unfolding uniq_def
  proof (intro allI impI)
    fix a b
    assume ab: "a < length (cs[i := c])" "b < length (cs[i := c])"
      and l: "live (cs[i := c] ! a)" "live (cs[i := c] ! b)"
      and e: "key (cs[i := c] ! a) = key (cs[i := c] ! b)"
    from ab have m: "cs ! a \<in> set cs" "cs ! b \<in> set cs" by simp_all
    from ab l e m take(2,3,6) uniqD [OF u, of a b] show "a = b"
      by (cases "a = i"; cases "b = i") auto
  qed
  with g take(1) show ?thesis by simp
next
  case full
  with g u show ?thesis by simp
qed

text \<open>Looking the same key up again returns the same slot, as long as it is referenced.\<close>

lemma get_again:
  assumes u: "uniq cs" and i: "i < length cs" and r: "0 < refs (cs ! i)"
  shows "\<exists>c. get (key (cs ! i)) cs = (Some i, cs[i := c]) \<and> refs c = Suc (refs (cs ! i))"
proof (cases rule: get_cases [of "key (cs ! i)" cs])
  case (hit j c)
  with u i r have "j = i" by (auto dest: refs_live uniqD)
  with hit show ?thesis by auto
next
  case (take j c)
  with i r show ?thesis by (auto dest: refs_live)
next
  case full
  with refs_live [OF r] nth_mem [OF i] show ?thesis by blast
qed

text \<open>A lookup fails only when the key is not cached and every slot is referenced.\<close>

lemma get_available:
  assumes "\<exists>c \<in> set cs. refs c = 0"
  shows "\<exists>i cs'. get k cs = (Some i, cs')"
  using assms by (cases rule: get_cases [of k cs]) auto

end

end
