(* ===== verification/Bcache.thy ===== *)
theory Bcache
  imports Slot_Cache
begin

text \<open>
  The block layer of \<open>src/fs.rs\<close> (lines 1 to 125): the layout constants, the RAM disk and the
  buffer cache.  The disk is a function from block numbers; every access to it is guarded by
  \<open>blockno < FSSIZE\<close> as in the source.  A \<open>BufferRef\<close> is the index of its slot.  The kernel runs
  on one hart and a buffer's guard never outlives a call into the cache, so the locks
  around the table and its slots are left out.

  The main result is that the cache is transparent: under the invariant \<open>bc_inv\<close> a block
  that is read has the contents of the disk, and the sequence \<open>bread\<close>, change, \<open>bwrite\<close>,
  \<open>brelse\<close> that every client uses is an update of the disk (\<open>bread_spec\<close>, \<open>bwrite_spec\<close>,
  \<open>brelse_spec\<close>).
\<close>

section \<open>Layout\<close>

definition BSIZE :: nat where "BSIZE = 1024"
definition FSSIZE :: nat where "FSSIZE = 2000"
definition NINODES :: nat where "NINODES = 200"
definition NINODE :: nat where "NINODE = 50"
definition NLOG :: nat where "NLOG = 0"
definition NBUF :: nat where "NBUF = 16"
definition ROOTINO :: u32 where "ROOTINO = 1"
definition FSMAGIC :: u32 where "FSMAGIC = 0x10203040"
definition NDIRECT :: nat where "NDIRECT = 12"
definition NINDIRECT :: nat where "NINDIRECT = BSIZE div 4"
definition MAXFILE :: nat where "MAXFILE = NDIRECT + NINDIRECT"
definition size_Dinode :: nat where "size_Dinode = 8 + 4 + 4 * (NDIRECT + 1)"
definition IPB :: nat where "IPB = BSIZE div size_Dinode"
definition BPB :: nat where "BPB = BSIZE * 8"

definition div_ceil :: "nat \<Rightarrow> nat \<Rightarrow> nat" where
  "div_ceil a b = (if a mod b = 0 then a div b else a div b + 1)"

definition NINODEBLOCKS :: nat where "NINODEBLOCKS = div_ceil NINODES IPB"
definition NBITMAP :: nat where "NBITMAP = div_ceil FSSIZE BPB"
definition NMETA :: nat where "NMETA = 2 + NLOG + NINODEBLOCKS + NBITMAP"
definition LOGSTART :: nat where "LOGSTART = 2"
definition INODESTART :: nat where "INODESTART = LOGSTART + NLOG"
definition BMAPSTART :: nat where "BMAPSTART = INODESTART + NINODEBLOCKS"
definition DATASTART :: nat where "DATASTART = BMAPSTART + NBITMAP"
definition NBLOCKS :: nat where "NBLOCKS = FSSIZE - NMETA"

lemmas layout_defs = BSIZE_def FSSIZE_def NINODES_def NINODE_def NLOG_def NBUF_def NDIRECT_def
  NINDIRECT_def MAXFILE_def size_Dinode_def IPB_def BPB_def div_ceil_def NINODEBLOCKS_def
  NBITMAP_def NMETA_def LOGSTART_def INODESTART_def BMAPSTART_def DATASTART_def NBLOCKS_def

lemma layout_values:
  "NINDIRECT = 256" "MAXFILE = 268" "size_Dinode = 64" "IPB = 16" "BPB = 8192"
  "NINODEBLOCKS = 13" "NBITMAP = 1" "NMETA = 16" "INODESTART = 2" "BMAPSTART = 15"
  "DATASTART = 16" "NBLOCKS = 1984"
  by (simp_all add: layout_defs)

section \<open>Buffers\<close>

record buffer =
  b_blockno :: u32
  b_refcnt :: nat
  b_valid :: bool
  b_data :: "byte list"

definition Buffer_empty :: buffer where
  "Buffer_empty = \<lparr>b_blockno = 0, b_refcnt = 0, b_valid = False, b_data = replicate BSIZE 0\<rparr>"

record bstate =
  disk :: "nat \<Rightarrow> byte list"
  bcache :: "buffer list"

text \<open>The two loops of \<open>bget\<close> over \<open>BCACHE\<close>.\<close>

definition bcache_get :: "u32 \<Rightarrow> buffer list \<Rightarrow> nat option \<times> buffer list" where
  "bcache_get blockno bs =
     (case find_slot (\<lambda>b. b_blockno b = blockno \<and> (0 < b_refcnt b \<or> b_valid b)) bs of
        Some i \<Rightarrow> (Some i, bs[i := (bs ! i)\<lparr>b_refcnt := b_refcnt (bs ! i) + 1\<rparr>])
      | None \<Rightarrow>
         (case find_slot (\<lambda>b. b_refcnt b = 0) bs of
            Some i \<Rightarrow> (Some i, bs[i := (bs ! i)
               \<lparr>b_blockno := blockno, b_refcnt := 1, b_valid := False\<rparr>])
          | None \<Rightarrow> (None, bs)))"

definition bget :: "u32 \<Rightarrow> 'z bstate_scheme \<Rightarrow> nat option \<times> 'z bstate_scheme" where
  "bget blockno s =
     (if FSSIZE \<le> unat blockno then (None, s)
      else (case bcache_get blockno (bcache s) of (r, bs) \<Rightarrow> (r, s\<lparr>bcache := bs\<rparr>)))"

definition bread :: "u32 \<Rightarrow> 'z bstate_scheme \<Rightarrow> nat option \<times> 'z bstate_scheme" where
  "bread blockno s =
     (case bget blockno s of
        (None, s) \<Rightarrow> (None, s)
      | (Some bp, s) \<Rightarrow>
          (if \<not> b_valid (bcache s ! bp)
           then (Some bp, s\<lparr>bcache := (bcache s)[bp := (bcache s ! bp)
                   \<lparr>b_data := disk s (unat blockno), b_valid := True\<rparr>]\<rparr>)
           else (Some bp, s)))"

definition bwrite :: "buffer \<Rightarrow> 'z bstate_scheme \<Rightarrow> 'z bstate_scheme res" where
  "bwrite b s =
     (if unat (b_blockno b) < FSSIZE
      then Ok (s\<lparr>disk := (disk s)(unat (b_blockno b) := b_data b)\<rparr>)
      else panic ''index out of bounds'')"

definition brelse :: "nat \<Rightarrow> 'z bstate_scheme \<Rightarrow> 'z bstate_scheme res" where
  "brelse bp s =
     (if b_refcnt (bcache s ! bp) < 1 then panic ''brelse: no ref''
      else Ok (s\<lparr>bcache := (bcache s)[bp := (bcache s ! bp)
             \<lparr>b_refcnt := b_refcnt (bcache s ! bp) - 1\<rparr>]\<rparr>))"

text \<open>A change of \<open>b.data\<close> through the guard of slot \<open>bp\<close>.\<close>

definition set_data :: "nat \<Rightarrow> byte list \<Rightarrow> 'z bstate_scheme \<Rightarrow> 'z bstate_scheme" where
  "set_data bp d s = s\<lparr>bcache := (bcache s)[bp := (bcache s ! bp)\<lparr>b_data := d\<rparr>]\<rparr>"

section \<open>The buffer cache is a slot cache\<close>

definition b_live :: "buffer \<Rightarrow> bool" where
  "b_live b \<longleftrightarrow> 0 < b_refcnt b \<or> b_valid b"

lemma bcache_get_pred:
  "(\<lambda>b. b_blockno b = k \<and> (0 < b_refcnt b \<or> b_valid b)) = (\<lambda>b. b_live b \<and> b_blockno b = k)"
  by (auto simp: b_live_def)

interpretation bc: slot_cache b_blockno b_refcnt b_live bcache_get
proof
  fix c :: buffer assume "0 < b_refcnt c"
  then show "b_live c" by (simp add: b_live_def)
next
  fix k :: u32 and cs :: "buffer list" and i
  assume *: "find_slot (\<lambda>c. b_live c \<and> b_blockno c = k) cs = Some i"
  from find_slot_SomeD [OF this] show "\<exists>c. bcache_get k cs = (Some i, cs[i := c]) \<and>
      b_blockno c = k \<and> b_refcnt c = Suc (b_refcnt (cs ! i))"
    by (intro exI [of _ "(cs ! i)\<lparr>b_refcnt := b_refcnt (cs ! i) + 1\<rparr>"])
      (simp add: bcache_get_def bcache_get_pred *)
next
  fix k :: u32 and cs :: "buffer list" and i
  assume *: "find_slot (\<lambda>c. b_live c \<and> b_blockno c = k) cs = None"
    and **: "find_slot (\<lambda>c. b_refcnt c = 0) cs = Some i"
  show "\<exists>c. bcache_get k cs = (Some i, cs[i := c]) \<and> b_blockno c = k \<and> b_refcnt c = 1"
    by (rule exI [of _ "(cs ! i)\<lparr>b_blockno := k, b_refcnt := 1, b_valid := False\<rparr>"])
      (simp add: bcache_get_def bcache_get_pred * **)
next
  fix k :: u32 and cs :: "buffer list"
  assume *: "find_slot (\<lambda>c. b_live c \<and> b_blockno c = k) cs = None"
    and **: "find_slot (\<lambda>c. b_refcnt c = 0) cs = None"
  show "bcache_get k cs = (None, cs)"
    by (simp add: bcache_get_def bcache_get_pred * **)
qed

section \<open>The invariant\<close>

text \<open>
  A live buffer is for a block of the disk, and a valid one has the contents the disk has;
  no block is in two live buffers; a referenced buffer is valid.
\<close>

definition buf_ok :: "(nat \<Rightarrow> byte list) \<Rightarrow> buffer \<Rightarrow> bool" where
  "buf_ok dk b \<longleftrightarrow>
     (b_live b \<longrightarrow> unat (b_blockno b) < FSSIZE) \<and>
     (0 < b_refcnt b \<longrightarrow> b_valid b) \<and>
     (b_valid b \<longrightarrow> b_data b = dk (unat (b_blockno b)))"

definition disk_ok :: "(nat \<Rightarrow> byte list) \<Rightarrow> bool" where
  "disk_ok dk \<longleftrightarrow> (\<forall>n. length (dk n) = BSIZE)"

definition bc_inv :: "'z bstate_scheme \<Rightarrow> bool" where
  "bc_inv s \<longleftrightarrow> length (bcache s) = NBUF \<and> disk_ok (disk s) \<and> bc.uniq (bcache s) \<and>
     (\<forall>b \<in> set (bcache s). buf_ok (disk s) b)"

text \<open>
  What a client keeps from one call to the next: the references to buffers with their
  blocks.  \<open>nfree\<close> counts the slots a lookup can take over.
\<close>

definition pin :: "buffer \<Rightarrow> (nat \<times> u32) option" where
  "pin b = (if b_refcnt b = 0 then None else Some (b_refcnt b, b_blockno b))"

definition pins :: "'z bstate_scheme \<Rightarrow> (nat \<times> u32) option list" where
  "pins s = map pin (bcache s)"

definition nfree :: "'z bstate_scheme \<Rightarrow> nat" where
  "nfree s = length (filter (\<lambda>p. p = None) (pins s))"

definition bframe :: "'z bstate_scheme \<Rightarrow> 'z bstate_scheme \<Rightarrow> bool" where
  "bframe s s' \<longleftrightarrow> bc_inv s' \<and> pins s' = pins s \<and> bstate.more s' = bstate.more s"

lemma bframe_refl [simp]: "bframe s s \<longleftrightarrow> bc_inv s"
  by (simp add: bframe_def)

lemma bframe_trans [trans]: "bframe s t \<Longrightarrow> bframe t u \<Longrightarrow> bframe s u"
  by (simp add: bframe_def)

lemma bframeD:
  assumes "bframe s s'"
  shows "bc_inv s'" "pins s' = pins s" "nfree s' = nfree s" "bstate.more s' = bstate.more s"
  using assms by (simp_all add: bframe_def nfree_def)

lemma bc_inv_disk_len [simp]: "bc_inv s \<Longrightarrow> length (disk s n) = BSIZE"
  by (simp add: bc_inv_def disk_ok_def)

lemma nfree_pos: "0 < nfree s \<longleftrightarrow> (\<exists>b \<in> set (bcache s). b_refcnt b = 0)"
  by (auto simp: nfree_def pins_def pin_def filter_map o_def filter_empty_conv)

lemma buf_ok_nth: "bc_inv s \<Longrightarrow> i < NBUF \<Longrightarrow> buf_ok (disk s) (bcache s ! i)"
  by (simp add: bc_inv_def)

lemma bget_unfold:
  assumes "bcache_get b (bcache s) = (Some i, bs)" and "unat b < FSSIZE"
  shows "bget b s = (Some i, s\<lparr>bcache := bs\<rparr>)"
  using assms by (simp add: bget_def)

lemma bcache_get_avail:
  assumes "\<exists>b \<in> set bs. b_refcnt b = 0"
  obtains (hit) i where "i < length bs" "b_live (bs ! i)" "b_blockno (bs ! i) = k"
      "bcache_get k bs = (Some i, bs[i := (bs ! i)\<lparr>b_refcnt := Suc (b_refcnt (bs ! i))\<rparr>])"
  | (miss) i where "i < length bs" "b_refcnt (bs ! i) = 0" "\<forall>b \<in> set bs. b_live b \<longrightarrow> b_blockno b \<noteq> k"
      "bcache_get k bs = (Some i, bs[i := (bs ! i)
         \<lparr>b_blockno := k, b_refcnt := 1, b_valid := False\<rparr>])"
proof (cases "find_slot (\<lambda>b. b_live b \<and> b_blockno b = k) bs")
  case (Some i)
  with find_slot_SomeD [OF Some] hit show ?thesis
    by (simp add: bcache_get_def bcache_get_pred)
next
  case None
  from find_slot_ex [OF assms] obtain i where i: "find_slot (\<lambda>b. b_refcnt b = 0) bs = Some i" ..
  from None i have "bcache_get k bs = (Some i, bs[i := (bs ! i)
      \<lparr>b_blockno := k, b_refcnt := 1, b_valid := False\<rparr>])"
    by (simp add: bcache_get_def bcache_get_pred)
  with None find_slot_SomeD [OF i] miss show ?thesis
    by (simp add: find_slot_None_iff)
qed

text \<open>Replacing one buffer by another for the same block, or by one for a block not cached.\<close>

lemma uniq_update:
  assumes "bc.uniq bs" and "i < length bs"
    and "(b_live (bs ! i) \<and> b_blockno b = b_blockno (bs ! i)) \<or>
         (\<forall>c \<in> set bs. b_live c \<longrightarrow> b_blockno c \<noteq> b_blockno b)"
  shows "bc.uniq (bs[i := b])"
  unfolding bc.uniq_def
proof (intro allI impI)
  fix x y
  assume xy: "x < length (bs[i := b])" "y < length (bs[i := b])"
    and l: "b_live (bs[i := b] ! x)" "b_live (bs[i := b] ! y)"
    and e: "b_blockno (bs[i := b] ! x) = b_blockno (bs[i := b] ! y)"
  from xy have m: "bs ! x \<in> set bs" "bs ! y \<in> set bs" by simp_all
  from xy l e m assms bc.uniqD [OF assms(1), of x y] bc.uniqD [OF assms(1), of i y]
    bc.uniqD [OF assms(1), of x i]
  show "x = y"
    by (cases "x = i"; cases "y = i") auto
qed

lemma bc_inv_update:
  assumes "bc_inv s" and "i < NBUF" and "buf_ok (disk s) b"
    and "(b_live (bcache s ! i) \<and> b_blockno b = b_blockno (bcache s ! i)) \<or>
         (\<forall>c \<in> set (bcache s). b_live c \<longrightarrow> b_blockno c \<noteq> b_blockno b)"
  shows "bc_inv (s\<lparr>bcache := (bcache s)[i := b]\<rparr>)"
  using assms set_update_subset_insert [of "bcache s" i b] uniq_update [of "bcache s" i b]
  by (auto simp: bc_inv_def)

lemma pins_update: "pins (s\<lparr>bcache := (bcache s)[i := b]\<rparr>) = (pins s)[i := pin b]"
  by (simp add: pins_def map_update)

lemma length_pins: "bc_inv s \<Longrightarrow> length (pins s) = NBUF"
  by (simp add: pins_def bc_inv_def)

text \<open>
  Reading a block: the returned buffer is for the block, it is valid, it has the contents
  of the disk, and it has one more reference; nothing else a client can see has changed.
\<close>

lemma bread_spec:
  assumes inv: "bc_inv s" and b: "unat b < FSSIZE" and free: "0 < nfree s"
  obtains i s1 r where "bread b s = (Some i, s1)" "i < NBUF"
    "b_data (bcache s1 ! i) = disk s (unat b)" "b_blockno (bcache s1 ! i) = b"
    "disk s1 = disk s" "bc_inv s1" "bstate.more s1 = bstate.more s"
    "pins s1 = (pins s)[i := Some (Suc r, b)]"
    "pins s ! i = (if r = 0 then None else Some (r, b))"
proof -
  have len: "length (bcache s) = NBUF" using inv by (simp add: bc_inv_def)
  from free have "\<exists>b \<in> set (bcache s). b_refcnt b = 0" by (simp add: nfree_pos)
  then show thesis
  proof (cases rule: bcache_get_avail [where k = b])
    case (hit i)
    let ?c = "bcache s ! i"
    have i: "i < NBUF" using hit(1) len by simp
    have ok: "buf_ok (disk s) ?c" using inv i by (rule buf_ok_nth)
    then have v: "b_valid ?c" using hit(2) by (auto simp: buf_ok_def b_live_def)
    let ?c' = "?c\<lparr>b_refcnt := Suc (b_refcnt ?c)\<rparr>"
    let ?s1 = "s\<lparr>bcache := (bcache s)[i := ?c']\<rparr>"
    have "buf_ok (disk s) ?c'"
      using ok v by (simp add: buf_ok_def b_live_def)
    then have inv1: "bc_inv ?s1"
      using inv i hit(2) by (intro bc_inv_update) auto
    have "bread b s = (Some i, ?s1)"
      using hit v by (simp add: bread_def bget_unfold [OF hit(4) b])
    then show thesis
      using that [of i ?s1 "b_refcnt ?c"] hit i inv1 ok v len
      by (auto simp: map_update pin_def pins_def buf_ok_def)
  next
    case (miss i)
    let ?c = "bcache s ! i"
    have i: "i < NBUF" using miss(1) len by simp
    let ?c1 = "?c\<lparr>b_blockno := b, b_refcnt := 1, b_valid := False\<rparr>"
    let ?c2 = "?c1\<lparr>b_data := disk s (unat b), b_valid := True\<rparr>"
    let ?s1 = "s\<lparr>bcache := (bcache s)[i := ?c2]\<rparr>"
    have "buf_ok (disk s) ?c2"
      using b by (simp add: buf_ok_def)
    then have inv1: "bc_inv ?s1"
      using inv i miss(3) by (intro bc_inv_update) auto
    have "bread b s = (Some i, ?s1)"
      using miss by (simp add: bread_def bget_unfold [OF miss(4) b])
    then show thesis
      using that [of i ?s1 0] miss i inv1 len
      by (auto simp: map_update pin_def pins_def)
  qed
qed

text \<open>Writing through a referenced buffer is an update of the disk.\<close>

lemma bwrite_spec:
  assumes inv: "bc_inv s" and i: "i < NBUF" and p: "pins s ! i = Some (r, b)"
    and d: "length d = BSIZE"
  obtains s1 where "bwrite (bcache (set_data i d s) ! i) (set_data i d s) = Ok s1"
    "disk s1 = (disk s)(unat b := d)" "bframe s s1"
proof -
  have len: "length (bcache s) = NBUF" using inv by (simp add: bc_inv_def)
  let ?c = "bcache s ! i"
  from p i len have r: "0 < b_refcnt ?c" and b: "b_blockno ?c = b"
    by (auto simp: pins_def pin_def split: if_splits)
  have ok: "buf_ok (disk s) ?c" using inv i by (rule buf_ok_nth)
  with r b have fs: "unat b < FSSIZE" and v: "b_valid ?c"
    by (auto simp: buf_ok_def b_live_def)
  let ?c' = "?c\<lparr>b_data := d\<rparr>"
  let ?s1 = "s\<lparr>bcache := (bcache s)[i := ?c'], disk := (disk s)(unat b := d)\<rparr>"
  have other: "buf_ok ((disk s)(unat b := d)) ((bcache s)[i := ?c'] ! j)" if j: "j < NBUF" for j
  proof (cases "j = i")
    case True
    with ok v b i len show ?thesis by (simp add: buf_ok_def b_live_def)
  next
    case False
    have "buf_ok (disk s) (bcache s ! j)" using inv j by (rule buf_ok_nth)
    moreover have "unat (b_blockno (bcache s ! j)) \<noteq> unat b" if "b_valid (bcache s ! j)"
      using that False r b i j len inv bc.uniqD [of "bcache s" j i]
      by (auto simp: bc_inv_def b_live_def simp flip: word_unat_eq_iff)
    ultimately show ?thesis using False by (auto simp: buf_ok_def)
  qed
  have "bc_inv ?s1"
    using inv other len i r b d uniq_update [of "bcache s" i ?c']
    by (auto simp: bc_inv_def disk_ok_def b_live_def in_set_conv_nth)
  then have "bframe s ?s1"
    using i len by (simp add: bframe_def pins_def map_update pin_def list_update_same_conv)
  moreover have "bwrite (bcache (set_data i d s) ! i) (set_data i d s) = Ok ?s1"
    using i len b fs by (simp add: bwrite_def set_data_def)
  ultimately show thesis using that by simp
qed

text \<open>Releasing a reference.\<close>

lemma brelse_spec:
  assumes inv: "bc_inv s" and i: "i < NBUF" and p: "pins s ! i = Some (Suc r, b)"
  obtains s1 where "brelse i s = Ok s1" "disk s1 = disk s" "bc_inv s1"
    "bstate.more s1 = bstate.more s"
    "pins s1 = (pins s)[i := (if r = 0 then None else Some (r, b))]"
proof -
  have len: "length (bcache s) = NBUF" using inv by (simp add: bc_inv_def)
  let ?c = "bcache s ! i"
  from p i len have r: "b_refcnt ?c = Suc r" and b: "b_blockno ?c = b"
    by (auto simp: pins_def pin_def split: if_splits)
  have ok: "buf_ok (disk s) ?c" using inv i by (rule buf_ok_nth)
  let ?c' = "?c\<lparr>b_refcnt := r\<rparr>"
  have "buf_ok (disk s) ?c'"
    using ok r by (auto simp: buf_ok_def b_live_def)
  then have "bc_inv (s\<lparr>bcache := (bcache s)[i := ?c']\<rparr>)"
    using inv i r by (intro bc_inv_update) (auto simp: b_live_def)
  moreover have "brelse i s = Ok (s\<lparr>bcache := (bcache s)[i := ?c']\<rparr>)"
    using r by (simp add: brelse_def)
  ultimately show thesis
    using that [of "s\<lparr>bcache := (bcache s)[i := ?c']\<rparr>"] b
    by (auto simp: pins_update pin_def)
qed

section \<open>Using a block\<close>

text \<open>
  The clients' protocol.  \<open>held s i b s'\<close>: since state \<open>s\<close>, one reference to block \<open>b\<close> has been
  taken, in slot \<open>i\<close>, and nothing else a client can see but the disk has changed.
\<close>

definition held :: "'z bstate_scheme \<Rightarrow> nat \<Rightarrow> u32 \<Rightarrow> 'z bstate_scheme \<Rightarrow> bool" where
  "held s i b s' \<longleftrightarrow> i < NBUF \<and> bc_inv s' \<and> bstate.more s' = bstate.more s \<and>
     length (pins s) = NBUF \<and>
     (\<exists>r. pins s' = (pins s)[i := Some (Suc r, b)] \<and>
          pins s ! i = (if r = 0 then None else Some (r, b)))"

lemma bread_held:
  assumes "bc_inv s" and "unat b < FSSIZE" and "0 < nfree s"
  obtains i s1 where "bread b s = (Some i, s1)" "held s i b s1" "disk s1 = disk s"
    "b_data (bcache s1 ! i) = disk s (unat b)"
proof (rule bread_spec [OF assms])
  fix i s1 r
  assume "bread b s = (Some i, s1)" "i < NBUF" "b_data (bcache s1 ! i) = disk s (unat b)"
    "disk s1 = disk s" "bc_inv s1" "bstate.more s1 = bstate.more s"
    "pins s1 = (pins s)[i := Some (Suc r, b)]"
    "pins s ! i = (if r = 0 then None else Some (r, b))"
  with assms(1) show thesis
    by (intro that [of i s1]) (auto simp: held_def length_pins)
qed

lemma held_inv [simp]: "held s i b s' \<Longrightarrow> bc_inv s'"
  by (simp add: held_def)

lemma held_pin:
  assumes "held s i b s'"
  obtains r where "pins s' ! i = Some (Suc r, b)" "i < NBUF"
proof -
  from assms obtain r where r: "pins s' = (pins s)[i := Some (Suc r, b)]"
      and i: "i < NBUF" "length (pins s) = NBUF"
    unfolding held_def by blast
  show thesis by (rule that [of r]) (simp_all add: r i)
qed

lemma held_data:
  assumes "held s i b s'"
  shows "b_data (bcache s' ! i) = disk s' (unat b)"
proof -
  from assms obtain r where p: "pins s' ! i = Some (Suc r, b)" and i: "i < NBUF"
    by (rule held_pin)
  have inv: "bc_inv s'" using assms by simp
  then have "length (bcache s') = NBUF" by (simp add: bc_inv_def)
  with p i have "0 < b_refcnt (bcache s' ! i)" "b_blockno (bcache s' ! i) = b"
    by (auto simp: pins_def pin_def split: if_splits)
  with buf_ok_nth [OF inv i] show ?thesis by (auto simp: buf_ok_def)
qed

lemma held_frame: "held s i b s1 \<Longrightarrow> bframe s1 s2 \<Longrightarrow> held s i b s2"
  unfolding held_def bframe_def by (elim conjE) (simp only: simp_thms)

lemma held_write:
  assumes "held s i b s1" and "length d = BSIZE"
  obtains s2 where "bwrite (bcache (set_data i d s1) ! i) (set_data i d s1) = Ok s2"
    "disk s2 = (disk s1)(unat b := d)" "held s i b s2"
proof -
  from assms(1) obtain r where p: "pins s1 ! i = Some (Suc r, b)" and i: "i < NBUF"
    by (rule held_pin)
  from held_inv [OF assms(1)] i p assms(2) obtain s2 where
      "bwrite (bcache (set_data i d s1) ! i) (set_data i d s1) = Ok s2"
      "disk s2 = (disk s1)(unat b := d)" "bframe s1 s2"
    by (rule bwrite_spec)
  with held_frame [OF assms(1)] show thesis by (intro that [of s2])
qed

lemma held_release:
  assumes "held s i b s1"
  obtains s2 where "brelse i s1 = Ok s2" "disk s2 = disk s1" "bframe s s2"
proof -
  from assms obtain r where p: "pins s1 = (pins s)[i := Some (Suc r, b)]"
      "pins s ! i = (if r = 0 then None else Some (r, b))" and i: "i < NBUF"
      "length (pins s) = NBUF" "bstate.more s1 = bstate.more s"
    unfolding held_def by blast
  then have "pins s1 ! i = Some (Suc r, b)" by simp
  with held_inv [OF assms] i(1) obtain s2 where s2: "brelse i s1 = Ok s2" "disk s2 = disk s1"
      "bc_inv s2" "bstate.more s2 = bstate.more s1"
      "pins s2 = (pins s1)[i := (if r = 0 then None else Some (r, b))]"
    by (rule brelse_spec)
  have "pins s2 = pins s"
    unfolding s2(5) p(1) p(2) [symmetric] by simp
  with s2 i show thesis by (intro that [of s2]) (auto simp: bframe_def)
qed

lemma filter_update_le:
  "length (filter P xs) \<le> length (filter P (xs[i := x])) + 1"
proof (induction xs arbitrary: i)
  case (Cons y ys)
  show ?case
  proof (cases i)
    case (Suc j)
    with Cons.IH [of j] show ?thesis by simp
  qed simp
qed simp

lemma held_nfree: "held s i b s1 \<Longrightarrow> nfree s \<le> nfree s1 + 1"
  unfolding held_def nfree_def by (elim conjE exE) (simp only: filter_update_le)

text \<open>The two shapes most clients have: look at a block, or replace its contents.\<close>

lemma read_block:
  assumes "bc_inv s" and "unat b < FSSIZE" and "0 < nfree s"
  obtains i s1 s2 where "bread b s = (Some i, s1)" "b_data (bcache s1 ! i) = disk s (unat b)"
    "brelse i s1 = Ok s2" "disk s2 = disk s" "bframe s s2"
proof -
  from assms obtain i s1 where 1: "bread b s = (Some i, s1)" "held s i b s1" "disk s1 = disk s"
      "b_data (bcache s1 ! i) = disk s (unat b)"
    by (rule bread_held)
  from 1(2) obtain s2 where "brelse i s1 = Ok s2" "disk s2 = disk s1" "bframe s s2"
    by (rule held_release)
  with 1 show thesis by (intro that [of i s1 s2]) auto
qed

lemma write_block:
  assumes "bc_inv s" and "unat b < FSSIZE" and "0 < nfree s" and "length d = BSIZE"
  obtains i s1 s2 s3 where "bread b s = (Some i, s1)"
    "b_data (bcache s1 ! i) = disk s (unat b)"
    "bwrite (bcache (set_data i d s1) ! i) (set_data i d s1) = Ok s2"
    "brelse i s2 = Ok s3" "disk s3 = (disk s)(unat b := d)" "bframe s s3"
proof -
  from assms(1-3) obtain i s1 where 1: "bread b s = (Some i, s1)" "held s i b s1"
      "disk s1 = disk s" "b_data (bcache s1 ! i) = disk s (unat b)"
    by (rule bread_held)
  from 1(2) assms(4) obtain s2 where
      2: "bwrite (bcache (set_data i d s1) ! i) (set_data i d s1) = Ok s2"
      "disk s2 = (disk s1)(unat b := d)" "held s i b s2"
    by (rule held_write)
  from 2(3) obtain s3 where "brelse i s2 = Ok s3" "disk s3 = disk s2" "bframe s s3"
    by (rule held_release)
  with 1 2 show thesis by (intro that [of i s1 s2 s3]) auto
qed

end
