(* ===== verification/Dinode.thy ===== *)
theory Dinode
  imports Bcache
begin

text \<open>
  On-disk metadata of \<open>src/fs.rs\<close> (lines 127 to 193 and 819 to 829): the superblock, the
  on-disk inode with its \<open>repr(C)\<close> layout, and reading and writing one inode in its block.
  The results: the layout loses nothing (\<open>dinode_of_bytes_of\<close>), and reading an inode returns
  what was last written for its number, whatever was written for other numbers in between
  (\<open>dinode_at_put_same\<close>, \<open>dinode_at_put_other\<close>).
\<close>

section \<open>The superblock\<close>

record super_block =
  magic :: u32
  sb_size :: u32
  nblocks :: u32
  ninodes :: u32
  nlog :: u32
  logstart :: u32
  inodestart :: u32
  bmapstart :: u32

definition SB :: super_block where
  "SB = \<lparr>magic = FSMAGIC, sb_size = of_nat FSSIZE, nblocks = of_nat NBLOCKS,
     ninodes = of_nat NINODES, nlog = of_nat NLOG, logstart = of_nat LOGSTART,
     inodestart = of_nat INODESTART, bmapstart = of_nat BMAPSTART\<rparr>"

definition bytes_of_super_block :: "super_block \<Rightarrow> byte list" where
  "bytes_of_super_block sb = concat (map le_of_word
     [magic sb, sb_size sb, nblocks sb, ninodes sb, nlog sb, logstart sb, inodestart sb, bmapstart sb])"

definition write_superblock :: "'z bstate_scheme \<Rightarrow> 'z bstate_scheme res" where
  "write_superblock s =
     bindE (expect ''write_superblock: bread'' (bread 1 s)) (\<lambda>(bp, s).
     let s = set_data bp (put_slice (b_data (bcache s ! bp)) 0 (bytes_of_super_block SB)) s in
     bindE (bwrite (bcache s ! bp) s) (\<lambda>s.
     brelse bp s))"

section \<open>On-disk inodes\<close>

record dinode =
  d_typ :: u16
  d_major :: u16
  d_minor :: u16
  d_nlink :: u16
  d_size :: u32
  d_addrs :: "u32 list"

definition bytes_of_dinode :: "dinode \<Rightarrow> byte list" where
  "bytes_of_dinode d = le_of_word (d_typ d) @ le_of_word (d_major d) @ le_of_word (d_minor d) @
     le_of_word (d_nlink d) @ le_of_word (d_size d) @ concat (map le_of_word (d_addrs d))"

definition dinode_of_bytes :: "byte list \<Rightarrow> dinode" where
  "dinode_of_bytes bs =
     \<lparr>d_typ = word_of_le (get_slice bs 0 2), d_major = word_of_le (get_slice bs 2 2),
      d_minor = word_of_le (get_slice bs 4 2), d_nlink = word_of_le (get_slice bs 6 2),
      d_size = word_of_le (get_slice bs 8 4),
      d_addrs = map (\<lambda>i. word_of_le (get_slice bs (12 + 4 * i) 4)) [0..<NDIRECT + 1]\<rparr>"

definition iblock :: "u32 \<Rightarrow> u32" where
  "iblock inum = inum div of_nat IPB + inodestart SB"

definition read_dinode :: "u32 \<Rightarrow> 'z bstate_scheme \<Rightarrow> (dinode \<times> 'z bstate_scheme) res" where
  "read_dinode inum s =
     (let blockno = iblock inum;
          idx = unat inum mod IPB;
          off = idx * size_Dinode in
      bindE (expect ''read_dinode: bread'' (bread blockno s)) (\<lambda>(bp, s).
      let dip = dinode_of_bytes (get_slice (b_data (bcache s ! bp)) off size_Dinode) in
      bindE (brelse bp s) (\<lambda>s.
      Ok (dip, s))))"

definition write_dinode :: "u32 \<Rightarrow> dinode \<Rightarrow> 'z bstate_scheme \<Rightarrow> 'z bstate_scheme res" where
  "write_dinode inum dip s =
     (let blockno = iblock inum;
          idx = unat inum mod IPB;
          off = idx * size_Dinode in
      bindE (expect ''write_dinode: bread'' (bread blockno s)) (\<lambda>(bp, s).
      let s = set_data bp (put_slice (b_data (bcache s ! bp)) off (bytes_of_dinode dip)) s in
      bindE (bwrite (bcache s ! bp) s) (\<lambda>s.
      brelse bp s)))"

section \<open>The layout\<close>

definition dinode_ok :: "dinode \<Rightarrow> bool" where
  "dinode_ok d \<longleftrightarrow> length (d_addrs d) = NDIRECT + 1"

lemma get_slice_append:
  "get_slice (xs @ ys) off n =
     (if length xs \<le> off then get_slice ys (off - length xs) n
      else if off + n \<le> length xs then get_slice xs off n
      else drop off xs @ take (off + n - length xs) ys)"
  by (simp add: get_slice_def add.commute)

lemma get_slice_concat:
  assumes "\<forall>x \<in> set xs. length x = w" and "i < length xs"
  shows "get_slice (concat xs) (w * i) w = xs ! i"
  using assms
proof (induction xs arbitrary: i)
  case (Cons x xs)
  show ?case
  proof (cases i)
    case 0
    with Cons.prems show ?thesis by (simp add: get_slice_def)
  next
    case (Suc j)
    with Cons show ?thesis by (simp add: get_slice_append)
  qed
qed simp

lemma get_slice_all: "length xs = n \<Longrightarrow> get_slice xs 0 n = xs"
  by (simp add: get_slice_def)

lemma length_concat_words: "length (concat (map le_of_word (ws :: u32 list))) = 4 * length ws"
  by (induction ws) auto

lemma length_bytes_of_dinode [simp]: "dinode_ok d \<Longrightarrow> length (bytes_of_dinode d) = size_Dinode"
  by (simp add: bytes_of_dinode_def dinode_ok_def length_concat_words layout_defs)

lemma dinode_of_bytes_of [simp]:
  assumes "dinode_ok d"
  shows "dinode_of_bytes (bytes_of_dinode d) = d"
proof -
  have slice: "get_slice (bytes_of_dinode d) (12 + 4 * i) 4 = le_of_word (d_addrs d ! i)"
    if "i < NDIRECT + 1" for i
  proof -
    have "get_slice (bytes_of_dinode d) (12 + 4 * i) 4 =
        get_slice (concat (map le_of_word (d_addrs d))) (4 * i) 4"
      by (simp add: bytes_of_dinode_def get_slice_append)
    also have "\<dots> = map le_of_word (d_addrs d) ! i"
      using that assms by (intro get_slice_concat) (auto simp: dinode_ok_def)
    finally show ?thesis using that assms by (simp add: dinode_ok_def)
  qed
  have "map (\<lambda>i. word_of_le (get_slice (bytes_of_dinode d) (12 + 4 * i) 4)) [0..<NDIRECT + 1] = d_addrs d"
    using assms slice by (intro nth_equalityI) (auto simp: dinode_ok_def simp del: upt_Suc)
  then show ?thesis
    by (simp add: dinode_of_bytes_def bytes_of_dinode_def get_slice_append get_slice_all del: upt_Suc)
qed

lemma dinode_ok_of_bytes [simp]: "dinode_ok (dinode_of_bytes bs)"
  by (simp add: dinode_of_bytes_def dinode_ok_def)

section \<open>The inode table on the disk\<close>

definition dinode_at :: "(nat \<Rightarrow> byte list) \<Rightarrow> u32 \<Rightarrow> dinode" where
  "dinode_at dk inum = dinode_of_bytes
     (get_slice (dk (unat (iblock inum))) (unat inum mod IPB * size_Dinode) size_Dinode)"

definition put_dinode :: "u32 \<Rightarrow> dinode \<Rightarrow> (nat \<Rightarrow> byte list) \<Rightarrow> nat \<Rightarrow> byte list" where
  "put_dinode inum d dk = dk(unat (iblock inum) :=
     put_slice (dk (unat (iblock inum))) (unat inum mod IPB * size_Dinode) (bytes_of_dinode d))"

lemma unat_iblock: "unat (iblock inum) = unat inum div 16 + 2"
proof -
  have "unat inum < 2 ^ 32" using unsigned_less [of inum] by simp
  then show ?thesis
    by (simp add: iblock_def SB_def layout_values unat_word_ariths unat_div_distrib)
qed

lemma iblock_range:
  assumes "unat inum < NINODES"
  shows "unat (iblock inum) < BMAPSTART" "unat (iblock inum) < FSSIZE" "INODESTART \<le> unat (iblock inum)"
  using assms by (auto simp: unat_iblock layout_defs)

lemma slot_bound: "unat inum mod IPB * size_Dinode + size_Dinode \<le> BSIZE"
proof -
  have "unat inum mod 16 < 16" by simp
  then have "unat inum mod 16 * 64 + 64 \<le> 1024" by linarith
  then show ?thesis by (simp add: layout_values BSIZE_def)
qed

lemma dinode_at_put_same:
  assumes "disk_ok dk" and "dinode_ok d"
  shows "dinode_at (put_dinode inum d dk) inum = d"
  using assms slot_bound [of inum]
  by (simp add: dinode_at_def put_dinode_def get_put_slice_same disk_ok_def)

lemma dinode_at_put_other:
  assumes "disk_ok dk" and "dinode_ok d" and "i \<noteq> inum"
  shows "dinode_at (put_dinode inum d dk) i = dinode_at dk i"
proof (cases "unat (iblock i) = unat (iblock inum)")
  case False
  then show ?thesis by (simp add: dinode_at_def put_dinode_def)
next
  case True
  have "unat i \<noteq> unat inum" using assms(3) by (simp flip: word_unat_eq_iff)
  with True have "unat i mod 16 \<noteq> unat inum mod 16"
    by (metis add_right_cancel div_mult_mod_eq unat_iblock)
  then have "unat i mod 16 * 64 + 64 \<le> unat inum mod 16 * 64 \<or>
      unat inum mod 16 * 64 + 64 \<le> unat i mod 16 * 64"
    by linarith
  with True assms slot_bound [of inum] slot_bound [of i] show ?thesis
    by (simp add: dinode_at_def put_dinode_def disk_ok_def layout_values get_put_slice_other)
qed

lemma disk_ok_put_dinode [simp]:
  "disk_ok dk \<Longrightarrow> dinode_ok d \<Longrightarrow> disk_ok (put_dinode inum d dk)"
  using slot_bound [of inum] by (simp add: disk_ok_def put_dinode_def)

lemma put_dinode_frame:
  "unat inum < NINODES \<Longrightarrow> BMAPSTART \<le> n \<Longrightarrow> put_dinode inum d dk n = dk n"
  using iblock_range [of inum] by (simp add: put_dinode_def)

lemma dinode_at_frame:
  assumes "unat inum < NINODES" and "\<And>n. n < BMAPSTART \<Longrightarrow> dk' n = dk n"
  shows "dinode_at dk' inum = dinode_at dk inum"
  using assms iblock_range [OF assms(1)] by (simp add: dinode_at_def)

section \<open>Reading and writing through the cache\<close>

lemma bc_inv_disk_ok [simp]: "bc_inv s \<Longrightarrow> disk_ok (disk s)"
  by (simp add: bc_inv_def)

lemma read_dinode_spec:
  assumes "bc_inv s" and "0 < nfree s" and "unat inum < NINODES"
  obtains s' where "read_dinode inum s = Ok (dinode_at (disk s) inum, s')"
    "disk s' = disk s" "bframe s s'"
proof -
  from assms(1) iblock_range(2) [OF assms(3)] assms(2) obtain i s1 s2 where
      "bread (iblock inum) s = (Some i, s1)" "b_data (bcache s1 ! i) = disk s (unat (iblock inum))"
      "brelse i s1 = Ok s2" "disk s2 = disk s" "bframe s s2"
    by (rule read_block)
  then show thesis
    by (intro that [of s2]) (simp_all add: read_dinode_def dinode_at_def)
qed

lemma write_dinode_spec:
  assumes "bc_inv s" and "0 < nfree s" and "unat inum < NINODES" and "dinode_ok d"
  obtains s' where "write_dinode inum d s = Ok s'" "disk s' = put_dinode inum d (disk s)"
    "bframe s s'"
proof -
  let ?d = "put_slice (disk s (unat (iblock inum))) (unat inum mod IPB * size_Dinode) (bytes_of_dinode d)"
  have "length ?d = BSIZE" using assms slot_bound [of inum] by simp
  with assms(1) iblock_range(2) [OF assms(3)] assms(2) obtain i s1 s2 s3 where
      1: "bread (iblock inum) s = (Some i, s1)" "b_data (bcache s1 ! i) = disk s (unat (iblock inum))"
      "bwrite (bcache (set_data i ?d s1) ! i) (set_data i ?d s1) = Ok s2"
      "brelse i s2 = Ok s3" "disk s3 = (disk s)(unat (iblock inum) := ?d)" "bframe s s3"
    by (rule write_block)
  then show thesis
    by (intro that [of s3]) (simp_all add: write_dinode_def put_dinode_def)
qed

end
