(* ===== verification/Balloc.thy ===== *)
theory Balloc
  imports Dinode
begin

unbundle bit_operations_syntax

text \<open>
  The block bitmap of \<open>src/fs.rs\<close> (lines 195 to 252): \<open>balloc\<close> and \<open>bfree\<close>.  The results:
  \<open>balloc\<close> returns the first free data block, zeroed and marked used, and fails only when
  every data block is used; \<open>bfree\<close> of a used block makes it free and changes nothing else,
  and panics for a block that is free or not a data block.
\<close>

definition bblock :: "u32 \<Rightarrow> u32" where
  "bblock blockno = blockno div of_nat BPB + bmapstart SB"

text \<open>The body of the \<open>for\<close> loop of \<open>balloc\<close>, over the block numbers that are left.\<close>

fun balloc_loop :: "nat list \<Rightarrow> 'z bstate_scheme \<Rightarrow> (u32 option \<times> 'z bstate_scheme) res" where
  "balloc_loop [] s = Ok (None, s)"
| "balloc_loop (blockno # rest) s =
     (let bitmap_blockno = bblock (of_nat blockno);
          bi = blockno mod BPB;
          byte = bi div 8;
          mask = push_bit (bi mod 8) (1 :: byte) in
      bindE (expect ''balloc: bread bitmap'' (bread bitmap_blockno s)) (\<lambda>(bp, s).
      let d = b_data (bcache s ! bp);
          found = (d ! byte AND mask = 0) in
      bindE (if found
             then (let s = set_data bp (d[byte := d ! byte OR mask]) s in bwrite (bcache s ! bp) s)
             else Ok s) (\<lambda>s.
      bindE (brelse bp s) (\<lambda>s.
      if found
      then bindE (expect ''balloc: bread data'' (bread (of_nat blockno) s)) (\<lambda>(data_bp, s).
           let s = set_data data_bp (replicate BSIZE 0) s in
           bindE (bwrite (bcache s ! data_bp) s) (\<lambda>s.
           bindE (brelse data_bp s) (\<lambda>s.
           Ok (Some (of_nat blockno), s))))
      else balloc_loop rest s))))"

definition balloc :: "'z bstate_scheme \<Rightarrow> (u32 option \<times> 'z bstate_scheme) res" where
  "balloc s = balloc_loop [DATASTART..<FSSIZE] s"

definition bfree :: "u32 \<Rightarrow> 'z bstate_scheme \<Rightarrow> 'z bstate_scheme res" where
  "bfree blockno s =
     (if blockno < of_nat DATASTART \<or> of_nat FSSIZE \<le> blockno then panic ''bfree: invalid block''
      else
        (let bitmap_blockno = bblock blockno;
             bi = unat blockno mod BPB;
             byte = bi div 8;
             mask = push_bit (bi mod 8) (1 :: byte) in
         bindE (expect ''bfree: bread bitmap'' (bread bitmap_blockno s)) (\<lambda>(bp, s).
         let d = b_data (bcache s ! bp) in
         if d ! byte AND mask = 0 then panic ''freeing free block''
         else
           (let s = set_data bp (d[byte := d ! byte AND NOT mask]) s in
            bindE (bwrite (bcache s ! bp) s) (\<lambda>s.
            brelse bp s)))))"

section \<open>The bitmap on the disk\<close>

definition blk_used :: "(nat \<Rightarrow> byte list) \<Rightarrow> nat \<Rightarrow> bool" where
  "blk_used dk n \<longleftrightarrow> bit (dk BMAPSTART ! (n div 8)) (n mod 8)"

definition mark_used :: "nat \<Rightarrow> (nat \<Rightarrow> byte list) \<Rightarrow> nat \<Rightarrow> byte list" where
  "mark_used n dk = dk(BMAPSTART :=
     (dk BMAPSTART)[n div 8 := dk BMAPSTART ! (n div 8) OR push_bit (n mod 8) 1])"

definition mark_free :: "nat \<Rightarrow> (nat \<Rightarrow> byte list) \<Rightarrow> nat \<Rightarrow> byte list" where
  "mark_free n dk = dk(BMAPSTART :=
     (dk BMAPSTART)[n div 8 := dk BMAPSTART ! (n div 8) AND NOT (push_bit (n mod 8) 1)])"

definition data_block :: "nat \<Rightarrow> bool" where
  "data_block n \<longleftrightarrow> DATASTART \<le> n \<and> n < FSSIZE"

lemma data_block_iff: "data_block n \<longleftrightarrow> 16 \<le> n \<and> n < 2000"
  by (simp add: data_block_def layout_defs)

lemma data_block_range: "data_block n \<Longrightarrow> n < FSSIZE \<and> BMAPSTART < n \<and> DATASTART \<le> n"
  by (simp add: data_block_def layout_values FSSIZE_def)

lemma mask_clear: "w AND push_bit n 1 = (0 :: byte) \<longleftrightarrow> \<not> bit w n"
  by (simp add: push_bit_of_1 and_exp_eq_0_iff_not_bit)

lemma unat_of_nat_blk [simp]: "n < FSSIZE \<Longrightarrow> unat (of_nat n :: u32) = n"
  by (simp add: unat_of_nat FSSIZE_def)

lemma bblock_data: "n < FSSIZE \<Longrightarrow> unat (bblock (of_nat n)) = BMAPSTART"
  by (simp add: bblock_def SB_def unat_word_ariths unat_div_distrib unat_of_nat layout_defs)

lemma byte_index: "n < FSSIZE \<Longrightarrow> n div 8 < BSIZE"
  by (simp add: layout_defs)

lemma bmap_range [simp]: "BMAPSTART < FSSIZE"
  by (simp add: layout_values FSSIZE_def)

lemma blk_used_mark_used:
  assumes "disk_ok dk" and "n < FSSIZE" and "m < FSSIZE"
  shows "blk_used (mark_used n dk) m \<longleftrightarrow> m = n \<or> blk_used dk m"
proof (cases "m div 8 = n div 8")
  case True
  have "m mod 8 = n mod 8 \<longleftrightarrow> m = n"
    using True by (metis div_mult_mod_eq)
  moreover have "bit ((push_bit (n mod 8) 1) :: byte) (m mod 8) \<longleftrightarrow> m mod 8 = n mod 8"
    by (auto simp: bit_simps)
  ultimately show ?thesis
    using True assms byte_index [OF assms(2)]
    by (auto simp: blk_used_def mark_used_def disk_ok_def bit_or_iff)
next
  case False
  then show ?thesis by (auto simp: blk_used_def mark_used_def)
qed

lemma blk_used_mark_free:
  assumes "disk_ok dk" and "n < FSSIZE" and "m < FSSIZE"
  shows "blk_used (mark_free n dk) m \<longleftrightarrow> m \<noteq> n \<and> blk_used dk m"
proof (cases "m div 8 = n div 8")
  case True
  have "m mod 8 = n mod 8 \<longleftrightarrow> m = n"
    using True by (metis div_mult_mod_eq)
  moreover have "bit ((push_bit (n mod 8) 1) :: byte) (m mod 8) \<longleftrightarrow> m mod 8 = n mod 8"
    by (auto simp: bit_simps)
  ultimately show ?thesis
    using True assms byte_index [OF assms(2)]
    by (auto simp: blk_used_def mark_free_def disk_ok_def bit_and_iff bit_not_iff_eq)
next
  case False
  then show ?thesis by (auto simp: blk_used_def mark_free_def)
qed

lemma disk_ok_mark [simp]:
  "disk_ok dk \<Longrightarrow> disk_ok (mark_used n dk)" "disk_ok dk \<Longrightarrow> disk_ok (mark_free n dk)"
  by (simp_all add: disk_ok_def mark_used_def mark_free_def)

lemma mark_frame:
  "n \<noteq> BMAPSTART \<Longrightarrow> mark_used m dk n = dk n" "n \<noteq> BMAPSTART \<Longrightarrow> mark_free m dk n = dk n"
  by (simp_all add: mark_used_def mark_free_def)

section \<open>Allocation and release\<close>

text \<open>The block \<open>balloc\<close> hands out, and the disk it leaves behind.\<close>

definition first_free :: "(nat \<Rightarrow> byte list) \<Rightarrow> nat list \<Rightarrow> nat option" where
  "first_free dk ns = find (\<lambda>n. \<not> blk_used dk n) ns"

definition take_block :: "nat \<Rightarrow> (nat \<Rightarrow> byte list) \<Rightarrow> nat \<Rightarrow> byte list" where
  "take_block n dk = (mark_used n dk)(n := replicate BSIZE 0)"

lemma balloc_loop_spec:
  assumes "bc_inv s" and "0 < nfree s" and "\<forall>n \<in> set ns. data_block n"
  shows "\<exists>s'. bframe s s' \<and> (case first_free (disk s) ns of
       None \<Rightarrow> balloc_loop ns s = Ok (None, s') \<and> disk s' = disk s
     | Some n \<Rightarrow> balloc_loop ns s = Ok (Some (of_nat n), s') \<and> disk s' = take_block n (disk s))"
  using assms
proof (induction ns arbitrary: s)
  case Nil
  then show ?case by (intro exI [of _ s]) (simp add: first_free_def)
next
  case (Cons n ns)
  then have n: "data_block n" by simp
  then have n': "n < FSSIZE" and nb: "n \<noteq> BMAPSTART" by (auto dest: data_block_range)
  have bi: "n mod BPB = n" using n' by (simp add: layout_defs)
  have bm: "unat (bblock (of_nat n)) < FSSIZE" using n' by (simp add: bblock_data)
  show ?case
  proof (cases "blk_used (disk s) n")
    case True
    from Cons.prems(1) bm Cons.prems(2) obtain i s1 s2 where
        1: "bread (bblock (of_nat n)) s = (Some i, s1)"
        "b_data (bcache s1 ! i) = disk s (unat (bblock (of_nat n)))"
        "brelse i s1 = Ok s2" "disk s2 = disk s" "bframe s s2"
      by (rule read_block)
    from 1(5) Cons.prems have "bc_inv s2" "0 < nfree s2" by (auto dest: bframeD)
    with Cons.IH [of s2] Cons.prems(3) obtain s' where s': "bframe s2 s'"
        "case first_free (disk s2) ns of
           None \<Rightarrow> balloc_loop ns s2 = Ok (None, s') \<and> disk s' = disk s2
         | Some n \<Rightarrow> balloc_loop ns s2 = Ok (Some (of_nat n), s') \<and> disk s' = take_block n (disk s2)"
      by auto
    have eq: "balloc_loop (n # ns) s = balloc_loop ns s2"
      using 1 True n' by (simp add: bi mask_clear blk_used_def bblock_data del: push_bit_of_1)
    have "first_free (disk s) (n # ns) = first_free (disk s2) ns"
      using True 1(4) by (simp add: first_free_def)
    with s' 1(4) show ?thesis
      unfolding eq by (intro exI [of _ s'] conjI bframe_trans [OF 1(5)]) (auto split: option.splits)
  next
    case False
    let ?d = "(disk s BMAPSTART)[n div 8 := disk s BMAPSTART ! (n div 8) OR push_bit (n mod 8) 1]"
    have "length ?d = BSIZE" using Cons.prems(1) by simp
    with Cons.prems(1) bm Cons.prems(2) obtain i s1 s2 s3 where
        1: "bread (bblock (of_nat n)) s = (Some i, s1)"
        "b_data (bcache s1 ! i) = disk s (unat (bblock (of_nat n)))"
        "bwrite (bcache (set_data i ?d s1) ! i) (set_data i ?d s1) = Ok s2"
        "brelse i s2 = Ok s3" "disk s3 = (disk s)(unat (bblock (of_nat n)) := ?d)" "bframe s s3"
      by (rule write_block)
    from 1(6) Cons.prems have f3: "bc_inv s3" "0 < nfree s3" by (auto dest: bframeD)
    have zl: "length (replicate BSIZE (0 :: byte)) = BSIZE" by simp
    have nl: "unat (of_nat n :: u32) < FSSIZE" using n' by simp
    from f3(1) nl f3(2) zl obtain j s4 s5 s6 where
        2: "bread (of_nat n) s3 = (Some j, s4)" "b_data (bcache s4 ! j) = disk s3 (unat (of_nat n :: u32))"
        "bwrite (bcache (set_data j (replicate BSIZE 0) s4) ! j) (set_data j (replicate BSIZE 0) s4) = Ok s5"
        "brelse j s5 = Ok s6" "disk s6 = (disk s3)(unat (of_nat n :: u32) := replicate BSIZE 0)"
        "bframe s3 s6"
      by (rule write_block)
    have "balloc_loop (n # ns) s = Ok (Some (of_nat n), s6)"
      using 1 2 False n'
      by (simp add: bi mask_clear blk_used_def bblock_data Let_def del: push_bit_of_1)
    moreover have "disk s6 = take_block n (disk s)"
      using 1(5) 2(5) n' by (simp add: take_block_def mark_used_def bblock_data)
    moreover have "first_free (disk s) (n # ns) = Some n"
      using False by (simp add: first_free_def)
    ultimately show ?thesis
      using bframe_trans [OF 1(6) 2(6)] by auto
  qed
qed

lemma find_upt_Some:
  assumes "find P [a..<b] = Some n"
  shows "a \<le> n \<and> n < b \<and> P n \<and> (\<forall>m. a \<le> m \<longrightarrow> m < n \<longrightarrow> \<not> P m)"
proof -
  from assms obtain i where i: "i < length [a..<b]" "P ([a..<b] ! i)" "n = [a..<b] ! i"
      "\<forall>j < i. \<not> P ([a..<b] ! j)"
    unfolding find_Some_iff by blast
  have "\<not> P m" if "a \<le> m" "m < n" for m
    using i that spec [OF i(4), of "m - a"] by auto
  with i show ?thesis by auto
qed

lemma balloc_cases:
  assumes "bc_inv s" and "0 < nfree s"
  obtains (full) s' where "balloc s = Ok (None, s')" "bframe s s'" "disk s' = disk s"
      "\<forall>n. data_block n \<longrightarrow> blk_used (disk s) n"
  | (got) n s' where "balloc s = Ok (Some (of_nat n), s')" "bframe s s'" "data_block n"
      "\<not> blk_used (disk s) n" "\<forall>m < n. data_block m \<longrightarrow> blk_used (disk s) m"
      "disk s' = take_block n (disk s)"
proof -
  have db: "\<forall>n \<in> set [DATASTART..<FSSIZE]. data_block n" by (simp add: data_block_def)
  from balloc_loop_spec [OF assms db] obtain s' where s': "bframe s s'"
      "case first_free (disk s) [DATASTART..<FSSIZE] of
         None \<Rightarrow> balloc s = Ok (None, s') \<and> disk s' = disk s
       | Some n \<Rightarrow> balloc s = Ok (Some (of_nat n), s') \<and> disk s' = take_block n (disk s)"
    unfolding balloc_def by blast
  show thesis
  proof (cases "first_free (disk s) [DATASTART..<FSSIZE]")
    case None
    then have "\<forall>n. data_block n \<longrightarrow> blk_used (disk s) n"
      by (auto simp: first_free_def find_None_iff data_block_def)
    with None s' show thesis by (intro full [of s']) auto
  next
    case (Some n)
    from find_upt_Some [OF Some [unfolded first_free_def]]
    have "data_block n" "\<not> blk_used (disk s) n" "\<forall>m < n. data_block m \<longrightarrow> blk_used (disk s) m"
      by (auto simp: data_block_def)
    with Some s' show thesis by (intro got [of n s']) auto
  qed
qed

lemma take_block_used:
  assumes "disk_ok dk" and "data_block n" and "m < FSSIZE"
  shows "blk_used (take_block n dk) m \<longleftrightarrow> m = n \<or> blk_used dk m"
  using assms blk_used_mark_used [of dk n m] data_block_range [OF assms(2)]
  by (simp add: take_block_def blk_used_def)

lemma take_block_same [simp]: "take_block n dk n = replicate BSIZE 0"
  by (simp add: take_block_def)

lemma take_block_other: "m \<noteq> n \<Longrightarrow> m \<noteq> BMAPSTART \<Longrightarrow> take_block n dk m = dk m"
  by (simp add: take_block_def mark_frame)

lemma disk_ok_take_block [simp]: "disk_ok dk \<Longrightarrow> disk_ok (take_block n dk)"
  using disk_ok_mark(1) [of dk n] by (simp add: take_block_def disk_ok_def)

lemma bfree_used:
  assumes "bc_inv s" and "0 < nfree s" and "data_block (unat b)" and "blk_used (disk s) (unat b)"
  obtains s' where "bfree b s = Ok s'" "bframe s s'" "disk s' = mark_free (unat b) (disk s)"
proof -
  let ?n = "unat b"
  have n: "?n < FSSIZE" using assms(3) by (simp add: data_block_def)
  have range: "\<not> b < of_nat DATASTART" "\<not> of_nat FSSIZE \<le> b"
    using assms(3) by (simp_all add: data_block_iff word_less_nat_alt word_le_nat_alt layout_defs)
  have bi: "?n mod BPB = ?n" using n by (simp add: layout_defs)
  have bm: "unat (bblock b) = BMAPSTART" using bblock_data [OF n] by simp
  then have bm': "unat (bblock b) < FSSIZE" by simp
  let ?d = "(disk s BMAPSTART)[?n div 8 := disk s BMAPSTART ! (?n div 8) AND NOT (push_bit (?n mod 8) 1)]"
  have "length ?d = BSIZE" using assms(1) by simp
  with assms(1) bm' assms(2) obtain i s1 s2 s3 where
      1: "bread (bblock b) s = (Some i, s1)" "b_data (bcache s1 ! i) = disk s (unat (bblock b))"
      "bwrite (bcache (set_data i ?d s1) ! i) (set_data i ?d s1) = Ok s2"
      "brelse i s2 = Ok s3" "disk s3 = (disk s)(unat (bblock b) := ?d)" "bframe s s3"
    by (rule write_block)
  have "bfree b s = Ok s3"
    using 1 range assms(4)
    by (simp add: bfree_def bi bm mask_clear blk_used_def del: push_bit_of_1)
  with 1 bm show thesis by (intro that [of s3]) (simp_all add: mark_free_def)
qed

text \<open>A block that is free, or that is no data block, is not freed: the kernel panics.\<close>

lemma bfree_unused:
  assumes "bc_inv s" and "0 < nfree s" and "data_block (unat b)" and "\<not> blk_used (disk s) (unat b)"
  shows "bfree b s = panic ''freeing free block''"
proof -
  let ?n = "unat b"
  have n: "?n < FSSIZE" using assms(3) by (simp add: data_block_def)
  have range: "\<not> b < of_nat DATASTART" "\<not> of_nat FSSIZE \<le> b"
    using assms(3) by (simp_all add: data_block_iff word_less_nat_alt word_le_nat_alt layout_defs)
  have bi: "?n mod BPB = ?n" using n by (simp add: layout_defs)
  have bm: "unat (bblock b) = BMAPSTART" using bblock_data [OF n] by simp
  then have bm': "unat (bblock b) < FSSIZE" by simp
  from assms(1) bm' assms(2) obtain i s1 s2 where
      "bread (bblock b) s = (Some i, s1)" "b_data (bcache s1 ! i) = disk s (unat (bblock b))"
      "brelse i s1 = Ok s2" "disk s2 = disk s" "bframe s s2"
    by (rule read_block)
  with range assms(4) show ?thesis
    by (simp add: bfree_def bi bm mask_clear blk_used_def del: push_bit_of_1)
qed

lemma bfree_range: "\<not> data_block (unat b) \<Longrightarrow> bfree b s = panic ''bfree: invalid block''"
  by (auto simp: bfree_def data_block_iff word_less_nat_alt word_le_nat_alt layout_defs)

end
