(* ===== verification/Bmap.thy ===== *)
theory Bmap
  imports Balloc
begin

text \<open>
  The block map of an inode, \<open>src/fs.rs\<close> lines 254 to 283 and 364 to 452: the in-memory inode,
  \<open>bmap_lookup\<close>, \<open>bmap_alloc\<close> and \<open>iupdate\<close>.  An inode is passed as the value behind its
  guard and returned with its changes.

  The specification is the byte function \<open>fdata\<close> of a file: what is stored at an offset, with 0
  where no block is mapped.  Allocating a block for a file leaves \<open>fdata\<close> as it was, keeps
  the inode's blocks apart (\<open>inode_ok\<close>) and touches no block of another file (\<open>evolves\<close>).
\<close>

record inode =
  i_inum :: u32
  i_refcnt :: nat
  i_valid :: bool
  i_typ :: u16
  i_major :: u16
  i_minor :: u16
  i_nlink :: u16
  i_size :: u32
  i_addrs :: "u32 list"

definition Inode_empty :: inode where
  "Inode_empty = \<lparr>i_inum = 0, i_refcnt = 0, i_valid = False, i_typ = 0, i_major = 0, i_minor = 0,
     i_nlink = 0, i_size = 0, i_addrs = replicate (NDIRECT + 1) 0\<rparr>"

text \<open>Entry \<open>i\<close> of an indirect block, and the block with that entry replaced.\<close>

definition ind_entry :: "byte list \<Rightarrow> nat \<Rightarrow> u32" where
  "ind_entry blk i = word_of_le (get_slice blk (i * 4) 4)"

definition put_entry :: "byte list \<Rightarrow> nat \<Rightarrow> u32 \<Rightarrow> byte list" where
  "put_entry blk i b = put_slice blk (i * 4) (le_of_word b)"

definition bmap_lookup :: "inode \<Rightarrow> u32 \<Rightarrow> 'z bstate_scheme \<Rightarrow> (u32 option \<times> 'z bstate_scheme) res" where
  "bmap_lookup ip bn s =
     (if bn < of_nat NDIRECT then
        (let blockno = i_addrs ip ! unat bn in
         Ok (if blockno \<noteq> 0 then Some blockno else None, s))
      else
        (let bn = bn - of_nat NDIRECT in
         if bn < of_nat NINDIRECT then
           (let indirect_block = i_addrs ip ! NDIRECT in
            if indirect_block = 0 then Ok (None, s)
            else
              bindE (expect ''bmap_lookup: bread indirect'' (bread indirect_block s)) (\<lambda>(bp, s).
              let blockno = ind_entry (b_data (bcache s ! bp)) (unat bn) in
              bindE (brelse bp s) (\<lambda>s.
              Ok (if blockno \<noteq> 0 then Some blockno else None, s))))
         else Ok (None, s)))"

text \<open>
  The part of \<open>bmap_alloc\<close> after the indirect block is known to exist (lines 409 to 435).
\<close>

definition bmap_alloc_ind ::
    "inode \<Rightarrow> nat \<Rightarrow> 'z bstate_scheme \<Rightarrow> (u32 option \<times> inode \<times> 'z bstate_scheme) res" where
  "bmap_alloc_ind ip i s =
     (let indirect_block = i_addrs ip ! NDIRECT in
      bindE (expect ''bmap_alloc: bread indirect'' (bread indirect_block s)) (\<lambda>(bp, s).
      let addr = ind_entry (b_data (bcache s ! bp)) i in
      if addr = 0 then
        bindE (balloc s) (\<lambda>(r, s).
        case r of
          None \<Rightarrow> bindE (brelse bp s) (\<lambda>s. Ok (None, ip, s))
        | Some addr \<Rightarrow>
            (let s = set_data bp (put_entry (b_data (bcache s ! bp)) i addr) s in
             bindE (bwrite (bcache s ! bp) s) (\<lambda>s.
             bindE (brelse bp s) (\<lambda>s.
             Ok (Some addr, ip, s)))))
      else bindE (brelse bp s) (\<lambda>s. Ok (Some addr, ip, s))))"

definition bmap_alloc ::
    "inode \<Rightarrow> u32 \<Rightarrow> 'z bstate_scheme \<Rightarrow> (u32 option \<times> inode \<times> 'z bstate_scheme) res" where
  "bmap_alloc ip bn s =
     (if bn < of_nat NDIRECT then
        (let i = unat bn in
         if i_addrs ip ! i = 0 then
           bindE (balloc s) (\<lambda>(r, s).
           case r of
             None \<Rightarrow> Ok (None, ip, s)
           | Some b \<Rightarrow> Ok (Some b, ip\<lparr>i_addrs := (i_addrs ip)[i := b]\<rparr>, s))
         else Ok (Some (i_addrs ip ! i), ip, s))
      else
        (let bn = bn - of_nat NDIRECT in
         if bn < of_nat NINDIRECT then
           (if i_addrs ip ! NDIRECT = 0 then
              bindE (balloc s) (\<lambda>(r, s).
              case r of
                None \<Rightarrow> Ok (None, ip, s)
              | Some b \<Rightarrow> bmap_alloc_ind (ip\<lparr>i_addrs := (i_addrs ip)[NDIRECT := b]\<rparr>) (unat bn) s)
            else bmap_alloc_ind ip (unat bn) s)
         else Ok (None, ip, s)))"

definition dinode_of :: "inode \<Rightarrow> dinode" where
  "dinode_of ip = \<lparr>d_typ = i_typ ip, d_major = i_major ip, d_minor = i_minor ip,
     d_nlink = i_nlink ip, d_size = i_size ip, d_addrs = i_addrs ip\<rparr>"

definition iupdate :: "inode \<Rightarrow> 'z bstate_scheme \<Rightarrow> 'z bstate_scheme res" where
  "iupdate ip s = write_dinode (i_inum ip) (dinode_of ip) s"

section \<open>The blocks of an inode\<close>

definition bmap :: "(nat \<Rightarrow> byte list) \<Rightarrow> inode \<Rightarrow> nat \<Rightarrow> u32" where
  "bmap dk ip n =
     (if n < NDIRECT then i_addrs ip ! n
      else if n < MAXFILE \<and> i_addrs ip ! NDIRECT \<noteq> 0
      then ind_entry (dk (unat (i_addrs ip ! NDIRECT))) (n - NDIRECT)
      else 0)"

definition iblocks :: "(nat \<Rightarrow> byte list) \<Rightarrow> inode \<Rightarrow> nat set" where
  "iblocks dk ip = {unat (bmap dk ip n) | n. n < MAXFILE \<and> bmap dk ip n \<noteq> 0} \<union>
     (if i_addrs ip ! NDIRECT = 0 then {} else {unat (i_addrs ip ! NDIRECT)})"

definition inode_ok :: "(nat \<Rightarrow> byte list) \<Rightarrow> inode \<Rightarrow> bool" where
  "inode_ok dk ip \<longleftrightarrow>
     length (i_addrs ip) = NDIRECT + 1 \<and>
     (\<forall>x \<in> iblocks dk ip. data_block x \<and> blk_used dk x) \<and>
     (\<forall>n < MAXFILE. \<forall>m < MAXFILE. bmap dk ip n \<noteq> 0 \<longrightarrow> bmap dk ip n = bmap dk ip m \<longrightarrow> n = m) \<and>
     (\<forall>n < MAXFILE. bmap dk ip n \<noteq> 0 \<longrightarrow> bmap dk ip n \<noteq> i_addrs ip ! NDIRECT)"

definition fdata :: "(nat \<Rightarrow> byte list) \<Rightarrow> inode \<Rightarrow> nat \<Rightarrow> byte" where
  "fdata dk ip k =
     (if bmap dk ip (k div BSIZE) = 0 then 0 else dk (unat (bmap dk ip (k div BSIZE))) ! (k mod BSIZE))"

text \<open>
  What an operation on one file keeps: the metadata blocks below the bitmap, every block
  in use, the contents of the blocks of other files; the inode changes in its block
  addresses only, and the blocks it gains were free.
\<close>

definition evolves :: "(nat \<Rightarrow> byte list) \<Rightarrow> inode \<Rightarrow> (nat \<Rightarrow> byte list) \<Rightarrow> inode \<Rightarrow> bool" where
  "evolves dk ip dk' ip' \<longleftrightarrow>
     inode_ok dk' ip' \<and> ip'\<lparr>i_addrs := []\<rparr> = ip\<lparr>i_addrs := []\<rparr> \<and>
     (\<forall>x < BMAPSTART. dk' x = dk x) \<and>
     (\<forall>x. data_block x \<longrightarrow> blk_used dk x \<longrightarrow> blk_used dk' x \<and> (x \<notin> iblocks dk ip \<longrightarrow> dk' x = dk x)) \<and>
     iblocks dk ip \<subseteq> iblocks dk' ip' \<and>
     (\<forall>x \<in> iblocks dk' ip'. x \<in> iblocks dk ip \<or> \<not> blk_used dk x) \<and>
     (\<forall>n < MAXFILE. bmap dk ip n \<noteq> 0 \<longrightarrow> bmap dk' ip' n = bmap dk ip n) \<and>
     (i_addrs ip ! NDIRECT \<noteq> 0 \<longrightarrow> i_addrs ip' ! NDIRECT = i_addrs ip ! NDIRECT)"

lemma evolves_refl: "inode_ok dk ip \<Longrightarrow> evolves dk ip dk ip"
  by (simp add: evolves_def)

lemma inode_ok_blocks: "inode_ok dk ip \<Longrightarrow> x \<in> iblocks dk ip \<Longrightarrow> data_block x \<and> blk_used dk x"
  by (simp add: inode_ok_def)

lemma evolvesD:
  assumes "evolves dk ip dk' ip'"
  shows "inode_ok dk' ip'" "ip'\<lparr>i_addrs := []\<rparr> = ip\<lparr>i_addrs := []\<rparr>"
    "\<And>x. x < BMAPSTART \<Longrightarrow> dk' x = dk x"
    "\<And>x. data_block x \<Longrightarrow> blk_used dk x \<Longrightarrow> blk_used dk' x"
    "\<And>x. data_block x \<Longrightarrow> blk_used dk x \<Longrightarrow> x \<notin> iblocks dk ip \<Longrightarrow> dk' x = dk x"
    "iblocks dk ip \<subseteq> iblocks dk' ip'"
    "\<And>x. x \<in> iblocks dk' ip' \<Longrightarrow> x \<in> iblocks dk ip \<or> \<not> blk_used dk x"
    "\<And>n. n < MAXFILE \<Longrightarrow> bmap dk ip n \<noteq> 0 \<Longrightarrow> bmap dk' ip' n = bmap dk ip n"
    "i_addrs ip ! NDIRECT \<noteq> 0 \<Longrightarrow> i_addrs ip' ! NDIRECT = i_addrs ip ! NDIRECT"
  using assms by (simp_all add: evolves_def)

lemma evolves_trans:
  assumes 1: "evolves dk ip dk1 ip1" and 2: "evolves dk1 ip1 dk2 ip2"
  shows "evolves dk ip dk2 ip2"
  unfolding evolves_def
proof (intro conjI allI impI ballI)
  show "inode_ok dk2 ip2" by (rule evolvesD(1) [OF 2])
  show "ip2\<lparr>i_addrs := []\<rparr> = ip\<lparr>i_addrs := []\<rparr>"
    by (rule trans [OF evolvesD(2) [OF 2] evolvesD(2) [OF 1]])
  show "iblocks dk ip \<subseteq> iblocks dk2 ip2"
    by (rule order_trans [OF evolvesD(6) [OF 1] evolvesD(6) [OF 2]])
next
  fix x assume "x < BMAPSTART"
  then show "dk2 x = dk x"
    using evolvesD(3) [OF 1, of x] evolvesD(3) [OF 2, of x] by simp
next
  fix x assume x: "data_block x" "blk_used dk x"
  then have x1: "blk_used dk1 x" by (rule evolvesD(4) [OF 1])
  with x(1) show "blk_used dk2 x" by (rule evolvesD(4) [OF 2])
  assume n: "x \<notin> iblocks dk ip"
  with x(2) have "x \<notin> iblocks dk1 ip1" using evolvesD(7) [OF 1, of x] by blast
  then have "dk2 x = dk1 x" by (rule evolvesD(5) [OF 2 x(1) x1])
  also have "\<dots> = dk x" by (rule evolvesD(5) [OF 1 x n])
  finally show "dk2 x = dk x" .
next
  fix x assume x: "x \<in> iblocks dk2 ip2"
  then have d: "data_block x" using inode_ok_blocks [OF evolvesD(1) [OF 2]] by blast
  from evolvesD(7) [OF 2 x] show "x \<in> iblocks dk ip \<or> \<not> blk_used dk x"
    using evolvesD(7) [OF 1, of x] evolvesD(4) [OF 1 d] by blast
next
  fix n assume n: "n < MAXFILE" "bmap dk ip n \<noteq> 0"
  then have "bmap dk1 ip1 n = bmap dk ip n" by (rule evolvesD(8) [OF 1])
  with n evolvesD(8) [OF 2 n(1)] show "bmap dk2 ip2 n = bmap dk ip n" by simp
next
  assume "i_addrs ip ! NDIRECT \<noteq> 0"
  then show "i_addrs ip2 ! NDIRECT = i_addrs ip ! NDIRECT"
    using evolvesD(9) [OF 1] evolvesD(9) [OF 2] by simp
qed

lemma bmap_iblocks: "n < MAXFILE \<Longrightarrow> bmap dk ip n \<noteq> 0 \<Longrightarrow> unat (bmap dk ip n) \<in> iblocks dk ip"
  by (auto simp: iblocks_def)

lemma ind_iblocks: "i_addrs ip ! NDIRECT \<noteq> 0 \<Longrightarrow> unat (i_addrs ip ! NDIRECT) \<in> iblocks dk ip"
  by (simp add: iblocks_def)

lemma bmap_data_block:
  "inode_ok dk ip \<Longrightarrow> n < MAXFILE \<Longrightarrow> bmap dk ip n \<noteq> 0 \<Longrightarrow> data_block (unat (bmap dk ip n))"
  using bmap_iblocks inode_ok_blocks by blast

lemma ind_data_block:
  "inode_ok dk ip \<Longrightarrow> i_addrs ip ! NDIRECT \<noteq> 0 \<Longrightarrow> data_block (unat (i_addrs ip ! NDIRECT))"
  using ind_iblocks inode_ok_blocks by blast

lemma bmap_large: "MAXFILE \<le> n \<Longrightarrow> bmap dk ip n = 0"
  by (simp add: bmap_def layout_values NDIRECT_def)

lemma unat_eq_0_iff [simp]: "unat (w :: u32) = 0 \<longleftrightarrow> w = 0"
  by (simp add: unat_eq_zero)

lemma of_nat_block:
  assumes "data_block b"
  shows "unat (of_nat b :: u32) = b" "(of_nat b :: u32) \<noteq> 0"
proof -
  show "unat (of_nat b :: u32) = b" using assms by (simp add: data_block_def)
  then show "(of_nat b :: u32) \<noteq> 0" using assms by (auto simp: data_block_iff)
qed

lemma unused_not_mapped:
  assumes "inode_ok dk ip" and "\<not> blk_used dk b" and "data_block b"
  shows "b \<notin> iblocks dk ip" and "\<And>n. n < MAXFILE \<Longrightarrow> bmap dk ip n \<noteq> of_nat b"
    and "i_addrs ip ! NDIRECT \<noteq> of_nat b"
proof -
  show n: "b \<notin> iblocks dk ip" using assms inode_ok_blocks by blast
  show "bmap dk ip m \<noteq> of_nat b" if "m < MAXFILE" for m
    using n bmap_iblocks [OF that, of dk ip] of_nat_block [OF assms(3)] by auto
  show "i_addrs ip ! NDIRECT \<noteq> of_nat b"
    using n ind_iblocks [of ip dk] of_nat_block [OF assms(3)] by auto
qed

text \<open>A free block becomes block \<open>n\<close> of the file.\<close>

lemma attach_block:
  assumes ok: "disk_ok dk" "inode_ok dk ip"
    and b: "data_block b" "\<not> blk_used dk b"
    and used: "\<And>m. m < FSSIZE \<Longrightarrow> blk_used dk' m \<longleftrightarrow> m = b \<or> blk_used dk m"
    and zero: "dk' b = replicate BSIZE 0"
    and other: "\<And>x. x \<noteq> b \<Longrightarrow> x \<noteq> BMAPSTART \<Longrightarrow> x \<noteq> unat (i_addrs ip ! NDIRECT) \<or> i_addrs ip ! NDIRECT = 0
        \<Longrightarrow> dk' x = dk x"
    and len: "length (i_addrs ip') = NDIRECT + 1" "ip'\<lparr>i_addrs := []\<rparr> = ip\<lparr>i_addrs := []\<rparr>"
    and n: "n < MAXFILE" "bmap dk ip n = 0"
    and maps: "\<And>m. m < MAXFILE \<Longrightarrow> bmap dk' ip' m = (if m = n then of_nat b else bmap dk ip m)"
    and ind: "i_addrs ip' ! NDIRECT = i_addrs ip ! NDIRECT"
  shows "evolves dk ip dk' ip' \<and> (\<forall>k. fdata dk' ip' k = fdata dk ip k)"
proof
  note fresh = unused_not_mapped [OF ok(2) b(2,1)] and bnz = of_nat_block [OF b(1)]
  have iblocks': "iblocks dk' ip' = insert b (iblocks dk ip)"
  proof (intro set_eqI iffI)
    fix x assume "x \<in> iblocks dk' ip'"
    then show "x \<in> insert b (iblocks dk ip)"
      using bnz by (auto simp: iblocks_def ind maps split: if_splits)
  next
    fix x assume "x \<in> insert b (iblocks dk ip)"
    moreover have "b \<in> iblocks dk' ip'"
      using bmap_iblocks [OF n(1), of dk' ip'] n(1) bnz by (simp add: maps)
    moreover have "unat (bmap dk ip m) \<in> iblocks dk' ip'" if "m < MAXFILE" "bmap dk ip m \<noteq> 0" for m
      using that bmap_iblocks [of m dk' ip'] n(2) by (cases "m = n") (simp_all add: maps)
    ultimately show "x \<in> iblocks dk' ip'"
      using ind ind_iblocks [of ip' dk'] by (auto simp: iblocks_def [of dk ip] split: if_splits)
  qed
  have "inode_ok dk' ip'"
    unfolding inode_ok_def
  proof (intro conjI ballI allI impI)
    fix x assume "x \<in> iblocks dk' ip'"
    then have x: "x = b \<or> x \<in> iblocks dk ip" by (simp add: iblocks')
    then show "data_block x" using b(1) inode_ok_blocks [OF ok(2)] by blast
    then show "blk_used dk' x" using x used [of x] inode_ok_blocks [OF ok(2)]
      by (auto simp: data_block_def)
  next
    fix i j assume "i < MAXFILE" "j < MAXFILE" "bmap dk' ip' i \<noteq> 0" "bmap dk' ip' i = bmap dk' ip' j"
    then show "i = j"
      using fresh(2) ok(2) by (auto simp: maps inode_ok_def split: if_splits)
  next
    fix i assume "i < MAXFILE" "bmap dk' ip' i \<noteq> 0"
    then show "bmap dk' ip' i \<noteq> i_addrs ip' ! NDIRECT"
      using fresh(3) ok(2) by (auto simp: maps ind inode_ok_def split: if_splits)
  qed (simp add: len)
  moreover have "blk_used dk' x \<and> (x \<notin> iblocks dk ip \<longrightarrow> dk' x = dk x)"
    if x: "data_block x" "blk_used dk x" for x
  proof -
    have "x \<noteq> b" "x \<noteq> BMAPSTART" "x < FSSIZE" using x b data_block_range [OF x(1)] by auto
    moreover have "x \<noteq> unat (i_addrs ip ! NDIRECT) \<or> i_addrs ip ! NDIRECT = 0" if "x \<notin> iblocks dk ip"
      using that ind_iblocks by blast
    ultimately show ?thesis using other used x(2) by blast
  qed
  moreover have "dk' x = dk x" if "x < BMAPSTART" for x
  proof (rule other)
    show "x \<noteq> b" "x \<noteq> BMAPSTART" using that data_block_range [OF b(1)] by auto
    show "x \<noteq> unat (i_addrs ip ! NDIRECT) \<or> i_addrs ip ! NDIRECT = 0"
      using that ind_data_block [OF ok(2)] data_block_range by fastforce
  qed
  ultimately show "evolves dk ip dk' ip'"
    using b n len maps ind by (auto simp: evolves_def iblocks')
  have "fdata dk' ip' k = fdata dk ip k" for k
  proof (cases "k div BSIZE < MAXFILE")
    case k: True
    let ?c = "bmap dk ip (k div BSIZE)"
    show ?thesis
    proof (cases "?c = 0")
      case True
      then show ?thesis
        using k bnz zero by (simp add: fdata_def maps BSIZE_def)
    next
      case False
      have "k div BSIZE \<noteq> n" using False n by auto
      moreover have "dk' (unat ?c) = dk (unat ?c)"
      proof (rule other)
        show "unat ?c \<noteq> b" using fresh(1) bmap_iblocks [OF k False] by blast
        show "unat ?c \<noteq> BMAPSTART" using bmap_data_block [OF ok(2) k False] data_block_range by fastforce
        show "unat ?c \<noteq> unat (i_addrs ip ! NDIRECT) \<or> i_addrs ip ! NDIRECT = 0"
          using ok(2) k False by (simp add: inode_ok_def flip: word_unat_eq_iff)
      qed
      ultimately show ?thesis using k False by (simp add: fdata_def maps)
    qed
  qed (simp add: fdata_def bmap_large)
  then show "\<forall>k. fdata dk' ip' k = fdata dk ip k" by blast
qed

text \<open>A free block becomes the indirect block.\<close>

lemma attach_indirect:
  assumes ok: "disk_ok dk" "inode_ok dk ip"
    and b: "data_block b" "\<not> blk_used dk b" and z: "i_addrs ip ! NDIRECT = 0"
    and dk': "dk' = take_block b dk"
    and ip': "ip' = ip\<lparr>i_addrs := (i_addrs ip)[NDIRECT := of_nat b]\<rparr>"
  shows "evolves dk ip dk' ip' \<and> (\<forall>k. fdata dk' ip' k = fdata dk ip k)"
proof
  note fresh = unused_not_mapped [OF ok(2) b(2,1)] and bnz = of_nat_block [OF b(1)]
  have len: "length (i_addrs ip) = NDIRECT + 1" using ok(2) by (simp add: inode_ok_def)
  have ind: "i_addrs ip' ! NDIRECT = of_nat b" using len by (simp add: ip')
  have ze: "ind_entry (replicate BSIZE 0) i = 0" if "i < NINDIRECT" for i
  proof -
    have "get_slice (replicate BSIZE (0 :: byte)) (i * 4) 4 = replicate 4 0"
      using that by (simp add: get_slice_def layout_defs min_def)
    then show ?thesis by (simp add: ind_entry_def numeral_eq_Suc)
  qed
  have maps: "bmap dk' ip' m = bmap dk ip m" if "m < MAXFILE" for m
    using that len z bnz ind ze [of "m - NDIRECT"]
    by (auto simp: bmap_def ip' dk' MAXFILE_def)
  have "{unat (bmap dk' ip' n) |n. n < MAXFILE \<and> bmap dk' ip' n \<noteq> 0} =
      {unat (bmap dk ip n) |n. n < MAXFILE \<and> bmap dk ip n \<noteq> 0}"
    by (rule Collect_cong) (metis maps)
  then have iblocks': "iblocks dk' ip' = insert b (iblocks dk ip)"
    using bnz z by (simp add: iblocks_def ind)
  have used: "blk_used dk' m \<longleftrightarrow> m = b \<or> blk_used dk m" if "m < FSSIZE" for m
    using that ok(1) b(1) by (simp add: dk' take_block_used)
  have "inode_ok dk' ip'"
    unfolding inode_ok_def
  proof (intro conjI ballI allI impI)
    fix x assume "x \<in> iblocks dk' ip'"
    then have x: "x = b \<or> x \<in> iblocks dk ip" by (simp add: iblocks')
    then show "data_block x" using b(1) inode_ok_blocks [OF ok(2)] by blast
    then show "blk_used dk' x" using x used [of x] inode_ok_blocks [OF ok(2)]
      by (auto simp: data_block_def)
  next
    fix i j assume "i < MAXFILE" "j < MAXFILE" "bmap dk' ip' i \<noteq> 0" "bmap dk' ip' i = bmap dk' ip' j"
    then show "i = j" using ok(2) by (auto simp: maps inode_ok_def)
  next
    fix i assume "i < MAXFILE" "bmap dk' ip' i \<noteq> 0"
    then show "bmap dk' ip' i \<noteq> i_addrs ip' ! NDIRECT" using fresh(2) by (simp add: maps ind)
  qed (simp add: ip' len)
  moreover have "blk_used dk' x \<and> dk' x = dk x" if x: "data_block x" "blk_used dk x" for x
    using x b used [of x] data_block_range [OF x(1)] by (auto simp: dk' intro: take_block_other)
  moreover have "dk' x = dk x" if "x < BMAPSTART" for x
    using that data_block_range [OF b(1)] by (simp add: dk' take_block_other)
  moreover have "ip'\<lparr>i_addrs := []\<rparr> = ip\<lparr>i_addrs := []\<rparr>" by (simp add: ip')
  ultimately show "evolves dk ip dk' ip'"
    using b maps z by (auto simp: evolves_def iblocks')
  have "fdata dk' ip' k = fdata dk ip k" for k
  proof (cases "k div BSIZE < MAXFILE \<and> bmap dk ip (k div BSIZE) \<noteq> 0")
    case True
    then have "unat (bmap dk ip (k div BSIZE)) \<in> iblocks dk ip" by (simp add: bmap_iblocks)
    with fresh(1) inode_ok_blocks [OF ok(2)] data_block_range
    have "dk' (unat (bmap dk ip (k div BSIZE))) = dk (unat (bmap dk ip (k div BSIZE)))"
      by (fastforce simp: dk' intro: take_block_other)
    with True show ?thesis by (simp add: fdata_def maps)
  next
    case False
    then show ?thesis by (cases "k div BSIZE < MAXFILE") (simp_all add: fdata_def maps bmap_large)
  qed
  then show "\<forall>k. fdata dk' ip' k = fdata dk ip k" by blast
qed

lemma attach_direct:
  assumes ok: "disk_ok dk" "inode_ok dk ip" and b: "data_block b" "\<not> blk_used dk b"
    and n: "n < NDIRECT" "i_addrs ip ! n = 0"
    and ip': "ip' = ip\<lparr>i_addrs := (i_addrs ip)[n := of_nat b]\<rparr>"
  shows "evolves dk ip (take_block b dk) ip'"
    and "fdata (take_block b dk) ip' k = fdata dk ip k" and "bmap (take_block b dk) ip' n = of_nat b"
proof -
  have len: "length (i_addrs ip) = NDIRECT + 1" using ok(2) by (simp add: inode_ok_def)
  have ind: "unat (i_addrs ip ! NDIRECT) \<noteq> b" "unat (i_addrs ip ! NDIRECT) \<noteq> BMAPSTART"
    if "i_addrs ip ! NDIRECT \<noteq> 0"
    using unused_not_mapped(1) [OF ok(2) b(2,1)] ind_iblocks [of ip dk, OF that]
      data_block_range [OF ind_data_block [OF ok(2) that]] by auto
  have maps: "bmap (take_block b dk) ip' m = (if m = n then of_nat b else bmap dk ip m)" if "m < MAXFILE" for m
    using that n len ind by (auto simp: bmap_def ip' take_block_other)
  have "evolves dk ip (take_block b dk) ip' \<and> (\<forall>k. fdata (take_block b dk) ip' k = fdata dk ip k)"
    by (rule attach_block [where n = n, OF ok b])
      (use n len ok b maps in \<open>simp_all add: take_block_used take_block_other ip' bmap_def MAXFILE_def\<close>)
  then show "evolves dk ip (take_block b dk) ip'" "fdata (take_block b dk) ip' k = fdata dk ip k" by auto
  show "bmap (take_block b dk) ip' n = of_nat b" using n maps by (simp add: MAXFILE_def)
qed

lemma ind_entry_put:
  assumes "length blk = BSIZE" and "i < NINDIRECT" and "j < NINDIRECT"
  shows "ind_entry (put_entry blk i v) j = (if j = i then v else ind_entry blk j)"
proof (cases "j = i")
  case True
  with assms show ?thesis by (simp add: ind_entry_def put_entry_def get_put_slice_same layout_defs)
next
  case False
  then have "j * 4 + 4 \<le> i * 4 \<or> i * 4 + 4 \<le> j * 4" by linarith
  with assms False show ?thesis
    by (simp add: ind_entry_def put_entry_def get_put_slice_other layout_defs)
qed

lemma attach_entry:
  assumes ok: "disk_ok dk" "inode_ok dk ip" and b: "data_block b" "\<not> blk_used dk b"
    and i: "i < NINDIRECT" "i_addrs ip ! NDIRECT \<noteq> 0" "x = unat (i_addrs ip ! NDIRECT)" "ind_entry (dk x) i = 0"
    and dk': "dk' = (take_block b dk)(x := put_entry (dk x) i (of_nat b))"
  shows "evolves dk ip dk' ip"
    and "fdata dk' ip k = fdata dk ip k" and "bmap dk' ip (NDIRECT + i) = of_nat b"
proof -
  have x: "x \<noteq> b" "data_block x"
    using i unused_not_mapped(1) [OF ok(2) b(2,1)] ind_iblocks [of ip dk] ind_data_block [OF ok(2)] by auto
  have len: "length (i_addrs ip) = NDIRECT + 1" using ok(2) by (simp add: inode_ok_def)
  have maps: "bmap dk' ip m = (if m = NDIRECT + i then of_nat b else bmap dk ip m)" if "m < MAXFILE" for m
    using that i ok(1) by (auto simp: bmap_def dk' disk_ok_def MAXFILE_def ind_entry_put)
  have used: "blk_used dk' m \<longleftrightarrow> m = b \<or> blk_used dk m" if "m < FSSIZE" for m
    using that take_block_used [OF ok(1) b(1), of m] data_block_range [OF x(2)] by (simp add: blk_used_def dk')
  have "evolves dk ip dk' ip \<and> (\<forall>k. fdata dk' ip k = fdata dk ip k)"
    by (rule attach_block [where n = "NDIRECT + i", OF ok b])
      (use i x len maps used in \<open>simp_all add: take_block_other dk' bmap_def MAXFILE_def\<close>)
  then show "evolves dk ip dk' ip" "fdata dk' ip k = fdata dk ip k" by auto
  show "bmap dk' ip (NDIRECT + i) = of_nat b" using i maps by (simp add: MAXFILE_def)
qed

section \<open>Specifications of the operations\<close>

lemma fs_const_le: "(of_nat NDIRECT :: u32) = 12" "(of_nat NINDIRECT :: u32) = 256"
  by (simp_all add: layout_defs)

lemma unat_bn:
  assumes "n < MAXFILE"
  shows "unat (of_nat n :: u32) = n" "(of_nat n :: u32) < of_nat NDIRECT \<longleftrightarrow> n < NDIRECT"
    and "\<not> n < NDIRECT \<Longrightarrow> unat (of_nat n - of_nat NDIRECT :: u32) = n - NDIRECT"
    and "\<not> n < NDIRECT \<Longrightarrow> (of_nat n - of_nat NDIRECT :: u32) < of_nat NINDIRECT"
proof -
  have n: "n < 268" using assms by (simp add: layout_values)
  show u: "unat (of_nat n :: u32) = n" using n by (simp add: unat_of_nat take_bit_nat_eq_self)
  show l: "(of_nat n :: u32) < of_nat NDIRECT \<longleftrightarrow> n < NDIRECT"
    using u by (simp add: word_less_nat_alt NDIRECT_def)
  assume "\<not> n < NDIRECT"
  then show d: "unat (of_nat n - of_nat NDIRECT :: u32) = n - NDIRECT"
    using u l by (subst unat_sub) (simp_all add: word_le_nat_alt NDIRECT_def)
  show "(of_nat n - of_nat NDIRECT :: u32) < of_nat NINDIRECT"
    using n d by (simp add: word_less_nat_alt layout_defs)
qed

lemma bmap_lookup_spec:
  assumes inv: "bc_inv s" "0 < nfree s" and ok: "inode_ok (disk s) ip" and n: "n < MAXFILE"
  obtains s' where "bmap_lookup ip (of_nat n) s =
      Ok (if bmap (disk s) ip n = 0 then None else Some (bmap (disk s) ip n), s')"
    and "disk s' = disk s" and "bframe s s'"
proof (cases "n < NDIRECT \<or> i_addrs ip ! NDIRECT = 0")
  case True
  show ?thesis
    by (rule that [of s]) (use True n inv(1) in \<open>auto simp: bmap_lookup_def unat_bn bmap_def bframe_refl\<close>)
next
  case False
  let ?ind = "i_addrs ip ! NDIRECT"
  have "data_block (unat ?ind)" using False ok by (simp add: ind_data_block)
  then have "unat ?ind < FSSIZE" by (simp add: data_block_def)
  from read_block [OF inv(1) this inv(2)] obtain bp s1 s2 where "bread ?ind s = (Some bp, s1)"
      "b_data (bcache s1 ! bp) = disk s (unat ?ind)" "brelse bp s1 = Ok s2" "disk s2 = disk s" "bframe s s2" .
  then show ?thesis
    by (intro that [of s2]) (use False n in \<open>simp_all add: bmap_lookup_def unat_bn bmap_def Let_def\<close>)
qed

text \<open>
  The contract of \<open>bmap_alloc\<close> for block \<open>n\<close>: the bytes of the file stay as they were, and
  either the block is mapped afterwards or no data block of the file system is free.
\<close>

definition alloc_post ::
    "'z bstate_scheme \<Rightarrow> inode \<Rightarrow> nat \<Rightarrow> u32 option \<Rightarrow> inode \<Rightarrow> 'z bstate_scheme \<Rightarrow> bool" where
  "alloc_post s ip n r ip' s' \<longleftrightarrow> bframe s s' \<and> evolves (disk s) ip (disk s') ip' \<and>
     (\<forall>k. fdata (disk s') ip' k = fdata (disk s) ip k) \<and>
     (case r of Some b \<Rightarrow> b = bmap (disk s') ip' n \<and> b \<noteq> 0
      | None \<Rightarrow> \<forall>x. data_block x \<longrightarrow> blk_used (disk s') x)"

lemma alloc_post_step:
  assumes "alloc_post s1 ip1 n r ip' s'" and "bframe s s1"
    and "evolves (disk s) ip (disk s1) ip1" and "\<And>k. fdata (disk s1) ip1 k = fdata (disk s) ip k"
  shows "alloc_post s ip n r ip' s'"
  using assms bframe_trans evolves_trans unfolding alloc_post_def by (metis (no_types))

lemma bmap_alloc_ind_spec:
  assumes inv: "bc_inv s" "2 \<le> nfree s" and ok: "inode_ok (disk s) ip"
    and i: "i < NINDIRECT" "i_addrs ip ! NDIRECT \<noteq> 0"
  obtains r ip' s' where "bmap_alloc_ind ip i s = Ok (r, ip', s')" "alloc_post s ip (NDIRECT + i) r ip' s'"
proof -
  let ?ind = "i_addrs ip ! NDIRECT" and ?n = "NDIRECT + i"
  have db: "data_block (unat ?ind)" using ok i(2) by (rule ind_data_block)
  then have "unat ?ind < FSSIZE" by (simp add: data_block_def)
  moreover have "0 < nfree s" using inv(2) by simp
  ultimately obtain bp s1 where 1: "bread ?ind s = (Some bp, s1)" "held s bp ?ind s1" "disk s1 = disk s"
      "b_data (bcache s1 ! bp) = disk s (unat ?ind)"
    using inv(1) by (metis bread_held)
  have map: "ind_entry (disk s (unat ?ind)) i = bmap (disk s) ip ?n"
    using i by (simp add: bmap_def MAXFILE_def)
  show thesis
  proof (cases "bmap (disk s) ip ?n = 0")
    case False
    obtain s2 where 2: "brelse bp s1 = Ok s2" "disk s2 = disk s1" "bframe s s2"
      by (rule held_release [OF 1(2)])
    show thesis
    proof (rule that)
      show "bmap_alloc_ind ip i s = Ok (Some (bmap (disk s) ip ?n), ip, s2)"
        using 1 2 False by (simp add: bmap_alloc_ind_def map Let_def)
      show "alloc_post s ip ?n (Some (bmap (disk s) ip ?n)) ip s2"
        using 1 2 False ok by (simp add: alloc_post_def evolves_refl)
    qed
  next
    case True
    have "bc_inv s1" "0 < nfree s1" using 1(2) held_nfree [OF 1(2)] inv(2) by auto
    then show thesis
    proof (cases rule: balloc_cases)
      case (full s2)
      obtain s3 where 3: "brelse bp s2 = Ok s3" "disk s3 = disk s2" "bframe s s3"
        by (rule held_release [OF held_frame [OF 1(2) full(2)]])
      show thesis
      proof (rule that)
        show "bmap_alloc_ind ip i s = Ok (None, ip, s3)"
          using 1 3 full(1) True by (simp add: bmap_alloc_ind_def map Let_def)
        show "alloc_post s ip ?n None ip s3"
          using 1 3 full ok by (simp add: alloc_post_def evolves_refl)
      qed
    next
      case (got b s2)
      have h2: "held s bp ?ind s2" by (rule held_frame [OF 1(2) got(2)])
      have "\<not> blk_used (disk s) b" using got(4) 1(3) by simp
      then have ne: "unat ?ind \<noteq> b" "unat ?ind \<noteq> BMAPSTART"
        using i(2) ok ind_iblocks [of ip "disk s"] inode_ok_blocks [OF ok] data_block_range [OF db] by auto
      have blk: "b_data (bcache s2 ! bp) = disk s (unat ?ind)"
        using held_data [OF h2] ne 1(3) got(6) by (simp add: take_block_other)
      let ?d = "put_entry (disk s (unat ?ind)) i (of_nat b)"
      have "length ?d = BSIZE" using inv(1) i(1) by (simp add: put_entry_def layout_defs)
      with h2 obtain s3 where 3: "bwrite (bcache (set_data bp ?d s2) ! bp) (set_data bp ?d s2) = Ok s3"
          "disk s3 = (disk s2)(unat ?ind := ?d)" "held s bp ?ind s3"
        by (rule held_write)
      obtain s4 where 4: "brelse bp s3 = Ok s4" "disk s4 = disk s3" "bframe s s4"
        by (rule held_release [OF 3(3)])
      have dk: "disk s4 = (take_block b (disk s))(unat ?ind := ?d)"
        using 1(3) 3(2) 4(2) got(6) by simp
      have e: "ind_entry (disk s (unat ?ind)) i = 0" using True map by simp
      note at = attach_entry [OF bc_inv_disk_ok [OF inv(1)] ok got(3) \<open>\<not> blk_used (disk s) b\<close> i refl e dk]
      show thesis
      proof (rule that)
        show "bmap_alloc_ind ip i s = Ok (Some (of_nat b), ip, s4)"
          using 1 3 4 got(1) True by (simp add: bmap_alloc_ind_def map Let_def blk)
        show "alloc_post s ip ?n (Some (of_nat b)) ip s4"
          using 4(3) at of_nat_block [OF got(3)] by (simp add: alloc_post_def)
      qed
    qed
  qed
qed

lemma bmap_alloc_spec:
  assumes inv: "bc_inv s" "2 \<le> nfree s" and ok: "inode_ok (disk s) ip" and n: "n < MAXFILE"
  obtains r ip' s' where "bmap_alloc ip (of_nat n) s = Ok (r, ip', s')" "alloc_post s ip n r ip' s'"
proof -
  have free: "0 < nfree s" using inv(2) by simp
  have dok: "disk_ok (disk s)" using inv(1) by simp
  have len: "length (i_addrs ip) = NDIRECT + 1" using ok by (simp add: inode_ok_def)
  consider (direct) "n < NDIRECT" "i_addrs ip ! n \<noteq> 0" | (new) "n < NDIRECT" "i_addrs ip ! n = 0"
    | (ind) "\<not> n < NDIRECT" "i_addrs ip ! NDIRECT \<noteq> 0" | (noind) "\<not> n < NDIRECT" "i_addrs ip ! NDIRECT = 0"
    by blast
  then show thesis
  proof cases
    case direct
    show thesis
      by (rule that [of "Some (i_addrs ip ! n)" ip s])
        (use direct n ok inv in \<open>simp_all add: bmap_alloc_def unat_bn alloc_post_def evolves_refl bmap_def\<close>)
  next
    case new
    from inv(1) free show thesis
    proof (cases rule: balloc_cases)
      case (full s1)
      show thesis
        by (rule that [of None ip s1])
          (use new n ok full in \<open>simp_all add: bmap_alloc_def unat_bn alloc_post_def evolves_refl\<close>)
    next
      case (got b s1)
      note at = attach_direct [OF dok ok got(3,4) new refl]
      show thesis
        by (rule that [of "Some (of_nat b)" "ip\<lparr>i_addrs := (i_addrs ip)[n := of_nat b]\<rparr>" s1])
          (use new n got at of_nat_block [OF got(3)] in \<open>simp_all add: bmap_alloc_def unat_bn alloc_post_def\<close>)
    qed
  next
    case ind
    have i: "n - NDIRECT < NINDIRECT" using ind n by (simp add: MAXFILE_def)
    from inv ok i ind(2) obtain r ip' s' where "bmap_alloc_ind ip (n - NDIRECT) s = Ok (r, ip', s')"
        "alloc_post s ip (NDIRECT + (n - NDIRECT)) r ip' s'"
      by (rule bmap_alloc_ind_spec)
    with ind n show thesis by (intro that [of r ip' s']) (simp_all add: bmap_alloc_def unat_bn)
  next
    case noind
    have i: "n - NDIRECT < NINDIRECT" using noind n by (simp add: MAXFILE_def)
    from inv(1) free show thesis
    proof (cases rule: balloc_cases)
      case (full s1)
      show thesis
        by (rule that [of None ip s1])
          (use noind n ok full in \<open>simp_all add: bmap_alloc_def unat_bn alloc_post_def evolves_refl\<close>)
    next
      case (got b s1)
      let ?ip = "ip\<lparr>i_addrs := (i_addrs ip)[NDIRECT := of_nat b]\<rparr>"
      from attach_indirect [OF dok ok got(3,4) noind(2) got(6) refl]
      have at: "evolves (disk s) ip (disk s1) ?ip" "\<And>k. fdata (disk s1) ?ip k = fdata (disk s) ip k" by auto
      have nz: "i_addrs ?ip ! NDIRECT \<noteq> 0" using len of_nat_block [OF got(3)] by simp
      have "bc_inv s1" "2 \<le> nfree s1" using bframeD [OF got(2)] inv(2) by simp_all
      then obtain r ip' s' where r: "bmap_alloc_ind ?ip (n - NDIRECT) s1 = Ok (r, ip', s')"
          "alloc_post s1 ?ip (NDIRECT + (n - NDIRECT)) r ip' s'"
        using evolvesD(1) [OF at(1)] i nz by (rule bmap_alloc_ind_spec)
      have "alloc_post s ip n r ip' s'"
        using alloc_post_step [OF r(2) got(2) at] noind(1) by simp
      with r(1) noind n got(1) show thesis
        by (intro that [of r ip' s']) (simp_all add: bmap_alloc_def unat_bn)
    qed
  qed
qed

end
