(* ===== verification/Fileio.thy ===== *)
theory Fileio
  imports Bmap
begin

text \<open>
  The bytes of a file, \<open>src/fs.rs\<close> lines 454 to 606: \<open>_readi\<close> (\<open>inode_readi\<close>), \<open>zero_fill\<close>,
  \<open>_writei\<close> (\<open>inode_writei\<close>) and \<open>itrunc\<close>.  Their loops are recursive functions on the number
  of bytes done, with the block of each round computed as in the source.

  The abstract file is its list of bytes \<open>fcontent\<close>.  Reading returns a segment of that list,
  writing is \<open>write_at\<close> on it, truncating makes it empty; none of them touches another file.
\<close>

function readi_loop ::
    "inode \<Rightarrow> nat \<Rightarrow> nat \<Rightarrow> nat \<Rightarrow> byte list \<Rightarrow> 'z bstate_scheme \<Rightarrow> (nat \<times> byte list \<times> 'z bstate_scheme) res" where
  "readi_loop ip off n tot dst s =
     (if tot < n then
        (let cur = off + tot; bn = cur div BSIZE; boff = cur mod BSIZE;
             m = min (n - tot) (BSIZE - boff) in
         bindE (bmap_lookup ip (of_nat bn) s) (\<lambda>r.
         bindE (expect ''readi: hole in non-sparse file'' r) (\<lambda>(blockno, s).
         bindE (expect ''readi: bread'' (bread blockno s)) (\<lambda>(bp, s).
         let dst = put_slice dst tot (get_slice (b_data (bcache s ! bp)) boff m) in
         bindE (brelse bp s) (\<lambda>s.
         readi_loop ip off n (tot + m) dst s)))))
      else Ok (tot, dst, s))"
  by pat_completeness auto

termination
  by (relation "measure (\<lambda>(ip, off, n, tot, dst, s). n - tot)") (auto simp: BSIZE_def)

definition inode_readi ::
    "inode \<Rightarrow> u32 \<Rightarrow> byte list \<Rightarrow> 'z bstate_scheme \<Rightarrow> (nat \<times> byte list \<times> 'z bstate_scheme) res" where
  "inode_readi ip off dst s =
     (if i_size ip \<le> off then Ok (0, dst, s)
      else
        (let n = min (length dst) (unat (i_size ip - off)) in
         readi_loop ip (unat off) n 0 dst s))"

function zero_fill_loop ::
    "inode \<Rightarrow> nat \<Rightarrow> nat \<Rightarrow> nat \<Rightarrow> 'z bstate_scheme \<Rightarrow> (bool \<times> inode \<times> 'z bstate_scheme) res" where
  "zero_fill_loop ip from len tot s =
     (if tot < len then
        (let cur = from + tot; bn = cur div BSIZE; boff = cur mod BSIZE;
             m = min (len - tot) (BSIZE - boff) in
         bindE (bmap_alloc ip (of_nat bn) s) (\<lambda>(r, ip, s).
         case r of
           None \<Rightarrow> Ok (False, ip, s)
         | Some blockno \<Rightarrow>
             bindE (expect ''zero_fill: bread'' (bread blockno s)) (\<lambda>(bp, s).
             let s = set_data bp (put_slice (b_data (bcache s ! bp)) boff (replicate m 0)) s in
             bindE (bwrite (bcache s ! bp) s) (\<lambda>s.
             bindE (brelse bp s) (\<lambda>s.
             zero_fill_loop ip from len (tot + m) s)))))
      else Ok (True, ip, s))"
  by pat_completeness auto

termination
  by (relation "measure (\<lambda>(ip, from, len, tot, s). len - tot)") (auto simp: BSIZE_def)

definition zero_fill ::
    "inode \<Rightarrow> u32 \<Rightarrow> u32 \<Rightarrow> 'z bstate_scheme \<Rightarrow> (bool \<times> inode \<times> 'z bstate_scheme) res" where
  "zero_fill ip from to s =
     (if to \<le> from then Ok (True, ip, s)
      else zero_fill_loop ip (unat from) (unat (to - from)) 0 s)"

function writei_loop ::
    "inode \<Rightarrow> nat \<Rightarrow> byte list \<Rightarrow> nat \<Rightarrow> 'z bstate_scheme \<Rightarrow> (nat \<times> inode \<times> 'z bstate_scheme) res" where
  "writei_loop ip off src tot s =
     (if tot < length src then
        (let cur = off + tot; bn = cur div BSIZE; boff = cur mod BSIZE;
             m = min (length src - tot) (BSIZE - boff) in
         bindE (bmap_alloc ip (of_nat bn) s) (\<lambda>(r, ip, s).
         case r of
           None \<Rightarrow> Ok (tot, ip, s)
         | Some blockno \<Rightarrow>
             bindE (expect ''writei: bread'' (bread blockno s)) (\<lambda>(bp, s).
             let s = set_data bp (put_slice (b_data (bcache s ! bp)) boff (get_slice src tot m)) s in
             bindE (bwrite (bcache s ! bp) s) (\<lambda>s.
             bindE (brelse bp s) (\<lambda>s.
             writei_loop ip off src (tot + m) s)))))
      else Ok (tot, ip, s))"
  by pat_completeness auto

termination
  by (relation "measure (\<lambda>(ip, off, src, tot, s). length src - tot)") (auto simp: BSIZE_def)

declare readi_loop.simps [simp del] zero_fill_loop.simps [simp del] writei_loop.simps [simp del]

text \<open>The rest of \<open>_writei\<close>, from the copy loop on (lines 574 to 605).\<close>

definition writei_tail ::
    "inode \<Rightarrow> u32 \<Rightarrow> byte list \<Rightarrow> bool \<Rightarrow> 'z bstate_scheme \<Rightarrow> (nat \<times> inode \<times> 'z bstate_scheme) res" where
  "writei_tail ip off src size_changed s =
     bindE (writei_loop ip (unat off) src 0 s) (\<lambda>(tot, ip, s).
     let new_size = unat off + tot;
         ip = (if unat (i_size ip) < new_size then ip\<lparr>i_size := of_nat new_size\<rparr> else ip) in
     if 0 < tot \<or> size_changed then
       bindE (iupdate ip s) (\<lambda>s. Ok (tot, ip, s))
     else Ok (tot, ip, s))"

definition inode_writei ::
    "inode \<Rightarrow> u32 \<Rightarrow> byte list \<Rightarrow> 'z bstate_scheme \<Rightarrow> (nat \<times> inode \<times> 'z bstate_scheme) res" where
  "inode_writei ip off src s =
     (if src = [] then Ok (0, ip, s)
      else if 2 ^ 64 \<le> unat off + length src then Ok (0, ip, s)
      else if MAXFILE * BSIZE < unat off + length src then Ok (0, ip, s)
      else if i_size ip < off then
        bindE (zero_fill ip (i_size ip) off s) (\<lambda>(ok, ip, s).
        if \<not> ok then Ok (0, ip, s)
        else writei_tail (ip\<lparr>i_size := off\<rparr>) off src True s)
      else writei_tail ip off src False s)"

fun itrunc_direct :: "nat list \<Rightarrow> inode \<Rightarrow> 'z bstate_scheme \<Rightarrow> (inode \<times> 'z bstate_scheme) res" where
  "itrunc_direct [] ip s = Ok (ip, s)"
| "itrunc_direct (i # is) ip s =
     (let blockno = i_addrs ip ! i in
      if blockno \<noteq> 0 then
        bindE (bfree blockno s) (\<lambda>s.
        itrunc_direct is (ip\<lparr>i_addrs := (i_addrs ip)[i := 0]\<rparr>) s)
      else itrunc_direct is ip s)"

fun itrunc_indirect :: "nat \<Rightarrow> nat list \<Rightarrow> 'z bstate_scheme \<Rightarrow> 'z bstate_scheme res" where
  "itrunc_indirect bp [] s = Ok s"
| "itrunc_indirect bp (i # is) s =
     (let blockno = ind_entry (b_data (bcache s ! bp)) i in
      if blockno \<noteq> 0 then
        bindE (bfree blockno s) (\<lambda>s. itrunc_indirect bp is s)
      else itrunc_indirect bp is s)"

definition itrunc :: "inode \<Rightarrow> 'z bstate_scheme \<Rightarrow> (inode \<times> 'z bstate_scheme) res" where
  "itrunc ip s =
     bindE (itrunc_direct [0..<NDIRECT] ip s) (\<lambda>(ip, s).
     let indirect_block = i_addrs ip ! NDIRECT in
     bindE
       (if indirect_block \<noteq> 0 then
          bindE (expect ''itrunc: bread indirect'' (bread indirect_block s)) (\<lambda>(bp, s).
          bindE (itrunc_indirect bp [0..<NINDIRECT] s) (\<lambda>s.
          bindE (brelse bp s) (\<lambda>s.
          bindE (bfree indirect_block s) (\<lambda>s.
          Ok (ip\<lparr>i_addrs := (i_addrs ip)[NDIRECT := 0]\<rparr>, s)))))
        else Ok (ip, s))
       (\<lambda>(ip, s).
     let ip = ip\<lparr>i_size := 0\<rparr> in
     bindE (iupdate ip s) (\<lambda>s. Ok (ip, s))))"

section \<open>Storing a chunk in a mapped block\<close>

definition mapped :: "(nat \<Rightarrow> byte list) \<Rightarrow> inode \<Rightarrow> nat \<Rightarrow> bool" where
  "mapped dk ip k \<longleftrightarrow> bmap dk ip (k div BSIZE) \<noteq> 0"

lemma mapped_evolves:
  assumes "evolves dk ip dk' ip'" and "mapped dk ip k"
  shows "mapped dk' ip' k"
proof -
  have "k div BSIZE < MAXFILE" using assms(2) bmap_large [of "k div BSIZE" dk ip] by (force simp: mapped_def)
  with assms show ?thesis using evolvesD(8) by (metis mapped_def)
qed

lemma evolves_store:
  assumes ok: "disk_ok dk" "inode_ok dk ip" and n: "n < MAXFILE" "bmap dk ip n \<noteq> 0"
    and d: "boff + length d \<le> BSIZE"
    and dk': "dk' = dk(unat (bmap dk ip n) := put_slice (dk (unat (bmap dk ip n))) boff d)"
  shows "evolves dk ip dk' ip"
    and "fdata dk' ip k = (if n * BSIZE + boff \<le> k \<and> k < n * BSIZE + boff + length d
        then d ! (k - (n * BSIZE + boff)) else fdata dk ip k)"
proof -
  let ?x = "unat (bmap dk ip n)"
  have x: "data_block ?x" "?x \<in> iblocks dk ip"
    using ok(2) n bmap_iblocks bmap_data_block by auto
  have ind: "?x \<noteq> unat (i_addrs ip ! NDIRECT)"
    using ok(2) n by (simp add: inode_ok_def flip: word_unat_eq_iff)
  have maps: "bmap dk' ip m = bmap dk ip m" for m
    using ind by (auto simp: bmap_def dk')
  have ib: "iblocks dk' ip = iblocks dk ip" by (simp add: iblocks_def maps)
  have used: "blk_used dk' m = blk_used dk m" for m
    using data_block_range [OF x(1)] by (auto simp: blk_used_def dk')
  have "inode_ok dk' ip" using ok(2) by (simp add: inode_ok_def maps ib used)
  moreover have "dk' y = dk y" if "y < BMAPSTART \<or> y \<notin> iblocks dk ip" for y
    using that x(2) data_block_range [OF x(1)] by (auto simp: dk')
  ultimately show "evolves dk ip dk' ip"
    by (simp add: evolves_def maps ib used)
  have len: "length (dk ?x) = BSIZE" using ok(1) by (simp add: disk_ok_def)
  show "fdata dk' ip k = (if n * BSIZE + boff \<le> k \<and> k < n * BSIZE + boff + length d
      then d ! (k - (n * BSIZE + boff)) else fdata dk ip k)"
  proof (cases "k div BSIZE = n")
    case True
    have k: "k = n * BSIZE + k mod BSIZE" using True by auto
    have m: "k mod BSIZE < BSIZE" by (simp add: BSIZE_def)
    have "dk' ?x ! (k mod BSIZE) = (if boff \<le> k mod BSIZE \<and> k mod BSIZE < boff + length d
        then d ! (k mod BSIZE - boff) else dk ?x ! (k mod BSIZE))"
      using d len m by (simp add: dk' nth_put_slice)
    moreover have "n * BSIZE + boff \<le> k \<longleftrightarrow> boff \<le> k mod BSIZE"
        "k < n * BSIZE + boff + length d \<longleftrightarrow> k mod BSIZE < boff + length d"
        "k - (n * BSIZE + boff) = k mod BSIZE - boff"
      using k by linarith+
    ultimately show ?thesis using True n by (simp add: fdata_def maps)
  next
    case False
    let ?y = "bmap dk ip (k div BSIZE)"
    have "\<not> (n * BSIZE + boff \<le> k \<and> k < n * BSIZE + boff + length d)"
    proof
      assume "n * BSIZE + boff \<le> k \<and> k < n * BSIZE + boff + length d"
      then have "k div BSIZE = n" using d by (intro div_nat_eqI) (auto simp: mult.commute)
      with False show False by simp
    qed
    moreover have "dk' (unat ?y) = dk (unat ?y)" if "?y \<noteq> 0"
    proof -
      have "k div BSIZE < MAXFILE" using that bmap_large [of "k div BSIZE" dk ip] by force
      then have "?y \<noteq> bmap dk ip n" using ok(2) n False that by (auto simp: inode_ok_def)
      then show ?thesis by (simp add: dk' flip: word_unat_eq_iff)
    qed
    ultimately show ?thesis by (auto simp: fdata_def maps)
  qed
qed

text \<open>One round of the loops of \<open>zero_fill\<close> and \<open>_writei\<close>.\<close>

lemma alloc_store:
  assumes inv: "bc_inv s" "2 \<le> nfree s" and ok: "inode_ok (disk s) ip" and n: "n < MAXFILE"
    and d: "boff + length d \<le> BSIZE"
  obtains (full) ip1 s1 where "bmap_alloc ip (of_nat n) s = Ok (None, ip1, s1)" "bframe s s1"
      "evolves (disk s) ip (disk s1) ip1" "\<And>k. fdata (disk s1) ip1 k = fdata (disk s) ip k"
      "\<forall>x. data_block x \<longrightarrow> blk_used (disk s1) x"
  | (got) b ip1 s1 bp s2 s3 s4 where "bmap_alloc ip (of_nat n) s = Ok (Some b, ip1, s1)"
      "bread b s1 = (Some bp, s2)"
      "bwrite (bcache (set_data bp (put_slice (b_data (bcache s2 ! bp)) boff d) s2) ! bp)
         (set_data bp (put_slice (b_data (bcache s2 ! bp)) boff d) s2) = Ok s3"
      "brelse bp s3 = Ok s4" "bframe s s4" "evolves (disk s) ip (disk s4) ip1"
      "\<And>k. fdata (disk s4) ip1 k = (if n * BSIZE + boff \<le> k \<and> k < n * BSIZE + boff + length d
         then d ! (k - (n * BSIZE + boff)) else fdata (disk s) ip k)"
      "bmap (disk s4) ip1 n \<noteq> 0"
proof -
  obtain r ip1 s1 where r: "bmap_alloc ip (of_nat n) s = Ok (r, ip1, s1)"
      and post: "alloc_post s ip n r ip1 s1"
    by (rule bmap_alloc_spec [OF inv ok n])
  from post have f1: "bframe s s1" and e1: "evolves (disk s) ip (disk s1) ip1"
    and k1: "\<And>k. fdata (disk s1) ip1 k = fdata (disk s) ip k"
    by (simp_all add: alloc_post_def)
  show thesis
  proof (cases r)
    case None
    then show thesis using r f1 e1 k1 post by (intro full [of ip1 s1]) (auto simp: alloc_post_def)
  next
    case (Some b)
    with post have b: "b = bmap (disk s1) ip1 n" "bmap (disk s1) ip1 n \<noteq> 0" by (auto simp: alloc_post_def)
    have inv1: "bc_inv s1" "0 < nfree s1" using bframeD [OF f1] inv by simp_all
    have ok1: "inode_ok (disk s1) ip1" by (rule evolvesD(1) [OF e1])
    have db: "unat b < FSSIZE"
      using bmap_data_block [OF ok1 n b(2)] b(1) by (simp add: data_block_def)
    let ?d = "put_slice (disk s1 (unat b)) boff d"
    have "length ?d = BSIZE" using inv1 d by simp
    with inv1(1) db inv1(2) obtain bp s2 s3 s4 where
        w: "bread b s1 = (Some bp, s2)" "b_data (bcache s2 ! bp) = disk s1 (unat b)"
        "bwrite (bcache (set_data bp ?d s2) ! bp) (set_data bp ?d s2) = Ok s3"
        "brelse bp s3 = Ok s4" "disk s4 = (disk s1)(unat b := ?d)" "bframe s1 s4"
      by (rule write_block)
    note st = evolves_store [OF bc_inv_disk_ok [OF inv1(1)] ok1 n b(2) d w(5) [unfolded b(1)]]
    show thesis
    proof (rule got [of b ip1 s1 bp s2 s3 s4])
      show "bmap (disk s4) ip1 n \<noteq> 0" using evolvesD(8) [OF st(1) n b(2)] b(2) by simp
      show "evolves (disk s) ip (disk s4) ip1" by (rule evolves_trans [OF e1 st(1)])
      show "bframe s s4" by (rule bframe_trans [OF f1 w(6)])
    qed (use r Some w st(2) k1 in simp_all)
  qed
qed

text \<open>The effect of a run of rounds: the bytes \<open>d\<close> are in the file at offset \<open>a\<close>.\<close>

definition stored ::
    "'z bstate_scheme \<Rightarrow> inode \<Rightarrow> nat \<Rightarrow> byte list \<Rightarrow> 'z bstate_scheme \<Rightarrow> inode \<Rightarrow> bool" where
  "stored s ip a d s' ip' \<longleftrightarrow> bframe s s' \<and> evolves (disk s) ip (disk s') ip' \<and>
     (\<forall>k. fdata (disk s') ip' k = (if a \<le> k \<and> k < a + length d then d ! (k - a) else fdata (disk s) ip k)) \<and>
     (\<forall>k. a \<le> k \<longrightarrow> k < a + length d \<longrightarrow> mapped (disk s') ip' k)"

lemma stored_refl: "bc_inv s \<Longrightarrow> inode_ok (disk s) ip \<Longrightarrow> stored s ip a [] s ip"
  by (auto simp: stored_def evolves_refl)

lemma storedD:
  assumes "stored s ip a d s' ip'"
  shows "bframe s s'" "evolves (disk s) ip (disk s') ip'"
    "\<And>k. fdata (disk s') ip' k = (if a \<le> k \<and> k < a + length d then d ! (k - a) else fdata (disk s) ip k)"
    "\<And>k. a \<le> k \<Longrightarrow> k < a + length d \<Longrightarrow> mapped (disk s') ip' k"
  using assms unfolding stored_def by blast+

lemma stored_trans:
  assumes 1: "stored s ip a d s1 ip1" and 2: "stored s1 ip1 (a + length d) e s2 ip2"
  shows "stored s ip a (d @ e) s2 ip2"
  unfolding stored_def
proof (intro conjI allI impI)
  show "bframe s s2" by (rule bframe_trans [OF storedD(1) [OF 1] storedD(1) [OF 2]])
  show "evolves (disk s) ip (disk s2) ip2" by (rule evolves_trans [OF storedD(2) [OF 1] storedD(2) [OF 2]])
next
  fix k
  show "fdata (disk s2) ip2 k =
      (if a \<le> k \<and> k < a + length (d @ e) then (d @ e) ! (k - a) else fdata (disk s) ip k)"
    by (auto simp: storedD(3) [OF 1] storedD(3) [OF 2] nth_append)
  assume k: "a \<le> k" "k < a + length (d @ e)"
  show "mapped (disk s2) ip2 k"
  proof (cases "k < a + length d")
    case True
    then show ?thesis using mapped_evolves [OF storedD(2) [OF 2] storedD(4) [OF 1 k(1)]] by blast
  next
    case False
    then show ?thesis using k by (intro storedD(4) [OF 2]) auto
  qed
qed

text \<open>The block of a round: the chunk lies in one block, and it is not empty.\<close>

lemma chunk_block:
  fixes cur n :: nat
  assumes "m = min n (BSIZE - cur mod BSIZE)" and "0 < n"
  shows "0 < m" "m \<le> n" "cur mod BSIZE + m \<le> BSIZE" "cur div BSIZE * BSIZE + cur mod BSIZE = cur"
    and "\<And>k. cur \<le> k \<Longrightarrow> k < cur + m \<Longrightarrow> k div BSIZE = cur div BSIZE"
proof -
  have b: "cur mod BSIZE < BSIZE" by (simp add: BSIZE_def)
  show "0 < m" "m \<le> n" using assms b by auto
  show m: "cur mod BSIZE + m \<le> BSIZE" using assms(1) b by simp
  show "cur div BSIZE * BSIZE + cur mod BSIZE = cur" by simp
  have c: "BSIZE * (cur div BSIZE) + cur mod BSIZE = cur" by simp
  show "k div BSIZE = cur div BSIZE" if "cur \<le> k" "k < cur + m" for k
  proof (rule div_nat_eqI)
    show "BSIZE * (cur div BSIZE) \<le> k" using that c by linarith
    show "k < BSIZE * Suc (cur div BSIZE)" unfolding mult_Suc_right using that c m by linarith
  qed
qed

lemma chunk_maxfile: "cur < MAXFILE * BSIZE \<Longrightarrow> cur div BSIZE < MAXFILE"
  by (simp add: less_mult_imp_div_less)

lemma get_slice_chunks:
  assumes "tot + m + n \<le> length src"
  shows "get_slice src tot m @ get_slice src (tot + m) n = get_slice src tot (m + n)"
  using assms by (simp add: get_slice_def take_add add.commute)

lemma store_round:
  assumes inv: "bc_inv s" "2 \<le> nfree s" and ok: "inode_ok (disk s) ip"
    and cur: "cur < MAXFILE * BSIZE" and m: "m = min n (BSIZE - cur mod BSIZE)" "0 < n" and d: "length d = m"
  obtains (full) ip1 s1 where "bmap_alloc ip (of_nat (cur div BSIZE)) s = Ok (None, ip1, s1)"
      "stored s ip cur [] s1 ip1" "\<forall>x. data_block x \<longrightarrow> blk_used (disk s1) x"
  | (got) b ip1 s1 bp s2 s3 s4 where "bmap_alloc ip (of_nat (cur div BSIZE)) s = Ok (Some b, ip1, s1)"
      "bread b s1 = (Some bp, s2)"
      "bwrite (bcache (set_data bp (put_slice (b_data (bcache s2 ! bp)) (cur mod BSIZE) d) s2) ! bp)
         (set_data bp (put_slice (b_data (bcache s2 ! bp)) (cur mod BSIZE) d) s2) = Ok s3"
      "brelse bp s3 = Ok s4" "stored s ip cur d s4 ip1"
      "bc_inv s4" "2 \<le> nfree s4" "inode_ok (disk s4) ip1"
proof -
  note c = chunk_block [OF m]
  have "cur mod BSIZE + length d \<le> BSIZE" using c(3) d by simp
  with inv ok chunk_maxfile [OF cur] show thesis
  proof (cases rule: alloc_store)
    case (full ip1 s1)
    then show thesis by (intro that(1) [of ip1 s1]) (auto simp: stored_def)
  next
    case (got b ip1 s1 bp s2 s3 s4)
    have "stored s ip cur d s4 ip1"
      unfolding stored_def mapped_def
    proof (intro conjI allI impI)
      show "bmap (disk s4) ip1 (k div BSIZE) \<noteq> 0" if "cur \<le> k" "k < cur + length d" for k
        using that d got(8) c(5) [of k] by simp
      show "fdata (disk s4) ip1 k =
          (if cur \<le> k \<and> k < cur + length d then d ! (k - cur) else fdata (disk s) ip k)" for k
        using got(7) [of k] unfolding c(4) .
    qed (rule got)+
    moreover have "bc_inv s4" "2 \<le> nfree s4" using bframeD [OF got(5)] inv(2) by simp_all
    ultimately show thesis using got evolvesD(1) by (intro that(2) [of b ip1 s1 bp s2 s3 s4]) blast+
  qed
qed

lemma writei_loop_spec:
  assumes "bc_inv s" and "2 \<le> nfree s" and "inode_ok (disk s) ip"
    and len: "off + length src \<le> MAXFILE * BSIZE" and "tot \<le> length src"
  shows "\<exists>t ip' s'. writei_loop ip off src tot s = Ok (t, ip', s') \<and> tot \<le> t \<and> t \<le> length src \<and>
     stored s ip (off + tot) (get_slice src tot (t - tot)) s' ip' \<and>
     (t < length src \<longrightarrow> (\<forall>x. data_block x \<longrightarrow> blk_used (disk s') x))"
  using assms(1-3,5)
proof (induction "length src - tot" arbitrary: ip tot s rule: less_induct)
  case less
  show ?case
  proof (cases "tot < length src")
    case False
    with less.prems show ?thesis
      by (intro exI [of _ tot] exI [of _ ip] exI [of _ s])
        (simp add: writei_loop.simps get_slice_def stored_refl)
  next
    case True
    let ?cur = "off + tot"
    define m where "m = min (length src - tot) (BSIZE - ?cur mod BSIZE)"
    let ?d = "get_slice src tot m"
    have n: "0 < length src - tot" and cur: "?cur < MAXFILE * BSIZE" using True len by auto
    note c = chunk_block [OF m_def n]
    have d: "length ?d = m" using c(2) True by simp
    from less.prems(1-3) cur m_def n d show ?thesis
    proof (cases rule: store_round)
      case (full ip1 s1)
      with True show ?thesis
        by (intro exI [of _ tot] exI [of _ ip1] exI [of _ s1])
          (simp add: writei_loop.simps [of ip] get_slice_def)
    next
      case (got b ip1 s1 bp s2 s3 s4)
      have "length src - (tot + m) < length src - tot" "tot + m \<le> length src" using c(1,2) by auto
      from less.hyps [OF this(1) got(6-8) this(2)]
      obtain t ip' s' where t: "writei_loop ip1 off src (tot + m) s4 = Ok (t, ip', s')"
          "tot + m \<le> t" "t \<le> length src"
          "stored s4 ip1 (off + (tot + m)) (get_slice src (tot + m) (t - (tot + m))) s' ip'"
          "t < length src \<longrightarrow> (\<forall>x. data_block x \<longrightarrow> blk_used (disk s') x)"
        by blast
      have "stored s ip ?cur (?d @ get_slice src (tot + m) (t - (tot + m))) s' ip'"
        by (rule stored_trans [OF got(5)]) (use t(4) in \<open>simp only: d add.assoc\<close>)
      moreover have "?d @ get_slice src (tot + m) (t - (tot + m)) = get_slice src tot (t - tot)"
        using t(2,3) get_slice_chunks [of tot m "t - (tot + m)" src] by simp
      moreover have "writei_loop ip off src tot s = Ok (t, ip', s')"
        using True got(1-4) t(1) by (simp add: writei_loop.simps [of ip] Let_def flip: m_def)
      ultimately show ?thesis using t(2,3,5)
        by (intro exI [of _ t] exI [of _ ip'] exI [of _ s']) simp
    qed
  qed
qed

lemma zero_fill_loop_spec:
  assumes "bc_inv s" and "2 \<le> nfree s" and "inode_ok (disk s) ip"
    and len: "from + len \<le> MAXFILE * BSIZE" and "tot \<le> len"
  shows "\<exists>r t ip' s'. zero_fill_loop ip from len tot s = Ok (r, ip', s') \<and> tot \<le> t \<and> t \<le> len \<and>
     stored s ip (from + tot) (replicate (t - tot) 0) s' ip' \<and> (r \<longleftrightarrow> t = len) \<and>
     (\<not> r \<longrightarrow> (\<forall>x. data_block x \<longrightarrow> blk_used (disk s') x))"
  using assms(1-3,5)
proof (induction "len - tot" arbitrary: ip tot s rule: less_induct)
  case less
  show ?case
  proof (cases "tot < len")
    case False
    with less.prems show ?thesis
      by (intro exI [of _ True] exI [of _ tot] exI [of _ ip] exI [of _ s])
        (simp add: zero_fill_loop.simps stored_refl)
  next
    case True
    let ?cur = "from + tot"
    define m where "m = min (len - tot) (BSIZE - ?cur mod BSIZE)"
    have n: "0 < len - tot" and cur: "?cur < MAXFILE * BSIZE" using True len by auto
    note c = chunk_block [OF m_def n]
    have d: "length (replicate m (0 :: byte)) = m" by simp
    from less.prems(1-3) cur m_def n d show ?thesis
    proof (cases rule: store_round)
      case (full ip1 s1)
      with True show ?thesis
        by (intro exI [of _ False] exI [of _ tot] exI [of _ ip1] exI [of _ s1])
          (simp add: zero_fill_loop.simps [of ip])
    next
      case (got b ip1 s1 bp s2 s3 s4)
      have "len - (tot + m) < len - tot" "tot + m \<le> len" using c(1,2) by auto
      from less.hyps [OF this(1) got(6-8) this(2)]
      obtain r t ip' s' where t: "zero_fill_loop ip1 from len (tot + m) s4 = Ok (r, ip', s')"
          "tot + m \<le> t" "t \<le> len" "stored s4 ip1 (from + (tot + m)) (replicate (t - (tot + m)) 0) s' ip'"
          "r \<longleftrightarrow> t = len" "\<not> r \<longrightarrow> (\<forall>x. data_block x \<longrightarrow> blk_used (disk s') x)"
        by blast
      have "stored s ip ?cur (replicate m 0 @ replicate (t - (tot + m)) 0) s' ip'"
        by (rule stored_trans [OF got(5)]) (use t(4) in \<open>simp only: d add.assoc\<close>)
      moreover have "replicate m 0 @ replicate (t - (tot + m)) 0 = replicate (t - tot) (0 :: byte)"
        using t(2) by (simp flip: replicate_add)
      moreover have "zero_fill_loop ip from len tot s = Ok (r, ip', s')"
        using True got(1-4) t(1) by (simp add: zero_fill_loop.simps [of ip] Let_def flip: m_def)
      ultimately show ?thesis using t(2,3,5,6)
        by (intro exI [of _ r] exI [of _ t] exI [of _ ip'] exI [of _ s']) simp
    qed
  qed
qed

section \<open>The file as a list of bytes\<close>

definition fcontent :: "(nat \<Rightarrow> byte list) \<Rightarrow> inode \<Rightarrow> byte list" where
  "fcontent dk ip = map (fdata dk ip) [0..<unat (i_size ip)]"

text \<open>Every byte below the size is backed by a block: a file has no holes.\<close>

definition file_ok :: "(nat \<Rightarrow> byte list) \<Rightarrow> inode \<Rightarrow> bool" where
  "file_ok dk ip \<longleftrightarrow> inode_ok dk ip \<and> unat (i_size ip) \<le> MAXFILE * BSIZE \<and>
     (\<forall>k < unat (i_size ip). mapped dk ip k)"

lemma length_fcontent [simp]: "length (fcontent dk ip) = unat (i_size ip)"
  by (simp add: fcontent_def)

lemma nth_fcontent [simp]: "k < unat (i_size ip) \<Longrightarrow> fcontent dk ip ! k = fdata dk ip k"
  by (simp add: fcontent_def)

text \<open>
  Writing \<open>d\<close> at offset \<open>off\<close> of a list of bytes: a gap between the end and \<open>off\<close> is filled with
  zeros.
\<close>

definition write_at :: "byte list \<Rightarrow> nat \<Rightarrow> byte list \<Rightarrow> byte list" where
  "write_at c off d = take off c @ replicate (off - length c) 0 @ d @ drop (off + length d) c"

lemma length_write_at: "length (write_at c off d) = max (length c) (off + length d)"
  by (simp add: write_at_def)

lemma nth_write_at:
  assumes "k < max (length c) (off + length d)"
  shows "write_at c off d ! k =
    (if off \<le> k \<and> k < off + length d then d ! (k - off) else if k < length c then c ! k else 0)"
  using assms by (auto simp: write_at_def nth_append min_def not_less not_le)

lemma read_write_at: "take (length d) (drop off (write_at c off d)) = d"
  by (simp add: write_at_def)

lemma write_at_gap: "length c \<le> off \<Longrightarrow> write_at (write_at c off []) off d = write_at c off d"
  by (simp add: write_at_def)

section \<open>Reading\<close>

lemma put_slice_chunks:
  assumes "tot + length xs \<le> length dst"
  shows "put_slice (put_slice dst tot xs) (tot + length xs) ys = put_slice dst tot (xs @ ys)"
  using assms by (simp add: put_slice_def ac_simps)

lemma fdata_chunk:
  assumes len: "length (dk (unat (bmap dk ip n))) = BSIZE" and nz: "bmap dk ip n \<noteq> 0"
    and c: "n = cur div BSIZE" "cur mod BSIZE + m \<le> BSIZE"
    and k: "\<And>k. cur \<le> k \<Longrightarrow> k < cur + m \<Longrightarrow> k div BSIZE = cur div BSIZE"
  shows "get_slice (dk (unat (bmap dk ip n))) (cur mod BSIZE) m = map (fdata dk ip) [cur..<cur + m]"
proof (rule nth_equalityI)
  show "length (get_slice (dk (unat (bmap dk ip n))) (cur mod BSIZE) m) = length (map (fdata dk ip) [cur..<cur + m])"
    using len c by simp
next
  fix i assume "i < length (get_slice (dk (unat (bmap dk ip n))) (cur mod BSIZE) m)"
  then have i: "i < m" by simp
  then have d: "(cur + i) div BSIZE = cur div BSIZE" using k [of "cur + i"] by simp
  have "BSIZE * (cur div BSIZE) + (cur + i) mod BSIZE = BSIZE * (cur div BSIZE) + (cur mod BSIZE + i)"
    using d by (metis add.assoc mult_div_mod_eq)
  then have "(cur + i) mod BSIZE = cur mod BSIZE + i" by (rule add_left_imp_eq)
  with d i len nz c show "get_slice (dk (unat (bmap dk ip n))) (cur mod BSIZE) m ! i =
      map (fdata dk ip) [cur..<cur + m] ! i"
    by (simp add: nth_get_slice fdata_def)
qed

lemma readi_loop_spec:
  assumes "bc_inv s" and "0 < nfree s" and ok: "inode_ok (disk s) ip"
    and len: "off + n \<le> MAXFILE * BSIZE" "n \<le> length dst"
    and all: "\<And>k. k < off + n \<Longrightarrow> mapped (disk s) ip k" and "tot \<le> n"
  shows "\<exists>s'. readi_loop ip off n tot dst s =
      Ok (n, put_slice dst tot (map (fdata (disk s) ip) [off + tot..<off + n]), s') \<and>
      disk s' = disk s \<and> bframe s s'"
  using assms
proof (induction "n - tot" arbitrary: tot dst s rule: less_induct)
  case less
  show ?case
  proof (cases "tot < n")
    case False
    with less.prems show ?thesis
      by (intro exI [of _ s]) (simp add: readi_loop.simps put_slice_def)
  next
    case True
    let ?cur = "off + tot" and ?dk = "disk s"
    let ?b = "bmap ?dk ip (?cur div BSIZE)"
    define m where "m = min (n - tot) (BSIZE - ?cur mod BSIZE)"
    have n: "0 < n - tot" and cur: "?cur < MAXFILE * BSIZE" using True less.prems(4) by auto
    note c = chunk_block [OF m_def n] and bn = chunk_maxfile [OF cur]
    have nz: "?b \<noteq> 0" using less.prems(6) [of ?cur] True by (simp add: mapped_def)
    have db: "unat ?b < FSSIZE"
      using bmap_data_block [OF less.prems(3) bn nz] by (simp add: data_block_def)
    obtain s1 where 1: "bmap_lookup ip (of_nat (?cur div BSIZE)) s = Ok (Some ?b, s1)"
        "disk s1 = ?dk" "bframe s s1"
      by (rule bmap_lookup_spec [OF less.prems(1-3) bn]) (use nz in auto)
    have "bc_inv s1" "0 < nfree s1" using bframeD [OF 1(3)] less.prems(2) by simp_all
    then obtain bp s2 s3 where 2: "bread ?b s1 = (Some bp, s2)" "b_data (bcache s2 ! bp) = ?dk (unat ?b)"
        "brelse bp s2 = Ok s3" "disk s3 = ?dk" "bframe s1 s3"
      using read_block [of s1 ?b] db 1(2) by metis
    let ?A = "map (fdata ?dk ip) [?cur..<?cur + m]"
    let ?dst = "put_slice dst tot ?A"
    have A: "get_slice (b_data (bcache s2 ! bp)) (?cur mod BSIZE) m = ?A"
      unfolding 2(2) by (rule fdata_chunk [OF bc_inv_disk_len [OF less.prems(1)] nz refl c(3,5)])
    have f: "bframe s s3" by (rule bframe_trans [OF 1(3) 2(5)])
    have m': "tot + m \<le> n" "n - (tot + m) < n - tot" using c(1,2) True by linarith+
    have i3: "bc_inv s3" "0 < nfree s3" using bframeD(1,3) [OF f] less.prems(2) by simp_all
    have l: "n \<le> length ?dst" using m'(1) less.prems(5) by (subst length_put_slice) simp_all
    obtain s' where s': "readi_loop ip off n (tot + m) ?dst s3 =
          Ok (n, put_slice ?dst (tot + m) (map (fdata ?dk ip) [off + (tot + m)..<off + n]), s')"
        "disk s' = ?dk" "bframe s3 s'"
      using less.hyps [OF m'(2) i3, unfolded 2(4), OF less.prems(3,4) l less.prems(6) m'(1)] by blast
    have "[?cur..<off + n] = [?cur..<?cur + m] @ [off + (tot + m)..<off + n]"
      using m'(1) upt_add_eq_append [of ?cur "?cur + m" "n - (tot + m)"] by (simp add: add.assoc)
    then have "put_slice ?dst (tot + m) (map (fdata ?dk ip) [off + (tot + m)..<off + n]) =
        put_slice dst tot (map (fdata ?dk ip) [?cur..<off + n])"
      using put_slice_chunks [of tot ?A dst] m'(1) less.prems(5) by simp
    moreover have "readi_loop ip off n tot dst s = readi_loop ip off n (tot + m) ?dst s3"
      using 1 2(1,3) A True by (simp add: readi_loop.simps [of ip off n tot] Let_def flip: m_def)
    ultimately show ?thesis
      using s' bframe_trans [OF f s'(3)] by (intro exI [of _ s']) simp
  qed
qed

lemma unat_size_sub: "\<not> i_size ip \<le> off \<Longrightarrow> unat (i_size ip - off) = unat (i_size ip) - unat off"
  by (simp add: unat_sub)

lemma inode_readi_spec:
  assumes inv: "bc_inv s" "0 < nfree s" and ok: "file_ok (disk s) ip"
  obtains s' where "inode_readi ip off dst s =
      (let d = take (length dst) (drop (unat off) (fcontent (disk s) ip)) in
       Ok (length d, d @ drop (length d) dst, s'))"
    "disk s' = disk s" "bframe s s'"
proof (cases "i_size ip \<le> off")
  case True
  then show thesis
    using inv by (intro that [of s]) (simp_all add: inode_readi_def word_le_nat_alt)
next
  case False
  let ?n = "min (length dst) (unat (i_size ip) - unat off)"
  have n: "unat off + ?n \<le> unat (i_size ip)" using False by (simp add: word_le_nat_alt)
  with ok have "unat off + ?n \<le> MAXFILE * BSIZE" "\<And>k. k < unat off + ?n \<Longrightarrow> mapped (disk s) ip k"
    by (auto simp: file_ok_def)
  with inv ok obtain s' where s': "readi_loop ip (unat off) ?n 0 dst s =
        Ok (?n, put_slice dst 0 (map (fdata (disk s) ip) [unat off + 0..<unat off + ?n]), s')"
      "disk s' = disk s" "bframe s s'"
    using readi_loop_spec [of s ip "unat off" ?n dst 0] by (auto simp: file_ok_def)
  have d: "take (length dst) (drop (unat off) (fcontent (disk s) ip)) =
      map (fdata (disk s) ip) [unat off..<unat off + ?n]"
    using False 
    by (intro nth_equalityI) (auto simp: min_def word_le_nat_alt split: if_splits)
  show thesis
    by (rule that [of s'])
      (use s' False in \<open>simp_all add: inode_readi_def unat_size_sub d put_slice_def Let_def\<close>)
qed

end
