(* ===== verification/Filespec.thy ===== *)
theory Filespec
  imports Fileio
begin

text \<open>
  The contracts of \<open>_writei\<close> and \<open>itrunc\<close> over the abstract file, and the frame all file
  operations share (\<open>file_step\<close>): an operation on one inode changes no other entry of the inode
  table, and no block that is in use and not a block of that inode.
\<close>

section \<open>The frame of an operation on one file\<close>

definition file_step :: "(nat \<Rightarrow> byte list) \<Rightarrow> inode \<Rightarrow> (nat \<Rightarrow> byte list) \<Rightarrow> inode \<Rightarrow> bool" where
  "file_step dk ip dk' ip' \<longleftrightarrow>
     inode_ok dk' ip' \<and>
     ip'\<lparr>i_addrs := [], i_size := 0\<rparr> = ip\<lparr>i_addrs := [], i_size := 0\<rparr> \<and>
     (\<forall>i. unat i < NINODES \<longrightarrow> i \<noteq> i_inum ip \<longrightarrow> dinode_at dk' i = dinode_at dk i) \<and>
     (\<forall>x < INODESTART. dk' x = dk x) \<and>
     (\<forall>x. data_block x \<longrightarrow> blk_used dk x \<longrightarrow> x \<notin> iblocks dk ip \<longrightarrow> blk_used dk' x \<and> dk' x = dk x) \<and>
     (\<forall>x \<in> iblocks dk' ip'. x \<in> iblocks dk ip \<or> \<not> blk_used dk x)"

lemma file_stepD:
  assumes "file_step dk ip dk' ip'"
  shows "inode_ok dk' ip'" "ip'\<lparr>i_addrs := [], i_size := 0\<rparr> = ip\<lparr>i_addrs := [], i_size := 0\<rparr>"
    "\<And>i. unat i < NINODES \<Longrightarrow> i \<noteq> i_inum ip \<Longrightarrow> dinode_at dk' i = dinode_at dk i"
    "\<And>x. x < INODESTART \<Longrightarrow> dk' x = dk x"
    "\<And>x. data_block x \<Longrightarrow> blk_used dk x \<Longrightarrow> x \<notin> iblocks dk ip \<Longrightarrow> blk_used dk' x \<and> dk' x = dk x"
    "\<And>x. x \<in> iblocks dk' ip' \<Longrightarrow> x \<in> iblocks dk ip \<or> \<not> blk_used dk x"
  using assms unfolding file_step_def by blast+

lemma file_step_inum: "file_step dk ip dk' ip' \<Longrightarrow> i_inum ip' = i_inum ip"
  by (drule file_stepD(2)) (drule arg_cong [where f = i_inum], simp)

lemma file_step_meta:
  assumes "file_step dk ip dk' ip'"
  shows "i_typ ip' = i_typ ip" "i_major ip' = i_major ip" "i_minor ip' = i_minor ip" "i_nlink ip' = i_nlink ip"
    "i_refcnt ip' = i_refcnt ip" "i_valid ip' = i_valid ip"
  using file_stepD(2) [OF assms] by (cases ip; cases ip'; simp)+

lemma file_step_trans:
  assumes 1: "file_step dk ip dk1 ip1" and 2: "file_step dk1 ip1 dk2 ip2"
  shows "file_step dk ip dk2 ip2"
  unfolding file_step_def
proof (intro conjI allI impI ballI)
  show "inode_ok dk2 ip2" by (rule file_stepD(1) [OF 2])
  show "ip2\<lparr>i_addrs := [], i_size := 0\<rparr> = ip\<lparr>i_addrs := [], i_size := 0\<rparr>"
    by (rule trans [OF file_stepD(2) [OF 2] file_stepD(2) [OF 1]])
next
  fix i assume i: "unat i < NINODES" "i \<noteq> i_inum ip"
  then have "dinode_at dk2 i = dinode_at dk1 i"
    using file_step_inum [OF 1] by (intro file_stepD(3) [OF 2]) auto
  also have "\<dots> = dinode_at dk i" by (rule file_stepD(3) [OF 1 i])
  finally show "dinode_at dk2 i = dinode_at dk i" .
next
  fix x assume "x < INODESTART"
  then show "dk2 x = dk x"
    using file_stepD(4) [OF 1, of x] file_stepD(4) [OF 2, of x] by simp
next
  fix x assume x: "data_block x" "blk_used dk x" "x \<notin> iblocks dk ip"
  from file_stepD(5) [OF 1 x] have x1: "blk_used dk1 x" "dk1 x = dk x" by auto
  have "x \<notin> iblocks dk1 ip1" using file_stepD(6) [OF 1] x by blast
  from file_stepD(5) [OF 2 x(1) x1(1) this] x1(2)
  show "blk_used dk2 x" "dk2 x = dk x" by auto
next
  fix x assume x: "x \<in> iblocks dk2 ip2"
  have d: "data_block x" using x inode_ok_blocks [OF file_stepD(1) [OF 2]] by blast
  from file_stepD(6) [OF 2 x] show "x \<in> iblocks dk ip \<or> \<not> blk_used dk x"
    using file_stepD(6) [OF 1, of x] file_stepD(5) [OF 1 d] by blast
qed

lemma file_step_refl: "inode_ok dk ip \<Longrightarrow> file_step dk ip dk ip"
  by (simp add: file_step_def)

lemma evolves_file_step:
  assumes "evolves dk ip dk' ip'"
  shows "file_step dk ip dk' ip'"
proof -
  have "ip'\<lparr>i_addrs := [], i_size := 0\<rparr> = ip\<lparr>i_addrs := [], i_size := 0\<rparr>"
    using arg_cong [OF evolvesD(2) [OF assms], where f = "i_size_update (\<lambda>_. 0)"] by simp
  moreover have "dinode_at dk' i = dinode_at dk i" if "unat i < NINODES" for i
    using that evolvesD(3) [OF assms] by (rule dinode_at_frame)
  moreover have "dk' x = dk x" if "x < INODESTART" for x
    using that by (intro evolvesD(3) [OF assms]) (simp add: layout_defs)
  ultimately show ?thesis
    unfolding file_step_def using evolvesD(1,4,5,7) [OF assms] by blast
qed

text \<open>The blocks of a file depend on the addresses, the bitmap and the data area only.\<close>

lemma same_blocks:
  assumes ok: "inode_ok dk ip" and "i_addrs ip' = i_addrs ip" and dk: "\<And>x. BMAPSTART \<le> x \<Longrightarrow> dk' x = dk x"
  shows "bmap dk' ip' = bmap dk ip" "iblocks dk' ip' = iblocks dk ip" "inode_ok dk' ip'"
    "fdata dk' ip' = fdata dk ip" "mapped dk' ip' = mapped dk ip" "\<And>x. blk_used dk' x = blk_used dk x"
proof -
  have ind: "dk' (unat (i_addrs ip ! NDIRECT)) = dk (unat (i_addrs ip ! NDIRECT))" if "i_addrs ip ! NDIRECT \<noteq> 0"
    using data_block_range [OF ind_data_block [OF ok that]] by (intro dk) simp
  show b: "bmap dk' ip' = bmap dk ip" using assms(2) ind by (auto simp: bmap_def fun_eq_iff)
  then show ib: "iblocks dk' ip' = iblocks dk ip" using assms(2) by (simp add: iblocks_def)
  show u: "blk_used dk' x = blk_used dk x" for x using dk by (simp add: blk_used_def)
  show "inode_ok dk' ip'" using ok assms(2) by (simp add: inode_ok_def b ib u)
  show "mapped dk' ip' = mapped dk ip" by (simp add: mapped_def b fun_eq_iff)
  show "fdata dk' ip' = fdata dk ip"
  proof
    fix k
    show "fdata dk' ip' k = fdata dk ip k"
    proof (cases "k div BSIZE < MAXFILE \<and> bmap dk ip (k div BSIZE) \<noteq> 0")
      case True
      then have "data_block (unat (bmap dk ip (k div BSIZE)))" using bmap_data_block [OF ok] by blast
      then have "dk' (unat (bmap dk ip (k div BSIZE))) = dk (unat (bmap dk ip (k div BSIZE)))"
        by (intro dk) (use data_block_range in fastforce)
      then show ?thesis by (simp add: fdata_def b)
    next
      case False
      then show ?thesis using bmap_large [of "k div BSIZE" dk ip] by (auto simp: fdata_def b not_less)
    qed
  qed
qed

lemma file_step_put_dinode:
  assumes dk: "disk_ok dk" and ok: "inode_ok dk ip" and i: "unat (i_inum ip) < NINODES" and d: "dinode_ok d"
    and ip': "ip' = ip\<lparr>i_size := z\<rparr>"
  shows "file_step dk ip (put_dinode (i_inum ip) d dk) ip'"
proof -
  have a: "i_addrs ip' = i_addrs ip" by (simp add: ip')
  have "put_dinode (i_inum ip) d dk x = dk x" if "BMAPSTART \<le> x" for x
    using that by (rule put_dinode_frame [OF i])
  note sb = same_blocks [OF ok a this]
  have x: "put_dinode (i_inum ip) d dk x = dk x" if "data_block x \<or> x < INODESTART" for x
    using that data_block_range [of x] iblock_range [OF i] by (auto simp: put_dinode_def)
  show ?thesis
    unfolding file_step_def using sb x dinode_at_put_other [OF dk d]
    by (auto simp: ip')
qed

lemma file_step_size:
  assumes "inode_ok dk ip" and "ip' = ip\<lparr>i_size := z\<rparr>"
  shows "file_step dk ip dk ip'"
proof -
  have "i_addrs ip' = i_addrs ip" by (simp add: assms(2))
  from same_blocks(2,3) [OF assms(1) this refl] show ?thesis
    by (simp add: file_step_def assms(2))
qed

section \<open>Files do not interfere\<close>

lemma file_step_other:
  assumes st: "file_step dk ip dk' ip'" and ok: "inode_ok dk jp"
    and dis: "iblocks dk ip \<inter> iblocks dk jp = {}"
  shows "inode_ok dk' jp" "fdata dk' jp = fdata dk jp" "bmap dk' jp = bmap dk jp"
    "iblocks dk' jp = iblocks dk jp" "iblocks dk' ip' \<inter> iblocks dk' jp = {}"
proof -
  have keep: "blk_used dk' x \<and> dk' x = dk x" if "x \<in> iblocks dk jp" for x
    using that file_stepD(5) [OF st] inode_ok_blocks [OF ok that] dis by blast
  have ind: "dk' (unat (i_addrs jp ! NDIRECT)) = dk (unat (i_addrs jp ! NDIRECT))" if "i_addrs jp ! NDIRECT \<noteq> 0"
    using keep ind_iblocks [OF that] by blast
  show b: "bmap dk' jp = bmap dk jp" using ind by (auto simp: bmap_def fun_eq_iff)
  show ib: "iblocks dk' jp = iblocks dk jp" by (simp add: iblocks_def b)
  show "inode_ok dk' jp" using ok keep by (simp add: inode_ok_def b ib)
  show "fdata dk' jp = fdata dk jp"
  proof
    fix k
    have "dk' (unat (bmap dk jp (k div BSIZE))) = dk (unat (bmap dk jp (k div BSIZE)))"
      if "bmap dk jp (k div BSIZE) \<noteq> 0"
      using that keep bmap_iblocks bmap_large [of "k div BSIZE" dk jp] by (metis not_less)
    then show "fdata dk' jp k = fdata dk jp k" by (simp add: fdata_def b)
  qed
  show "iblocks dk' ip' \<inter> iblocks dk' jp = {}"
    using file_stepD(6) [OF st] inode_ok_blocks [OF ok] dis by (auto simp: ib)
qed

section \<open>Writing\<close>

lemma file_ok_same:
  assumes "file_ok dk ip" and "\<And>x. BMAPSTART \<le> x \<Longrightarrow> dk' x = dk x"
  shows "file_ok dk' ip" "fcontent dk' ip = fcontent dk ip"
proof -
  have "inode_ok dk ip" using assms(1) by (simp add: file_ok_def)
  note sb = same_blocks [OF this refl assms(2)]
  show "file_ok dk' ip" using assms(1) sb(3) by (simp add: file_ok_def sb(5))
  show "fcontent dk' ip = fcontent dk ip" by (simp add: fcontent_def sb(4))
qed

lemma evolves_size: "evolves dk ip dk' ip' \<Longrightarrow> i_size ip' = i_size ip"
  by (drule evolvesD(2)) (drule arg_cong [where f = i_size], simp)

lemma evolves_inum: "evolves dk ip dk' ip' \<Longrightarrow> i_inum ip' = i_inum ip"
  by (drule evolvesD(2)) (drule arg_cong [where f = i_inum], simp)

lemma unat_fsize: "n \<le> MAXFILE * BSIZE \<Longrightarrow> unat (of_nat n :: u32) = n"
  by (simp add: layout_values BSIZE_def unat_of_nat take_bit_nat_eq_self)

text \<open>Growing the size of a file to the end of what has been stored makes the bytes part of it.\<close>

lemma stored_content:
  assumes ok: "file_ok (disk s) ip" and st: "stored s ip a d s1 ip1" and a: "a \<le> unat (i_size ip)"
    and z: "unat z = max (unat (i_size ip)) (a + length d)" "a + length d \<le> MAXFILE * BSIZE"
    and ip2: "ip2 = ip1\<lparr>i_size := z\<rparr>"
  shows "file_ok (disk s1) ip2" "fcontent (disk s1) ip2 = write_at (fcontent (disk s) ip) a d"
    "file_step (disk s) ip (disk s1) ip2"
proof -
  have ok1: "inode_ok (disk s1) ip1" by (rule evolvesD(1) [OF storedD(2) [OF st]])
  have "i_addrs ip2 = i_addrs ip1" by (simp add: ip2)
  note sb = same_blocks [OF ok1 this refl]
  have "mapped (disk s1) ip1 k" if "k < unat z" for k
  proof (cases "k < unat (i_size ip)")
    case True
    with ok have "mapped (disk s) ip k" by (simp add: file_ok_def)
    then show ?thesis by (rule mapped_evolves [OF storedD(2) [OF st]])
  next
    case False
    with that a z show ?thesis by (intro storedD(4) [OF st]) auto
  qed
  moreover have "i_size ip2 = z" by (simp add: ip2)
  ultimately show "file_ok (disk s1) ip2" using ok z sb(3) by (simp add: file_ok_def sb(5))
  show "fcontent (disk s1) ip2 = write_at (fcontent (disk s) ip) a d"
  proof (rule nth_equalityI)
    show "length (fcontent (disk s1) ip2) = length (write_at (fcontent (disk s) ip) a d)"
      using z by (simp add: ip2 length_write_at)
  next
    fix k assume "k < length (fcontent (disk s1) ip2)"
    then have k: "k < max (unat (i_size ip)) (a + length d)" using z by (simp add: ip2)
    then have "fcontent (disk s1) ip2 ! k = fdata (disk s1) ip1 k" using z by (simp add: ip2 flip: sb(4))
    with k a show "fcontent (disk s1) ip2 ! k = write_at (fcontent (disk s) ip) a d ! k"
      by (auto simp: nth_write_at storedD(3) [OF st])
  qed
  show "file_step (disk s) ip (disk s1) ip2"
    by (rule file_step_trans [OF evolves_file_step [OF storedD(2) [OF st]] file_step_size [OF ok1 ip2]])
qed

definition write_post ::
    "'z bstate_scheme \<Rightarrow> inode \<Rightarrow> u32 \<Rightarrow> byte list \<Rightarrow> nat \<Rightarrow> inode \<Rightarrow> 'z bstate_scheme \<Rightarrow> bool" where
  "write_post s ip off src t ip' s' \<longleftrightarrow> bframe s s' \<and> file_step (disk s) ip (disk s') ip' \<and>
     file_ok (disk s') ip' \<and> t \<le> length src \<and>
     fcontent (disk s') ip' = write_at (fcontent (disk s) ip) (unat off) (take t src) \<and>
     (t < length src \<longrightarrow> (\<forall>x. data_block x \<longrightarrow> blk_used (disk s') x))"

text \<open>
  What every operation on one file through its guard does: the frame holds, the file is well
  formed afterwards, and the inode on the disk is the one in memory, or the operation ran out
  of blocks and has only mapped blocks that the inode on the disk does not know.
\<close>

definition file_op :: "'z bstate_scheme \<Rightarrow> inode \<Rightarrow> 'z bstate_scheme \<Rightarrow> inode \<Rightarrow> bool" where
  "file_op s ip s' ip' \<longleftrightarrow> bframe s s' \<and> file_step (disk s) ip (disk s') ip' \<and> file_ok (disk s') ip' \<and>
     (dinode_at (disk s') (i_inum ip) = dinode_of ip' \<or> evolves (disk s) ip (disk s') ip')"

lemma file_op_same:
  assumes "file_ok (disk s) ip" and "bframe s s'" and "disk s' = disk s"
  shows "file_op s ip s' ip"
  using assms by (auto simp: file_op_def file_ok_def file_step_refl evolves_refl)

lemma dinode_ok_of: "inode_ok dk ip \<Longrightarrow> dinode_ok (dinode_of ip)"
  by (simp add: inode_ok_def dinode_ok_def dinode_of_def)

lemma iupdate_spec:
  assumes inv: "bc_inv s" "0 < nfree s" and ok: "file_ok (disk s) ip" and i: "unat (i_inum ip) < NINODES"
  obtains s' where "iupdate ip s = Ok s'" "bframe s s'" "file_step (disk s) ip (disk s') ip"
    "file_ok (disk s') ip" "fcontent (disk s') ip = fcontent (disk s) ip"
    "dinode_at (disk s') (i_inum ip) = dinode_of ip" "\<forall>x \<ge> BMAPSTART. disk s' x = disk s x"
proof -
  have iok: "inode_ok (disk s) ip" using ok by (simp add: file_ok_def)
  note dok = dinode_ok_of [OF iok]
  obtain s' where s': "write_dinode (i_inum ip) (dinode_of ip) s = Ok s'"
      "disk s' = put_dinode (i_inum ip) (dinode_of ip) (disk s)" "bframe s s'"
    by (rule write_dinode_spec [OF inv i dok])
  have x: "disk s' x = disk s x" if "BMAPSTART \<le> x" for x
    using put_dinode_frame [OF i that] s'(2) by simp
  show thesis
  proof (rule that [of s'])
    show "file_step (disk s) ip (disk s') ip"
      unfolding s'(2) by (rule file_step_put_dinode [OF _ iok i dok, where z = "i_size ip"]) (use inv in simp_all)
    show "dinode_at (disk s') (i_inum ip) = dinode_of ip"
      unfolding s'(2) by (rule dinode_at_put_same [OF _ dok]) (use inv in simp)
    show "file_ok (disk s') ip" "fcontent (disk s') ip = fcontent (disk s) ip"
      by (rule file_ok_same [OF ok], erule x)+
  qed (use s' x in \<open>simp_all add: iupdate_def\<close>)
qed

lemma writei_tail_spec:
  assumes inv: "bc_inv s" "2 \<le> nfree s" and ok: "file_ok (disk s) ip" and i: "unat (i_inum ip) < NINODES"
    and off: "unat off \<le> unat (i_size ip)" "unat off + length src \<le> MAXFILE * BSIZE"
  obtains t ip' s' where "writei_tail ip off src sc s = Ok (t, ip', s')" "write_post s ip off src t ip' s'"
    "0 < t \<or> sc \<Longrightarrow> dinode_at (disk s') (i_inum ip) = dinode_of ip'"
    "\<not> (0 < t \<or> sc) \<Longrightarrow> evolves (disk s) ip (disk s') ip'"
proof -
  have iok: "inode_ok (disk s) ip" using ok by (simp add: file_ok_def)
  obtain t ip1 s1 where l: "writei_loop ip (unat off) src 0 s = Ok (t, ip1, s1)" "t \<le> length src"
      "stored s ip (unat off) (take t src) s1 ip1"
      "t < length src \<longrightarrow> (\<forall>x. data_block x \<longrightarrow> blk_used (disk s1) x)"
    using writei_loop_spec [OF inv iok off(2), of 0] by (auto simp: get_slice_def)
  have sz: "i_size ip1 = i_size ip" "i_inum ip1 = i_inum ip"
    using storedD(2) [OF l(3)] by (simp_all add: evolves_size evolves_inum)
  define z where "z = (if unat (i_size ip) < unat off + t then of_nat (unat off + t) else i_size ip)"
  define ip2 where "ip2 = ip1\<lparr>i_size := z\<rparr>"
  have fits: "unat off + t \<le> MAXFILE * BSIZE" using l(2) off(2) by linarith
  have z: "unat z = max (unat (i_size ip)) (unat off + length (take t src))"
    unfolding z_def using l(2) unat_fsize [OF fits] by (auto simp: min_def simp del: of_nat_add)
  have fits': "unat off + length (take t src) \<le> MAXFILE * BSIZE" using fits by simp
  note st = stored_content [OF ok l(3) off(1) z fits' ip2_def]
  have ip2: "(if unat (i_size ip1) < unat off + t then ip1\<lparr>i_size := of_nat (unat off + t)\<rparr> else ip1) = ip2"
    using sz by (auto simp: ip2_def z_def)
  have tl: "writei_tail ip off src sc s =
      (if 0 < t \<or> sc then bindE (iupdate ip2 s1) (\<lambda>s. Ok (t, ip2, s)) else Ok (t, ip2, s1))"
    by (simp only: writei_tail_def l(1) bindE_simps prod.case Let_def ip2)
  have f1: "bframe s s1" by (rule storedD(1) [OF l(3)])
  have inv1: "bc_inv s1" "0 < nfree s1" using bframeD [OF f1] inv by simp_all
  have i2: "unat (i_inum ip2) < NINODES" "i_inum ip2 = i_inum ip" using i sz by (simp_all add: ip2_def)
  show thesis
  proof (cases "0 < t \<or> sc")
    case False
    have "write_post s ip off src t ip2 s1" using st l f1 by (simp add: write_post_def)
    moreover have "z = i_size ip" using False off(1) by (simp add: z_def)
    then have "ip2 = ip1" using sz by (simp add: ip2_def)
    with storedD(2) [OF l(3)] have "evolves (disk s) ip (disk s1) ip2" by simp
    ultimately show thesis
      using False tl by (intro that [of t ip2 s1]) simp_all
  next
    case True
    obtain s2 where 2: "iupdate ip2 s1 = Ok s2" "bframe s1 s2" "file_step (disk s1) ip2 (disk s2) ip2"
        "file_ok (disk s2) ip2" "fcontent (disk s2) ip2 = fcontent (disk s1) ip2"
        "dinode_at (disk s2) (i_inum ip2) = dinode_of ip2" "\<forall>x \<ge> BMAPSTART. disk s2 x = disk s1 x"
      by (rule iupdate_spec [OF inv1 st(1) i2(1)])
    have "blk_used (disk s2) x = blk_used (disk s1) x" for x using 2(7) by (simp add: blk_used_def)
    then have "write_post s ip off src t ip2 s2"
      using st l(2,4) 2(4,5) bframe_trans [OF f1 2(2)] file_step_trans [OF st(3) 2(3)]
      by (simp add: write_post_def)
    then show thesis using True 2(1,6) i2(2) by (intro that [of t ip2 s2]) (simp_all add: tl)
  qed
qed

lemma stored_beyond:
  assumes ok: "file_ok (disk s) ip" and st: "stored s ip a d s1 ip1" and a: "unat (i_size ip) \<le> a"
  shows "file_ok (disk s1) ip1" "fcontent (disk s1) ip1 = fcontent (disk s) ip"
    "file_step (disk s) ip (disk s1) ip1"
proof -
  note e = storedD(2) [OF st]
  have sz: "i_size ip1 = i_size ip" by (rule evolves_size [OF e])
  show "file_ok (disk s1) ip1"
    using ok evolvesD(1) [OF e] mapped_evolves [OF e] by (simp add: file_ok_def sz)
  show "fcontent (disk s1) ip1 = fcontent (disk s) ip"
    using a by (simp add: fcontent_def sz storedD(3) [OF st])
  show "file_step (disk s) ip (disk s1) ip1" by (rule evolves_file_step [OF e])
qed

lemma zero_fill_spec:
  assumes inv: "bc_inv s" "2 \<le> nfree s" and ok: "inode_ok (disk s) ip"
    and off: "unat to \<le> MAXFILE * BSIZE" "unat from < unat to"
  obtains (filled) ip1 s1 where "zero_fill ip from to s = Ok (True, ip1, s1)"
      "stored s ip (unat from) (replicate (unat to - unat from) 0) s1 ip1"
  | (full) t ip1 s1 where "zero_fill ip from to s = Ok (False, ip1, s1)"
      "stored s ip (unat from) (replicate t 0) s1 ip1" "\<forall>x. data_block x \<longrightarrow> blk_used (disk s1) x"
proof -
  let ?n = "unat to - unat from"
  have n: "unat (to - from) = ?n" "\<not> to \<le> from"
    using off(2) by (simp_all add: unat_sub word_le_nat_alt)
  have "unat from + ?n \<le> MAXFILE * BSIZE" using off by simp
  from zero_fill_loop_spec [OF inv ok this, of 0]
  obtain r t ip1 s1 where z: "zero_fill_loop ip (unat from) ?n 0 s = Ok (r, ip1, s1)"
      "stored s ip (unat from) (replicate t 0) s1 ip1" "r \<longleftrightarrow> t = ?n"
      "\<not> r \<longrightarrow> (\<forall>x. data_block x \<longrightarrow> blk_used (disk s1) x)"
    by auto
  then have "zero_fill ip from to s = Ok (r, ip1, s1)" using n by (simp add: zero_fill_def)
  with z show thesis by (cases r) (auto intro: filled [of ip1 s1] full [of ip1 s1 t])
qed

lemma write_post_gap:
  assumes post: "write_post s1 ip2 off src t ip' s'" and f: "bframe s s1"
    and step: "file_step (disk s) ip (disk s1) ip2"
    and c: "fcontent (disk s1) ip2 = write_at (fcontent (disk s) ip) (unat off) []"
      "unat (i_size ip) \<le> unat off"
  shows "write_post s ip off src t ip' s'"
  using post bframe_trans [OF f] file_step_trans [OF step] c write_at_gap [of "fcontent (disk s) ip"]
  by (simp add: write_post_def)

lemma inode_writei_spec:
  assumes inv: "bc_inv s" "2 \<le> nfree s" and ok: "file_ok (disk s) ip" and i: "unat (i_inum ip) < NINODES"
    and src: "src \<noteq> []" "unat off + length src \<le> MAXFILE * BSIZE"
  obtains (wrote) t ip' s' where "inode_writei ip off src s = Ok (t, ip', s')"
      "write_post s ip off src t ip' s'" "file_op s ip s' ip'"
      "0 < t \<Longrightarrow> dinode_at (disk s') (i_inum ip) = dinode_of ip'"
  | (nospace) ip' s' where "inode_writei ip off src s = Ok (0, ip', s')" "file_op s ip s' ip'"
      "unat (i_size ip) < unat off"
      "fcontent (disk s') ip' = fcontent (disk s) ip" "\<forall>x. data_block x \<longrightarrow> blk_used (disk s') x"
proof -
  have small: "\<not> 2 ^ 64 \<le> unat off + length src" "\<not> MAXFILE * BSIZE < unat off + length src"
    using src(2) by (auto simp: layout_values BSIZE_def)
  have iok: "inode_ok (disk s) ip" using ok by (simp add: file_ok_def)
  show thesis
  proof (cases "i_size ip < off")
    case False
    then have le: "unat off \<le> unat (i_size ip)" by (simp add: word_less_nat_alt)
    obtain t ip' s' where "writei_tail ip off src False s = Ok (t, ip', s')"
        "write_post s ip off src t ip' s'" "0 < t \<Longrightarrow> dinode_at (disk s') (i_inum ip) = dinode_of ip'"
        "\<not> 0 < t \<Longrightarrow> evolves (disk s) ip (disk s') ip'"
      by (rule writei_tail_spec [OF inv ok i le src(2), where sc = False]) blast
    then show thesis using False src(1) small 
      by (intro wrote [of t ip' s']) (auto simp: inode_writei_def file_op_def write_post_def)
  next
    case True
    then have lt: "unat (i_size ip) < unat off" by (simp add: word_less_nat_alt)
    have "unat off \<le> MAXFILE * BSIZE" using src(2) by simp
    from inv iok this lt show thesis
    proof (cases rule: zero_fill_spec)
      case (full t ip1 s1)
      note st = stored_beyond [OF ok full(2) order_refl]
      have "file_op s ip s1 ip1" using st storedD(1,2) [OF full(2)] by (simp add: file_op_def)
      with full lt True src(1) small show thesis
        by (intro nospace [of ip1 s1]) (simp_all add: inode_writei_def st)
    next
      case (filled ip1 s1)
      let ?ip2 = "ip1\<lparr>i_size := off\<rparr>"
      have z: "unat off = max (unat (i_size ip)) (unat (i_size ip) + length (replicate (unat off - unat (i_size ip)) (0 :: byte)))"
        using lt by simp
      have "unat (i_size ip) + length (replicate (unat off - unat (i_size ip)) (0 :: byte)) \<le> MAXFILE * BSIZE"
        using src(2) lt by simp
      note st = stored_content [OF ok filled(2) order_refl z this refl]
      have c: "fcontent (disk s1) ?ip2 = write_at (fcontent (disk s) ip) (unat off) []"
        using st(2) lt by (simp add: write_at_def)
      have f1: "bframe s s1" by (rule storedD(1) [OF filled(2)])
      have inv1: "bc_inv s1" "2 \<le> nfree s1" using bframeD [OF f1] inv by simp_all
      have i2: "i_inum ?ip2 = i_inum ip" using evolves_inum [OF storedD(2) [OF filled(2)]] by simp
      then have i2': "unat (i_inum ?ip2) < NINODES" and le: "unat off \<le> unat (i_size ?ip2)" using i by simp_all
      obtain t ip' s' where t: "writei_tail ?ip2 off src True s1 = Ok (t, ip', s')"
          "write_post s1 ?ip2 off src t ip' s'" "dinode_at (disk s') (i_inum ?ip2) = dinode_of ip'"
        by (rule writei_tail_spec [OF inv1 st(1) i2' le src(2), where sc = True]) blast
      have "write_post s ip off src t ip' s'"
        by (rule write_post_gap [OF t(2) f1 st(3) c]) (use lt in simp)
      moreover have "inode_writei ip off src s = Ok (t, ip', s')"
        using True src(1) small filled(1) t(1) by (simp add: inode_writei_def)
      ultimately show thesis using t(3) i2
        by (intro wrote [of t ip' s']) (simp_all add: file_op_def write_post_def)
    qed
  qed
qed

end
