(* ===== verification/Trunc.thy ===== *)
theory Trunc
  imports Filespec
begin

text \<open>
  The contract of \<open>itrunc\<close> (\<open>src/fs.rs\<close> lines 454 to 486): every block of the inode is
  freed, each one once, and no other block; the file is empty afterwards.
\<close>

definition nonzero :: "u32 list \<Rightarrow> nat list" where
  "nonzero ws = map unat (filter (\<lambda>w. w \<noteq> 0) ws)"

lemma nonzero_simps [simp]:
  "nonzero [] = []" "nonzero (w # ws) = (if w = 0 then nonzero ws else unat w # nonzero ws)"
  by (simp_all add: nonzero_def)

lemma set_nonzero: "set (nonzero ws) = unat ` (set ws - {0})"
  by (auto simp: nonzero_def)

lemma distinct_nonzero:
  assumes "\<And>i j. i < length ws \<Longrightarrow> j < length ws \<Longrightarrow> ws ! i \<noteq> 0 \<Longrightarrow> ws ! i = ws ! j \<Longrightarrow> i = j"
  shows "distinct (nonzero ws)"
  using assms
proof (induction ws)
  case (Cons w ws)
  have "distinct (nonzero ws)"
    by (rule Cons.IH) (use Cons.prems [of "Suc _" "Suc _"] in auto)
  moreover have "w \<notin> set ws" if "w \<noteq> 0"
    using that Cons.prems [of 0 "Suc _"] by (auto simp: in_set_conv_nth)
  ultimately show ?case by (auto simp: set_nonzero simp flip: word_unat_eq_iff)
qed simp

abbreviation mark_free_all :: "nat list \<Rightarrow> (nat \<Rightarrow> byte list) \<Rightarrow> nat \<Rightarrow> byte list" where
  "mark_free_all bs dk \<equiv> fold mark_free bs dk"

definition all_used :: "(nat \<Rightarrow> byte list) \<Rightarrow> nat list \<Rightarrow> bool" where
  "all_used dk bs \<longleftrightarrow> distinct bs \<and> (\<forall>b \<in> set bs. data_block b \<and> blk_used dk b)"

lemma all_used_append: "all_used dk (xs @ ys) \<longleftrightarrow> all_used dk xs \<and> all_used dk ys \<and> set xs \<inter> set ys = {}"
  by (auto simp: all_used_def)

lemma mark_free_all:
  assumes "disk_ok dk" and "\<forall>b \<in> set bs. data_block b"
  shows "disk_ok (mark_free_all bs dk)" "x \<noteq> BMAPSTART \<Longrightarrow> mark_free_all bs dk x = dk x"
    "m < FSSIZE \<Longrightarrow> blk_used (mark_free_all bs dk) m \<longleftrightarrow> m \<notin> set bs \<and> blk_used dk m"
  using assms
proof (induction bs arbitrary: dk)
  case (Cons b bs)
  case 3
  then have "b < FSSIZE" by (simp add: data_block_def)
  with 3 Cons(3) [of "mark_free b dk"] show ?case by (auto simp: blk_used_mark_free)
qed (simp_all add: mark_frame)

lemma all_used_mark_free:
  assumes "disk_ok dk" and "all_used dk (b # bs)"
  shows "all_used (mark_free b dk) bs"
  using assms blk_used_mark_free [OF assms(1), of b] by (auto simp: all_used_def data_block_def)

lemma all_used_mark_free_all:
  assumes "disk_ok dk" and "all_used dk (xs @ ys)"
  shows "all_used (mark_free_all xs dk) ys"
  using assms mark_free_all(3) [OF assms(1), of xs] by (auto simp: all_used_def data_block_def)

section \<open>The two loops\<close>

lemma itrunc_direct_spec:
  assumes "bc_inv s" and "0 < nfree s" and "distinct is" and "\<forall>i \<in> set is. i < length (i_addrs ip)"
    and "all_used (disk s) (nonzero (map ((!) (i_addrs ip)) is))"
  shows "\<exists>s'. itrunc_direct is ip s = Ok (ip\<lparr>i_addrs := fold (\<lambda>i a. a[i := 0]) is (i_addrs ip)\<rparr>, s') \<and>
     bframe s s' \<and> disk s' = mark_free_all (nonzero (map ((!) (i_addrs ip)) is)) (disk s)"
  using assms
proof (induction "is" arbitrary: ip s)
  case Nil
  then show ?case by (intro exI [of _ s]) simp
next
  case (Cons i "is")
  let ?b = "i_addrs ip ! i" and ?ip = "ip\<lparr>i_addrs := (i_addrs ip)[i := 0]\<rparr>"
  have same: "map ((!) (i_addrs ?ip)) is = map ((!) (i_addrs ip)) is"
    using Cons.prems(3) by (auto intro!: nth_list_update_neq)
  show ?case
  proof (cases "?b = 0")
    case True
    then have "(i_addrs ip)[i := 0] = i_addrs ip" by (metis list_update_id)
    with True Cons show ?thesis by simp
  next
    case False
    with Cons.prems have u: "all_used (disk s) (unat ?b # nonzero (map ((!) (i_addrs ip)) is))" by simp
    then have "data_block (unat ?b)" "blk_used (disk s) (unat ?b)" by (simp_all add: all_used_def)
    with Cons.prems(1,2) obtain s1 where 1: "bfree ?b s = Ok s1" "bframe s s1"
        "disk s1 = mark_free (unat ?b) (disk s)"
      by (rule bfree_used)
    have "all_used (disk s1) (nonzero (map ((!) (i_addrs ?ip)) is))"
      unfolding same 1(3) by (rule all_used_mark_free [OF bc_inv_disk_ok [OF Cons.prems(1)] u])
    moreover have "bc_inv s1" "0 < nfree s1" using bframeD [OF 1(2)] Cons.prems(2) by simp_all
    moreover have "distinct is" "\<forall>i \<in> set is. i < length (i_addrs ?ip)" using Cons.prems by simp_all
    ultimately obtain s' where "itrunc_direct is ?ip s1 =
          Ok (?ip\<lparr>i_addrs := fold (\<lambda>i a. a[i := 0]) is (i_addrs ?ip)\<rparr>, s')"
        "bframe s1 s'" "disk s' = mark_free_all (nonzero (map ((!) (i_addrs ip)) is)) (disk s1)"
      using Cons.IH [of s1 ?ip] unfolding same by blast
    with False 1 show ?thesis by (intro exI [of _ s']) (simp add: bframe_trans [OF 1(2)])
  qed
qed

lemma itrunc_indirect_spec:
  assumes "held s0 bp x s" and "0 < nfree s" and x: "data_block (unat x)" and "disk s (unat x) = blk"
    and "all_used (disk s) (nonzero (map (ind_entry blk) is))"
  shows "\<exists>s'. itrunc_indirect bp is s = Ok s' \<and> bframe s s' \<and>
     disk s' = mark_free_all (nonzero (map (ind_entry blk) is)) (disk s)"
  using assms
proof (induction "is" arbitrary: s)
  case Nil
  show ?case using held_inv [OF Nil.prems(1)] by (intro exI [of _ s]) simp
next
  case (Cons i "is")
  let ?b = "ind_entry blk i"
  have d: "b_data (bcache s ! bp) = blk" using held_data [OF Cons.prems(1)] Cons.prems(4) by simp
  have inv: "bc_inv s" by (rule held_inv [OF Cons.prems(1)])
  show ?case
  proof (cases "?b = 0")
    case True
    with Cons d show ?thesis by simp
  next
    case False
    with Cons.prems have u: "all_used (disk s) (unat ?b # nonzero (map (ind_entry blk) is))" by simp
    then have "data_block (unat ?b)" "blk_used (disk s) (unat ?b)" by (simp_all add: all_used_def)
    with inv Cons.prems(2) obtain s1 where 1: "bfree ?b s = Ok s1" "bframe s s1"
        "disk s1 = mark_free (unat ?b) (disk s)"
      by (rule bfree_used)
    have "all_used (disk s1) (nonzero (map (ind_entry blk) is))"
      unfolding 1(3) by (rule all_used_mark_free [OF bc_inv_disk_ok [OF inv] u])
    moreover have "held s0 bp x s1" by (rule held_frame [OF Cons.prems(1) 1(2)])
    moreover have "0 < nfree s1" using bframeD [OF 1(2)] Cons.prems(2) by simp
    moreover have "disk s1 (unat x) = blk"
      using Cons.prems(4) data_block_range [OF x] by (simp add: 1(3) mark_frame)
    ultimately obtain s' where "itrunc_indirect bp is s1 = Ok s'" "bframe s1 s'"
        "disk s' = mark_free_all (nonzero (map (ind_entry blk) is)) (disk s1)"
      using Cons.IH x by blast
    with False 1 d show ?thesis by (intro exI [of _ s']) (simp add: bframe_trans [OF 1(2)])
  qed
qed

section \<open>The whole operation\<close>

lemma zeros_fold:
  "length (fold (\<lambda>i a. a[i := (0 :: u32)]) is as) = length as"
  "k < length as \<Longrightarrow> fold (\<lambda>i a. a[i := (0 :: u32)]) is as ! k = (if k \<in> set is then 0 else as ! k)"
proof (induction "is" arbitrary: as)
  case (Cons i "is")
  case 2
  then show ?case using Cons(2) [of "as[i := 0]"] by (auto simp: nth_list_update)
qed simp_all

text \<open>The blocks of an inode in the order \<open>itrunc\<close> frees them.\<close>

definition direct_blocks :: "inode \<Rightarrow> nat list" where
  "direct_blocks ip = nonzero (map ((!) (i_addrs ip)) [0..<NDIRECT])"

definition indirect_blocks :: "(nat \<Rightarrow> byte list) \<Rightarrow> inode \<Rightarrow> nat list" where
  "indirect_blocks dk ip =
     (if i_addrs ip ! NDIRECT = 0 then []
      else nonzero (map (ind_entry (dk (unat (i_addrs ip ! NDIRECT)))) [0..<NINDIRECT]))"

definition own_blocks :: "(nat \<Rightarrow> byte list) \<Rightarrow> inode \<Rightarrow> nat list" where
  "own_blocks dk ip = direct_blocks ip @ indirect_blocks dk ip @
     (if i_addrs ip ! NDIRECT = 0 then [] else [unat (i_addrs ip ! NDIRECT)])"

lemma mapped_blocks:
  "direct_blocks ip @ indirect_blocks dk ip = nonzero (map (bmap dk ip) [0..<MAXFILE])"
proof -
  have "[0..<MAXFILE] = [0..<NDIRECT] @ map (\<lambda>i. NDIRECT + i) [0..<NINDIRECT]"
    unfolding MAXFILE_def using upt_add_eq_append [of 0 NDIRECT NINDIRECT]
    by (simp add: map_add_upt add.commute)
  then have "nonzero (map (bmap dk ip) [0..<MAXFILE]) = nonzero (map (bmap dk ip) [0..<NDIRECT]) @
      nonzero (map (bmap dk ip \<circ> (\<lambda>i. NDIRECT + i)) [0..<NINDIRECT])"
    by (simp add: nonzero_def)
  moreover have "nonzero (map (bmap dk ip) [0..<NDIRECT]) = direct_blocks ip"
    unfolding direct_blocks_def by (rule arg_cong [where f = nonzero]) (simp add: bmap_def)
  moreover have "map (bmap dk ip \<circ> (\<lambda>i. NDIRECT + i)) [0..<NINDIRECT] =
      (if i_addrs ip ! NDIRECT = 0 then replicate NINDIRECT 0
       else map (ind_entry (dk (unat (i_addrs ip ! NDIRECT)))) [0..<NINDIRECT])"
    by (auto simp: bmap_def MAXFILE_def map_replicate_const cong: map_cong intro!: map_cong)
  ultimately show ?thesis
    by (simp add: nonzero_def [of "replicate _ _"] indirect_blocks_def)
qed

lemma set_own_blocks: "set (own_blocks dk ip) = iblocks dk ip"
proof -
  have "set (direct_blocks ip @ indirect_blocks dk ip) = {unat (bmap dk ip n) |n. n < MAXFILE \<and> bmap dk ip n \<noteq> 0}"
    unfolding mapped_blocks set_nonzero by auto
  then show ?thesis by (auto simp: own_blocks_def iblocks_def)
qed

lemma all_used_own_blocks:
  assumes ok: "inode_ok dk ip"
  shows "all_used dk (own_blocks dk ip)"
proof -
  have "distinct (direct_blocks ip @ indirect_blocks dk ip)"
    unfolding mapped_blocks by (rule distinct_nonzero) (use ok in \<open>auto simp: inode_ok_def\<close>)
  moreover have "unat (i_addrs ip ! NDIRECT) \<notin> set (direct_blocks ip @ indirect_blocks dk ip)"
    unfolding mapped_blocks set_nonzero using ok by (auto simp: inode_ok_def simp flip: word_unat_eq_iff)
  ultimately have "distinct (own_blocks dk ip)" by (auto simp: own_blocks_def)
  then show ?thesis using inode_ok_blocks [OF ok] by (simp add: all_used_def set_own_blocks)
qed

text \<open>The part of \<open>itrunc\<close> for an inode with an indirect block.\<close>

lemma itrunc_indirect_part:
  assumes inv: "bc_inv s" "2 \<le> nfree s" and x: "data_block (unat b)"
    and bs: "bs = nonzero (map (ind_entry (disk s (unat b))) [0..<NINDIRECT])"
    and au: "all_used (disk s) (bs @ [unat b])"
  obtains bp s1 s2 s3 s4 where "bread b s = (Some bp, s1)" "itrunc_indirect bp [0..<NINDIRECT] s1 = Ok s2"
    "brelse bp s2 = Ok s3" "bfree b s3 = Ok s4" "bframe s s4" "disk s4 = mark_free_all (bs @ [unat b]) (disk s)"
proof -
  have "unat b < FSSIZE" "0 < nfree s" using x inv(2) by (simp_all add: data_block_def)
  with inv(1) obtain bp s1 where 1: "bread b s = (Some bp, s1)" "held s bp b s1" "disk s1 = disk s"
    by (metis bread_held)
  have blk: "disk s1 (unat b) = disk s (unat b)" by (simp add: 1(3))
  have "all_used (disk s1) (nonzero (map (ind_entry (disk s (unat b))) [0..<NINDIRECT]))"
    using au by (simp add: 1(3) all_used_append bs)
  moreover have "0 < nfree s1" using held_nfree [OF 1(2)] inv(2) by simp
  ultimately obtain s2 where 2: "itrunc_indirect bp [0..<NINDIRECT] s1 = Ok s2" "bframe s1 s2"
      "disk s2 = mark_free_all bs (disk s)"
    using itrunc_indirect_spec [OF 1(2) _ x blk] 1(3) bs by metis
  obtain s3 where 3: "brelse bp s2 = Ok s3" "disk s3 = disk s2" "bframe s s3"
    by (rule held_release [OF held_frame [OF 1(2) 2(2)]])
  have "all_used (disk s3) [unat b]"
    unfolding 3(2) 2(3) by (rule all_used_mark_free_all [OF _ au]) (use inv in simp)
  then have u: "blk_used (disk s3) (unat b)" by (simp add: all_used_def)
  have "bc_inv s3" "0 < nfree s3" using bframeD [OF 3(3)] inv(2) by simp_all
  then obtain s4 where 4: "bfree b s3 = Ok s4" "bframe s3 s4" "disk s4 = mark_free (unat b) (disk s3)"
    using x u by (rule bfree_used)
  show thesis
    by (rule that [OF 1(1) 2(1) 3(1) 4(1) bframe_trans [OF 3(3) 4(2)]]) (simp add: 4(3) 3(2) 2(3))
qed

text \<open>What \<open>itrunc\<close> does up to the last \<open>iupdate\<close>.\<close>

lemma itrunc_body:
  assumes inv: "bc_inv s" "2 \<le> nfree s" and ok: "inode_ok (disk s) ip"
  obtains s' where "itrunc ip s =
      bindE (iupdate (ip\<lparr>i_addrs := replicate (NDIRECT + 1) 0, i_size := 0\<rparr>) s')
        (\<lambda>s. Ok (ip\<lparr>i_addrs := replicate (NDIRECT + 1) 0, i_size := 0\<rparr>, s))"
    "bframe s s'" "disk s' = mark_free_all (own_blocks (disk s) ip) (disk s)"
proof -
  let ?dk = "disk s" and ?b = "i_addrs ip ! NDIRECT"
  have dok: "disk_ok ?dk" and free: "0 < nfree s" using inv by simp_all
  have len: "length (i_addrs ip) = NDIRECT + 1" using ok by (simp add: inode_ok_def)
  let ?as = "fold (\<lambda>i a. a[i := 0]) [0..<NDIRECT] (i_addrs ip)"
  have ind: "?as ! NDIRECT = ?b" using len by (simp add: zeros_fold)
  have zeros: "?as[NDIRECT := 0] = replicate (NDIRECT + 1) 0"
    using len by (intro nth_equalityI) (auto simp: zeros_fold nth_list_update simp del: replicate_Suc)
  have au: "all_used ?dk (own_blocks ?dk ip)" by (rule all_used_own_blocks [OF ok])
  then have "all_used ?dk (direct_blocks ip)" by (simp add: own_blocks_def all_used_append)
  then obtain s1 where 1: "itrunc_direct [0..<NDIRECT] ip s = Ok (ip\<lparr>i_addrs := ?as\<rparr>, s1)"
      "bframe s s1" "disk s1 = mark_free_all (direct_blocks ip) ?dk"
    using itrunc_direct_spec [OF inv(1) free, of "[0..<NDIRECT]" ip] len by (auto simp: direct_blocks_def)
  show thesis
  proof (cases "?b = 0")
    case True
    then have "?as = replicate (NDIRECT + 1) 0" using ind zeros by (metis list_update_id)
    with True 1 ind show thesis
      by (intro that [of s1])
        (simp_all add: itrunc_def own_blocks_def indirect_blocks_def Let_def del: replicate_Suc)
  next
    case False
    let ?bs = "indirect_blocks ?dk ip"
    have x: "data_block (unat ?b)" by (rule ind_data_block [OF ok False])
    have own: "own_blocks ?dk ip = direct_blocks ip @ ?bs @ [unat ?b]" using False by (simp add: own_blocks_def)
    have db: "\<forall>b \<in> set (direct_blocks ip). data_block b" using au by (simp add: own all_used_def)
    have au1: "all_used (disk s1) (?bs @ [unat ?b])"
      unfolding 1(3) by (rule all_used_mark_free_all [OF dok]) (use au own in simp)
    have "disk s1 (unat ?b) = ?dk (unat ?b)"
      using mark_free_all(2) [OF dok db] data_block_range [OF x] by (simp add: 1(3))
    then have bs: "?bs = nonzero (map (ind_entry (disk s1 (unat ?b))) [0..<NINDIRECT])"
      using False by (simp add: indirect_blocks_def)
    have "bc_inv s1" "2 \<le> nfree s1" using bframeD [OF 1(2)] inv(2) by simp_all
    then obtain bp s2 s3 s4 s5 where 2: "bread ?b s1 = (Some bp, s2)"
        "itrunc_indirect bp [0..<NINDIRECT] s2 = Ok s3" "brelse bp s3 = Ok s4" "bfree ?b s4 = Ok s5"
        "bframe s1 s5" "disk s5 = mark_free_all (?bs @ [unat ?b]) (disk s1)"
      using x bs au1 by (rule itrunc_indirect_part)
    have "disk s5 = mark_free_all (own_blocks ?dk ip) ?dk" by (simp add: own 2(6) 1(3))
    then show thesis
      using False 1(1) 2(1-4) bframe_trans [OF 1(2) 2(5)] ind zeros
      by (intro that [of s5]) (simp_all add: itrunc_def Let_def del: replicate_Suc)
  qed
qed

lemma empty_inode:
  assumes "ip = jp\<lparr>i_addrs := replicate (NDIRECT + 1) 0, i_size := 0\<rparr>"
  shows "iblocks dk ip = {}" "file_ok dk ip" "fcontent dk ip = []"
proof -
  have b: "bmap dk ip n = 0" for n by (simp add: bmap_def assms del: replicate_Suc)
  show ib: "iblocks dk ip = {}" by (simp add: iblocks_def b) (simp add: assms del: replicate_Suc)
  show "file_ok dk ip" by (simp add: file_ok_def inode_ok_def b ib) (simp add: assms)
  show "fcontent dk ip = []" by (simp add: fcontent_def assms)
qed

lemma itrunc_spec:
  assumes inv: "bc_inv s" "2 \<le> nfree s" and ok: "inode_ok (disk s) ip" and i: "unat (i_inum ip) < NINODES"
    and ip': "ip' = ip\<lparr>i_addrs := replicate (NDIRECT + 1) 0, i_size := 0\<rparr>"
  obtains s' where "itrunc ip s = Ok (ip', s')" "bframe s s'" "file_step (disk s) ip (disk s') ip'"
    "dinode_at (disk s') (i_inum ip) = dinode_of ip'"
    "\<forall>x < FSSIZE. blk_used (disk s') x \<longleftrightarrow> blk_used (disk s) x \<and> x \<notin> iblocks (disk s) ip"
    "\<forall>x. data_block x \<longrightarrow> disk s' x = disk s x"
proof -
  let ?dk = "disk s" and ?bs = "own_blocks (disk s) ip"
  have dok: "disk_ok ?dk" using inv by simp
  obtain s1 where 1: "itrunc ip s = bindE (iupdate ip' s1) (\<lambda>s. Ok (ip', s))"
      "bframe s s1" "disk s1 = mark_free_all ?bs ?dk"
    unfolding ip' by (rule itrunc_body [OF inv ok])
  have db: "\<forall>b \<in> set ?bs. data_block b" using inode_ok_blocks [OF ok] by (simp add: set_own_blocks)
  note fr = mark_free_all [OF dok db]
  have used1: "blk_used (disk s1) x \<longleftrightarrow> blk_used ?dk x \<and> x \<notin> iblocks ?dk ip" if "x < FSSIZE" for x
    using fr(3) [OF that] by (auto simp: 1(3) set_own_blocks)
  have same1: "disk s1 x = ?dk x" if "x \<noteq> BMAPSTART" for x using fr(2) [OF that] by (simp add: 1(3))
  note e = empty_inode [OF ip']
  have step1: "file_step ?dk ip (disk s1) ip'"
    unfolding file_step_def
  proof (intro conjI allI impI)
    show "inode_ok (disk s1) ip'" using e(2) by (simp add: file_ok_def)
    show "dinode_at (disk s1) j = dinode_at ?dk j" if "unat j < NINODES" for j
      by (rule dinode_at_frame [OF that]) (simp add: same1)
    show "disk s1 x = ?dk x" if "x < INODESTART" for x using that by (intro same1) (simp add: layout_defs)
    show "blk_used (disk s1) x" "disk s1 x = ?dk x" if "data_block x" "blk_used ?dk x" "x \<notin> iblocks ?dk ip" for x
      using that used1 same1 data_block_range [OF that(1)] by auto
  qed (use e in \<open>simp_all add: ip'\<close>)
  have inv1: "bc_inv s1" "0 < nfree s1" using bframeD [OF 1(2)] inv by simp_all
  have i': "i_inum ip' = i_inum ip" by (simp add: ip')
  obtain s2 where 2: "iupdate ip' s1 = Ok s2" "bframe s1 s2" "file_step (disk s1) ip' (disk s2) ip'"
      "dinode_at (disk s2) (i_inum ip') = dinode_of ip'" "\<forall>x \<ge> BMAPSTART. disk s2 x = disk s1 x"
    by (rule iupdate_spec [OF inv1 e(2)]) (use i i' in auto)
  show thesis
  proof (rule that [of s2])
    show "bframe s s2" by (rule bframe_trans [OF 1(2) 2(2)])
    show "file_step ?dk ip (disk s2) ip'" by (rule file_step_trans [OF step1 2(3)])
    have "blk_used (disk s2) x = blk_used (disk s1) x" for x using 2(5) by (simp add: blk_used_def)
    with used1 show "\<forall>x < FSSIZE. blk_used (disk s2) x \<longleftrightarrow> blk_used ?dk x \<and> x \<notin> iblocks ?dk ip" by simp
    show "\<forall>x. data_block x \<longrightarrow> disk s2 x = ?dk x"
      using 2(5) same1 data_block_range by fastforce
  qed (use 1(1) 2 i' in simp_all)
qed

end
