(* ===== verification/Icache.thy ===== *)
theory Icache
  imports Trunc
begin

text \<open>
  The inode cache, \<open>src/fs.rs\<close> lines 285 to 362: \<open>iget\<close>, \<open>ilock\<close>, \<open>idup\<close> and \<open>iput\<close>.  The
  state \<open>fs\<close> adds \<open>ICACHE\<close> to the disk and the buffer cache.  An \<open>InodeRef\<close> is the index of its
  slot; what the code does under the guard returned by \<open>ilock\<close> is done on the slot's value and
  written back with \<open>set_inode\<close>.

  The cache is the second interpretation of the locale \<open>slot_cache\<close>.
\<close>

record fs = bstate +
  icache :: "inode list"

type_synonym inode_ref = nat

definition icache_get :: "u32 \<Rightarrow> inode list \<Rightarrow> inode_ref option \<times> inode list" where
  "icache_get inum ips =
     (case find_slot (\<lambda>ip. 0 < i_refcnt ip \<and> i_inum ip = inum) ips of
        Some r \<Rightarrow> (Some r, ips[r := (ips ! r)\<lparr>i_refcnt := i_refcnt (ips ! r) + 1\<rparr>])
      | None \<Rightarrow>
         (case find_slot (\<lambda>ip. i_refcnt ip = 0) ips of
            Some r \<Rightarrow> (Some r, ips[r := (ips ! r)\<lparr>i_inum := inum, i_refcnt := 1, i_valid := False\<rparr>])
          | None \<Rightarrow> (None, ips)))"

definition iget :: "u32 \<Rightarrow> 'z fs_scheme \<Rightarrow> inode_ref option \<times> 'z fs_scheme" where
  "iget inum s = (case icache_get inum (icache s) of (r, ips) \<Rightarrow> (r, s\<lparr>icache := ips\<rparr>))"

definition set_inode :: "inode_ref \<Rightarrow> inode \<Rightarrow> 'z fs_scheme \<Rightarrow> 'z fs_scheme" where
  "set_inode r ip s = s\<lparr>icache := (icache s)[r := ip]\<rparr>"

definition ilock :: "inode_ref \<Rightarrow> 'z fs_scheme \<Rightarrow> (inode \<times> 'z fs_scheme) res" where
  "ilock r s =
     (let ip = icache s ! r in
      if \<not> i_valid ip then
        bindE (read_dinode (i_inum ip) s) (\<lambda>(dip, s).
        let ip = ip\<lparr>i_typ := d_typ dip, i_major := d_major dip, i_minor := d_minor dip,
              i_nlink := d_nlink dip, i_size := d_size dip, i_addrs := d_addrs dip, i_valid := True\<rparr> in
        Ok (ip, set_inode r ip s))
      else Ok (ip, s))"

definition idup :: "inode_ref \<Rightarrow> 'z fs_scheme \<Rightarrow> (inode_ref \<times> 'z fs_scheme) res" where
  "idup r s =
     (let guard = icache s ! r in
      if i_refcnt guard < 1 then panic ''idup: no ref''
      else Ok (r, set_inode r (guard\<lparr>i_refcnt := i_refcnt guard + 1\<rparr>) s))"

definition iput :: "inode_ref \<Rightarrow> 'z fs_scheme \<Rightarrow> 'z fs_scheme res" where
  "iput r s =
     (let guard = icache s ! r in
      if i_refcnt guard < 1 then panic ''iput: no ref''
      else Ok (set_inode r (guard\<lparr>i_refcnt := i_refcnt guard - 1\<rparr>) s))"

section \<open>The inode cache is a slot cache\<close>

definition i_live :: "inode \<Rightarrow> bool" where
  "i_live ip \<longleftrightarrow> 0 < i_refcnt ip"

interpretation ic: slot_cache i_inum i_refcnt i_live icache_get
proof
  fix c :: inode assume "0 < i_refcnt c"
  then show "i_live c" by (simp add: i_live_def)
next
  fix k :: u32 and cs :: "inode list" and i
  assume *: "find_slot (\<lambda>c. i_live c \<and> i_inum c = k) cs = Some i"
  from find_slot_SomeD [OF this] * show "\<exists>c. icache_get k cs = (Some i, cs[i := c]) \<and>
      i_inum c = k \<and> i_refcnt c = Suc (i_refcnt (cs ! i))"
    by (intro exI [of _ "(cs ! i)\<lparr>i_refcnt := i_refcnt (cs ! i) + 1\<rparr>"])
      (simp add: icache_get_def i_live_def)
next
  fix k :: u32 and cs :: "inode list" and i
  assume "find_slot (\<lambda>c. i_live c \<and> i_inum c = k) cs = None"
    and "find_slot (\<lambda>c. i_refcnt c = 0) cs = Some i"
  then show "\<exists>c. icache_get k cs = (Some i, cs[i := c]) \<and> i_inum c = k \<and> i_refcnt c = 1"
    by (intro exI [of _ "(cs ! i)\<lparr>i_inum := k, i_refcnt := 1, i_valid := False\<rparr>"])
      (simp add: icache_get_def i_live_def)
next
  fix k :: u32 and cs :: "inode list"
  assume "find_slot (\<lambda>c. i_live c \<and> i_inum c = k) cs = None"
    and "find_slot (\<lambda>c. i_refcnt c = 0) cs = None"
  then show "icache_get k cs = (None, cs)" by (simp add: icache_get_def i_live_def)
qed

end
