(* ===== verification/Dir.thy ===== *)
theory Dir
  imports Icache
begin

text \<open>
  Directories, \<open>src/fs.rs\<close> lines 608 to 700: a directory is a file whose contents are 16-byte
  entries, an inode number and a name padded with zeros.  \<open>dirlookup\<close> and \<open>dirlink\<close> scan them
  with the file operations of \<open>Fileio\<close>.

  The abstract directory is the list \<open>dents\<close> of its entries and the finite map \<open>dirmap\<close> from
  names to inode numbers: \<open>dirlookup\<close> is application of the map, \<open>dirlink\<close> its update.
\<close>

definition T_DIR :: u16 where "T_DIR = 1"
definition T_FILE :: u16 where "T_FILE = 2"
definition T_DEVICE :: u16 where "T_DEVICE = 3"
definition DIRSIZ :: nat where "DIRSIZ = 14"
definition size_Dirent :: nat where "size_Dirent = 16"

record dirent =
  de_inum :: u16
  de_name :: "byte list"

definition bytes_of_dirent :: "dirent \<Rightarrow> byte list" where
  "bytes_of_dirent de = le_of_word (de_inum de) @ de_name de"

definition dirent_of_bytes :: "byte list \<Rightarrow> dirent" where
  "dirent_of_bytes bs = \<lparr>de_inum = word_of_le (get_slice bs 0 2), de_name = get_slice bs 2 DIRSIZ\<rparr>"

definition dirent_name :: "byte list \<Rightarrow> byte list" where
  "dirent_name name =
     (let out = replicate DIRSIZ 0; n = min (length name) DIRSIZ in
      put_slice out 0 (take n name))"

definition name_eq :: "byte list \<Rightarrow> byte list \<Rightarrow> bool" where
  "name_eq dir_name name \<longleftrightarrow> dir_name = dirent_name name"

definition read_dirent :: "inode \<Rightarrow> u32 \<Rightarrow> 'z bstate_scheme \<Rightarrow> (dirent option \<times> 'z bstate_scheme) res" where
  "read_dirent dp off s =
     bindE (inode_readi dp off (replicate size_Dirent 0) s) (\<lambda>(n, buf, s).
     Ok (if n \<noteq> size_Dirent then None else Some (dirent_of_bytes buf), s))"

definition write_dirent ::
    "inode \<Rightarrow> u32 \<Rightarrow> dirent \<Rightarrow> 'z bstate_scheme \<Rightarrow> (bool \<times> inode \<times> 'z bstate_scheme) res" where
  "write_dirent dp off de s =
     (let buf = bytes_of_dirent de in
      bindE (inode_writei dp off buf s) (\<lambda>(n, dp, s).
      Ok (n = length buf, dp, s)))"

text \<open>\<open>off += entsize\<close> on a \<open>u32\<close>, which panics on overflow.\<close>

definition next_off :: "u32 \<Rightarrow> u32 res" where
  "next_off off =
     (if unat off + size_Dirent < 2 ^ 32 then Ok (off + of_nat size_Dirent)
      else panic ''attempt to add with overflow'')"

lemma next_off_less [termination_simp]:
  "next_off off = Inr off' \<Longrightarrow> off < sz \<Longrightarrow> unat sz - unat off' < unat sz - unat off"
  by (auto simp: next_off_def size_Dirent_def unat_word_ariths word_less_nat_alt split: if_splits)

function dirlookup_loop ::
    "inode \<Rightarrow> byte list \<Rightarrow> u32 \<Rightarrow> 'z bstate_scheme \<Rightarrow> (u32 option \<times> 'z bstate_scheme) res" where
  "dirlookup_loop dp name off s =
     (if off < i_size dp then
        bindE (read_dirent dp off s) (\<lambda>(r, s).
        case r of
          None \<Rightarrow> Ok (None, s)
        | Some de \<Rightarrow>
            if de_inum de \<noteq> 0 \<and> name_eq (de_name de) name then Ok (Some (ucast (de_inum de)), s)
            else bindE (next_off off) (\<lambda>off. dirlookup_loop dp name off s))
      else Ok (None, s))"
  by pat_completeness auto

termination
  by (relation "measure (\<lambda>(dp, name, off, s). unat (i_size dp) - unat off)")
    (auto dest: next_off_less)

definition dirlookup :: "inode \<Rightarrow> byte list \<Rightarrow> 'z bstate_scheme \<Rightarrow> (u32 option \<times> 'z bstate_scheme) res" where
  "dirlookup dp name s =
     (if i_typ dp \<noteq> T_DIR then Ok (None, s) else dirlookup_loop dp name 0 s)"

text \<open>The scan of \<open>dirlink\<close> for a free entry: \<open>None\<close> is the early return of \<open>false\<close>.\<close>

function dirlink_loop :: "inode \<Rightarrow> u32 \<Rightarrow> 'z bstate_scheme \<Rightarrow> (u32 option \<times> 'z bstate_scheme) res" where
  "dirlink_loop dp off s =
     (if off < i_size dp then
        bindE (read_dirent dp off s) (\<lambda>(r, s).
        case r of
          None \<Rightarrow> Ok (None, s)
        | Some de \<Rightarrow>
            if de_inum de = 0 then Ok (Some off, s)
            else bindE (next_off off) (\<lambda>off. dirlink_loop dp off s))
      else Ok (Some off, s))"
  by pat_completeness auto

termination
  by (relation "measure (\<lambda>(dp, off, s). unat (i_size dp) - unat off)") (auto dest: next_off_less)

declare dirlookup_loop.simps [simp del] dirlink_loop.simps [simp del]

definition dirlink ::
    "inode \<Rightarrow> byte list \<Rightarrow> u32 \<Rightarrow> 'z bstate_scheme \<Rightarrow> (bool \<times> inode \<times> 'z bstate_scheme) res" where
  "dirlink dp name inum s =
     (if i_typ dp \<noteq> T_DIR then Ok (False, dp, s)
      else
        bindE (dirlookup dp name s) (\<lambda>(r, s).
        if r \<noteq> None then Ok (False, dp, s)
        else
          bindE (dirlink_loop dp 0 s) (\<lambda>(r, s).
          case r of
            None \<Rightarrow> Ok (False, dp, s)
          | Some off \<Rightarrow>
              write_dirent dp off \<lparr>de_inum = ucast inum, de_name = dirent_name name\<rparr> s)))"

section \<open>The entries of a directory\<close>

definition dents :: "byte list \<Rightarrow> dirent list" where
  "dents c = map (\<lambda>j. dirent_of_bytes (get_slice c (j * size_Dirent) size_Dirent)) [0..<length c div size_Dirent]"

definition dirmap :: "dirent list \<Rightarrow> byte list \<Rightarrow> u32 option" where
  "dirmap ds name = map_option (\<lambda>de. ucast (de_inum de))
     (find (\<lambda>de. de_inum de \<noteq> 0 \<and> name_eq (de_name de) name) ds)"

lemma length_dirent_name [simp]: "length (dirent_name name) = DIRSIZ"
  by (simp add: dirent_name_def Let_def)

lemma length_bytes_of_dirent: "length (de_name de) = DIRSIZ \<Longrightarrow> length (bytes_of_dirent de) = size_Dirent"
  by (simp add: bytes_of_dirent_def DIRSIZ_def size_Dirent_def)

lemma dirent_of_bytes_of:
  "length (de_name de) = DIRSIZ \<Longrightarrow> dirent_of_bytes (bytes_of_dirent de) = de"
  by (simp add: dirent_of_bytes_def bytes_of_dirent_def get_slice_def)

lemma length_dents [simp]: "length (dents c) = length c div size_Dirent"
  by (simp add: dents_def)

lemma nth_dents:
  "j < length c div size_Dirent \<Longrightarrow>
   dents c ! j = dirent_of_bytes (get_slice c (j * size_Dirent) size_Dirent)"
  by (simp add: dents_def)

text \<open>
  A name is cut off after \<open>DIRSIZ\<close> bytes and padded with zeros, so two names are the same entry
  exactly when they agree after that.
\<close>

lemma dirent_name_eq: "dirent_name name = take DIRSIZ name @ replicate (DIRSIZ - length name) 0"
  by (auto simp: dirent_name_def put_slice_def Let_def min_def)

section \<open>Lookup\<close>

lemma read_dirent_spec:
  assumes "bc_inv s" "0 < nfree s" and ok: "file_ok (disk s) dp"
  obtains s' where "read_dirent dp off s =
      Ok (if unat off + size_Dirent \<le> unat (i_size dp)
          then Some (dirent_of_bytes (get_slice (fcontent (disk s) dp) (unat off) size_Dirent)) else None, s')"
    "disk s' = disk s" "bframe s s'"
proof -
  let ?d = "take size_Dirent (drop (unat off) (fcontent (disk s) dp))"
  obtain s' where s': "inode_readi dp off (replicate size_Dirent 0) s =
        (let d = take (length (replicate size_Dirent (0 :: byte))) (drop (unat off) (fcontent (disk s) dp)) in
         Ok (length d, d @ drop (length d) (replicate size_Dirent 0), s'))"
      "disk s' = disk s" "bframe s s'"
    by (rule inode_readi_spec [OF assms])
  have len: "length ?d = min size_Dirent (unat (i_size dp) - unat off)" by simp
  have "read_dirent dp off s = Ok (if unat off + size_Dirent \<le> unat (i_size dp)
      then Some (dirent_of_bytes (get_slice (fcontent (disk s) dp) (unat off) size_Dirent)) else None, s')"
    using s'(1) by (auto simp: read_dirent_def get_slice_def Let_def size_Dirent_def)
  with s' show thesis by (intro that [of s'])
qed

lemma dir_off:
  assumes "size_Dirent * j < MAXFILE * BSIZE"
  shows "unat (of_nat (size_Dirent * j) :: u32) = size_Dirent * j"
    "next_off (of_nat (size_Dirent * j)) = Ok (of_nat (size_Dirent * Suc j))"
proof -
  show u: "unat (of_nat (size_Dirent * j) :: u32) = size_Dirent * j"
    using assms by (intro unat_fsize) simp
  have "size_Dirent * j + size_Dirent < 2 ^ 32"
    using assms by (simp add: layout_values BSIZE_def size_Dirent_def)
  then show "next_off (of_nat (size_Dirent * j)) = Ok (of_nat (size_Dirent * Suc j))"
    unfolding next_off_def u by (simp add: add.commute)
qed

lemma entry_full: "size_Dirent * j + size_Dirent \<le> z \<longleftrightarrow> j < z div size_Dirent"
  by (simp add: size_Dirent_def) linarith

lemma dirmap_drop:
  assumes "j < length ds"
  shows "dirmap (drop j ds) name =
    (if de_inum (ds ! j) \<noteq> 0 \<and> name_eq (de_name (ds ! j)) name then Some (ucast (de_inum (ds ! j)))
     else dirmap (drop (Suc j) ds) name)"
  using assms by (simp add: dirmap_def flip: Cons_nth_drop_Suc)

lemma dirlookup_loop_spec:
  assumes "bc_inv s" "0 < nfree s" and "file_ok (disk s) dp"
    and "ds = dents (fcontent (disk s) dp)" and "j \<le> Suc (length ds)"
  shows "\<exists>s'. dirlookup_loop dp name (of_nat (size_Dirent * j)) s = Ok (dirmap (drop j ds) name, s') \<and>
    disk s' = disk s \<and> bframe s s'"
  using assms
proof (induction "Suc (length ds) - j" arbitrary: j s rule: less_induct)
  case less
  let ?z = "unat (i_size dp)" and ?off = "of_nat (size_Dirent * j) :: u32"
  have z: "?z \<le> MAXFILE * BSIZE" using less.prems(3) by (simp add: file_ok_def)
  have n: "length ds = ?z div size_Dirent" by (simp add: less.prems(4))
  have "size_Dirent * j \<le> MAXFILE * BSIZE + size_Dirent"
    using less.prems(5) z n by (simp add: size_Dirent_def)
  then have u: "unat ?off = size_Dirent * j"
    by (simp add: layout_values BSIZE_def size_Dirent_def unat_of_nat take_bit_nat_eq_self del: of_nat_mult)
  show ?case
  proof (cases "size_Dirent * j < ?z")
    case False
    have "length ds \<le> j" using False n by (simp add: size_Dirent_def)
    with False u less.prems(1) show ?thesis
      by (intro exI [of _ s]) (simp add: dirlookup_loop.simps word_less_nat_alt dirmap_def del: of_nat_mult)
  next
    case True
    obtain s1 where 1: "read_dirent dp ?off s = Ok (if unat ?off + size_Dirent \<le> ?z
          then Some (dirent_of_bytes (get_slice (fcontent (disk s) dp) (unat ?off) size_Dirent)) else None, s1)"
        "disk s1 = disk s" "bframe s s1"
      by (rule read_dirent_spec [OF less.prems(1-3)])
    show ?thesis
    proof (cases "j < length ds")
      case False
      then have "\<not> size_Dirent * j + size_Dirent \<le> ?z" by (simp add: entry_full n)
      with False True 1 u show ?thesis
        by (intro exI [of _ s1]) (simp add: dirlookup_loop.simps word_less_nat_alt dirmap_def del: of_nat_mult)
    next
      case j: True
      then have "size_Dirent * j + size_Dirent \<le> ?z" by (simp add: entry_full n)
      moreover have "ds ! j = dirent_of_bytes (get_slice (fcontent (disk s) dp) (size_Dirent * j) size_Dirent)"
        using j less.prems(4) by (simp add: nth_dents mult.commute)
      ultimately have r: "read_dirent dp ?off s = Ok (Some (ds ! j), s1)" using 1(1) u by simp
      have lt: "?off < i_size dp" using True u by (simp add: word_less_nat_alt del: of_nat_mult)
      show ?thesis
      proof (cases "de_inum (ds ! j) \<noteq> 0 \<and> name_eq (de_name (ds ! j)) name")
        case True
        with r lt 1 j show ?thesis
          by (intro exI [of _ s1]) (simp add: dirlookup_loop.simps dirmap_drop del: of_nat_mult)
      next
        case nomatch: False
        have i1: "bc_inv s1" "0 < nfree s1" using bframeD [OF 1(3)] less.prems(2) by simp_all
        have "Suc (length ds) - Suc j < Suc (length ds) - j" "Suc j \<le> Suc (length ds)" using j by auto
        then obtain s' where s': "dirlookup_loop dp name (of_nat (size_Dirent * Suc j)) s1 =
              Ok (dirmap (drop (Suc j) ds) name, s')" "disk s' = disk s1" "bframe s1 s'"
          using less.hyps [OF _ i1, unfolded 1(2), OF _ less.prems(3,4)] 1(2) by metis
        have "next_off ?off = Ok (of_nat (size_Dirent * Suc j))" using True z by (intro dir_off) simp
        with s' r lt nomatch j 1 show ?thesis
          by (intro exI [of _ s'])
            (auto simp: dirlookup_loop.simps [of dp name ?off] dirmap_drop bframe_trans [OF 1(3)] simp del: of_nat_mult)
      qed
    qed
  qed
qed

lemma dirlookup_spec:
  assumes "bc_inv s" "0 < nfree s" and "file_ok (disk s) dp"
  obtains s' where "dirlookup dp name s =
      Ok (if i_typ dp = T_DIR then dirmap (dents (fcontent (disk s) dp)) name else None, s')"
    "disk s' = disk s" "bframe s s'"
proof (cases "i_typ dp = T_DIR")
  case False
  with assms show thesis by (intro that [of s]) (simp_all add: dirlookup_def)
next
  case True
  with dirlookup_loop_spec [OF assms refl, of 0 name] that show thesis
    by (auto simp: dirlookup_def)
qed

section \<open>Linking\<close>

text \<open>The offset \<open>dirlink\<close> writes to: the first free entry, or the end of the directory.\<close>

definition link_slot :: "dirent list \<Rightarrow> nat" where
  "link_slot ds = (case find_slot (\<lambda>de. de_inum de = 0) ds of Some i \<Rightarrow> i | None \<Rightarrow> length ds)"

lemma link_slot_drop:
  assumes "j \<le> length ds" and "\<forall>i < j. de_inum (ds ! i) \<noteq> 0"
  shows "j \<le> link_slot ds" "link_slot ds \<le> length ds"
    "j < length ds \<Longrightarrow> de_inum (ds ! j) = 0 \<Longrightarrow> link_slot ds = j"
proof -
  show "link_slot ds \<le> length ds"
    by (auto simp: link_slot_def split: option.split dest: find_slot_SomeD)
  show "j \<le> link_slot ds"
    using assms by (auto simp: link_slot_def split: option.split dest!: find_slot_SomeD)
      (meson not_less)
  show "link_slot ds = j" if "j < length ds" "de_inum (ds ! j) = 0"
  proof -
    have "find_slot (\<lambda>de. de_inum de = 0) ds = Some j"
      using that assms(2) by (simp add: find_slot_Some_iff)
    then show ?thesis by (simp add: link_slot_def)
  qed
qed

text \<open>A directory: a file of the type \<open>T_DIR\<close> that consists of whole entries.\<close>

definition dir_ok :: "(nat \<Rightarrow> byte list) \<Rightarrow> inode \<Rightarrow> bool" where
  "dir_ok dk dp \<longleftrightarrow> file_ok dk dp \<and> i_typ dp = T_DIR \<and> size_Dirent dvd unat (i_size dp)"

lemma dir_size: "dir_ok dk dp \<Longrightarrow> unat (i_size dp) = size_Dirent * length (dents (fcontent dk dp))"
  by (auto simp: dir_ok_def)

lemma dirlink_loop_spec:
  assumes "bc_inv s" "0 < nfree s" and "dir_ok (disk s) dp"
    and "ds = dents (fcontent (disk s) dp)" and "j \<le> length ds" and "\<forall>i < j. de_inum (ds ! i) \<noteq> 0"
  shows "\<exists>s'. dirlink_loop dp (of_nat (size_Dirent * j)) s = Ok (Some (of_nat (size_Dirent * link_slot ds)), s') \<and>
    disk s' = disk s \<and> bframe s s'"
  using assms
proof (induction "length ds - j" arbitrary: j s rule: less_induct)
  case less
  let ?z = "unat (i_size dp)" and ?off = "of_nat (size_Dirent * j) :: u32"
  have ok: "file_ok (disk s) dp" using less.prems(3) by (simp add: dir_ok_def)
  have n: "?z = size_Dirent * length ds" unfolding less.prems(4) by (rule dir_size [OF less.prems(3)])
  have z: "?z \<le> MAXFILE * BSIZE" using ok by (simp add: file_ok_def)
  have "size_Dirent * j \<le> MAXFILE * BSIZE"
    using less.prems(5) z unfolding n by (meson mult_le_mono2 order_trans)
  then have u: "unat ?off = size_Dirent * j" by (rule unat_fsize)
  show ?case
  proof (cases "j < length ds")
    case False
    then have "j = link_slot ds" using less.prems(5) link_slot_drop(1,2) [OF less.prems(5,6)] by simp
    moreover have "\<not> ?off < i_size dp" using False u n by (simp add: word_less_nat_alt del: of_nat_mult)
    ultimately show ?thesis using less.prems(1) by (intro exI [of _ s]) (simp add: dirlink_loop.simps)
  next
    case True
    then have full: "unat ?off + size_Dirent \<le> ?z" 
      unfolding u n by (simp add: size_Dirent_def)
    then have lt: "?off < i_size dp" by (simp add: word_less_nat_alt size_Dirent_def del: of_nat_mult)
    have dj: "ds ! j = dirent_of_bytes (get_slice (fcontent (disk s) dp) (unat ?off) size_Dirent)"
      unfolding u using True less.prems(4) by (simp add: nth_dents mult.commute)
    obtain s1 where 1: "read_dirent dp ?off s = Ok (Some (ds ! j), s1)" "disk s1 = disk s" "bframe s s1"
      by (rule read_dirent_spec [OF less.prems(1,2) ok, of ?off]) (simp only: full if_True dj)
    show ?thesis
    proof (cases "de_inum (ds ! j) = 0")
      case zero: True
      with link_slot_drop(3) [OF less.prems(5,6) True] 1 lt show ?thesis
        by (intro exI [of _ s1]) (simp add: dirlink_loop.simps del: of_nat_mult)
    next
      case False
      have i1: "bc_inv s1" "0 < nfree s1" using bframeD [OF 1(3)] less.prems(2) by simp_all
      have "length ds - Suc j < length ds - j" "Suc j \<le> length ds" "\<forall>i < Suc j. de_inum (ds ! i) \<noteq> 0"
        using True False less.prems(6) by (auto simp: less_Suc_eq)
      then obtain s' where s': "dirlink_loop dp (of_nat (size_Dirent * Suc j)) s1 =
            Ok (Some (of_nat (size_Dirent * link_slot ds)), s')" "disk s' = disk s1" "bframe s1 s'"
        using less.hyps [OF _ i1, unfolded 1(2), OF _ less.prems(3,4)] 1(2) by metis
      have "next_off ?off = Ok (of_nat (size_Dirent * Suc j))"
        using full z unfolding u by (intro dir_off) (simp add: size_Dirent_def)
      with s' lt False 1 show ?thesis
        by (intro exI [of _ s'])
          (simp add: dirlink_loop.simps [of dp ?off] bframe_trans [OF 1(3)] del: of_nat_mult)
    qed
  qed
qed

text \<open>An entry never straddles two blocks, so it is written as a whole or not at all.\<close>

lemma writei_loop_done: "writei_loop ip off src (length src) s = Ok (length src, ip, s)"
  by (simp add: writei_loop.simps)

lemma writei_loop_single:
  assumes "writei_loop ip off src 0 s = Ok (t, ip', s')" and "off mod BSIZE + length src \<le> BSIZE"
  shows "t = 0 \<or> t = length src"
proof (cases "src = []")
  case True
  with assms show ?thesis by (simp add: writei_loop.simps)
next
  case False
  have m: "min (length src - 0) (BSIZE - (off + 0) mod BSIZE) = length src" using assms(2) by simp
  from False have "0 < length src" by simp
  with assms(1) show ?thesis
    unfolding writei_loop.simps [of ip off src 0 s] Let_def m add_0
    by (auto simp: writei_loop_done elim!: bindE_OkE split: option.splits)
qed

lemma writei_tail_single:
  assumes "writei_tail ip off src sc s = Ok (t, ip', s')" and "unat off mod BSIZE + length src \<le> BSIZE"
  shows "t = 0 \<or> t = length src"
proof -
  from assms(1) obtain r where r: "writei_loop ip (unat off) src 0 s = Ok r"
    unfolding writei_tail_def by (rule bindE_OkE)
  obtain t' ip1 s1 where [simp]: "r = (t', ip1, s1)" by (cases r)
  from assms(1) r have "t = t'"
    unfolding writei_tail_def by (simp only: bindE_simps prod.case Let_def \<open>r = _\<close>) (auto split: if_splits elim: bindE_OkE)
  with writei_loop_single [of ip "unat off" src s t' ip1 s1] r assms(2) show ?thesis by simp
qed

lemma inode_writei_single:
  assumes "inode_writei ip off src s = Ok (t, ip', s')" and "unat off mod BSIZE + length src \<le> BSIZE"
  shows "t = 0 \<or> t = length src"
proof (cases "\<exists>jp sc s1. writei_tail jp off src sc s1 = Ok (t, ip', s')")
  case True
  with assms(2) show ?thesis by (blast dest: writei_tail_single)
next
  case False
  with assms(1) show ?thesis
    by (auto simp: inode_writei_def split: if_splits elim!: bindE_OkE)
qed

section \<open>The map of a directory\<close>

definition put_entry_at :: "dirent list \<Rightarrow> nat \<Rightarrow> dirent \<Rightarrow> dirent list" where
  "put_entry_at ds i de = (if i < length ds then ds[i := de] else ds @ [de])"

lemma dents_write:
  assumes c: "length c = size_Dirent * n" and i: "i \<le> n" and de: "length (de_name de) = DIRSIZ"
  shows "dents (write_at c (size_Dirent * i) (bytes_of_dirent de)) = put_entry_at (dents c) i de"
proof (rule nth_equalityI)
  let ?c = "write_at c (size_Dirent * i) (bytes_of_dirent de)"
  note lb = length_bytes_of_dirent [OF de]
  have len: "length ?c = size_Dirent * max n (Suc i)"
    unfolding length_write_at lb c by (auto simp: max_def size_Dirent_def)
  then show l: "length (dents ?c) = length (put_entry_at (dents c) i de)"
    using c i by (auto simp: put_entry_at_def size_Dirent_def)
  fix j assume "j < length (dents ?c)"
  then have j: "j < max n (Suc i)" using len by (simp add: size_Dirent_def)
  then have d: "dents ?c ! j = dirent_of_bytes (get_slice ?c (j * size_Dirent) size_Dirent)"
    using len by (intro nth_dents) (simp add: size_Dirent_def)
  show "dents ?c ! j = put_entry_at (dents c) i de ! j"
  proof (cases "j = i")
    case True
    have "get_slice ?c (j * size_Dirent) size_Dirent = bytes_of_dirent de"
      using read_write_at [of "bytes_of_dirent de" "size_Dirent * i" c]
      by (simp add: True get_slice_def lb mult.commute)
    with d True i c de show ?thesis
      by (auto simp: put_entry_at_def dirent_of_bytes_of nth_append size_Dirent_def)
  next
    case False
    with j i have jn: "j < n" by auto
    have "get_slice ?c (j * size_Dirent) size_Dirent = get_slice c (j * size_Dirent) size_Dirent"
    proof (rule nth_equalityI)
      show "length (get_slice ?c (j * size_Dirent) size_Dirent) = length (get_slice c (j * size_Dirent) size_Dirent)"
        using len c jn by (auto simp: size_Dirent_def max_def min_def)
      fix k assume "k < length (get_slice ?c (j * size_Dirent) size_Dirent)"
      then have k: "k < size_Dirent" by simp
      then have r: "j * size_Dirent + k < length c" using jn c by (simp add: size_Dirent_def)
      have out: "\<not> (size_Dirent * i \<le> j * size_Dirent + k \<and> j * size_Dirent + k < size_Dirent * i + size_Dirent)"
        using False k by (simp add: size_Dirent_def)
      have r': "j * size_Dirent + k < max (length c) (size_Dirent * i + length (bytes_of_dirent de))" using r by simp
      have "?c ! (j * size_Dirent + k) = c ! (j * size_Dirent + k)"
        unfolding nth_write_at [OF r'] lb using out r by (simp only: if_False if_True)
      moreover have r2: "j * size_Dirent + k < length ?c" unfolding length_write_at by (rule r')
      ultimately show "get_slice ?c (j * size_Dirent) size_Dirent ! k = get_slice c (j * size_Dirent) size_Dirent ! k"
        using nth_get_slice [OF k r] nth_get_slice [OF k r2] by simp
    qed
    moreover have n: "length c div size_Dirent = n" by (simp add: c size_Dirent_def)
    moreover have "dents c ! j = dirent_of_bytes (get_slice c (j * size_Dirent) size_Dirent)"
      by (rule nth_dents) (simp add: n jn)
    moreover have "put_entry_at (dents c) i de ! j = dents c ! j"
      using False jn n by (simp add: put_entry_at_def nth_append)
    ultimately show ?thesis using d by simp
  qed
qed

lemma find_update:
  assumes "i < length xs \<Longrightarrow> \<not> P (xs ! i)" and "\<not> P x"
  shows "find P (xs[i := x]) = find P xs"
  using assms
proof (induction xs arbitrary: i)
  case (Cons y xs)
  then show ?case by (cases i) auto
qed simp

lemma find_update_hit:
  assumes "i < length xs" and "\<forall>y \<in> set xs. \<not> P y" and "P x"
  shows "find P (xs[i := x]) = Some x"
  using assms
proof (induction xs arbitrary: i)
  case (Cons y xs)
  then show ?case by (cases i) auto
qed simp

lemma find_snoc: "find P (xs @ [x]) = (case find P xs of None \<Rightarrow> if P x then Some x else None | Some y \<Rightarrow> Some y)"
  by (induction xs) auto

lemma link_slot_free: "link_slot ds < length ds \<Longrightarrow> de_inum (ds ! link_slot ds) = 0"
  by (auto simp: link_slot_def split: option.splits dest: find_slot_SomeD)

lemma dirmap_put:
  assumes none: "dirmap ds name = None" and w: "w \<noteq> 0"
  shows "dirmap (put_entry_at ds (link_slot ds) \<lparr>de_inum = w, de_name = dirent_name name\<rparr>) n =
    (if dirent_name n = dirent_name name then Some (ucast w) else dirmap ds n)"
proof -
  let ?P = "\<lambda>n de. de_inum de \<noteq> 0 \<and> name_eq (de_name de) n"
  let ?de = "\<lparr>de_inum = w, de_name = dirent_name name\<rparr>" and ?i = "link_slot ds"
  have no: "\<forall>y \<in> set ds. \<not> ?P name y" using none by (auto simp: dirmap_def find_None_iff)
  show ?thesis
  proof (cases "dirent_name n = dirent_name name")
    case True
    have P: "?P n = ?P name" by (simp add: name_eq_def True)
    have "find (?P name) (put_entry_at ds ?i ?de) = Some ?de"
      using no w find_update_hit [of ?i ds "?P name" ?de]
      by (auto simp: put_entry_at_def find_snoc name_eq_def find_None_iff split: option.splits)
        (metis (mono_tags, lifting) find_Some_iff nth_mem)
    with True show ?thesis unfolding dirmap_def P by simp
  next
    case False
    then have "\<not> ?P n ?de" by (simp add: name_eq_def)
    then have "find (?P n) (put_entry_at ds ?i ?de) = find (?P n) ds"
      using link_slot_free [of ds] find_update [of ?i ds "?P n" ?de]
      by (auto simp: put_entry_at_def find_snoc split: option.splits)
    with False show ?thesis by (simp add: dirmap_def)
  qed
qed

text \<open>The outcomes of \<open>dirlink\<close> on a directory.\<close>

lemma entry_block: "(size_Dirent * i) mod BSIZE + size_Dirent \<le> BSIZE"
proof -
  have "(16 * i) mod (16 * 64) = 16 * (i mod 64)" by (rule mult_mod_right [symmetric])
  moreover have "i mod 64 < 64" by simp
  ultimately show ?thesis by (simp add: size_Dirent_def BSIZE_def)
qed

definition disk_full :: "(nat \<Rightarrow> byte list) \<Rightarrow> bool" where
  "disk_full dk \<longleftrightarrow> (\<forall>x. data_block x \<longrightarrow> blk_used dk x)"

lemma write_dirent_spec:
  assumes inv: "bc_inv s" "2 \<le> nfree s" and ok: "file_ok (disk s) dp" and i: "unat (i_inum dp) < NINODES"
    and de: "length (de_name de) = DIRSIZ" and k: "size_Dirent * j \<le> unat (i_size dp)"
  obtains (written) dp' s' where "write_dirent dp (of_nat (size_Dirent * j)) de s = Ok (True, dp', s')"
      "file_op s dp s' dp'" "dinode_at (disk s') (i_inum dp) = dinode_of dp'"
      "fcontent (disk s') dp' = write_at (fcontent (disk s) dp) (size_Dirent * j) (bytes_of_dirent de)"
  | (full) dp' s' where "write_dirent dp (of_nat (size_Dirent * j)) de s = Ok (False, dp', s')"
      "file_op s dp s' dp'" "fcontent (disk s') dp' = fcontent (disk s) dp"
      "MAXFILE * BSIZE < size_Dirent * j + size_Dirent \<or> disk_full (disk s')"
proof -
  let ?off = "of_nat (size_Dirent * j) :: u32" and ?b = "bytes_of_dirent de"
  note lb = length_bytes_of_dirent [OF de]
  have u: "unat ?off = size_Dirent * j" using ok k by (intro unat_fsize) (simp add: file_ok_def)
  have ne: "?b \<noteq> []" using lb by (auto simp: size_Dirent_def)
  have red: "write_dirent dp ?off de s =
      bindE (inode_writei dp ?off ?b s) (\<lambda>(n, dp, s). Ok (n = size_Dirent, dp, s))"
    by (simp add: write_dirent_def lb Let_def)
  show thesis
  proof (cases "unat ?off + length ?b \<le> MAXFILE * BSIZE")
    case False
    then have "write_dirent dp ?off de s = Ok (False, dp, s)"
      unfolding red by (simp add: inode_writei_def size_Dirent_def)
    then show thesis using inv ok False u lb by (intro full [of dp s]) (simp_all add: file_op_same)
  next
    case True
    from inv ok i ne True show thesis
    proof (cases rule: inode_writei_spec)
      case (nospace dp' s')
      with u k show thesis by simp
    next
      case (wrote t dp' s')
      have "unat ?off mod BSIZE + length ?b \<le> BSIZE" unfolding u lb by (rule entry_block)
      with wrote(1) have t: "t = 0 \<or> t = size_Dirent" using inode_writei_single lb by metis
      have c: "fcontent (disk s') dp' = write_at (fcontent (disk s) dp) (size_Dirent * j) (take t ?b)"
        using wrote(2) unfolding write_post_def u by blast
      show thesis
      proof (cases "t = 0")
        case True
        have "fcontent (disk s') dp' = fcontent (disk s) dp" unfolding c True using k by (simp add: write_at_def)
        moreover have "write_dirent dp ?off de s = Ok (False, dp', s')"
          unfolding red wrote(1) True by (simp add: size_Dirent_def)
        moreover have "disk_full (disk s')"
          using wrote(2) True lb unfolding write_post_def by (simp add: disk_full_def size_Dirent_def)
        ultimately show thesis using wrote(3) by (intro full [of dp' s']) simp_all
      next
        case False
        with t have "t = size_Dirent" "0 < t" by simp_all
        moreover have "write_dirent dp ?off de s = Ok (True, dp', s')"
          unfolding red wrote(1) by (simp add: calculation)
        ultimately show thesis using wrote(3,4) c lb by (intro written [of dp' s']) simp_all
      qed
    qed
  qed
qed

lemma dir_ok_size:
  assumes "file_op s dp s' dp'" and "dir_ok (disk s) dp" and "size_Dirent dvd unat (i_size dp')"
  shows "dir_ok (disk s') dp'"
proof -
  have "file_step (disk s) dp (disk s') dp'" "file_ok (disk s') dp'" using assms(1) by (simp_all add: file_op_def)
  with assms(2,3) file_step_meta(1) [OF this(1)] show ?thesis by (simp add: dir_ok_def)
qed

lemma dirlink_spec:
  assumes inv: "bc_inv s" "2 \<le> nfree s" and dir: "dir_ok (disk s) dp" and i: "unat (i_inum dp) < NINODES"
    and ds: "ds = dents (fcontent (disk s) dp)"
    and de: "de = \<lparr>de_inum = ucast inum, de_name = dirent_name name\<rparr>"
  obtains (exists) s' where "dirlink dp name inum s = Ok (False, dp, s')" "dirmap ds name \<noteq> None"
      "disk s' = disk s" "bframe s s'"
  | (linked) dp' s' where "dirlink dp name inum s = Ok (True, dp', s')" "dirmap ds name = None"
      "file_op s dp s' dp'" "dir_ok (disk s') dp'"
      "dents (fcontent (disk s') dp') = put_entry_at ds (link_slot ds) de"
      "dinode_at (disk s') (i_inum dp) = dinode_of dp'"
  | (full) dp' s' where "dirlink dp name inum s = Ok (False, dp', s')" "dirmap ds name = None"
      "file_op s dp s' dp'" "dir_ok (disk s') dp'" "fcontent (disk s') dp' = fcontent (disk s) dp"
      "MAXFILE * BSIZE < unat (i_size dp) + size_Dirent \<or> disk_full (disk s')"
proof -
  have ok: "file_ok (disk s) dp" and ty: "i_typ dp = T_DIR" using dir by (simp_all add: dir_ok_def)
  have free: "0 < nfree s" using inv(2) by simp
  obtain s1 where 1: "dirlookup dp name s = Ok (dirmap ds name, s1)" "disk s1 = disk s" "bframe s s1"
    by (rule dirlookup_spec [OF inv(1) free ok, of name]) (simp add: ty ds)
  show thesis
  proof (cases "dirmap ds name")
    case (Some x)
    with 1 ty show thesis by (intro exists [of s1]) (simp_all add: dirlink_def)
  next
    case None
    let ?k = "size_Dirent * link_slot ds"
    have inv1: "bc_inv s1" "0 < nfree s1" using bframeD [OF 1(3)] free by simp_all
    obtain s2 where 2: "dirlink_loop dp 0 s1 = Ok (Some (of_nat ?k), s2)" "disk s2 = disk s" "bframe s1 s2"
      using dirlink_loop_spec [OF inv1, of dp ds 0] dir ds 1(2) by auto
    have f2: "bframe s s2" by (rule bframe_trans [OF 1(3) 2(3)])
    have inv2: "bc_inv s2" "2 \<le> nfree s2" using bframeD [OF f2] inv(2) by simp_all
    have op: "file_op s dp s' dp'" if "file_op s2 dp s' dp'" for s' dp'
      using that bframe_trans [OF f2] 2(2) by (simp add: file_op_def)
    have n: "unat (i_size dp) = size_Dirent * length ds" unfolding ds by (rule dir_size [OF dir])
    have le: "link_slot ds \<le> length ds" using link_slot_drop(2) [of 0 ds] by simp
    then have k: "?k \<le> unat (i_size dp)" unfolding n by simp
    have name: "length (de_name de) = DIRSIZ" by (simp add: de)
    have ok2: "file_ok (disk s2) dp" using ok 2(2) by simp
    have red: "dirlink dp name inum s = write_dirent dp (of_nat ?k) de s2"
      using 1(1) 2(1) None ty by (simp add: dirlink_def de)
    from inv2 ok2 i name k show thesis
    proof (cases rule: write_dirent_spec)
      case (full dp' s')
      have c: "fcontent (disk s') dp' = fcontent (disk s) dp" using full(3) 2(2) by simp
      then have "unat (i_size dp') = unat (i_size dp)" by (metis length_fcontent)
      then have "dir_ok (disk s') dp'" using dir by (intro dir_ok_size [OF op [OF full(2)] dir]) (simp add: dir_ok_def)
      with None red full(1,4) op [OF full(2)] c k show thesis by (intro that(3) [of dp' s']) auto
    next
      case (written dp' s')
      have c: "fcontent (disk s') dp' = write_at (fcontent (disk s) dp) ?k (bytes_of_dirent de)"
        using written(4) 2(2) by simp
      have "dents (fcontent (disk s') dp') = put_entry_at ds (link_slot ds) de"
        unfolding c using n le name by (subst dents_write [where n = "length ds"]) (simp_all add: ds)
      moreover have "unat (i_size dp') = max (unat (i_size dp)) (?k + size_Dirent)"
        using arg_cong [OF c, of length] by (simp add: length_write_at length_bytes_of_dirent [OF name])
      then have "dir_ok (disk s') dp'"
        using n by (intro dir_ok_size [OF op [OF written(2)] dir]) (simp add: max_def)
      ultimately show thesis
        using None red written(1,3) op [OF written(2)] by (intro that(2) [of dp' s']) simp_all
    qed
  qed
qed

end
