(* ===== verification/Fs_Ops.thy ===== *)
theory Fs_Ops
  imports Dir
begin

text \<open>
  The operations of the file system on inode references, \<open>src/fs.rs\<close> lines 702 to 1199: \<open>ialloc\<close>,
  the creation of files and directories, path resolution, \<open>init\<close> and the entry points the
  rest of the kernel calls.

  The program images that the build embeds with \<open>include_bytes!\<close> and \<open>include_str!\<close> are not part
  of the sources; they are the parameters \<open>img\<close> and \<open>readme\<close>.
\<close>

definition bytes :: "string \<Rightarrow> byte list" where
  "bytes str = map (\<lambda>c. of_nat (of_char c)) str"

definition slash :: byte where "slash = 47"

definition Dinode_new :: "u16 \<Rightarrow> dinode" where
  "Dinode_new ty = \<lparr>d_typ = ty, d_major = 0, d_minor = 0, d_nlink = 0, d_size = 0,
     d_addrs = replicate (NDIRECT + 1) 0\<rparr>"

fun ialloc_loop :: "nat list \<Rightarrow> u16 \<Rightarrow> 'z fs_scheme \<Rightarrow> (inode_ref option \<times> 'z fs_scheme) res" where
  "ialloc_loop [] ty s = Ok (None, s)"
| "ialloc_loop (i # is) ty s =
     (let inum = of_nat i in
      bindE (read_dinode inum s) (\<lambda>(dip, s).
      if d_typ dip = 0 then
        bindE (write_dinode inum (Dinode_new ty) s) (\<lambda>s. Ok (iget inum s))
      else ialloc_loop is ty s))"

definition ialloc :: "u16 \<Rightarrow> 'z fs_scheme \<Rightarrow> (inode_ref option \<times> 'z fs_scheme) res" where
  "ialloc ty s = ialloc_loop [1..<NINODES] ty s"

text \<open>\<open>nlink\<close> is an \<open>i16\<close>: \<open>checked_add\<close> fails at 32767.\<close>

definition inc_nlink :: "inode_ref \<Rightarrow> 'z fs_scheme \<Rightarrow> 'z fs_scheme res" where
  "inc_nlink r s =
     bindE (ilock r s) (\<lambda>(ip, s).
     if i_nlink ip = 0x7FFF then panic ''inc_nlink: overflow''
     else
       (let ip = ip\<lparr>i_nlink := i_nlink ip + 1\<rparr> in
        iupdate ip (set_inode r ip s)))"

text \<open>\<open>dirlink\<close> through the guard of slot \<open>r\<close>, which is changed in place.\<close>

definition guard_dirlink :: "inode_ref \<Rightarrow> byte list \<Rightarrow> u32 \<Rightarrow> 'z fs_scheme \<Rightarrow> (bool \<times> 'z fs_scheme) res" where
  "guard_dirlink r name inum s =
     bindE (dirlink (icache s ! r) name inum s) (\<lambda>(ok, dp, s). Ok (ok, set_inode r dp s))"

definition link_child :: "inode_ref \<Rightarrow> byte list \<Rightarrow> u32 \<Rightarrow> 'z fs_scheme \<Rightarrow> (bool \<times> 'z fs_scheme) res" where
  "link_child r name child_inum s =
     bindE (ilock r s) (\<lambda>(dp, s). guard_dirlink r name child_inum s)"

text \<open>The block of \<open>mkdir_child\<close> under the new directory's guard (lines 750 to 759).\<close>

definition mkdir_dots :: "inode_ref \<Rightarrow> u32 \<Rightarrow> 'z fs_scheme \<Rightarrow> ((u32 \<times> bool) \<times> 'z fs_scheme) res" where
  "mkdir_dots r parent_inum s =
     bindE (ilock r s) (\<lambda>(ip, s).
     let inum = i_inum ip in
     bindE (guard_dirlink r (bytes ''.'') inum s) (\<lambda>(ok, s).
     bindE (if ok then guard_dirlink r (bytes ''..'') parent_inum s else Ok (False, s)) (\<lambda>(ok, s).
     if ok then
       (let ip = (icache s ! r)\<lparr>i_nlink := 1\<rparr> in
        bindE (iupdate ip (set_inode r ip s)) (\<lambda>s. Ok ((inum, True), s)))
     else Ok ((inum, False), s))))"

definition mkdir_child :: "inode_ref \<Rightarrow> byte list \<Rightarrow> 'z fs_scheme \<Rightarrow> (inode_ref option \<times> 'z fs_scheme) res" where
  "mkdir_child parent name s =
     bindE (ilock parent s) (\<lambda>(dp, s).
     let parent_inum = i_inum dp in
     bindE (ialloc T_DIR s) (\<lambda>(r, s).
     case r of
       None \<Rightarrow> Ok (None, s)
     | Some ip_ref \<Rightarrow>
         bindE (mkdir_dots ip_ref parent_inum s) (\<lambda>((inum, ok), s).
         if \<not> ok then bindE (iput ip_ref s) (\<lambda>s. Ok (None, s))
         else
           bindE (link_child parent name inum s) (\<lambda>(ok, s).
           if \<not> ok then bindE (iput ip_ref s) (\<lambda>s. Ok (None, s))
           else
             bindE (inc_nlink ip_ref s) (\<lambda>s.
             bindE (inc_nlink parent s) (\<lambda>s.
             Ok (Some ip_ref, s)))))))"

definition create_file ::
    "inode_ref \<Rightarrow> byte list \<Rightarrow> byte list \<Rightarrow> 'z fs_scheme \<Rightarrow> (inode_ref option \<times> 'z fs_scheme) res" where
  "create_file parent name data s =
     bindE (ialloc T_FILE s) (\<lambda>(r, s).
     case r of
       None \<Rightarrow> Ok (None, s)
     | Some ip_ref \<Rightarrow>
         bindE (ilock ip_ref s) (\<lambda>(ip, s).
         let inum = i_inum ip in
         bindE (inode_writei ip 0 data s) (\<lambda>(n, ip, s).
         let s = set_inode ip_ref ip s in
         if n \<noteq> length data then bindE (iput ip_ref s) (\<lambda>s. Ok (None, s))
         else
           bindE (link_child parent name inum s) (\<lambda>(ok, s).
           if \<not> ok then bindE (iput ip_ref s) (\<lambda>s. Ok (None, s))
           else bindE (inc_nlink ip_ref s) (\<lambda>s. Ok (Some ip_ref, s))))))"

definition create_empty_file ::
    "inode_ref \<Rightarrow> byte list \<Rightarrow> 'z fs_scheme \<Rightarrow> (inode_ref option \<times> 'z fs_scheme) res" where
  "create_empty_file parent name s =
     bindE (ialloc T_FILE s) (\<lambda>(r, s).
     case r of
       None \<Rightarrow> Ok (None, s)
     | Some ip_ref \<Rightarrow>
         bindE (ilock ip_ref s) (\<lambda>(ip, s).
         let inum = i_inum ip in
         bindE (link_child parent name inum s) (\<lambda>(ok, s).
         if \<not> ok then bindE (iput ip_ref s) (\<lambda>s. Ok (None, s))
         else bindE (inc_nlink ip_ref s) (\<lambda>s. Ok (Some ip_ref, s)))))"

section \<open>Path names\<close>

definition skipelem :: "byte list \<Rightarrow> (byte list \<times> byte list) option" where
  "skipelem path =
     (let path = dropWhile (\<lambda>b. b = slash) path in
      if path = [] then None
      else
        (case find_slot (\<lambda>b. b = slash) path of
           Some i \<Rightarrow> Some (take i path, drop i path)
         | None \<Rightarrow> Some (path, [])))"

lemma skipelem_shorter [termination_simp]:
  assumes "skipelem path = Some (name, next)"
  shows "length next < length path"
proof -
  let ?p = "dropWhile (\<lambda>b. b = slash) path"
  have p: "?p \<noteq> []" using assms unfolding skipelem_def Let_def by (metis option.distinct(1))
  then have h: "hd ?p \<noteq> slash" by (rule hd_dropWhile)
  have sk: "skipelem path = (case find_slot (\<lambda>b. b = slash) ?p of
      Some i \<Rightarrow> Some (take i ?p, drop i ?p) | None \<Rightarrow> Some (?p, []))"
    using p by (simp only: skipelem_def Let_def if_False)
  have "length next < length ?p"
  proof (cases "find_slot (\<lambda>b. b = slash) ?p")
    case None
    then have "next = []" using assms sk by simp
    with p show ?thesis by (metis length_greater_0_conv list.size(3))
  next
    case (Some i)
    then have "next = drop i ?p" using assms sk by simp
    moreover have "i \<noteq> 0" using find_slot_SomeD [OF Some] h p by (metis hd_conv_nth)
    ultimately show ?thesis using p by (metis diff_less length_drop length_greater_0_conv neq0_conv)
  qed
  also have "length ?p \<le> length path" by (rule length_dropWhile_le)
  finally show ?thesis .
qed

text \<open>Where a path starts: at the root, or at the working directory.\<close>

definition path_start :: "inode_ref \<Rightarrow> byte list \<Rightarrow> 'z fs_scheme \<Rightarrow> (inode_ref option \<times> 'z fs_scheme) res" where
  "path_start cwd path s =
     (if path ! 0 = slash then Ok (iget ROOTINO s)
      else bindE (idup cwd s) (\<lambda>(r, s). Ok (Some r, s)))"

text \<open>
  One component: look \<open>name\<close> up in the directory \<open>r\<close>, take a reference to what it names and
  drop the one to the directory.
\<close>

definition walk_step :: "inode_ref \<Rightarrow> byte list \<Rightarrow> 'z fs_scheme \<Rightarrow> (inode_ref option \<times> 'z fs_scheme) res" where
  "walk_step r name s =
     bindE (ilock r s) (\<lambda>(ip, s).
     bindE (if i_typ ip \<noteq> T_DIR then Ok (None, s) else dirlookup ip name s) (\<lambda>(inum, s).
     case inum of
       None \<Rightarrow> bindE (iput r s) (\<lambda>s. Ok (None, s))
     | Some inum \<Rightarrow>
         (case iget inum s of
            (None, s) \<Rightarrow> bindE (iput r s) (\<lambda>s. Ok (None, s))
          | (Some next_ref, s) \<Rightarrow> bindE (iput r s) (\<lambda>s. Ok (Some next_ref, s)))))"

function namei_loop :: "inode_ref \<Rightarrow> byte list \<Rightarrow> 'z fs_scheme \<Rightarrow> (inode_ref option \<times> 'z fs_scheme) res" where
  "namei_loop r rest s =
     (case skipelem rest of
        None \<Rightarrow> Ok (Some r, s)
      | Some (name, next) \<Rightarrow>
          bindE (walk_step r name s) (\<lambda>(q, s).
          case q of
            None \<Rightarrow> Ok (None, s)
          | Some r \<Rightarrow> namei_loop r next s))"
  by pat_completeness auto

termination
  by (relation "measure (\<lambda>(r, rest, s). length rest)") (auto dest: skipelem_shorter)

definition namei :: "inode_ref \<Rightarrow> byte list \<Rightarrow> 'z fs_scheme \<Rightarrow> (inode_ref option \<times> 'z fs_scheme) res" where
  "namei cwd path s =
     (if path = [] then Ok (None, s)
      else
        bindE (path_start cwd path s) (\<lambda>(r, s).
        case r of
          None \<Rightarrow> Ok (None, s)
        | Some r \<Rightarrow> namei_loop r path s))"

function nameiparent_loop ::
    "inode_ref \<Rightarrow> byte list \<Rightarrow> 'z fs_scheme \<Rightarrow> ((inode_ref \<times> byte list) option \<times> 'z fs_scheme) res" where
  "nameiparent_loop r rest s =
     (case skipelem rest of
        None \<Rightarrow> bindE (iput r s) (\<lambda>s. Ok (None, s))
      | Some (name, next) \<Rightarrow>
          if skipelem next = None then Ok (Some (r, name), s)
          else
            bindE (walk_step r name s) (\<lambda>(q, s).
            case q of
              None \<Rightarrow> Ok (None, s)
            | Some r \<Rightarrow> nameiparent_loop r next s))"
  by pat_completeness auto

termination
  by (relation "measure (\<lambda>(r, rest, s). length rest)") (auto dest: skipelem_shorter)

declare namei_loop.simps [simp del] nameiparent_loop.simps [simp del]

definition nameiparent ::
    "inode_ref \<Rightarrow> byte list \<Rightarrow> 'z fs_scheme \<Rightarrow> ((inode_ref \<times> byte list) option \<times> 'z fs_scheme) res" where
  "nameiparent cwd path s =
     (if path = [] then Ok (None, s)
      else
        bindE (path_start cwd path s) (\<lambda>(r, s).
        case r of
          None \<Rightarrow> Ok (None, s)
        | Some r \<Rightarrow> nameiparent_loop r path s))"

section \<open>The entry points\<close>

datatype InodeType = File | Dir | Device u16

definition inode_type :: "inode_ref \<Rightarrow> 'z fs_scheme \<Rightarrow> (InodeType \<times> 'z fs_scheme) res" where
  "inode_type r s =
     bindE (ilock r s) (\<lambda>(ip, s).
     Ok (if i_typ ip = T_FILE then File
         else if i_typ ip = T_DIR then Dir
         else if i_typ ip = T_DEVICE then Device (i_major ip)
         else File, s))"

definition create :: "inode_ref \<Rightarrow> byte list \<Rightarrow> 'z fs_scheme \<Rightarrow> (inode_ref option \<times> 'z fs_scheme) res" where
  "create cwd path s =
     bindE (nameiparent cwd path s) (\<lambda>(p, s).
     case p of
       None \<Rightarrow> Ok (None, s)
     | Some (parent_ref, name) \<Rightarrow>
         bindE (ilock parent_ref s) (\<lambda>(parent, s).
         bindE (dirlookup parent name s) (\<lambda>(existing, s).
         case existing of
           Some inum \<Rightarrow>
             bindE (iput parent_ref s) (\<lambda>s.
             case iget inum s of
               (None, s) \<Rightarrow> Ok (None, s)
             | (Some ip_ref, s) \<Rightarrow>
                 bindE (inode_type ip_ref s) (\<lambda>(ty, s).
                 if ty = File then Ok (Some ip_ref, s)
                 else bindE (iput ip_ref s) (\<lambda>s. Ok (None, s))))
         | None \<Rightarrow>
             bindE (create_empty_file parent_ref name s) (\<lambda>(ip_ref, s).
             bindE (iput parent_ref s) (\<lambda>s.
             Ok (ip_ref, s))))))"

definition mkdir :: "inode_ref \<Rightarrow> byte list \<Rightarrow> 'z fs_scheme \<Rightarrow> (inode_ref option \<times> 'z fs_scheme) res" where
  "mkdir cwd path s =
     bindE (nameiparent cwd path s) (\<lambda>(p, s).
     case p of
       None \<Rightarrow> Ok (None, s)
     | Some (parent_ref, name) \<Rightarrow>
         bindE (ilock parent_ref s) (\<lambda>(parent, s).
         bindE (dirlookup parent name s) (\<lambda>(r, s).
         if r \<noteq> None then bindE (iput parent_ref s) (\<lambda>s. Ok (None, s))
         else
           bindE (mkdir_child parent_ref name s) (\<lambda>(ip_ref, s).
           bindE (iput parent_ref s) (\<lambda>s.
           Ok (ip_ref, s))))))"

definition root :: "'z fs_scheme \<Rightarrow> (inode_ref \<times> 'z fs_scheme) res" where
  "root s = expect ''root'' (iget ROOTINO s)"

record stat =
  st_typ :: u16
  st_ino :: u32
  st_nlink :: u16
  st_size :: u32

definition stati :: "inode_ref \<Rightarrow> 'z fs_scheme \<Rightarrow> (stat \<times> 'z fs_scheme) res" where
  "stati r s =
     bindE (ilock r s) (\<lambda>(ip, s).
     Ok (\<lparr>st_typ = i_typ ip, st_ino = i_inum ip, st_nlink = i_nlink ip, st_size = i_size ip\<rparr>, s))"

definition readi :: "inode_ref \<Rightarrow> usize \<Rightarrow> byte list \<Rightarrow> 'z fs_scheme \<Rightarrow> (int \<times> byte list \<times> 'z fs_scheme) res" where
  "readi r off dst s =
     (if 2 ^ 32 \<le> unat off then Ok (-1, dst, s)
      else
        bindE (ilock r s) (\<lambda>(ip, s).
        bindE (inode_readi ip (ucast off) dst s) (\<lambda>(n, dst, s).
        Ok (int n, dst, s))))"

definition writei :: "inode_ref \<Rightarrow> usize \<Rightarrow> byte list \<Rightarrow> 'z fs_scheme \<Rightarrow> (int \<times> 'z fs_scheme) res" where
  "writei r off src s =
     (if 2 ^ 32 \<le> unat off then Ok (-1, s)
      else
        bindE (ilock r s) (\<lambda>(ip, s).
        bindE (inode_writei ip (ucast off) src s) (\<lambda>(n, ip, s).
        Ok (int n, set_inode r ip s))))"

definition appendi :: "inode_ref \<Rightarrow> byte list \<Rightarrow> 'z fs_scheme \<Rightarrow> ((int \<times> nat) \<times> 'z fs_scheme) res" where
  "appendi r src s =
     bindE (ilock r s) (\<lambda>(ip, s).
     let off = i_size ip in
     bindE (inode_writei ip off src s) (\<lambda>(n, ip, s).
     let new_off = (if 0 < n then unat off + n else unat off) in
     Ok ((int n, new_off), set_inode r ip s)))"

definition trunc :: "inode_ref \<Rightarrow> 'z fs_scheme \<Rightarrow> 'z fs_scheme res" where
  "trunc r s =
     bindE (ilock r s) (\<lambda>(ip, s).
     bindE (itrunc ip s) (\<lambda>(ip, s).
     Ok (set_inode r ip s)))"

section \<open>Initialisation\<close>

definition init_root :: "'z fs_scheme \<Rightarrow> (inode_ref option \<times> 'z fs_scheme) res" where
  "init_root s = bindE (write_dinode ROOTINO (Dinode_new T_DIR) s) (\<lambda>s. Ok (iget ROOTINO s))"

text \<open>
  \<open>if dirlink(..) { root_dp.nlink += 1 }\<close>, with the overflow check of the \<open>i16\<close> addition.
\<close>

definition root_link :: "inode_ref \<Rightarrow> byte list \<Rightarrow> 'z fs_scheme \<Rightarrow> 'z fs_scheme res" where
  "root_link r name s =
     bindE (guard_dirlink r name ROOTINO s) (\<lambda>(ok, s).
     let dp = icache s ! r in
     if \<not> ok then Ok s
     else if i_nlink dp = 0x7FFF then panic ''attempt to add with overflow''
     else Ok (set_inode r (dp\<lparr>i_nlink := i_nlink dp + 1\<rparr>) s))"

fun populate_bin ::
    "inode_ref \<Rightarrow> (string \<Rightarrow> byte list) \<Rightarrow> string list \<Rightarrow> 'z fs_scheme \<Rightarrow> 'z fs_scheme res" where
  "populate_bin bin img [] s = Ok s"
| "populate_bin bin img (n # ns) s =
     bindE (create_file bin (bytes n) (img n) s) (\<lambda>r.
     bindE (expect (''create /bin/'' @ n) r) (\<lambda>(ip_ref, s).
     bindE (iput ip_ref s) (\<lambda>s.
     populate_bin bin img ns s)))"

definition bin_names :: "string list" where
  "bin_names = [''sh'', ''cat'', ''ls'', ''alloc_test'', ''write_test'', ''dup_test'', ''pipe_test'',
     ''wc'', ''mkdir'', ''echo'', ''clear'']"

definition populate_root :: "(string \<Rightarrow> byte list) \<Rightarrow> byte list \<Rightarrow> 'z fs_scheme \<Rightarrow> 'z fs_scheme res" where
  "populate_root img readme s =
     bindE (write_superblock s) (\<lambda>s.
     bindE (init_root s) (\<lambda>r.
     bindE (expect ''init root'' r) (\<lambda>(rt, s).
     bindE (ilock rt s) (\<lambda>(dp, s).
     bindE (root_link rt (bytes ''.'') s) (\<lambda>s.
     bindE (root_link rt (bytes ''..'') s) (\<lambda>s.
     bindE (iupdate (icache s ! rt) s) (\<lambda>s.
     bindE (mkdir_child rt (bytes ''bin'') s) (\<lambda>r.
     bindE (expect ''mkdir /bin'' r) (\<lambda>(bin, s).
     bindE (populate_bin bin img bin_names s) (\<lambda>s.
     bindE (create_file rt (bytes ''README.md'') readme s) (\<lambda>r.
     bindE (expect ''create README.md'' r) (\<lambda>(rd, s).
     bindE (iput rd s) (\<lambda>s.
     bindE (iput bin s) (\<lambda>s.
     iput rt s))))))))))))))"

definition fs_init :: "(string \<Rightarrow> byte list) \<Rightarrow> byte list \<Rightarrow> 'z fs_scheme \<Rightarrow> 'z fs_scheme res" where
  "fs_init img readme s =
     populate_root img readme
       (s\<lparr>disk := (\<lambda>_. replicate BSIZE 0), bcache := replicate NBUF Buffer_empty,
          icache := replicate NINODE Inode_empty\<rparr>)"

end
