(* ===== verification/Fs_Inv.thy ===== *)
theory Fs_Inv
  imports Fs_Ops
begin

text \<open>
  The invariant of the file system and the operations that keep it.

  An inode has up to two images: the one in the inode table on the disk (\<open>inode_at\<close>), and the
  one in a slot of the inode cache that is referenced and loaded (\<open>view\<close>).  The two agree,
  except that the cached one may know blocks that the other does not (\<open>extends\<close>): a write
  that runs out of blocks leaves that difference behind.  \<open>fs_inv\<close> says that all images are
  well-formed files, that files share no blocks, that a referenced slot and a directory
  entry name allocated inodes only, and that directories consist of whole entries.
\<close>

definition inode_at :: "(nat \<Rightarrow> byte list) \<Rightarrow> u32 \<Rightarrow> inode" where
  "inode_at dk i =
     (let d = dinode_at dk i in
      \<lparr>i_inum = i, i_refcnt = 0, i_valid = True, i_typ = d_typ d, i_major = d_major d, i_minor = d_minor d,
       i_nlink = d_nlink d, i_size = d_size d, i_addrs = d_addrs d\<rparr>)"

lemma inode_at_sel [simp]:
  "i_inum (inode_at dk i) = i" "i_typ (inode_at dk i) = d_typ (dinode_at dk i)"
  "i_size (inode_at dk i) = d_size (dinode_at dk i)" "i_addrs (inode_at dk i) = d_addrs (dinode_at dk i)"
  "i_nlink (inode_at dk i) = d_nlink (dinode_at dk i)"
  by (simp_all add: inode_at_def Let_def)

definition view :: "inode list \<Rightarrow> u32 \<Rightarrow> inode \<Rightarrow> bool" where
  "view ips i ip \<longleftrightarrow> ip \<in> set ips \<and> 0 < i_refcnt ip \<and> i_valid ip \<and> i_inum ip = i"

definition img_of :: "(nat \<Rightarrow> byte list) \<Rightarrow> inode list \<Rightarrow> u32 \<Rightarrow> inode \<Rightarrow> bool" where
  "img_of dk ips i ip \<longleftrightarrow> unat i < NINODES \<and> (ip = inode_at dk i \<or> view ips i ip)"

text \<open>\<open>ip\<close> is the file \<open>d\<close>, possibly with more blocks.\<close>

definition extends :: "inode \<Rightarrow> inode \<Rightarrow> bool" where
  "extends d ip \<longleftrightarrow> i_typ ip = i_typ d \<and> i_nlink ip = i_nlink d \<and> i_size ip = i_size d \<and>
     (\<forall>n \<le> NDIRECT. i_addrs d ! n \<noteq> 0 \<longrightarrow> i_addrs ip ! n = i_addrs d ! n)"

text \<open>The same file, up to the bookkeeping of the cache.\<close>

definition same_inode :: "inode \<Rightarrow> inode \<Rightarrow> bool" where
  "same_inode ip jp \<longleftrightarrow> i_addrs ip = i_addrs jp \<and> i_size ip = i_size jp \<and> i_typ ip = i_typ jp \<and> i_nlink ip = i_nlink jp"

lemma same_inode_refl [simp]: "same_inode ip ip"
  by (simp add: same_inode_def)

text \<open>The contents of file \<open>i\<close>, and the entries of a directory that name something.\<close>

definition content :: "(nat \<Rightarrow> byte list) \<Rightarrow> u32 \<Rightarrow> byte list" where
  "content dk i = fcontent dk (inode_at dk i)"

definition allocated :: "(nat \<Rightarrow> byte list) \<Rightarrow> u32 \<Rightarrow> bool" where
  "allocated dk i \<longleftrightarrow> 0 < unat i \<and> unat i < NINODES \<and> d_typ (dinode_at dk i) \<noteq> 0"

definition entries_ok :: "(nat \<Rightarrow> byte list) \<Rightarrow> byte list \<Rightarrow> bool" where
  "entries_ok dk c \<longleftrightarrow> size_Dirent dvd length c \<and>
     (\<forall>de \<in> set (dents c). de_inum de \<noteq> 0 \<longrightarrow> allocated dk (ucast (de_inum de)))"

definition images_ok :: "(nat \<Rightarrow> byte list) \<Rightarrow> inode list \<Rightarrow> bool" where
  "images_ok dk ips \<longleftrightarrow>
     (\<forall>i ip. img_of dk ips i ip \<longrightarrow> file_ok dk ip \<and> extends (inode_at dk i) ip) \<and>
     (\<forall>i j ip jp. i \<noteq> j \<longrightarrow> img_of dk ips i ip \<longrightarrow> img_of dk ips j jp \<longrightarrow> iblocks dk ip \<inter> iblocks dk jp = {})"

definition dirs_ok :: "(nat \<Rightarrow> byte list) \<Rightarrow> bool" where
  "dirs_ok dk \<longleftrightarrow>
     (\<forall>i. unat i < NINODES \<longrightarrow> d_typ (dinode_at dk i) = T_DIR \<longrightarrow> entries_ok dk (content dk i))"

definition refs_ok :: "(nat \<Rightarrow> byte list) \<Rightarrow> inode list \<Rightarrow> bool" where
  "refs_ok dk ips \<longleftrightarrow> length ips = NINODE \<and> ic.uniq ips \<and>
     (\<forall>ip \<in> set ips. 0 < i_refcnt ip \<longrightarrow> allocated dk (i_inum ip))"

definition fs_inv :: "'z fs_scheme \<Rightarrow> bool" where
  "fs_inv s \<longleftrightarrow> bc_inv s \<and> nfree s = NBUF \<and> refs_ok (disk s) (icache s) \<and>
     images_ok (disk s) (icache s) \<and> dirs_ok (disk s)"

section \<open>Images of one inode\<close>

lemma extends_refl: "extends d d"
  by (simp add: extends_def)

lemma extends_bmap:
  assumes "extends d ip" and "bmap dk d n \<noteq> 0"
  shows "bmap dk ip n = bmap dk d n"
  using assms by (auto simp: extends_def bmap_def split: if_splits)

lemma extends_ind: "extends d ip \<Longrightarrow> i_addrs d ! NDIRECT \<noteq> 0 \<Longrightarrow> i_addrs ip ! NDIRECT = i_addrs d ! NDIRECT"
  by (simp add: extends_def)

lemma extends_iblocks:
  assumes "extends d ip"
  shows "iblocks dk d \<subseteq> iblocks dk ip"
proof
  fix x assume "x \<in> iblocks dk d"
  then consider n where "n < MAXFILE" "bmap dk d n \<noteq> 0" "x = unat (bmap dk d n)"
    | "i_addrs d ! NDIRECT \<noteq> 0" "x = unat (i_addrs d ! NDIRECT)"
    by (auto simp: iblocks_def split: if_splits)
  then show "x \<in> iblocks dk ip"
  proof cases
    case 1
    then show ?thesis using bmap_iblocks [of n dk ip] extends_bmap [OF assms, of dk n] by simp
  next
    case 2
    then show ?thesis using ind_iblocks [of ip dk] extends_ind [OF assms] by simp
  qed
qed

lemma extends_inode_ok:
  assumes e: "extends d ip" and ok: "inode_ok dk ip" and len: "length (i_addrs d) = NDIRECT + 1"
  shows "inode_ok dk d"
  unfolding inode_ok_def
proof (intro conjI ballI allI impI)
  fix x assume "x \<in> iblocks dk d"
  with extends_iblocks [OF e] inode_ok_blocks [OF ok] show "data_block x" "blk_used dk x" by auto
next
  fix n m assume "n < MAXFILE" "m < MAXFILE" "bmap dk d n \<noteq> 0" "bmap dk d n = bmap dk d m"
  with extends_bmap [OF e, of dk n] extends_bmap [OF e, of dk m] ok show "n = m"
    by (simp add: inode_ok_def)
next
  fix n assume n: "n < MAXFILE" "bmap dk d n \<noteq> 0"
  show "bmap dk d n \<noteq> i_addrs d ! NDIRECT"
  proof (cases "i_addrs d ! NDIRECT = 0")
    case False
    have b: "bmap dk ip n = bmap dk d n" by (rule extends_bmap [OF e n(2)])
    then have "bmap dk ip n \<noteq> 0" using n by simp
    then have "bmap dk ip n \<noteq> i_addrs ip ! NDIRECT" using ok n(1) by (simp add: inode_ok_def)
    with b extends_ind [OF e False] show ?thesis by simp
  qed (use n in simp)
qed (rule len)

lemma extends_evolves:
  assumes e: "extends d ip" and ev: "evolves dk ip dk' ip'"
  shows "extends d ip'"
proof -
  have m: "i_typ ip' = i_typ ip" "i_nlink ip' = i_nlink ip" "i_size ip' = i_size ip"
    using file_step_meta(1,4) [OF evolves_file_step [OF ev]] evolves_size [OF ev] by simp_all
  have "i_addrs ip' ! n = i_addrs d ! n" if n: "n \<le> NDIRECT" "i_addrs d ! n \<noteq> 0" for n
  proof (cases "n = NDIRECT")
    case True
    with n e evolvesD(9) [OF ev] show ?thesis by (simp add: extends_def)
  next
    case False
    with n have "n < NDIRECT" "n < MAXFILE" by (simp_all add: MAXFILE_def)
    with n e evolvesD(8) [OF ev, of n] show ?thesis by (simp add: extends_def bmap_def)
  qed
  with e m show ?thesis by (simp add: extends_def)
qed

text \<open>The contents do not depend on the image.\<close>

lemma extends_fcontent:
  assumes e: "extends d ip" and ok: "file_ok dk d"
  shows "fcontent dk ip = fcontent dk d"
proof -
  have "fdata dk ip k = fdata dk d k" if "k < unat (i_size d)" for k
    using that ok extends_bmap [OF e, of dk "k div BSIZE"] by (simp add: file_ok_def mapped_def fdata_def)
  with e show ?thesis by (simp add: fcontent_def extends_def)
qed

lemma same_file:
  assumes "i_addrs ip' = i_addrs ip" and "i_size ip' = i_size ip"
  shows "bmap dk ip' = bmap dk ip" "iblocks dk ip' = iblocks dk ip" "inode_ok dk ip' = inode_ok dk ip"
    "file_ok dk ip' = file_ok dk ip" "fcontent dk ip' = fcontent dk ip"
proof -
  show b: "bmap dk ip' = bmap dk ip" using assms by (simp add: bmap_def fun_eq_iff)
  then show ib: "iblocks dk ip' = iblocks dk ip" using assms by (simp add: iblocks_def)
  show i: "inode_ok dk ip' = inode_ok dk ip" using assms by (simp add: inode_ok_def b ib)
  have "fdata dk ip' = fdata dk ip" by (simp add: fdata_def b fun_eq_iff)
  then show "fcontent dk ip' = fcontent dk ip" using assms by (simp add: fcontent_def)
  show "file_ok dk ip' = file_ok dk ip" using assms i by (simp add: file_ok_def mapped_def b)
qed

section \<open>Changes of the cache only\<close>

text \<open>
  An operation that leaves the disk alone keeps the invariant when each image afterwards is, up
  to its reference count, an image there was before.
\<close>

lemma images_ok_cache:
  assumes ok: "images_ok dk ips"
    and v: "\<And>i ip'. unat i < NINODES \<Longrightarrow> view ips' i ip' \<Longrightarrow>
      \<exists>ip. img_of dk ips i ip \<and> same_inode ip' ip"
  shows "images_ok dk ips'"
proof -
  have im: "\<exists>ip. img_of dk ips i ip \<and> same_inode ip' ip" if "img_of dk ips' i ip'" for i ip'
    using that v by (auto simp: img_of_def same_inode_def)
  show ?thesis
    unfolding images_ok_def
  proof (intro conjI allI impI)
    fix i ip' assume "img_of dk ips' i ip'"
    with im obtain ip where ip: "img_of dk ips i ip" and e: "i_addrs ip' = i_addrs ip" "i_size ip' = i_size ip"
        "i_typ ip' = i_typ ip" "i_nlink ip' = i_nlink ip"
      by (auto simp: same_inode_def)
    from ok ip have "file_ok dk ip" "extends (inode_at dk i) ip" by (auto simp: images_ok_def)
    with e same_file [OF e(1,2)] show "file_ok dk ip'" "extends (inode_at dk i) ip'"
      by (simp_all add: extends_def)
  next
    fix i j ip' jp' assume ij: "i \<noteq> j" "img_of dk ips' i ip'" "img_of dk ips' j jp'"
    from im [OF ij(2)] im [OF ij(3)] obtain ip jp where *: "img_of dk ips i ip" "img_of dk ips j jp"
        "i_addrs ip' = i_addrs ip" "i_size ip' = i_size ip" "i_addrs jp' = i_addrs jp" "i_size jp' = i_size jp"
      by (auto simp: same_inode_def)
    with ok ij(1) have "iblocks dk ip \<inter> iblocks dk jp = {}" by (auto simp: images_ok_def)
    with same_file(2) [OF *(3,4)] same_file(2) [OF *(5,6)] show "iblocks dk ip' \<inter> iblocks dk jp' = {}" by simp
  qed
qed

lemma view_nth: "r < length ips \<Longrightarrow> 0 < i_refcnt (ips ! r) \<Longrightarrow> i_valid (ips ! r) \<Longrightarrow> view ips (i_inum (ips ! r)) (ips ! r)"
  by (simp add: view_def)

lemma view_update:
  assumes "view (ips[r := ip]) i jp"
  shows "view ips i jp \<or> jp = ip \<and> r < length ips"
  using assms set_update_subset_insert [of ips r ip] by (auto simp: view_def) (metis list_update_beyond not_less)

text \<open>The slots of a reference keep their meaning when only the one at \<open>r\<close> changes.\<close>

lemma icache_uniq_update:
  assumes u: "ic.uniq ips" and r: "r < length ips" and l: "i_live (ips ! r)" and k: "i_inum ip = i_inum (ips ! r)"
  shows "ic.uniq (ips[r := ip])"
  unfolding ic.uniq_def
proof (intro allI impI)
  fix a b
  assume ab: "a < length (ips[r := ip])" "b < length (ips[r := ip])"
    and "i_live (ips[r := ip] ! a)" "i_live (ips[r := ip] ! b)" "i_inum (ips[r := ip] ! a) = i_inum (ips[r := ip] ! b)"
  moreover have "i_live (ips ! d)" if "i_live (ips[r := ip] ! d)" for d
    using that l by (cases "d = r") auto
  moreover have "i_inum (ips[r := ip] ! d) = i_inum (ips ! d)" for d
    using k r by (cases "d = r") auto
  ultimately show "a = b" using ic.uniqD [OF u, of a b] by simp
qed

lemma refs_ok_update:
  assumes ok: "refs_ok dk ips" and r: "r < NINODE" and l: "0 < i_refcnt (ips ! r)" and k: "i_inum ip = i_inum (ips ! r)"
  shows "refs_ok dk (ips[r := ip])"
proof -
  have len: "length ips = NINODE" using ok by (simp add: refs_ok_def)
  then have "allocated dk (i_inum (ips ! r))" using ok r l by (simp add: refs_ok_def)
  with ok k set_update_subset_insert [of ips r ip] icache_uniq_update [of ips r ip] len r l show ?thesis
    by (auto simp: refs_ok_def i_live_def)
qed

lemma refs_okD:
  assumes "refs_ok dk ips" and "r < NINODE" and "0 < i_refcnt (ips ! r)"
  shows "allocated dk (i_inum (ips ! r))" "r < length ips" "unat (i_inum (ips ! r)) < NINODES"
  using assms by (auto simp: refs_ok_def allocated_def)

lemma more_icache:
  assumes "bstate.more s' = bstate.more s"
  shows "icache s' = icache s"
  using assms by (cases s; cases s') simp

lemma fs_inv_update:
  assumes inv: "fs_inv s" and r: "r < NINODE" "0 < i_refcnt (icache s ! r)"
    and k: "i_inum ip = i_inum (icache s ! r)"
    and im: "0 < i_refcnt ip \<Longrightarrow> i_valid ip \<Longrightarrow> \<exists>jp. img_of (disk s) (icache s) (i_inum ip) jp \<and> same_inode ip jp"
  shows "fs_inv (set_inode r ip s)"
proof -
  have "images_ok (disk s) ((icache s)[r := ip])"
  proof (rule images_ok_cache)
    show "images_ok (disk s) (icache s)" using inv by (simp add: fs_inv_def)
    fix i ip' assume i: "unat i < NINODES" and v: "view ((icache s)[r := ip]) i ip'"
    from view_update [OF v] show "\<exists>jp. img_of (disk s) (icache s) i jp \<and> same_inode ip' jp"
    proof
      assume "view (icache s) i ip'"
      with i show ?thesis by (intro exI [of _ ip']) (simp add: img_of_def same_inode_def)
    next
      assume "ip' = ip \<and> r < length (icache s)"
      with v im show ?thesis by (auto simp: view_def)
    qed
  qed
  moreover have "refs_ok (disk s) ((icache s)[r := ip])"
    using inv r k by (intro refs_ok_update) (simp_all add: fs_inv_def)
  ultimately show ?thesis
    using inv by (simp add: fs_inv_def set_inode_def bc_inv_def nfree_def pins_def)
qed

section \<open>References\<close>

text \<open>The reference count and the inode number of a slot; the slot a caller holds.\<close>

definition rc :: "'z fs_scheme \<Rightarrow> inode_ref \<Rightarrow> nat" where
  "rc s r = i_refcnt (icache s ! r)"

definition key :: "'z fs_scheme \<Rightarrow> inode_ref \<Rightarrow> u32" where
  "key s r = i_inum (icache s ! r)"

definition refd :: "'z fs_scheme \<Rightarrow> inode_ref \<Rightarrow> bool" where
  "refd s r \<longleftrightarrow> r < NINODE \<and> 0 < rc s r"

definition locked :: "'z fs_scheme \<Rightarrow> inode_ref \<Rightarrow> inode \<Rightarrow> bool" where
  "locked s r ip \<longleftrightarrow> refd s r \<and> icache s ! r = ip \<and> i_valid ip"

lemma fs_inv_len: "fs_inv s \<Longrightarrow> length (icache s) = NINODE"
  by (simp add: fs_inv_def refs_ok_def)

lemma fs_inv_bc:
  assumes "fs_inv s"
  shows "bc_inv s" "2 \<le> nfree s" "0 < nfree s"
  using assms by (simp_all add: fs_inv_def NBUF_def)

lemma refd_allocated:
  assumes "fs_inv s" and "refd s r"
  shows "allocated (disk s) (key s r)" "unat (key s r) < NINODES"
  using assms refs_okD [of "disk s" "icache s" r] by (simp_all add: fs_inv_def refd_def rc_def key_def)

lemma set_inode_rc:
  assumes "r < length (icache s)"
  shows "rc (set_inode r ip s) = (rc s)(r := i_refcnt ip)" "key (set_inode r ip s) = (key s)(r := i_inum ip)"
    "disk (set_inode r ip s) = disk s"
  using assms by (auto simp: rc_def key_def set_inode_def fun_eq_iff nth_list_update)

lemma locked_image:
  assumes inv: "fs_inv s" and l: "locked s r ip"
  shows "img_of (disk s) (icache s) (i_inum ip) ip" "i_inum ip = key s r" "unat (i_inum ip) < NINODES"
    "file_ok (disk s) ip" "i_typ ip = d_typ (dinode_at (disk s) (i_inum ip))"
    "fcontent (disk s) ip = content (disk s) (i_inum ip)" "i_nlink ip = d_nlink (dinode_at (disk s) (i_inum ip))"
proof -
  have r: "refd s r" "icache s ! r = ip" "i_valid ip" using l by (simp_all add: locked_def)
  show k: "i_inum ip = key s r" using r by (simp add: key_def)
  show n: "unat (i_inum ip) < NINODES" using refd_allocated [OF inv r(1)] k by simp
  have "view (icache s) (i_inum ip) ip"
    using r fs_inv_len [OF inv] view_nth [of r "icache s"] by (simp add: refd_def rc_def)
  with n show im: "img_of (disk s) (icache s) (i_inum ip) ip" by (simp add: img_of_def)
  have d: "img_of (disk s) (icache s) (i_inum ip) (inode_at (disk s) (i_inum ip))" using n by (simp add: img_of_def)
  from inv im d show "file_ok (disk s) ip" and "i_typ ip = d_typ (dinode_at (disk s) (i_inum ip))"
      and "fcontent (disk s) ip = content (disk s) (i_inum ip)" and "i_nlink ip = d_nlink (dinode_at (disk s) (i_inum ip))"
    by (auto simp: fs_inv_def images_ok_def content_def extends_def intro!: extends_fcontent)
qed

lemma ilock_spec:
  assumes inv: "fs_inv s" and r: "refd s r"
  obtains ip s' where "ilock r s = Ok (ip, s')" "fs_inv s'" "locked s' r ip" "i_inum ip = key s r"
    "disk s' = disk s" "rc s' = rc s" "key s' = key s"
proof -
  let ?ip = "icache s ! r"
  have len: "r < length (icache s)" using fs_inv_len [OF inv] r by (simp add: refd_def)
  show thesis
  proof (cases "i_valid ?ip")
    case True
    with inv r show thesis by (intro that [of ?ip s]) (simp_all add: ilock_def locked_def key_def)
  next
    case False
    have n: "unat (i_inum ?ip) < NINODES" using refd_allocated(2) [OF inv r] by (simp add: key_def)
    obtain s1 where 1: "read_dinode (i_inum ?ip) s = Ok (dinode_at (disk s) (i_inum ?ip), s1)"
        "disk s1 = disk s" "bframe s s1"
      by (rule read_dinode_spec [OF fs_inv_bc(1,3) [OF inv] n])
    have ic1: "icache s1 = icache s" by (rule more_icache [OF bframeD(4) [OF 1(3)]])
    have inv1: "fs_inv s1" using inv 1 bframeD [OF 1(3)] ic1 by (simp add: fs_inv_def)
    define d where "d = dinode_at (disk s) (i_inum ?ip)"
    define jp where "jp = ?ip\<lparr>i_typ := d_typ d, i_major := d_major d, i_minor := d_minor d,
        i_nlink := d_nlink d, i_size := d_size d, i_addrs := d_addrs d, i_valid := True\<rparr>"
    have "img_of (disk s1) (icache s1) (i_inum jp) (inode_at (disk s1) (i_inum jp)) \<and>
        same_inode jp (inode_at (disk s1) (i_inum jp))"
      using n by (simp add: img_of_def same_inode_def jp_def d_def 1(2))
    then have inv2: "fs_inv (set_inode r jp s1)"
      using r ic1 by (intro fs_inv_update [OF inv1]) (auto simp: refd_def rc_def jp_def)
    have "ilock r s = Ok (jp, set_inode r jp s1)"
      using False 1(1) by (simp add: ilock_def Let_def jp_def d_def)
    moreover have "rc (set_inode r jp s1) = rc s" "key (set_inode r jp s1) = key s"
      using set_inode_rc [of r s1 jp] len ic1 by (auto simp: rc_def key_def jp_def fun_eq_iff)
    moreover have "icache (set_inode r jp s1) ! r = jp" using len ic1 by (simp add: set_inode_def)
    ultimately show thesis
      using inv2 r 1(2) set_inode_rc(3) [of r s1 jp] len ic1
      by (intro that [of jp "set_inode r jp s1"]) (auto simp: locked_def refd_def jp_def key_def)
  qed
qed

lemma idup_spec:
  assumes inv: "fs_inv s" and r: "refd s r"
  obtains s' where "idup r s = Ok (r, s')" "fs_inv s'" "disk s' = disk s"
    "rc s' = (rc s)(r := Suc (rc s r))" "key s' = key s"
proof -
  let ?ip = "icache s ! r" let ?jp = "?ip\<lparr>i_refcnt := i_refcnt ?ip + 1\<rparr>" let ?s = "set_inode r ?jp s"
  have len: "r < length (icache s)" using fs_inv_len [OF inv] r by (simp add: refd_def)
  have "fs_inv ?s"
  proof (rule fs_inv_update [OF inv])
    assume v: "i_valid ?jp"
    then have "locked s r ?ip" using r by (simp add: locked_def)
    from locked_image(1) [OF inv this] show "\<exists>jp. img_of (disk s) (icache s) (i_inum ?jp) jp \<and> same_inode ?jp jp"
      by (intro exI [of _ ?ip]) (simp add: same_inode_def)
  qed (use r in \<open>simp_all add: refd_def rc_def\<close>)
  moreover have "idup r s = Ok (r, ?s)" using r by (simp add: idup_def refd_def rc_def Let_def)
  moreover have "rc ?s = (rc s)(r := Suc (rc s r))" "key ?s = key s" "disk ?s = disk s"
    using set_inode_rc [OF len] by (simp_all add: rc_def key_def fun_eq_iff)
  ultimately show thesis by (intro that [of ?s])
qed

lemma iput_spec:
  assumes inv: "fs_inv s" and r: "refd s r"
  obtains s' where "iput r s = Ok s'" "fs_inv s'" "disk s' = disk s"
    "rc s' = (rc s)(r := rc s r - 1)" "key s' = key s"
proof -
  let ?ip = "icache s ! r" let ?jp = "?ip\<lparr>i_refcnt := i_refcnt ?ip - 1\<rparr>" let ?s = "set_inode r ?jp s"
  have len: "r < length (icache s)" using fs_inv_len [OF inv] r by (simp add: refd_def)
  have "fs_inv ?s"
  proof (rule fs_inv_update [OF inv])
    assume v: "i_valid ?jp"
    then have "locked s r ?ip" using r by (simp add: locked_def)
    from locked_image(1) [OF inv this] show "\<exists>jp. img_of (disk s) (icache s) (i_inum ?jp) jp \<and> same_inode ?jp jp"
      by (intro exI [of _ ?ip]) (simp add: same_inode_def)
  qed (use r in \<open>simp_all add: refd_def rc_def\<close>)
  moreover have "iput r s = Ok ?s" using r by (simp add: iput_def refd_def rc_def Let_def)
  moreover have "rc ?s = (rc s)(r := rc s r - 1)" "key ?s = key s" "disk ?s = disk s"
    using set_inode_rc [OF len] by (simp_all add: rc_def key_def fun_eq_iff)
  ultimately show thesis by (intro that [of ?s])
qed

lemma iget_hit:
  assumes inv: "fs_inv s" and f: "find_slot (\<lambda>ip. 0 < i_refcnt ip \<and> i_inum ip = i) (icache s) = Some r"
  shows "refd s r" "key s r = i" "Ok (iget i s) = bindE (idup r s) (\<lambda>(r, s). Ok (Some r, s))"
proof -
  from find_slot_SomeD [OF f] fs_inv_len [OF inv] show r: "refd s r" and "key s r = i"
    by (simp_all add: refd_def rc_def key_def)
  with f show "Ok (iget i s) = bindE (idup r s) (\<lambda>(r, s). Ok (Some r, s))"
    by (simp add: iget_def icache_get_def idup_def set_inode_def refd_def rc_def Let_def)
qed

lemma iget_spec:
  assumes inv: "fs_inv s" and i: "allocated (disk s) i"
  obtains (got) r s' where "iget i s = (Some r, s')" "fs_inv s'" "disk s' = disk s" "r < NINODE"
      "rc s' = (rc s)(r := Suc (rc s r))" "key s' r = i" "\<And>x. 0 < rc s x \<Longrightarrow> key s' x = key s x"
  | (full) "iget i s = (None, s)" "\<forall>x < NINODE. 0 < rc s x"
proof (cases "find_slot (\<lambda>ip. 0 < i_refcnt ip \<and> i_inum ip = i) (icache s)")
  case (Some r)
  note h = iget_hit [OF inv Some]
  obtain s' where "idup r s = Ok (r, s')" "fs_inv s'" "disk s' = disk s"
      "rc s' = (rc s)(r := Suc (rc s r))" "key s' = key s"
    by (rule idup_spec [OF inv h(1)])
  with h show thesis by (intro got [of r s']) (simp_all add: refd_def)
next
  case miss: None
  let ?ips = "icache s"
  have len: "length ?ips = NINODE" by (rule fs_inv_len [OF inv])
  show thesis
  proof (cases "find_slot (\<lambda>ip. i_refcnt ip = 0) ?ips")
    case None
    with miss have "iget i s = (None, s)" by (simp add: iget_def icache_get_def)
    moreover have "\<forall>x < NINODE. 0 < rc s x" using find_slot_NoneD [OF None] len by (simp add: rc_def)
    ultimately show thesis by (rule full)
  next
    case (Some r)
    from find_slot_SomeD [OF Some] have r: "r < NINODE" "i_refcnt (?ips ! r) = 0" using len by auto
    let ?jp = "(?ips ! r)\<lparr>i_inum := i, i_refcnt := 1, i_valid := False\<rparr>" let ?s = "set_inode r ?jp s"
    have g: "icache_get i ?ips = (Some r, ?ips[r := ?jp])" using miss Some by (simp add: icache_get_def)
    have u: "ic.uniq (?ips[r := ?jp])"
      by (rule ic.get_uniq [OF _ g]) (use inv in \<open>simp add: fs_inv_def refs_ok_def\<close>)
    have "view ?ips j ip" if "view (?ips[r := ?jp]) j ip" for j ip
      using view_update [OF that] that by (auto simp: view_def)
    then have im: "\<exists>jp. img_of (disk s) ?ips j jp \<and> same_inode ip jp"
      if "unat j < NINODES" "view (?ips[r := ?jp]) j ip" for j ip
      using that by (intro exI [of _ ip]) (simp add: img_of_def)
    have "images_ok (disk s) ?ips" using inv by (simp add: fs_inv_def)
    then have "images_ok (disk s) (?ips[r := ?jp])" by (rule images_ok_cache) (rule im)
    moreover have "refs_ok (disk s) (?ips[r := ?jp])"
      using inv u i by (auto simp: fs_inv_def refs_ok_def dest!: set_update_subset_insert [THEN subsetD])
    ultimately have "fs_inv ?s"
      using inv by (simp add: fs_inv_def set_inode_def bc_inv_def nfree_def pins_def)
    moreover have "iget i s = (Some r, ?s)" using g by (simp add: iget_def set_inode_def)
    moreover have "rc ?s = (rc s)(r := Suc (rc s r))" "key ?s = (key s)(r := i)" "disk ?s = disk s"
      using set_inode_rc [of r s ?jp] r len by (simp_all add: rc_def fun_eq_iff)
    ultimately show thesis using r by (intro got [of r ?s]) (auto simp: rc_def)
  qed
qed

section \<open>Operations under a guard\<close>

text \<open>The two images of the inode that an operation worked on.\<close>

lemma file_op_images:
  assumes op: "file_op s ip s' ip'" and ok: "file_ok (disk s) ip" "file_ok (disk s) d"
    and e: "extends d ip" and d: "d = inode_at (disk s) i" and i: "i_inum ip = i" "unat i < NINODES"
    and d': "d' = inode_at (disk s') i"
  shows "file_ok (disk s') d'" "extends d' ip'"
proof -
  have st: "file_step (disk s) ip (disk s') ip'" and ok': "file_ok (disk s') ip'"
    using op by (simp_all add: file_op_def)
  have "file_ok (disk s') d' \<and> extends d' ip'"
  proof (cases "dinode_at (disk s') i = dinode_of ip'")
    case True
    then have "i_addrs d' = i_addrs ip'" "i_size d' = i_size ip'" "i_typ d' = i_typ ip'" "i_nlink d' = i_nlink ip'"
      by (simp_all add: d' dinode_of_def)
    with ok' same_file(4) [of d' ip'] show ?thesis by (simp add: extends_def)
  next
    case False
    then have ev: "evolves (disk s) ip (disk s') ip'" using op i by (auto simp: file_op_def)
    have "dinode_at (disk s') i = dinode_at (disk s) i"
      using evolvesD(3) [OF ev] by (rule dinode_at_frame [OF i(2)])
    then have dd: "d' = d" by (simp add: d d' inode_at_def)
    have e': "extends d' ip'" unfolding dd by (rule extends_evolves [OF e ev])
    have len: "length (i_addrs d) = NDIRECT + 1" using ok(2) by (simp add: file_ok_def inode_ok_def)
    have "inode_ok (disk s') d'"
      unfolding dd by (rule extends_inode_ok [OF e' [unfolded dd] evolvesD(1) [OF ev] len])
    moreover have "mapped (disk s') d' k" if "k < unat (i_size d')" for k
    proof -
      let ?n = "k div BSIZE"
      have nz: "bmap (disk s) d ?n \<noteq> 0" using that ok(2) by (simp add: dd file_ok_def mapped_def)
      then have n: "?n < MAXFILE" using bmap_large [of ?n "disk s" d] by force
      have "bmap (disk s) ip ?n = bmap (disk s) d ?n" by (rule extends_bmap [OF e nz])
      then have ip': "bmap (disk s') ip' ?n \<noteq> 0" using evolvesD(8) [OF ev n] nz by simp
      show ?thesis
      proof (cases "?n < NDIRECT")
        case True
        with nz show ?thesis by (simp add: dd mapped_def bmap_def)
      next
        case False
        then have "i_addrs d ! NDIRECT \<noteq> 0" using nz by (simp add: bmap_def split: if_splits)
        with e' False n ip' show ?thesis by (simp add: dd extends_def mapped_def bmap_def)
      qed
    qed
    ultimately show ?thesis using e' ok(2) by (simp add: file_ok_def dd)
  qed
  then show "file_ok (disk s') d'" "extends d' ip'" by auto
qed

lemma img_of_other:
  assumes "img_of dk' (ips[r := ip']) j jp" and "j \<noteq> i" and "i_inum ip' = i"
    and "dinode_at dk' j = dinode_at dk j"
  shows "img_of dk ips j jp"
proof -
  have "view ips j jp" if "view (ips[r := ip']) j jp"
    using view_update [OF that] that assms(2,3) by (auto simp: view_def)
  moreover have "inode_at dk' j = inode_at dk j" by (simp add: inode_at_def assms(4))
  ultimately show ?thesis using assms(1) by (auto simp: img_of_def)
qed

lemma img_of_self:
  assumes u: "ic.uniq ips" and r: "r < length ips" "0 < i_refcnt (ips ! r)" "i_inum (ips ! r) = i"
    and im: "img_of dk' (ips[r := ip']) i jp" and k: "i_inum ip' = i"
  shows "jp = inode_at dk' i \<or> jp = ip'"
proof -
  have "jp = ip'" if v: "view (ips[r := ip']) i jp"
  proof -
    from v obtain q where q: "q < length ips" "ips[r := ip'] ! q = jp" and p: "0 < i_refcnt jp" "i_inum jp = i"
      by (auto simp: view_def in_set_conv_nth)
    show ?thesis
    proof (cases "q = r")
      case False
      with q p have "i_live (ips ! q)" "i_inum (ips ! q) = i" by (simp_all add: i_live_def)
      with u r q(1) have "q = r" by (intro ic.uniqD [of ips]) (simp_all add: i_live_def)
      with False show ?thesis by simp
    qed (use q r in simp)
  qed
  with im show ?thesis by (auto simp: img_of_def)
qed

lemma file_op_images_ok:
  assumes ok: "images_ok (disk s) ips" and u: "ic.uniq ips"
    and r: "r < length ips" "0 < i_refcnt (ips ! r)" "i_valid (ips ! r)" "i_inum (ips ! r) = i" "unat i < NINODES"
    and op: "file_op s (ips ! r) s' ip'"
  shows "images_ok (disk s') (ips[r := ip'])"
proof -
  let ?ip = "ips ! r" and ?d = "inode_at (disk s) i" and ?d' = "inode_at (disk s') i"
  have st: "file_step (disk s) ?ip (disk s') ip'" and ok': "file_ok (disk s') ip'"
    using op by (simp_all add: file_op_def)
  have k: "i_inum ip' = i" using file_step_inum [OF st] r by simp
  have im: "img_of (disk s) ips i ?ip" "img_of (disk s) ips i ?d"
    using r view_nth [of r ips] by (simp_all add: img_of_def)
  then have "file_ok (disk s) ?ip" "file_ok (disk s) ?d" "extends ?d ?ip" using ok by (auto simp: images_ok_def)
  note own = file_op_images [OF op this refl r(4,5) refl]
  have dis: "iblocks (disk s) ?ip \<inter> iblocks (disk s) jp = {}" if "img_of (disk s) ips j jp" "j \<noteq> i" for j jp
    using ok im(1) that unfolding images_ok_def by blast
  have self: "iblocks (disk s') jp \<subseteq> iblocks (disk s') ip' \<and> file_ok (disk s') jp \<and> extends ?d' jp"
    if "img_of (disk s') (ips[r := ip']) i jp" for jp
    using img_of_self [OF u r(1,2,4) that k] own ok' extends_iblocks [OF own(2)] by (auto simp: extends_refl)
  have oth: "img_of (disk s) ips j jp \<and> file_ok (disk s') jp \<and> extends (inode_at (disk s') j) jp \<and>
      iblocks (disk s') jp = iblocks (disk s) jp \<and> iblocks (disk s') ip' \<inter> iblocks (disk s') jp = {}"
    if "img_of (disk s') (ips[r := ip']) j jp" "j \<noteq> i" for j jp
  proof -
    have j: "unat j < NINODES" using that(1) by (simp add: img_of_def)
    have dj: "dinode_at (disk s') j = dinode_at (disk s) j" using j that(2) r(4) by (intro file_stepD(3) [OF st]) auto
    have im: "img_of (disk s) ips j jp" by (rule img_of_other [OF that k dj])
    then have f: "file_ok (disk s) jp" "extends (inode_at (disk s) j) jp" using ok by (auto simp: images_ok_def)
    then have iok: "inode_ok (disk s) jp" by (simp add: file_ok_def)
    note fo = file_step_other [OF st iok dis [OF im that(2)]]
    have "file_ok (disk s') jp" using f(1) fo(1,3) by (simp add: file_ok_def mapped_def)
    with im f fo dj show ?thesis by (simp add: inode_at_def)
  qed
  show ?thesis
    unfolding images_ok_def
  proof (intro conjI allI impI)
    fix j jp assume "img_of (disk s') (ips[r := ip']) j jp"
    then show "file_ok (disk s') jp" "extends (inode_at (disk s') j) jp"
      using self oth by (cases "j = i"; blast)+
  next
    fix j k jp kp
    assume a: "j \<noteq> k" "img_of (disk s') (ips[r := ip']) j jp" "img_of (disk s') (ips[r := ip']) k kp"
    show "iblocks (disk s') jp \<inter> iblocks (disk s') kp = {}"
    proof (cases "j = i \<or> k = i")
      case True
      then show ?thesis using a self oth by blast
    next
      case False
      with oth [OF a(2)] oth [OF a(3)] a(1) ok show ?thesis unfolding images_ok_def by blast
    qed
  qed
qed

text \<open>The other files are as they were.\<close>

definition others_kept :: "(nat \<Rightarrow> byte list) \<Rightarrow> u32 \<Rightarrow> (nat \<Rightarrow> byte list) \<Rightarrow> bool" where
  "others_kept dk i dk' \<longleftrightarrow>
     (\<forall>j. unat j < NINODES \<longrightarrow> j \<noteq> i \<longrightarrow> dinode_at dk' j = dinode_at dk j \<and> content dk' j = content dk j)"

lemma file_op_kept:
  assumes inv: "fs_inv s" and l: "locked s r ip" and op: "file_op s ip s' ip'"
  shows "others_kept (disk s) (i_inum ip) (disk s')" "content (disk s') (i_inum ip) = fcontent (disk s') ip'"
    "d_typ (dinode_at (disk s') (i_inum ip)) = d_typ (dinode_at (disk s) (i_inum ip))"
    "d_nlink (dinode_at (disk s') (i_inum ip)) = d_nlink (dinode_at (disk s) (i_inum ip))"
proof -
  note li = locked_image [OF inv l]
  have st: "file_step (disk s) ip (disk s') ip'" using op by (simp add: file_op_def)
  have ok: "images_ok (disk s) (icache s)" using inv by (simp add: fs_inv_def)
  have im: "img_of (disk s) (icache s) j (inode_at (disk s) j)" if "unat j < NINODES" for j
    using that by (simp add: img_of_def)
  show "others_kept (disk s) (i_inum ip) (disk s')"
    unfolding others_kept_def
  proof (intro allI impI conjI)
    fix j assume j: "unat j < NINODES" "j \<noteq> i_inum ip"
    show dj: "dinode_at (disk s') j = dinode_at (disk s) j" by (rule file_stepD(3) [OF st j])
    have "inode_ok (disk s) (inode_at (disk s) j)" "iblocks (disk s) ip \<inter> iblocks (disk s) (inode_at (disk s) j) = {}"
      using ok im [OF j(1)] li(1) j(2) unfolding images_ok_def file_ok_def by blast+
    from file_step_other(2) [OF st this] show "content (disk s') j = content (disk s) j"
      using dj by (simp add: content_def fcontent_def inode_at_def)
  qed
  have d: "file_ok (disk s) (inode_at (disk s) (i_inum ip))" "extends (inode_at (disk s) (i_inum ip)) ip"
    using ok im [OF li(3)] li(1) unfolding images_ok_def by blast+
  note own = file_op_images [OF op li(4) d refl refl li(3) refl]
  show "content (disk s') (i_inum ip) = fcontent (disk s') ip'"
    unfolding content_def by (rule extends_fcontent [OF own(2,1), symmetric])
  show "d_typ (dinode_at (disk s') (i_inum ip)) = d_typ (dinode_at (disk s) (i_inum ip))"
      "d_nlink (dinode_at (disk s') (i_inum ip)) = d_nlink (dinode_at (disk s) (i_inum ip))"
    using own(2) d(2) file_step_meta(1,4) [OF st] by (simp_all add: extends_def)
qed

lemma allocated_cong:
  assumes "\<And>j. unat j < NINODES \<Longrightarrow> d_typ (dinode_at dk' j) = d_typ (dinode_at dk j)"
  shows "allocated dk' = allocated dk" "entries_ok dk' = entries_ok dk"
proof -
  show a: "allocated dk' = allocated dk" using assms by (auto simp: allocated_def fun_eq_iff)
  show "entries_ok dk' = entries_ok dk" by (simp add: entries_ok_def a fun_eq_iff)
qed

lemma fs_inv_guard:
  assumes inv: "fs_inv s" and l: "locked s r ip" and op: "file_op s ip s' ip'"
    and dir: "i_typ ip = T_DIR \<Longrightarrow> entries_ok (disk s) (fcontent (disk s') ip')"
  shows "fs_inv (set_inode r ip' s')" "locked (set_inode r ip' s') r ip'"
    "rc (set_inode r ip' s') = rc s" "key (set_inode r ip' s') = key s" "disk (set_inode r ip' s') = disk s'"
proof -
  note li = locked_image [OF inv l] and kept = file_op_kept [OF inv l op]
  have st: "file_step (disk s) ip (disk s') ip'" and f: "bframe s s'" using op by (simp_all add: file_op_def)
  have ics: "icache s' = icache s" by (rule more_icache [OF bframeD(4) [OF f]])
  have r: "r < NINODE" "icache s ! r = ip" "0 < i_refcnt ip" "i_valid ip"
    using l by (auto simp: locked_def refd_def rc_def)
  have len: "r < length (icache s)" using fs_inv_len [OF inv] r(1) by simp
  have ty: "d_typ (dinode_at (disk s') j) = d_typ (dinode_at (disk s) j)" if "unat j < NINODES" for j
    using that kept by (cases "j = i_inum ip") (simp_all add: others_kept_def)
  note al = allocated_cong [OF ty]
  have "images_ok (disk s') ((icache s)[r := ip'])"
    using inv r li(3) op len by (intro file_op_images_ok [where i = "i_inum ip"]) (auto simp: fs_inv_def refs_ok_def)
  moreover have "refs_ok (disk s') ((icache s)[r := ip'])"
    using inv r refs_ok_update [of "disk s" "icache s" r ip'] file_step_inum [OF st]
    by (simp add: fs_inv_def refs_ok_def al)
  moreover have "dirs_ok (disk s')"
    unfolding dirs_ok_def
  proof (intro allI impI)
    fix j assume j: "unat j < NINODES" "d_typ (dinode_at (disk s') j) = T_DIR"
    show "entries_ok (disk s') (content (disk s') j)"
    proof (cases "j = i_inum ip")
      case True
      with j dir li(5) ty kept(2) show ?thesis by (simp add: al)
    next
      case False
      with j inv ty kept(1) show ?thesis by (auto simp: al others_kept_def fs_inv_def dirs_ok_def)
    qed
  qed
  ultimately show "fs_inv (set_inode r ip' s')"
    using inv bframeD(1,3) [OF f] ics by (simp add: fs_inv_def set_inode_def bc_inv_def nfree_def pins_def)
  have len': "r < length (icache s')" using len ics by simp
  note sr = set_inode_rc [OF len']
  show "disk (set_inode r ip' s') = disk s'" by (rule sr(3))
  show rcs: "rc (set_inode r ip' s') = rc s"
    using sr(1) file_step_meta(5) [OF st] r ics by (auto simp: rc_def fun_eq_iff)
  show "key (set_inode r ip' s') = key s"
    using sr(2) file_step_inum [OF st] r ics by (auto simp: key_def fun_eq_iff)
  have "icache (set_inode r ip' s') ! r = ip'" using len' by (simp add: set_inode_def)
  then show "locked (set_inode r ip' s') r ip'"
    using l rcs file_step_meta(6) [OF st] r by (simp add: locked_def refd_def)
qed

lemma set_inode_same: "r < length (icache s) \<Longrightarrow> icache s ! r = ip \<Longrightarrow> set_inode r ip s = s"
  by (auto simp: set_inode_def)

lemma locked_len: "fs_inv s \<Longrightarrow> locked s r ip \<Longrightarrow> r < length (icache s)"
  by (simp add: fs_inv_len locked_def refd_def)

text \<open>
  A write to the inode table that leaves the blocks alone: the images of other inodes are not
  affected, and those of inode \<open>i\<close> have no blocks that they did not have.
\<close>

lemma images_ok_dinode:
  assumes ok: "images_ok dk ips" and x: "\<And>x. BMAPSTART \<le> x \<Longrightarrow> dk' x = dk x"
    and dj: "\<And>j. j \<noteq> i \<Longrightarrow> unat j < NINODES \<Longrightarrow> dinode_at dk' j = dinode_at dk j"
    and vj: "\<And>j jp. j \<noteq> i \<Longrightarrow> view ips' j jp \<Longrightarrow> view ips j jp"
    and self: "\<And>ip. img_of dk' ips' i ip \<Longrightarrow> file_ok dk' ip \<and> extends (inode_at dk' i) ip \<and>
       (\<exists>jp. img_of dk ips i jp \<and> iblocks dk' ip \<subseteq> iblocks dk jp)"
  shows "images_ok dk' ips'" "\<And>j. unat j < NINODES \<Longrightarrow> j \<noteq> i \<Longrightarrow> content dk' j = content dk j"
proof -
  have ij: "inode_at dk' j = inode_at dk j" if "j \<noteq> i" "unat j < NINODES" for j
    using dj [OF that] by (simp add: inode_at_def)
  have im: "img_of dk ips j jp" if "j \<noteq> i" "img_of dk' ips' j jp" for j jp
    using that vj ij [OF that(1)] by (auto simp: img_of_def)
  have keep: "file_ok dk' jp \<and> extends (inode_at dk' j) jp \<and> iblocks dk' jp = iblocks dk jp \<and> fcontent dk' jp = fcontent dk jp"
    if "j \<noteq> i" "img_of dk ips j jp" for j jp
  proof -
    have f: "file_ok dk jp" "extends (inode_at dk j) jp" using ok that(2) by (auto simp: images_ok_def)
    then have "inode_ok dk jp" by (simp add: file_ok_def)
    from same_blocks(2) [OF this refl x] file_ok_same [OF f(1) x] f(2) ij [OF that(1)] that(2) show ?thesis
      by (simp add: img_of_def)
  qed
  have blocks: "\<exists>kp. img_of dk ips j kp \<and> iblocks dk' jp \<subseteq> iblocks dk kp" if "img_of dk' ips' j jp" for j jp
    using that self im keep by (cases "j = i") blast+
  show "images_ok dk' ips'"
    unfolding images_ok_def
  proof (intro conjI allI impI)
    fix j jp assume "img_of dk' ips' j jp"
    then show "file_ok dk' jp" "extends (inode_at dk' j) jp"
      using self im keep by (cases "j = i"; blast)+
  next
    fix j k jp kp assume a: "j \<noteq> k" "img_of dk' ips' j jp" "img_of dk' ips' k kp"
    from blocks [OF a(2)] blocks [OF a(3)] a(1) ok show "iblocks dk' jp \<inter> iblocks dk' kp = {}"
      unfolding images_ok_def by blast
  qed
  show "content dk' j = content dk j" if "unat j < NINODES" "j \<noteq> i" for j
    using keep [OF that(2), of "inode_at dk j"] ij [OF that(2,1)] that(1) by (simp add: content_def img_of_def)
qed

text \<open>A change of \<open>nlink\<close> followed by \<open>iupdate\<close>.\<close>

lemma set_nlink_spec:
  assumes inv: "fs_inv s" and l: "locked s r ip" and ip': "ip' = ip\<lparr>i_nlink := n\<rparr>"
  obtains s' where "iupdate ip' (set_inode r ip' s) = Ok s'" "fs_inv s'" "locked s' r ip'"
    "rc s' = rc s" "key s' = key s" "others_kept (disk s) (i_inum ip) (disk s')"
    "content (disk s') (i_inum ip) = content (disk s) (i_inum ip)"
    "dinode_at (disk s') (i_inum ip) = dinode_of ip'"
proof -
  let ?s = "set_inode r ip' s" and ?i = "i_inum ip"
  note li = locked_image [OF inv l] and len = locked_len [OF inv l]
  have r: "r < NINODE" "icache s ! r = ip" "0 < i_refcnt ip" "i_valid ip"
    using l by (auto simp: locked_def refd_def rc_def)
  have k1: "rc ?s = rc s" "key ?s = key s" "disk ?s = disk s"
    using set_inode_rc [OF len, of ip'] r by (auto simp: ip' rc_def key_def fun_eq_iff)
  have sf: "i_addrs ip' = i_addrs ip" "i_size ip' = i_size ip" "i_inum ip' = ?i" by (simp_all add: ip')
  have bc: "bc_inv ?s" "0 < nfree ?s" using fs_inv_bc [OF inv] by (simp_all add: set_inode_def bc_inv_def nfree_def pins_def)
  have "file_ok (disk ?s) ip'" "unat (i_inum ip') < NINODES" using li(3,4) same_file(4) [OF sf(1,2)] k1(3) sf(3) by simp_all
  from iupdate_spec [OF bc this] obtain s' where 2: "iupdate ip' ?s = Ok s'" "bframe ?s s'"
      "file_step (disk s) ip' (disk s') ip'" "file_ok (disk s') ip'"
      "fcontent (disk s') ip' = fcontent (disk s) ip'" "dinode_at (disk s') ?i = dinode_of ip'"
      "\<forall>x \<ge> BMAPSTART. disk s' x = disk s x"
    unfolding k1(3) sf(3) by blast
  have ics: "icache s' = (icache s)[r := ip']"
    using more_icache [OF bframeD(4) [OF 2(2)]] by (simp add: set_inode_def)
  have st: "rc s' = rc s" "key s' = key s"
    using k1 ics by (auto simp: rc_def key_def fun_eq_iff set_inode_def)
  have dj: "dinode_at (disk s') j = dinode_at (disk s) j" if "j \<noteq> ?i" "unat j < NINODES" for j
    using file_stepD(3) [OF 2(3) that(2)] that(1) sf(3) by simp
  define d' where "d' = inode_at (disk s') ?i"
  have d': "i_addrs d' = i_addrs ip'" "i_size d' = i_size ip'" "i_typ d' = i_typ ip'" "i_nlink d' = i_nlink ip'"
    using 2(6) by (simp_all add: d'_def dinode_of_def)
  have ib: "iblocks (disk s') ip' = iblocks (disk s) ip"
    using same_blocks(2) [OF _ sf(1)] li(4) 2(7) by (simp add: file_ok_def)
  have u: "ic.uniq (icache s)" "images_ok (disk s) (icache s)" using inv by (simp_all add: fs_inv_def refs_ok_def)
  have xs: "\<And>x. BMAPSTART \<le> x \<Longrightarrow> disk s' x = disk s x" using 2(7) by blast
  have vj: "view (icache s) j jp" if "j \<noteq> ?i" "view (icache s') j jp" for j jp
    using view_update [of "icache s" r ip' j jp] that ics sf(3) by (auto simp: view_def)
  have self: "file_ok (disk s') jp \<and> extends d' jp \<and> (\<exists>kp. img_of (disk s) (icache s) ?i kp \<and> iblocks (disk s') jp \<subseteq> iblocks (disk s) kp)"
    if "img_of (disk s') (icache s') ?i jp" for jp
  proof -
    have "jp = d' \<or> jp = ip'"
      unfolding d'_def using u(1) len r that sf(3) by (intro img_of_self [of "icache s" r]) (simp_all add: ics)
    then have "same_inode jp ip'" "extends d' jp" using d' by (auto simp: same_inode_def extends_def)
    then show ?thesis
      using same_file(2,4) [of jp ip' "disk s'"] 2(4) ib li(1) by (auto simp: same_inode_def)
  qed
  note im = images_ok_dinode [OF u(2) xs dj vj self [unfolded d'_def]]
  have ci: "content (disk s') ?i = content (disk s) ?i"
    using 2(5) li(6) same_file(5) [OF d'(1,2)] same_file(5) [OF sf(1,2)] by (simp add: content_def d'_def)
  have ok: "others_kept (disk s) ?i (disk s')" using im(2) dj by (simp add: others_kept_def)
  have ty: "d_typ (dinode_at (disk s') j) = d_typ (dinode_at (disk s) j)" if "unat j < NINODES" for j
    using that dj 2(6) li(5) by (cases "j = ?i") (simp_all add: dinode_of_def ip')
  note al = allocated_cong [OF ty]
  have "refs_ok (disk s') (icache s')"
    using inv r refs_ok_update [of "disk s" "icache s" r ip'] sf(3) by (simp add: ics fs_inv_def refs_ok_def al)
  moreover have "content (disk s') j = content (disk s) j" if "unat j < NINODES" for j
    using that im(2) ci by (cases "j = ?i") simp_all
  then have "dirs_ok (disk s')" using inv ty by (auto simp: fs_inv_def dirs_ok_def al)
  ultimately have "fs_inv s'"
    using inv im(1) bframeD(1,3) [OF 2(2)] by (simp add: fs_inv_def set_inode_def nfree_def pins_def)
  moreover have "locked s' r ip'" using l len st(1) by (simp add: locked_def refd_def ics ip')
  ultimately show thesis using 2(1,6) st ok ci by (intro that [of s'])
qed

end
