(* ===== verification/Fs_Spec.thy ===== *)
theory Fs_Spec
  imports Fs_Inv
begin

text \<open>
  The file system's entry points on its abstract state: for every inode number the type and
  the list of bytes of the file (\<open>content\<close>), the reference counts \<open>rc\<close> and inode numbers \<open>key\<close>
  of the cache's slots.  Each lemma says that the operation returns without a panic, keeps
  \<open>fs_inv\<close>, and what it changes.
\<close>

section \<open>Files\<close>

lemma file_op_mono:
  assumes "file_op s1 ip s' ip'" and "bframe s s1" and "disk s1 = disk s"
  shows "file_op s ip s' ip'"
  using assms bframe_trans by (auto simp: file_op_def)

text \<open>\<open>_writei\<close> on every argument.\<close>

lemma inode_writei_op:
  assumes inv: "bc_inv s" "2 \<le> nfree s" and ok: "file_ok (disk s) ip" and i: "unat (i_inum ip) < NINODES"
  obtains t ip' s' where "inode_writei ip off src s = Ok (t, ip', s')" "file_op s ip s' ip'" "t \<le> length src"
    "fcontent (disk s') ip' = write_at (fcontent (disk s) ip) (unat off) (take t src) \<or>
       t = 0 \<and> fcontent (disk s') ip' = fcontent (disk s) ip"
    "t < length src \<longrightarrow> MAXFILE * BSIZE < unat off + length src \<or> (\<forall>x. data_block x \<longrightarrow> blk_used (disk s') x)"
    "0 < t \<longrightarrow> dinode_at (disk s') (i_inum ip) = dinode_of ip'"
proof (cases "src = [] \<or> MAXFILE * BSIZE < unat off + length src")
  case True
  then have "inode_writei ip off src s = Ok (0, ip, s)" by (auto simp: inode_writei_def)
  moreover have "file_op s ip s ip" using inv ok by (simp add: file_op_same)
  ultimately show thesis using True by (intro that [of 0 ip s]) auto
next
  case False
  then have "src \<noteq> []" "unat off + length src \<le> MAXFILE * BSIZE" by auto
  with inv ok i show thesis
  proof (cases rule: inode_writei_spec)
    case (wrote t ip' s')
    then show thesis by (intro that [of t ip' s']) (auto simp: write_post_def)
  next
    case (nospace ip' s')
    then show thesis by (intro that [of 0 ip' s']) auto
  qed
qed

lemma ilock_then:
  assumes inv: "fs_inv s" and r: "refd s r"
  obtains ip s1 where "ilock r s = Ok (ip, s1)" "fs_inv s1" "locked s1 r ip" "disk s1 = disk s"
    "rc s1 = rc s" "key s1 = key s" "i_inum ip = key s r" "bc_inv s1" "2 \<le> nfree s1" "0 < nfree s1"
    "file_ok (disk s1) ip" "unat (i_inum ip) < NINODES"
    "i_typ ip = d_typ (dinode_at (disk s) (key s r))" "fcontent (disk s1) ip = content (disk s) (key s r)"
proof -
  obtain ip s1 where 1: "ilock r s = Ok (ip, s1)" "fs_inv s1" "locked s1 r ip" "i_inum ip = key s r"
      "disk s1 = disk s" "rc s1 = rc s" "key s1 = key s"
    by (rule ilock_spec [OF assms])
  note li = locked_image [OF 1(2,3)]
  show thesis by (rule that [of ip s1]) (use 1 li fs_inv_bc [OF 1(2)] in simp_all)
qed

text \<open>Reads leave the disk and the references alone.\<close>

lemma fs_inv_frame:
  assumes "fs_inv s" and "bframe s s'" and "disk s' = disk s"
  shows "fs_inv s'" "rc s' = rc s" "key s' = key s" "icache s' = icache s"
proof -
  show ics: "icache s' = icache s" by (rule more_icache [OF bframeD(4) [OF assms(2)]])
  show "fs_inv s'" using assms bframeD [OF assms(2)] ics by (simp add: fs_inv_def)
  show "rc s' = rc s" "key s' = key s" by (simp_all add: rc_def key_def ics fun_eq_iff)
qed

lemma locked_frame: "locked s r ip \<Longrightarrow> bframe s s' \<Longrightarrow> locked s' r ip"
  using more_icache [OF bframeD(4), of s s'] by (auto simp: locked_def refd_def rc_def)

lemma ucast_off: "unat off < 2 ^ 32 \<Longrightarrow> unat (ucast (off :: usize) :: u32) = unat off"
  by (simp add: unsigned_ucast_eq take_bit_nat_eq_self)

lemma readi_spec:
  assumes inv: "fs_inv s" and r: "refd s r" and off: "unat off < 2 ^ 32"
  obtains s' where "readi r off dst s =
      (let d = take (length dst) (drop (unat off) (content (disk s) (key s r))) in
       Ok (int (length d), d @ drop (length d) dst, s'))"
    "fs_inv s'" "disk s' = disk s" "rc s' = rc s" "key s' = key s"
proof -
  obtain ip s1 where 1: "ilock r s = Ok (ip, s1)" "fs_inv s1" "locked s1 r ip" "disk s1 = disk s"
      "rc s1 = rc s" "key s1 = key s" "i_inum ip = key s r" "bc_inv s1" "2 \<le> nfree s1" "0 < nfree s1"
      "file_ok (disk s1) ip" "unat (i_inum ip) < NINODES"
      "i_typ ip = d_typ (dinode_at (disk s) (key s r))" "fcontent (disk s1) ip = content (disk s) (key s r)"
    by (rule ilock_then [OF inv r])
  obtain s2 where 2: "inode_readi ip (ucast off) dst s1 =
        (let d = take (length dst) (drop (unat (ucast off :: u32)) (fcontent (disk s1) ip)) in
         Ok (length d, d @ drop (length d) dst, s2))"
      "disk s2 = disk s1" "bframe s1 s2"
    by (rule inode_readi_spec [OF 1(8,10,11)])
  note fr = fs_inv_frame [OF 1(2) 2(3,2)]
  have "readi r off dst s =
      (let d = take (length dst) (drop (unat off) (content (disk s) (key s r))) in
       Ok (int (length d), d @ drop (length d) dst, s2))"
    using off 1(1) 2(1) by (simp add: readi_def Let_def ucast_off [OF off] 1(14))
  then show thesis using fr 1(4-6) 2(2) by (intro that [of s2]) simp_all
qed

lemma stati_spec:
  assumes inv: "fs_inv s" and r: "refd s r"
  obtains st s' where "stati r s = Ok (st, s')" "st_ino st = key s r"
    "st_typ st = d_typ (dinode_at (disk s) (key s r))" "unat (st_size st) = length (content (disk s) (key s r))"
    "fs_inv s'" "disk s' = disk s" "rc s' = rc s" "key s' = key s"
proof -
  obtain ip s1 where 1: "ilock r s = Ok (ip, s1)" "fs_inv s1" "disk s1 = disk s" "rc s1 = rc s" "key s1 = key s"
      "i_inum ip = key s r" "i_typ ip = d_typ (dinode_at (disk s) (key s r))"
      "fcontent (disk s1) ip = content (disk s) (key s r)"
    by (rule ilock_then [OF inv r])
  have "unat (i_size ip) = length (content (disk s) (key s r))" using 1(8) by (metis length_fcontent)
  with 1 show thesis
    by (intro that [of "\<lparr>st_typ = i_typ ip, st_ino = i_inum ip, st_nlink = i_nlink ip, st_size = i_size ip\<rparr>" s1])
      (simp_all add: stati_def)
qed

text \<open>Writing under the guard of a file that is not a directory.\<close>

lemma guard_write:
  assumes inv: "fs_inv s" and l: "locked s r ip" and nd: "i_typ ip \<noteq> T_DIR" and op: "file_op s ip s' ip'"
  shows "fs_inv (set_inode r ip' s')" "rc (set_inode r ip' s') = rc s" "key (set_inode r ip' s') = key s"
    "disk (set_inode r ip' s') = disk s'" "others_kept (disk s) (i_inum ip) (disk s')"
    "content (disk s') (i_inum ip) = fcontent (disk s') ip'"
  using fs_inv_guard [OF inv l op] file_op_kept [OF inv l op] nd by simp_all

definition write_result ::
    "'z fs_scheme \<Rightarrow> u32 \<Rightarrow> nat \<Rightarrow> byte list \<Rightarrow> nat \<Rightarrow> 'z fs_scheme \<Rightarrow> bool" where
  "write_result s i off src t s' \<longleftrightarrow>
     fs_inv s' \<and> rc s' = rc s \<and> key s' = key s \<and> others_kept (disk s) i (disk s') \<and> t \<le> length src \<and>
     (content (disk s') i = write_at (content (disk s) i) off (take t src) \<or>
      t = 0 \<and> content (disk s') i = content (disk s) i) \<and>
     (t < length src \<longrightarrow> MAXFILE * BSIZE < off + length src \<or> (\<forall>x. data_block x \<longrightarrow> blk_used (disk s') x))"

lemma locked_write:
  assumes inv: "fs_inv s" and l: "locked s r ip" and nd: "i_typ ip \<noteq> T_DIR"
  obtains t ip' s' where "inode_writei ip off src s = Ok (t, ip', s')" "file_op s ip s' ip'"
    "write_result s (i_inum ip) (unat off) src t (set_inode r ip' s')"
proof -
  note li = locked_image [OF inv l]
  obtain t ip' s' where w: "inode_writei ip off src s = Ok (t, ip', s')" "file_op s ip s' ip'" "t \<le> length src"
      "fcontent (disk s') ip' = write_at (fcontent (disk s) ip) (unat off) (take t src) \<or>
         t = 0 \<and> fcontent (disk s') ip' = fcontent (disk s) ip"
      "t < length src \<longrightarrow> MAXFILE * BSIZE < unat off + length src \<or> (\<forall>x. data_block x \<longrightarrow> blk_used (disk s') x)"
    by (rule inode_writei_op [OF fs_inv_bc(1,2) [OF inv] li(4,3)])
  note g = guard_write [OF inv l nd w(2)]
  have "write_result s (i_inum ip) (unat off) src t (set_inode r ip' s')"
    unfolding write_result_def using g w(3-5) li(6) by auto
  with w show thesis by (intro that)
qed

lemma writei_spec:
  assumes inv: "fs_inv s" and r: "refd s r" and off: "unat off < 2 ^ 32"
    and nd: "d_typ (dinode_at (disk s) (key s r)) \<noteq> T_DIR"
  obtains t s' where "writei r off src s = Ok (int t, s')" "write_result s (key s r) (unat off) src t s'"
proof -
  obtain ip s1 where 1: "ilock r s = Ok (ip, s1)" "fs_inv s1" "locked s1 r ip" "disk s1 = disk s"
      "rc s1 = rc s" "key s1 = key s" "i_inum ip = key s r" "i_typ ip = d_typ (dinode_at (disk s) (key s r))"
    by (rule ilock_then [OF inv r])
  obtain t ip' s' where w: "inode_writei ip (ucast off) src s1 = Ok (t, ip', s')"
      "write_result s1 (i_inum ip) (unat (ucast off :: u32)) src t (set_inode r ip' s')"
    by (rule locked_write [OF 1(2,3)]) (use nd 1(8) in auto)
  then have "write_result s (key s r) (unat off) src t (set_inode r ip' s')"
    using 1(4-7) by (simp add: write_result_def ucast_off [OF off])
  moreover have "writei r off src s = Ok (int t, set_inode r ip' s')"
    using off 1(1) w(1) by (simp add: writei_def)
  ultimately show thesis by (intro that)
qed

lemma appendi_spec:
  assumes inv: "fs_inv s" and r: "refd s r" and nd: "d_typ (dinode_at (disk s) (key s r)) \<noteq> T_DIR"
  obtains t s' where "appendi r src s = Ok ((int t, length (content (disk s) (key s r)) + t), s')"
    "write_result s (key s r) (length (content (disk s) (key s r))) src t s'"
proof -
  obtain ip s1 where 1: "ilock r s = Ok (ip, s1)" "fs_inv s1" "locked s1 r ip" "disk s1 = disk s"
      "rc s1 = rc s" "key s1 = key s" "i_inum ip = key s r" "i_typ ip = d_typ (dinode_at (disk s) (key s r))"
      "fcontent (disk s1) ip = content (disk s) (key s r)"
    by (rule ilock_then [OF inv r])
  have sz: "unat (i_size ip) = length (content (disk s) (key s r))" using 1(9) by (metis length_fcontent)
  obtain t ip' s' where w: "inode_writei ip (i_size ip) src s1 = Ok (t, ip', s')"
      "write_result s1 (i_inum ip) (unat (i_size ip)) src t (set_inode r ip' s')"
    by (rule locked_write [OF 1(2,3)]) (use nd 1(8) in auto)
  then have "write_result s (key s r) (length (content (disk s) (key s r))) src t (set_inode r ip' s')"
    using 1(4-7) by (simp add: write_result_def sz)
  moreover have "appendi r src s = Ok ((int t, length (content (disk s) (key s r)) + t), set_inode r ip' s')"
    using 1(1) w(1) sz by (simp add: appendi_def Let_def)
  ultimately show thesis by (intro that)
qed

lemma trunc_spec:
  assumes inv: "fs_inv s" and r: "refd s r" and nd: "d_typ (dinode_at (disk s) (key s r)) \<noteq> T_DIR"
  obtains ip s1 s' where "ilock r s = Ok (ip, s1)" "trunc r s = Ok s'" "fs_inv s'" "rc s' = rc s" "key s' = key s"
    "others_kept (disk s) (key s r) (disk s')" "content (disk s') (key s r) = []"
    "\<forall>x < FSSIZE. blk_used (disk s') x \<longleftrightarrow> blk_used (disk s) x \<and> x \<notin> iblocks (disk s) ip"
proof -
  obtain ip s1 where 1: "ilock r s = Ok (ip, s1)" "fs_inv s1" "locked s1 r ip" "disk s1 = disk s"
      "rc s1 = rc s" "key s1 = key s" "i_inum ip = key s r" "bc_inv s1" "2 \<le> nfree s1"
      "file_ok (disk s1) ip" "unat (i_inum ip) < NINODES" "i_typ ip = d_typ (dinode_at (disk s) (key s r))"
    by (rule ilock_then [OF inv r])
  define ip' where "ip' = ip\<lparr>i_addrs := replicate (NDIRECT + 1) 0, i_size := 0\<rparr>"
  have iok: "inode_ok (disk s1) ip" using 1(10) by (simp add: file_ok_def)
  obtain s2 where 2: "itrunc ip s1 = Ok (ip', s2)" "bframe s1 s2" "file_step (disk s1) ip (disk s2) ip'"
      "dinode_at (disk s2) (i_inum ip) = dinode_of ip'"
      "\<forall>x < FSSIZE. blk_used (disk s2) x \<longleftrightarrow> blk_used (disk s1) x \<and> x \<notin> iblocks (disk s1) ip"
    by (rule itrunc_spec [OF 1(8,9) iok 1(11) ip'_def])
  note e = empty_inode [OF ip'_def]
  have op: "file_op s1 ip s2 ip'" using 2 e(2) by (simp add: file_op_def)
  have "i_typ ip \<noteq> T_DIR" using nd 1(12) by simp
  note g = guard_write [OF 1(2,3) this op]
  have "trunc r s = Ok (set_inode r ip' s2)" using 1(1) 2(1) by (simp add: trunc_def)
  then show thesis
    using g 1(1,4-7) 2(5) e(3) by (intro that [of ip s1 "set_inode r ip' s2"]) simp_all
qed

end
