(* ===== verification/Fs_Walk.thy ===== *)
theory Fs_Walk
  imports Fs_Spec
begin

text \<open>
  Path resolution.  On the abstract file system a path is resolved by \<open>resolve\<close>, which follows
  the directory maps from inode number to inode number.  \<open>namei\<close> and \<open>nameiparent\<close> refine it:
  they return a reference to the inode that \<open>resolve\<close> finds, leave the disk alone, and take
  exactly the one reference they return.
\<close>

section \<open>Resolution on the abstract file system\<close>

definition lookup :: "(nat \<Rightarrow> byte list) \<Rightarrow> u32 \<Rightarrow> byte list \<Rightarrow> u32 option" where
  "lookup dk i name =
     (if d_typ (dinode_at dk i) = T_DIR then dirmap (dents (content dk i)) name else None)"

function resolve :: "(nat \<Rightarrow> byte list) \<Rightarrow> u32 \<Rightarrow> byte list \<Rightarrow> u32 option" where
  "resolve dk i rest =
     (case skipelem rest of
        None \<Rightarrow> Some i
      | Some (name, next) \<Rightarrow> (case lookup dk i name of None \<Rightarrow> None | Some j \<Rightarrow> resolve dk j next))"
  by pat_completeness auto

termination
  by (relation "measure (\<lambda>(dk, i, rest). length rest)") (auto dest: skipelem_shorter)

function resolve_parent :: "(nat \<Rightarrow> byte list) \<Rightarrow> u32 \<Rightarrow> byte list \<Rightarrow> (u32 \<times> byte list) option" where
  "resolve_parent dk i rest =
     (case skipelem rest of
        None \<Rightarrow> None
      | Some (name, next) \<Rightarrow>
          if skipelem next = None then Some (i, name)
          else (case lookup dk i name of None \<Rightarrow> None | Some j \<Rightarrow> resolve_parent dk j next))"
  by pat_completeness auto

termination
  by (relation "measure (\<lambda>(dk, i, rest). length rest)") (auto dest: skipelem_shorter)

declare resolve.simps [simp del] resolve_parent.simps [simp del]

lemma dirmap_SomeD:
  "dirmap ds name = Some j \<Longrightarrow> \<exists>de \<in> set ds. de_inum de \<noteq> 0 \<and> j = ucast (de_inum de)"
  by (auto simp: dirmap_def find_Some_iff)

lemma lookup_allocated:
  assumes "fs_inv s" and "unat i < NINODES" and "lookup (disk s) i name = Some j"
  shows "allocated (disk s) j"
  using assms dirmap_SomeD [of "dents (content (disk s) i)" name j]
  by (auto simp: lookup_def fs_inv_def dirs_ok_def entries_ok_def split: if_splits)

section \<open>One component\<close>

definition plus1 :: "(inode_ref \<Rightarrow> nat) \<Rightarrow> inode_ref \<Rightarrow> inode_ref \<Rightarrow> nat" where
  "plus1 f r = f(r := Suc (f r))"

lemma plus1_move: "(plus1 (plus1 f r) r')(r := plus1 (plus1 f r) r' r - Suc 0) = plus1 f r'"
  by (auto simp: plus1_def fun_eq_iff)

lemma plus1_drop: "(plus1 f r)(r := plus1 f r r - Suc 0) = f"
  by (simp add: plus1_def fun_eq_iff)

lemma dirlookup_locked:
  assumes inv: "fs_inv s" and l: "locked s r ip"
  obtains s' where "dirlookup ip name s = Ok (lookup (disk s) (i_inum ip) name, s')"
    "fs_inv s'" "disk s' = disk s" "rc s' = rc s" "key s' = key s"
proof -
  note li = locked_image [OF inv l]
  obtain s' where s': "dirlookup ip name s =
        Ok (if i_typ ip = T_DIR then dirmap (dents (fcontent (disk s) ip)) name else None, s')"
      "disk s' = disk s" "bframe s s'"
    by (rule dirlookup_spec [OF fs_inv_bc(1,3) [OF inv] li(4)])
  then show thesis
    using fs_inv_frame [OF inv s'(3,2)] li(5,6) by (intro that [of s']) (simp_all add: lookup_def)
qed

lemma walk_step_spec:
  assumes inv: "fs_inv s" and r: "refd s r" and f: "rc s = plus1 f r"
  obtains (step) j q s' where "lookup (disk s) (key s r) name = Some j" "walk_step r name s = Ok (Some q, s')"
      "fs_inv s'" "disk s' = disk s" "rc s' = plus1 f q" "refd s' q" "key s' q = j"
      "\<forall>x. 0 < f x \<longrightarrow> key s' x = key s x"
  | (stop) s' where "walk_step r name s = Ok (None, s')" "fs_inv s'" "disk s' = disk s" "rc s' = f" "key s' = key s"
      "lookup (disk s) (key s r) name = None \<or> (\<forall>x < NINODE. x \<noteq> r \<longrightarrow> 0 < f x)"
proof -
  obtain ip s1 where 1: "ilock r s = Ok (ip, s1)" "fs_inv s1" "locked s1 r ip" "disk s1 = disk s"
      "rc s1 = rc s" "key s1 = key s" "i_inum ip = key s r" "unat (i_inum ip) < NINODES"
      "i_typ ip = d_typ (dinode_at (disk s) (key s r))"
    by (rule ilock_then [OF inv r])
  obtain s2 where 2: "dirlookup ip name s1 = Ok (lookup (disk s) (key s r) name, s2)"
      "fs_inv s2" "disk s2 = disk s" "rc s2 = rc s" "key s2 = key s"
    by (rule dirlookup_locked [OF 1(2,3), of name]) (use 1(4-7) in auto)
  have "(if i_typ ip \<noteq> T_DIR then Ok (None, s1) else dirlookup ip name s1) =
      Ok (lookup (disk s) (key s r) name, if i_typ ip = T_DIR then s2 else s1)"
    using 2(1) 1(9) by (simp add: lookup_def)
  then obtain s3 where 3: "(if i_typ ip \<noteq> T_DIR then Ok (None, s1) else dirlookup ip name s1) =
        Ok (lookup (disk s) (key s r) name, s3)"
      "fs_inv s3" "disk s3 = disk s" "rc s3 = rc s" "key s3 = key s"
    using 1 2 by (cases "i_typ ip = T_DIR") auto
  have r3: "refd s3 r" using r 3(4) by (simp add: refd_def)
  show thesis
  proof (cases "lookup (disk s) (key s r) name")
    case None
    obtain s4 where 4: "iput r s3 = Ok s4" "fs_inv s4" "disk s4 = disk s3"
        "rc s4 = (rc s3)(r := rc s3 r - 1)" "key s4 = key s3"
      by (rule iput_spec [OF 3(2) r3])
    have "walk_step r name s = Ok (None, s4)" using 1(1) 3(1) None 4(1) by (simp add: walk_step_def)
    then show thesis
      using None 3 4 f by (intro stop [of s4]) (simp_all add: plus1_drop)
  next
    case (Some j)
    then have "allocated (disk s3) j"
      using lookup_allocated [OF inv] 1(7,8) 3(3) by simp
    with 3(2) show thesis
    proof (cases rule: iget_spec)
      case full
      obtain s4 where 4: "iput r s3 = Ok s4" "fs_inv s4" "disk s4 = disk s3"
          "rc s4 = (rc s3)(r := rc s3 r - 1)" "key s4 = key s3"
        by (rule iput_spec [OF 3(2) r3])
      have "walk_step r name s = Ok (None, s4)" using 1(1) 3(1) Some full(1) 4(1) by (simp add: walk_step_def)
      moreover have "\<forall>x < NINODE. x \<noteq> r \<longrightarrow> 0 < f x" using full(2) 3(4) f by (auto simp: plus1_def)
      ultimately show thesis using 3 4 f by (intro stop [of s4]) (simp_all add: plus1_drop)
    next
      case (got q s4)
      have rc4: "rc s4 = plus1 (plus1 f r) q" using got(5) 3(4) f by (simp add: plus1_def)
      have r4: "refd s4 r" using r3 rc4 by (simp add: refd_def plus1_def)
      obtain s5 where 5: "iput r s4 = Ok s5" "fs_inv s5" "disk s5 = disk s4"
          "rc s5 = (rc s4)(r := rc s4 r - 1)" "key s5 = key s4"
        by (rule iput_spec [OF got(2) r4])
      have rc5: "rc s5 = plus1 f q" using 5(4) rc4 plus1_move [of f r q] by simp
      have "walk_step r name s = Ok (Some q, s5)" using 1(1) 3(1) Some got(1) 5(1) by (simp add: walk_step_def)
      moreover have "\<forall>x. 0 < f x \<longrightarrow> key s5 x = key s x"
        using got(7) 5(5) 3(4,5) f by (auto simp: plus1_def)
      moreover have "refd s5 q" using got(4) rc5 by (simp add: refd_def plus1_def)
      ultimately show thesis
        using Some 5(2,3,5) got(3,6) 3(3) rc5 by (intro step [of j q s5]) simp_all
    qed
  qed
qed

section \<open>Whole paths\<close>

text \<open>What the walk may change: references that were there before keep their meaning.\<close>

definition keeps :: "(inode_ref \<Rightarrow> nat) \<Rightarrow> 'z fs_scheme \<Rightarrow> 'z fs_scheme \<Rightarrow> bool" where
  "keeps f s s' \<longleftrightarrow> fs_inv s' \<and> disk s' = disk s \<and> (\<forall>x. 0 < f x \<longrightarrow> key s' x = key s x)"

lemma keeps_trans: "keeps f s s1 \<Longrightarrow> keeps f s1 s2 \<Longrightarrow> keeps f s s2"
  by (simp add: keeps_def)

definition nearly_full :: "(inode_ref \<Rightarrow> nat) \<Rightarrow> bool" where
  "nearly_full f \<longleftrightarrow> (\<exists>y. \<forall>x < NINODE. x \<noteq> y \<longrightarrow> 0 < f x)"

lemma namei_loop_spec:
  assumes "fs_inv s" and "refd s r" and "rc s = plus1 f r"
  shows "\<exists>q s'. namei_loop r rest s = Ok (q, s') \<and> keeps f s s' \<and>
    (case q of
       Some q \<Rightarrow> rc s' = plus1 f q \<and> refd s' q \<and> resolve (disk s) (key s r) rest = Some (key s' q)
     | None \<Rightarrow> rc s' = f \<and> (resolve (disk s) (key s r) rest = None \<or> nearly_full f))"
  using assms
proof (induction "length rest" arbitrary: r rest s rule: less_induct)
  case less
  show ?case
  proof (cases "skipelem rest")
    case None
    with less.prems show ?thesis
      by (intro exI [of _ "Some r"] exI [of _ s]) (simp add: namei_loop.simps resolve.simps keeps_def)
  next
    case (Some p)
    obtain name nxt where p: "skipelem rest = Some (name, nxt)" using Some by (cases p) auto
    from less.prems show ?thesis
    proof (cases rule: walk_step_spec [where name = name])
      case (stop s')
      with p show ?thesis
        by (intro exI [of _ None] exI [of _ s'])
          (auto simp: namei_loop.simps [of r] resolve.simps [of _ _ rest] keeps_def nearly_full_def)
    next
      case (step j q s1)
      from less.hyps [OF skipelem_shorter [OF p] step(3,6,5)] obtain q' s' where
          *: "namei_loop q nxt s1 = Ok (q', s')" "keeps f s1 s'"
          "case q' of
             Some q' \<Rightarrow> rc s' = plus1 f q' \<and> refd s' q' \<and> resolve (disk s1) (key s1 q) nxt = Some (key s' q')
           | None \<Rightarrow> rc s' = f \<and> (resolve (disk s1) (key s1 q) nxt = None \<or> nearly_full f)"
        by blast
      have "keeps f s s1" using step by (simp add: keeps_def)
      with * step(1,2,4,7) p show ?thesis
        by (intro exI [of _ q'] exI [of _ s'])
          (auto simp: namei_loop.simps [of r] resolve.simps [of _ _ rest] keeps_trans split: option.splits)
    qed
  qed
qed

lemma nameiparent_loop_spec:
  assumes "fs_inv s" and "refd s r" and "rc s = plus1 f r"
  shows "\<exists>q s'. nameiparent_loop r rest s = Ok (q, s') \<and> keeps f s s' \<and>
    (case q of
       Some (q, name) \<Rightarrow> rc s' = plus1 f q \<and> refd s' q \<and>
         resolve_parent (disk s) (key s r) rest = Some (key s' q, name)
     | None \<Rightarrow> rc s' = f \<and> (resolve_parent (disk s) (key s r) rest = None \<or> nearly_full f))"
  using assms
proof (induction "length rest" arbitrary: r rest s rule: less_induct)
  case less
  show ?case
  proof (cases "skipelem rest")
    case None
    obtain s' where "iput r s = Ok s'" "fs_inv s'" "disk s' = disk s"
        "rc s' = (rc s)(r := rc s r - 1)" "key s' = key s"
      by (rule iput_spec [OF less.prems(1,2)])
    with None less.prems(3) show ?thesis
      by (intro exI [of _ None] exI [of _ s'])
        (simp add: nameiparent_loop.simps resolve_parent.simps keeps_def plus1_drop)
  next
    case (Some p)
    obtain name nxt where p: "skipelem rest = Some (name, nxt)" using Some by (cases p) auto
    show ?thesis
    proof (cases "skipelem nxt = None")
      case True
      with p less.prems show ?thesis
        by (intro exI [of _ "Some (r, name)"] exI [of _ s])
          (simp add: nameiparent_loop.simps resolve_parent.simps keeps_def)
    next
      case False
      from less.prems show ?thesis
      proof (cases rule: walk_step_spec [where name = name])
        case (stop s')
        with p False show ?thesis
          by (intro exI [of _ None] exI [of _ s'])
            (auto simp: nameiparent_loop.simps [of r] resolve_parent.simps [of _ _ rest] keeps_def nearly_full_def)
      next
        case (step j q s1)
        from less.hyps [OF skipelem_shorter [OF p] step(3,6,5)] obtain q' s' where
            *: "nameiparent_loop q nxt s1 = Ok (q', s')" "keeps f s1 s'"
            "case q' of
               Some (q', name) \<Rightarrow> rc s' = plus1 f q' \<and> refd s' q' \<and>
                 resolve_parent (disk s1) (key s1 q) nxt = Some (key s' q', name)
             | None \<Rightarrow> rc s' = f \<and> (resolve_parent (disk s1) (key s1 q) nxt = None \<or> nearly_full f)"
          by blast
        have "keeps f s s1" using step by (simp add: keeps_def)
        with * step(1,2,4,7) p False show ?thesis
          by (intro exI [of _ q'] exI [of _ s'])
            (auto simp: nameiparent_loop.simps [of r] resolve_parent.simps [of _ _ rest] keeps_trans split: option.splits)
      qed
    qed
  qed
qed

definition start_inum :: "'z fs_scheme \<Rightarrow> inode_ref \<Rightarrow> byte list \<Rightarrow> u32" where
  "start_inum s cwd path = (if path ! 0 = slash then ROOTINO else key s cwd)"

lemma path_start_spec:
  assumes inv: "fs_inv s" and cwd: "refd s cwd" and rt: "allocated (disk s) ROOTINO"
  obtains (start) r s' where "path_start cwd path s = Ok (Some r, s')" "keeps (rc s) s s'" "fs_inv s'" "disk s' = disk s"
      "rc s' = plus1 (rc s) r" "refd s' r" "key s' r = start_inum s cwd path"
  | (full) "path_start cwd path s = Ok (None, s)" "\<forall>x < NINODE. 0 < rc s x"
proof (cases "path ! 0 = slash")
  case False
  obtain s' where "idup cwd s = Ok (cwd, s')" "fs_inv s'" "disk s' = disk s"
      "rc s' = (rc s)(cwd := Suc (rc s cwd))" "key s' = key s"
    by (rule idup_spec [OF inv cwd])
  with False cwd show thesis
    by (intro start [of cwd s']) (simp_all add: path_start_def keeps_def plus1_def refd_def start_inum_def)
next
  case True
  from inv rt show thesis
  proof (cases rule: iget_spec)
    case (got r s')
    with True show thesis
      by (intro start [of r s']) (simp_all add: path_start_def keeps_def plus1_def refd_def start_inum_def)
  next
    case full': full
    with True show thesis by (intro full) (simp_all add: path_start_def)
  qed
qed

lemma namei_spec:
  assumes inv: "fs_inv s" and cwd: "refd s cwd" and rt: "allocated (disk s) ROOTINO"
  shows "\<exists>q s'. namei cwd path s = Ok (q, s') \<and> keeps (rc s) s s' \<and>
    (case q of
       Some r \<Rightarrow> rc s' = plus1 (rc s) r \<and> refd s' r \<and> path \<noteq> [] \<and>
         resolve (disk s) (start_inum s cwd path) path = Some (key s' r)
     | None \<Rightarrow> rc s' = rc s \<and>
         (path = [] \<or> resolve (disk s) (start_inum s cwd path) path = None \<or> nearly_full (rc s)))"
proof (cases "path = []")
  case True
  with inv show ?thesis by (intro exI [of _ None] exI [of _ s]) (simp add: namei_def keeps_def)
next
  case False
  from assms show ?thesis
  proof (cases rule: path_start_spec [where path = path])
    case full
    with False inv show ?thesis
      by (intro exI [of _ None] exI [of _ s]) (auto simp: namei_def keeps_def nearly_full_def)
  next
    case (start r s1)
    from namei_loop_spec [OF start(3,6,5), of path] obtain q s' where
        "namei_loop r path s1 = Ok (q, s')" "keeps (rc s) s1 s'"
        "case q of
           Some q \<Rightarrow> rc s' = plus1 (rc s) q \<and> refd s' q \<and> resolve (disk s1) (key s1 r) path = Some (key s' q)
         | None \<Rightarrow> rc s' = rc s \<and> (resolve (disk s1) (key s1 r) path = None \<or> nearly_full (rc s))"
      by blast
    with False start show ?thesis
      by (intro exI [of _ q] exI [of _ s']) (auto simp: namei_def keeps_trans split: option.splits)
  qed
qed

lemma nameiparent_spec:
  assumes inv: "fs_inv s" and cwd: "refd s cwd" and rt: "allocated (disk s) ROOTINO"
  shows "\<exists>q s'. nameiparent cwd path s = Ok (q, s') \<and> keeps (rc s) s s' \<and>
    (case q of
       Some (r, name) \<Rightarrow> rc s' = plus1 (rc s) r \<and> refd s' r \<and> path \<noteq> [] \<and>
         resolve_parent (disk s) (start_inum s cwd path) path = Some (key s' r, name)
     | None \<Rightarrow> rc s' = rc s \<and>
         (path = [] \<or> resolve_parent (disk s) (start_inum s cwd path) path = None \<or> nearly_full (rc s)))"
proof (cases "path = []")
  case True
  with inv show ?thesis by (intro exI [of _ None] exI [of _ s]) (simp add: nameiparent_def keeps_def)
next
  case False
  from assms show ?thesis
  proof (cases rule: path_start_spec [where path = path])
    case full
    with False inv show ?thesis
      by (intro exI [of _ None] exI [of _ s]) (auto simp: nameiparent_def keeps_def nearly_full_def)
  next
    case (start r s1)
    from nameiparent_loop_spec [OF start(3,6,5), of path] obtain q s' where
        "nameiparent_loop r path s1 = Ok (q, s')" "keeps (rc s) s1 s'"
        "case q of
           Some (q, name) \<Rightarrow> rc s' = plus1 (rc s) q \<and> refd s' q \<and>
             resolve_parent (disk s1) (key s1 r) path = Some (key s' q, name)
         | None \<Rightarrow> rc s' = rc s \<and> (resolve_parent (disk s1) (key s1 r) path = None \<or> nearly_full (rc s))"
      by blast
    with False start show ?thesis
      by (intro exI [of _ q] exI [of _ s']) (auto simp: nameiparent_def keeps_trans split: option.splits)
  qed
qed

text \<open>With two free slots in the inode cache, \<open>namei\<close> fails exactly when the path names nothing.\<close>

lemma not_nearly_full:
  assumes "a < NINODE" "b < NINODE" "a \<noteq> b" "f a = 0" "f b = 0"
  shows "\<not> nearly_full f"
  using assms unfolding nearly_full_def by (metis less_irrefl)

end
