(* ===== verification/Fs_Create.thy ===== *)
theory Fs_Create
  imports Fs_Walk
begin

text \<open>
  Allocation of inodes and the creation of files and directories: every outcome keeps
  \<open>fs_inv\<close>, none panics, a new name leads to a fresh inode of the right type, and no other
  file changes.
\<close>

section \<open>A new entry of the inode table\<close>

lemma dinode_ok_new [simp]: "dinode_ok (Dinode_new ty)"
  by (simp add: dinode_ok_def Dinode_new_def)

lemma fs_inv_new_dinode:
  assumes inv: "fs_inv s" and i: "\<not> allocated (disk s) i" "0 < unat i" "unat i < NINODES" and ty: "ty \<noteq> 0"
    and f: "bframe s s'" and dk: "disk s' = put_dinode i (Dinode_new ty) (disk s)"
  shows "fs_inv s'" "dinode_at (disk s') i = Dinode_new ty" "content (disk s') i = []"
    "others_kept (disk s) i (disk s')" "rc s' = rc s" "key s' = key s"
    "allocated (disk s') j \<longleftrightarrow> allocated (disk s) j \<or> j = i"
proof -
  have dok: "disk_ok (disk s)" using fs_inv_bc(1) [OF inv] by simp
  have ics: "icache s' = icache s" by (rule more_icache [OF bframeD(4) [OF f]])
  then show "rc s' = rc s" "key s' = key s" by (simp_all add: rc_def key_def fun_eq_iff)
  show di: "dinode_at (disk s') i = Dinode_new ty" unfolding dk by (rule dinode_at_put_same [OF dok]) simp
  have dj: "dinode_at (disk s') j = dinode_at (disk s) j" if "j \<noteq> i" for j
    unfolding dk by (rule dinode_at_put_other [OF dok _ that]) simp
  have x: "disk s' x = disk s x" if "BMAPSTART \<le> x" for x unfolding dk by (rule put_dinode_frame [OF i(3) that])
  have al: "allocated (disk s') j \<longleftrightarrow> allocated (disk s) j \<or> j = i" for j
    using i(2,3) di dj [of j] ty by (cases "j = i") (auto simp: allocated_def Dinode_new_def)
  then show "allocated (disk s') j \<longleftrightarrow> allocated (disk s) j \<or> j = i" .
  have ok: "images_ok (disk s) (icache s)" using inv by (simp add: fs_inv_def)
  have e: "inode_at (disk s') i = (inode_at (disk s') i)\<lparr>i_addrs := replicate (NDIRECT + 1) 0, i_size := 0\<rparr>"
    using di by (simp add: inode_at_def Let_def Dinode_new_def)
  note new = empty_inode [OF e]
  show ci: "content (disk s') i = []" unfolding content_def by (rule new(3))
  have noview: "\<not> view (icache s) i ip" for ip
    using inv i(1) by (auto simp: view_def fs_inv_def refs_ok_def)
  have self: "file_ok (disk s') ip \<and> extends (inode_at (disk s') i) ip \<and>
      (\<exists>jp. img_of (disk s) (icache s) i jp \<and> iblocks (disk s') ip \<subseteq> iblocks (disk s) jp)"
    if "img_of (disk s') (icache s) i ip" for ip
  proof -
    have "ip = inode_at (disk s') i" using that noview by (auto simp: img_of_def)
    then show ?thesis using new i(3) by (auto simp: extends_refl img_of_def)
  qed
  have "images_ok (disk s') (icache s) \<and> (\<forall>j. unat j < NINODES \<longrightarrow> j \<noteq> i \<longrightarrow> content (disk s') j = content (disk s) j)"
    using images_ok_dinode [OF ok x dj _ self] by blast
  moreover from this show ok': "others_kept (disk s) i (disk s')" using dj by (simp add: others_kept_def)
  moreover have "entries_ok (disk s') c" if "entries_ok (disk s) c" for c using that by (auto simp: entries_ok_def al)
  then have "dirs_ok (disk s')"
    using inv ok' ci unfolding dirs_ok_def fs_inv_def others_kept_def
    by (metis (no_types, lifting) dents_def dvd_0_right empty_iff entries_ok_def list.size(3) div_0 empty_set list.map(1) upt_0)
  moreover have "refs_ok (disk s') (icache s)" using inv by (auto simp: fs_inv_def refs_ok_def al)
  ultimately show "fs_inv s'" using inv f bframeD [OF f] ics by (simp add: fs_inv_def)
qed

section \<open>What an operation leaves alone\<close>

text \<open>All files but those in \<open>S\<close>.\<close>

definition kept_but :: "(nat \<Rightarrow> byte list) \<Rightarrow> u32 set \<Rightarrow> (nat \<Rightarrow> byte list) \<Rightarrow> bool" where
  "kept_but dk S dk' \<longleftrightarrow>
     (\<forall>j. unat j < NINODES \<longrightarrow> j \<notin> S \<longrightarrow> dinode_at dk' j = dinode_at dk j \<and> content dk' j = content dk j)"

lemma kept_butD:
  assumes "kept_but dk S dk'" and "unat j < NINODES" and "j \<notin> S"
  shows "dinode_at dk' j = dinode_at dk j" "content dk' j = content dk j" "lookup dk' j n = lookup dk j n"
  using assms by (simp_all add: kept_but_def lookup_def)

lemma others_kept_but: "others_kept dk i dk' \<Longrightarrow> i \<in> S \<Longrightarrow> kept_but dk S dk'"
  by (auto simp: others_kept_def kept_but_def)

lemma kept_but_refl [simp]: "kept_but dk S dk"
  by (simp add: kept_but_def)

lemma kept_but_trans: "kept_but dk S dk1 \<Longrightarrow> kept_but dk1 S dk2 \<Longrightarrow> kept_but dk S dk2"
  by (simp add: kept_but_def)

lemma kept_but_mono: "kept_but dk S dk' \<Longrightarrow> S \<subseteq> T \<Longrightarrow> kept_but dk T dk'"
  by (auto simp: kept_but_def)

section \<open>Allocation\<close>

definition ialloc_result ::
    "nat list \<Rightarrow> u16 \<Rightarrow> 'z fs_scheme \<Rightarrow> inode_ref option \<Rightarrow> 'z fs_scheme \<Rightarrow> bool" where
  "ialloc_result is ty s q s' \<longleftrightarrow> fs_inv s' \<and>
     (case q of
        Some r \<Rightarrow>
          (\<exists>i. key s' r = i \<and> r < NINODE \<and> rc s' = plus1 (rc s) r \<and> (\<forall>x. 0 < rc s x \<longrightarrow> key s' x = key s x) \<and>
             \<not> allocated (disk s) i \<and> unat i \<in> set is \<and> dinode_at (disk s') i = Dinode_new ty \<and>
             content (disk s') i = [] \<and> kept_but (disk s) {i} (disk s'))
      | None \<Rightarrow> rc s' = rc s \<and> key s' = key s \<and>
          (disk s' = disk s \<and> (\<forall>i \<in> set is. allocated (disk s) (of_nat i)) \<or>
           (\<forall>x < NINODE. 0 < rc s x) \<and>
           (\<exists>i. \<not> allocated (disk s) i \<and> unat i \<in> set is \<and> dinode_at (disk s') i = Dinode_new ty \<and>
              content (disk s') i = [] \<and> kept_but (disk s) {i} (disk s'))))"

lemma unat_inum: "i < NINODES \<Longrightarrow> unat (of_nat i :: u32) = i"
  by (simp add: NINODES_def unat_of_nat take_bit_nat_eq_self)

lemma ialloc_loop_spec:
  assumes "fs_inv s" and "\<forall>i \<in> set is. 0 < i \<and> i < NINODES" and ty: "ty \<noteq> 0"
  shows "\<exists>q s'. ialloc_loop is ty s = Ok (q, s') \<and> ialloc_result is ty s q s'"
  using assms(1,2)
proof (induction "is" arbitrary: s)
  case Nil
  then show ?case by (intro exI [of _ None] exI [of _ s]) (simp add: ialloc_result_def)
next
  case (Cons i "is")
  let ?i = "of_nat i :: u32"
  have u: "unat ?i = i" "0 < i" "i < NINODES" using Cons.prems(2) by (simp_all add: unat_inum)
  then have n: "unat ?i < NINODES" by simp
  obtain s1 where 1: "read_dinode ?i s = Ok (dinode_at (disk s) ?i, s1)" "disk s1 = disk s" "bframe s s1"
    by (rule read_dinode_spec [OF fs_inv_bc(1,3) [OF Cons.prems(1)] n])
  note fr = fs_inv_frame [OF Cons.prems(1) 1(3,2)]
  show ?case
  proof (cases "d_typ (dinode_at (disk s) ?i) = 0")
    case False
    then have a: "allocated (disk s) ?i" using u by (simp add: allocated_def)
    obtain q s' where "ialloc_loop is ty s1 = Ok (q, s')" "ialloc_result is ty s1 q s'"
      using Cons.IH [OF fr(1)] Cons.prems(2) by auto
    moreover have "ialloc_result (i # is) ty s q s'" if "ialloc_result is ty s1 q s'"
      using that a 1(2) fr(2,3) by (auto simp: ialloc_result_def split: option.splits)
    ultimately show ?thesis
      using 1(1) False by (intro exI [of _ q] exI [of _ s']) (simp add: Let_def)
  next
    case True
    then have na: "\<not> allocated (disk s1) ?i" using 1(2) by (simp add: allocated_def)
    obtain s2 where 2: "write_dinode ?i (Dinode_new ty) s1 = Ok s2"
        "disk s2 = put_dinode ?i (Dinode_new ty) (disk s1)" "bframe s1 s2"
      by (rule write_dinode_spec [OF fs_inv_bc(1,3) [OF fr(1)] n dinode_ok_new])
    have pos: "0 < unat ?i" using u by simp
    note new = fs_inv_new_dinode [OF fr(1) na pos n ty 2(3,2)]
    have k: "kept_but (disk s) {?i} (disk s2)" using new(4) 1(2) by (simp add: others_kept_but)
    have red: "ialloc_loop (i # is) ty s = Ok (iget ?i s2)" using 1(1) 2(1) True by (simp add: Let_def)
    have na': "\<not> allocated (disk s) ?i" using na 1(2) by simp
    have "allocated (disk s2) ?i" using new(7) by blast
    with new(1) show ?thesis
    proof (cases rule: iget_spec)
      case full
      have "ialloc_result (i # is) ty s None s2"
        using new(1,2,3,5,6) fr(2,3) k na' full(2) u(1)
        by (auto simp: ialloc_result_def intro!: exI [of _ ?i])
      with red full(1) show ?thesis by (intro exI [of _ None] exI [of _ s2]) simp
    next
      case (got r s3)
      have "ialloc_result (i # is) ty s (Some r) s3"
        unfolding ialloc_result_def option.case
        using got new(2,3,5,6) fr(2,3) k na' u(1)
        by (intro conjI exI [of _ ?i]) (simp_all add: plus1_def)
      with red got(1) show ?thesis by (intro exI [of _ "Some r"] exI [of _ s3]) simp
    qed
  qed
qed

lemma ialloc_spec:
  assumes "fs_inv s" and "ty \<noteq> 0"
  obtains q s' where "ialloc ty s = Ok (q, s')" "ialloc_result [1..<NINODES] ty s q s'"
  using ialloc_loop_spec [OF assms(1) _ assms(2), of "[1..<NINODES]"] that by (auto simp: ialloc_def)

section \<open>Linking\<close>

lemma set_put_entry_at: "set (put_entry_at ds i de) \<subseteq> insert de (set ds)"
  using set_update_subset_insert [of ds i de] by (auto simp: put_entry_at_def)

lemma ucast_inum:
  assumes "unat (c :: u32) < NINODES"
  shows "ucast (ucast c :: u16) = c" "0 < unat c \<Longrightarrow> (ucast c :: u16) \<noteq> 0"
proof -
  have u: "unat (ucast c :: u16) = unat c"
    using assms by (simp add: unsigned_ucast_eq take_bit_nat_eq_self NINODES_def)
  have "unat (ucast (ucast c :: u16) :: u32) = unat c"
    using assms by (simp add: unsigned_ucast_eq unsigned_take_bit_eq take_bit_nat_eq_self NINODES_def)
  then show "ucast (ucast c :: u16) = c" by (simp flip: word_unat_eq_iff)
  show "(ucast c :: u16) \<noteq> 0" if "0 < unat c" using u that by (metis less_irrefl unsigned_0)
qed

text \<open>The outcome of an attempt to enter \<open>name \<mapsto> c\<close> into the directory \<open>i\<close>, and the reasons it can fail.\<close>

definition link_failed :: "(nat \<Rightarrow> byte list) \<Rightarrow> u32 \<Rightarrow> byte list \<Rightarrow> (nat \<Rightarrow> byte list) \<Rightarrow> bool" where
  "link_failed dk i name dk' \<longleftrightarrow> lookup dk i name \<noteq> None \<or> d_typ (dinode_at dk i) \<noteq> T_DIR \<or>
     MAXFILE * BSIZE < length (content dk i) + size_Dirent \<or> disk_full dk'"

definition link_result :: "'z fs_scheme \<Rightarrow> u32 \<Rightarrow> byte list \<Rightarrow> u32 \<Rightarrow> bool \<Rightarrow> 'z fs_scheme \<Rightarrow> bool" where
  "link_result s i name c ok s' \<longleftrightarrow>
     fs_inv s' \<and> rc s' = rc s \<and> key s' = key s \<and> kept_but (disk s) {i} (disk s') \<and>
     d_typ (dinode_at (disk s') i) = d_typ (dinode_at (disk s) i) \<and>
     d_nlink (dinode_at (disk s') i) = d_nlink (dinode_at (disk s) i) \<and>
     length (content (disk s') i) \<le> length (content (disk s) i) + size_Dirent \<and>
     (if ok then lookup (disk s) i name = None \<and> d_typ (dinode_at (disk s) i) = T_DIR \<and>
        (\<forall>n. lookup (disk s') i n = (if dirent_name n = dirent_name name then Some c else lookup (disk s) i n))
      else content (disk s') i = content (disk s) i \<and> link_failed (disk s) i name (disk s'))"

lemma entries_ok_put:
  assumes "entries_ok dk c" and "allocated dk i" and "ds = dents c"
    and "dents c' = put_entry_at ds k \<lparr>de_inum = ucast i, de_name = name\<rparr>" and "size_Dirent dvd length c'"
  shows "entries_ok dk c'"
proof -
  have "ucast (ucast i :: u16) = i" using assms(2) by (intro ucast_inum) (simp add: allocated_def)
  with assms set_put_entry_at [of ds k "\<lparr>de_inum = ucast i, de_name = name\<rparr>"] show ?thesis
    by (auto simp: entries_ok_def)
qed

lemma guard_dirlink_spec:
  assumes inv: "fs_inv s" and l: "locked s r ip" and c: "allocated (disk s) c"
  obtains ok s' where "guard_dirlink r name c s = Ok (ok, s')" "link_result s (key s r) name c ok s'"
    "\<exists>ip'. locked s' r ip'"
proof -
  note goal = that
  note li = locked_image [OF inv l]
  have len: "r < length (icache s)" by (rule locked_len [OF inv l])
  have sl: "icache s ! r = ip" using l by (simp add: locked_def)
  show thesis
  proof (cases "i_typ ip = T_DIR")
    case False
    have "guard_dirlink r name c s = Ok (False, s)"
      using False sl set_inode_same [OF len sl] by (simp add: guard_dirlink_def dirlink_def)
    with inv l False li(2,5) show thesis by (intro that [of False s]) (auto simp: link_result_def link_failed_def)
  next
    case True
    let ?ds = "dents (content (disk s) (i_inum ip))" and ?i = "i_inum ip"
    let ?de = "\<lparr>de_inum = ucast c, de_name = dirent_name name\<rparr>"
    have ty: "d_typ (dinode_at (disk s) ?i) = T_DIR" using True li(5) by simp
    have eo: "entries_ok (disk s) (content (disk s) ?i)" using inv li(3) ty by (simp add: fs_inv_def dirs_ok_def)
    have lk: "lookup (disk s) ?i n = dirmap ?ds n" for n using ty by (simp add: lookup_def)
    have sz: "unat (i_size ip) = length (content (disk s) ?i)" using li(6) by (metis length_fcontent)
    then have dir: "dir_ok (disk s) ip" using li(4) True eo by (simp add: dir_ok_def entries_ok_def)
    have ds: "?ds = dents (fcontent (disk s) ip)" by (simp add: li(6))
    have res: thesis if op: "file_op s ip s' ip'" and e: "entries_ok (disk s) (fcontent (disk s') ip')"
        and red: "dirlink ip name c s = Ok (ok, ip', s')"
        and grow: "length (fcontent (disk s') ip') \<le> length (content (disk s) ?i) + size_Dirent"
        and post: "if ok then lookup (disk s) ?i name = None \<and>
           (\<forall>n. dirmap (dents (fcontent (disk s') ip')) n =
             (if dirent_name n = dirent_name name then Some c else dirmap ?ds n))
         else fcontent (disk s') ip' = fcontent (disk s) ip \<and> link_failed (disk s) ?i name (disk s')" for ok ip' s'
    proof -
      note g = fs_inv_guard [OF inv l op e] and kept = file_op_kept [OF inv l op]
      have "guard_dirlink r name c s = Ok (ok, set_inode r ip' s')" using red sl by (simp add: guard_dirlink_def)
      moreover have "lookup (disk s') ?i n = dirmap (dents (fcontent (disk s') ip')) n" for n
        using kept(2,3) ty by (simp add: lookup_def)
      then have "link_result s ?i name c ok (set_inode r ip' s')"
        using g kept ty post grow li(6) by (simp add: link_result_def others_kept_but lk split: if_splits)
      ultimately show thesis using g(2) li(2) by (intro goal [of ok "set_inode r ip' s'"]) auto
    qed
    from fs_inv_bc(1,2) [OF inv] dir li(3) ds refl show thesis
    proof (cases rule: dirlink_spec [where inum = c and name = name])
      case (exists s')
      then have op: "file_op s ip s' ip" using li(4) by (simp add: file_op_same)
      show thesis by (rule res [OF op _ exists(1)]) (use exists eo li(6) lk in \<open>simp_all add: link_failed_def\<close>)
    next
      case (linked dp' s')
      have "size_Dirent dvd length (fcontent (disk s') dp')" using linked(4) by (simp add: dir_ok_def)
      then have e: "entries_ok (disk s) (fcontent (disk s') dp')"
        using entries_ok_put [OF eo c refl linked(5)] by simp
      have n: "unat c < NINODES" "0 < unat c" using c by (simp_all add: allocated_def)
      have "length (dents (fcontent (disk s') dp')) \<le> Suc (length ?ds)" using linked(5) by (simp add: put_entry_at_def)
      then have grow: "length (fcontent (disk s') dp') \<le> length (content (disk s) ?i) + size_Dirent"
        using e eo by (auto simp: entries_ok_def size_Dirent_def elim!: dvdE)
      show thesis
        by (rule res [OF linked(3) e linked(1) grow])
          (use linked(2,5) dirmap_put [of ?ds name "ucast c"] ucast_inum [OF n(1)] n(2) lk in simp)
    next
      case (full dp' s')
      show thesis
        by (rule res [OF full(3) _ full(1)]) (use full(5,6) eo li(6) sz in \<open>auto simp: link_failed_def\<close>)
    qed
  qed
qed

lemma link_child_spec:
  assumes inv: "fs_inv s" and r: "refd s r" and c: "allocated (disk s) c"
  obtains ok s' where "link_child r name c s = Ok (ok, s')" "link_result s (key s r) name c ok s'"
proof -
  obtain ip s1 where 1: "ilock r s = Ok (ip, s1)" "fs_inv s1" "locked s1 r ip" "disk s1 = disk s"
      "rc s1 = rc s" "key s1 = key s"
    by (rule ilock_then [OF inv r])
  have "allocated (disk s1) c" using c 1(4) by simp
  with 1(2,3) obtain ok s' where 2: "guard_dirlink r name c s1 = Ok (ok, s')" "link_result s1 (key s1 r) name c ok s'"
    by (rule guard_dirlink_spec)
  from 2(2) have "link_result s (key s r) name c ok s'" unfolding link_result_def 1(4-6) .
  with 1(1) 2(1) show thesis by (intro that [of ok s']) (simp_all add: link_child_def)
qed

section \<open>Link counts\<close>

lemma inc_nlink_spec:
  assumes inv: "fs_inv s" and r: "refd s r" and i: "i = key s r" and n: "d_nlink (dinode_at (disk s) i) \<noteq> 0x7FFF"
  obtains s' where "inc_nlink r s = Ok s'" "fs_inv s'" "rc s' = rc s" "key s' = key s"
    "kept_but (disk s) {i} (disk s')" "content (disk s') i = content (disk s) i"
    "d_typ (dinode_at (disk s') i) = d_typ (dinode_at (disk s) i)"
    "d_nlink (dinode_at (disk s') i) = d_nlink (dinode_at (disk s) i) + 1"
proof -
  obtain ip s1 where 1: "ilock r s = Ok (ip, s1)" "fs_inv s1" "locked s1 r ip" "disk s1 = disk s"
      "rc s1 = rc s" "key s1 = key s" "i_inum ip = key s r"
    by (rule ilock_then [OF inv r])
  note li = locked_image [OF 1(2,3)]
  have nl: "i_nlink ip = d_nlink (dinode_at (disk s) i)" "i_inum ip = i" using li(7) 1(4,7) i by simp_all
  obtain s' where 2: "iupdate (ip\<lparr>i_nlink := i_nlink ip + 1\<rparr>) (set_inode r (ip\<lparr>i_nlink := i_nlink ip + 1\<rparr>) s1) = Ok s'"
      "fs_inv s'" "rc s' = rc s1" "key s' = key s1" "others_kept (disk s1) (i_inum ip) (disk s')"
      "content (disk s') (i_inum ip) = content (disk s1) (i_inum ip)"
      "dinode_at (disk s') (i_inum ip) = dinode_of (ip\<lparr>i_nlink := i_nlink ip + 1\<rparr>)"
    by (rule set_nlink_spec [OF 1(2,3) refl])
  have "inc_nlink r s = Ok s'" using 1(1) 2(1) n nl by (simp add: inc_nlink_def Let_def)
  with 2(2-7) nl 1(4-6) li(5) show thesis
    by (intro that [of s']) (simp_all add: others_kept_but dinode_of_def)
qed

section \<open>Creating files\<close>

definition typ_kept :: "(nat \<Rightarrow> byte list) \<Rightarrow> (nat \<Rightarrow> byte list) \<Rightarrow> bool" where
  "typ_kept dk dk' \<longleftrightarrow> (\<forall>j. allocated dk j \<longrightarrow> d_typ (dinode_at dk' j) = d_typ (dinode_at dk j))"

lemma typ_kept_allocated: "typ_kept dk dk' \<Longrightarrow> allocated dk j \<Longrightarrow> allocated dk' j"
  by (simp add: typ_kept_def allocated_def)

text \<open>
  The outcome of creating an inode of type \<open>ty\<close> with \<open>sz\<close> bytes under the name \<open>name\<close> of the
  directory \<open>p\<close>, and the reasons it can fail: no slot in the inode cache, no inode on the disk,
  no entry in the parent, too many bytes.
\<close>

definition create_failed :: "'z fs_scheme \<Rightarrow> u32 \<Rightarrow> byte list \<Rightarrow> nat \<Rightarrow> (nat \<Rightarrow> byte list) \<Rightarrow> bool" where
  "create_failed s p name n dk' \<longleftrightarrow>
     (\<forall>x < NINODE. 0 < rc s x) \<or> (\<forall>i \<in> {1..<NINODES}. allocated (disk s) (of_nat i)) \<or>
     link_failed (disk s) p name dk' \<or> MAXFILE * BSIZE < n"

definition create_result ::
    "'z fs_scheme \<Rightarrow> u32 \<Rightarrow> byte list \<Rightarrow> u16 \<Rightarrow> nat \<Rightarrow> inode_ref option \<Rightarrow> 'z fs_scheme \<Rightarrow> bool" where
  "create_result s p name ty sz q s' \<longleftrightarrow>
     fs_inv s' \<and> typ_kept (disk s) (disk s') \<and> (\<forall>x. 0 < rc s x \<longrightarrow> key s' x = key s x) \<and>
     (case q of
        Some r \<Rightarrow> r < NINODE \<and> rc s' = plus1 (rc s) r \<and> \<not> allocated (disk s) (key s' r) \<and>
          d_typ (dinode_at (disk s') (key s' r)) = ty \<and> kept_but (disk s) {key s' r, p} (disk s') \<and>
          lookup (disk s) p name = None \<and>
          (\<forall>n. lookup (disk s') p n = (if dirent_name n = dirent_name name then Some (key s' r) else lookup (disk s) p n))
      | None \<Rightarrow> rc s' = rc s \<and> create_failed s p name sz (disk s') \<and>
          (\<forall>j. allocated (disk s) j \<longrightarrow> content (disk s') j = content (disk s) j))"

text \<open>
  The common end of \<open>create_file\<close> and \<open>create_empty_file\<close>: enter the new inode into the parent,
  and count the entry.
\<close>

definition link_new :: "inode_ref \<Rightarrow> byte list \<Rightarrow> inode_ref \<Rightarrow> u32 \<Rightarrow> 'z fs_scheme \<Rightarrow> (inode_ref option \<times> 'z fs_scheme) res" where
  "link_new parent name ip_ref inum s =
     bindE (link_child parent name inum s) (\<lambda>(ok, s).
     if \<not> ok then bindE (iput ip_ref s) (\<lambda>s. Ok (None, s))
     else bindE (inc_nlink ip_ref s) (\<lambda>s. Ok (Some ip_ref, s)))"

lemma link_new_spec:
  assumes inv: "fs_inv s" and p: "refd s parent" and r: "refd s r" and f: "rc s = plus1 f r"
    and new: "key s r \<noteq> key s parent" "d_nlink (dinode_at (disk s) (key s r)) \<noteq> 0x7FFF"
  obtains q s' where "link_new parent name r (key s r) s = Ok (q, s')" "fs_inv s'" "key s' = key s"
    "kept_but (disk s) {key s r, key s parent} (disk s')"
    "\<forall>j. unat j < NINODES \<longrightarrow> d_typ (dinode_at (disk s') j) = d_typ (dinode_at (disk s) j)"
    "content (disk s') (key s r) = content (disk s) (key s r)"
    "case q of
       Some q \<Rightarrow> q = r \<and> rc s' = plus1 f r \<and> lookup (disk s) (key s parent) name = None \<and>
         d_nlink (dinode_at (disk s') (key s r)) = d_nlink (dinode_at (disk s) (key s r)) + 1 \<and>
         d_nlink (dinode_at (disk s') (key s parent)) = d_nlink (dinode_at (disk s) (key s parent)) \<and>
         (\<forall>n. lookup (disk s') (key s parent) n =
            (if dirent_name n = dirent_name name then Some (key s r) else lookup (disk s) (key s parent) n))
     | None \<Rightarrow> rc s' = f \<and> content (disk s') (key s parent) = content (disk s) (key s parent) \<and>
         link_failed (disk s) (key s parent) name (disk s')"
proof -
  let ?i = "key s r" and ?p = "key s parent"
  have c: "allocated (disk s) ?i" "unat ?i < NINODES" "unat ?p < NINODES"
    using refd_allocated [OF inv r] refd_allocated [OF inv p] by simp_all
  obtain ok s1 where 1: "link_child parent name ?i s = Ok (ok, s1)" "link_result s ?p name ?i ok s1"
    by (rule link_child_spec [OF inv p c(1)])
  have s1: "fs_inv s1" "rc s1 = rc s" "key s1 = key s" "kept_but (disk s) {?p} (disk s1)"
      "d_typ (dinode_at (disk s1) ?p) = d_typ (dinode_at (disk s) ?p)"
    using 1(2) by (simp_all add: link_result_def)
  note ki = kept_butD [OF s1(4) c(2)]
  have r1: "refd s1 r" using r s1(2) by (simp add: refd_def)
  show thesis
  proof (cases ok)
    case False
    obtain s2 where 2: "iput r s1 = Ok s2" "fs_inv s2" "disk s2 = disk s1" "rc s2 = (rc s1)(r := rc s1 r - 1)" "key s2 = key s1"
      by (rule iput_spec [OF s1(1) r1])
    show thesis
    proof (rule that [of None s2])
      show "link_new parent name r ?i s = Ok (None, s2)" using 1(1) 2(1) False by (simp add: link_new_def)
      show "\<forall>j. unat j < NINODES \<longrightarrow> d_typ (dinode_at (disk s2) j) = d_typ (dinode_at (disk s) j)"
        using s1(4,5) 2(3) unfolding kept_but_def by (metis singletonD)
      show "kept_but (disk s) {?i, ?p} (disk s2)" using s1(4) 2(3) by (auto intro: kept_but_mono)
    qed (use 1(2) 2 s1 f False ki new in \<open>simp_all add: link_result_def plus1_drop\<close>)
  next
    case True
    have n1: "d_nlink (dinode_at (disk s1) ?i) \<noteq> 0x7FFF" using ki(1) new by simp
    obtain s2 where 2: "inc_nlink r s1 = Ok s2" "fs_inv s2" "rc s2 = rc s1" "key s2 = key s1"
        "kept_but (disk s1) {?i} (disk s2)" "content (disk s2) ?i = content (disk s1) ?i"
        "d_typ (dinode_at (disk s2) ?i) = d_typ (dinode_at (disk s1) ?i)"
        "d_nlink (dinode_at (disk s2) ?i) = d_nlink (dinode_at (disk s1) ?i) + 1"
      by (rule inc_nlink_spec [OF s1(1) r1 _ n1]) (simp_all add: s1(3))
    note kp = kept_butD [OF 2(5) c(3)]
    show thesis
    proof (rule that [of "Some r" s2])
      show "link_new parent name r ?i s = Ok (Some r, s2)" using 1(1) 2(1) True by (simp add: link_new_def)
      show "\<forall>j. unat j < NINODES \<longrightarrow> d_typ (dinode_at (disk s2) j) = d_typ (dinode_at (disk s) j)"
        using s1(4,5) 2(5,7) unfolding kept_but_def by (metis singletonD)
      show "kept_but (disk s) {?i, ?p} (disk s2)"
        using s1(4) 2(5) by (auto intro: kept_but_mono kept_but_trans)
    qed (use 1(2) 2 s1 f True ki kp new in \<open>auto simp: link_result_def\<close>)
  qed
qed

text \<open>
  A creation in progress: \<open>r\<close> is the inode that \<open>ialloc\<close> took in the state \<open>s\<close>, and only that
  inode has changed since.
\<close>

definition making :: "'z fs_scheme \<Rightarrow> inode_ref \<Rightarrow> u16 \<Rightarrow> 'z fs_scheme \<Rightarrow> bool" where
  "making s r ty s1 \<longleftrightarrow>
     fs_inv s1 \<and> r < NINODE \<and> rc s1 = plus1 (rc s) r \<and> (\<forall>x. 0 < rc s x \<longrightarrow> key s1 x = key s x) \<and>
     \<not> allocated (disk s) (key s1 r) \<and> d_typ (dinode_at (disk s1) (key s1 r)) = ty \<and>
     kept_but (disk s) {key s1 r} (disk s1)"

lemma ialloc_making:
  assumes "ialloc_result [1..<NINODES] ty s (Some r) s1"
  shows "making s r ty s1" "content (disk s1) (key s1 r) = []" "d_nlink (dinode_at (disk s1) (key s1 r)) = 0"
  using assms by (auto simp: ialloc_result_def making_def Dinode_new_def)

lemma ialloc_failed:
  assumes "ialloc_result [1..<NINODES] ty s None s1"
  shows "create_result s p name ty' sz None s1"
proof -
  have "create_failed s p name sz (disk s1)" using assms by (auto simp: ialloc_result_def create_failed_def)
  moreover have n0: "\<not> allocated (disk s) 0" by (simp add: allocated_def)
  have k: "fs_inv s1" "rc s1 = rc s" "key s1 = key s" "\<exists>i. \<not> allocated (disk s) i \<and> kept_but (disk s) {i} (disk s1)"
    using assms n0 unfolding ialloc_result_def option.case by (simp_all, metis kept_but_refl)
  then obtain i where "\<not> allocated (disk s) i" "kept_but (disk s) {i} (disk s1)" by blast
  then have "\<And>j. allocated (disk s) j \<Longrightarrow>
      d_typ (dinode_at (disk s1) j) = d_typ (dinode_at (disk s) j) \<and> content (disk s1) j = content (disk s) j"
    using kept_butD(1,2) [of "disk s" "{i}" "disk s1"] by (metis allocated_def singletonD)
  ultimately show ?thesis using k(1-3) by (simp add: create_result_def typ_kept_def)
qed

lemma making_refs:
  assumes "making s r ty s1" and "refd s x"
  shows "refd s1 x" "refd s1 r" "key s1 x = key s x" "fs_inv s \<Longrightarrow> key s1 r \<noteq> key s1 x"
  using assms refd_allocated [of s x] by (auto simp: making_def refd_def plus1_def)

lemma making_kept:
  assumes "making s r ty s1" and "allocated (disk s) j"
  shows "d_typ (dinode_at (disk s1) j) = d_typ (dinode_at (disk s) j)" "content (disk s1) j = content (disk s) j"
    "lookup (disk s1) j n = lookup (disk s) j n" "dinode_at (disk s1) j = dinode_at (disk s) j"
proof -
  have "j \<noteq> key s1 r" "unat j < NINODES" using assms by (auto simp: making_def allocated_def)
  with assms(1) kept_butD [of "disk s" "{key s1 r}" "disk s1" j]
  show "d_typ (dinode_at (disk s1) j) = d_typ (dinode_at (disk s) j)" "content (disk s1) j = content (disk s) j"
    "lookup (disk s1) j n = lookup (disk s) j n" "dinode_at (disk s1) j = dinode_at (disk s) j"
    by (simp_all add: making_def)
qed

lemma making_step:
  assumes m: "making s r ty s1" and "fs_inv s2" "rc s2 = rc s1" "key s2 = key s1"
    "kept_but (disk s1) {key s1 r} (disk s2)" "d_typ (dinode_at (disk s2) (key s1 r)) = d_typ (dinode_at (disk s1) (key s1 r))"
  shows "making s r ty s2"
  using assms kept_but_trans [of "disk s" "{key s1 r}" "disk s1" "disk s2"] by (simp add: making_def)

lemma making_dropped:
  assumes m: "making s r ty s1"
    and why: "create_failed s p name sz (disk s1)"
  obtains s2 where "iput r s1 = Ok s2" "create_result s p name ty' sz None s2"
proof -
  have "refd s1 r" "fs_inv s1" using m by (simp_all add: making_def refd_def plus1_def)
  then obtain s2 where 2: "iput r s1 = Ok s2" "fs_inv s2" "disk s2 = disk s1"
      "rc s2 = (rc s1)(r := rc s1 r - 1)" "key s2 = key s1"
    by (auto elim: iput_spec)
  have "rc s2 = rc s" using 2(4) m by (simp add: making_def plus1_drop)
  with 2 m why show thesis
    by (intro that [of s2]) (simp_all add: create_result_def typ_kept_def making_kept [OF m], simp add: making_def)
qed

lemma making_linked:
  assumes inv: "fs_inv s" and m: "making s r ty s1" and p: "refd s parent"
    and n: "d_nlink (dinode_at (disk s1) (key s1 r)) \<noteq> 0x7FFF"
  obtains q s2 where "link_new parent name r (key s1 r) s1 = Ok (q, s2)" "create_result s (key s parent) name ty sz q s2"
    "case q of None \<Rightarrow> True | Some q \<Rightarrow> q = r \<and> key s2 = key s1 \<and> content (disk s2) (key s1 r) = content (disk s1) (key s1 r) \<and>
       d_nlink (dinode_at (disk s2) (key s1 r)) = d_nlink (dinode_at (disk s1) (key s1 r)) + 1 \<and>
       d_nlink (dinode_at (disk s2) (key s parent)) = d_nlink (dinode_at (disk s) (key s parent))"
proof -
  note mr = making_refs [OF m p] and goal = that
  let ?i = "key s1 r" and ?p = "key s parent"
  have s1: "fs_inv s1" "rc s1 = plus1 (rc s) r" "r < NINODE" "\<not> allocated (disk s) ?i" "kept_but (disk s) {?i} (disk s1)"
      "d_typ (dinode_at (disk s1) ?i) = ty" "\<forall>x. 0 < rc s x \<longrightarrow> key s1 x = key s x"
    using m by (simp_all add: making_def)
  have ap: "allocated (disk s) ?p" using refd_allocated [OF inv p] by simp
  have ui: "unat ?i < NINODES" using refd_allocated [OF s1(1) mr(2)] by simp
  obtain q s2 where 2: "link_new parent name r ?i s1 = Ok (q, s2)" "fs_inv s2" "key s2 = key s1"
      "kept_but (disk s1) {?i, key s1 parent} (disk s2)"
      "\<forall>j. unat j < NINODES \<longrightarrow> d_typ (dinode_at (disk s2) j) = d_typ (dinode_at (disk s1) j)"
      "content (disk s2) ?i = content (disk s1) ?i"
      "case q of
         Some q \<Rightarrow> q = r \<and> rc s2 = plus1 (rc s) r \<and> lookup (disk s1) (key s1 parent) name = None \<and>
           d_nlink (dinode_at (disk s2) ?i) = d_nlink (dinode_at (disk s1) ?i) + 1 \<and>
           d_nlink (dinode_at (disk s2) (key s1 parent)) = d_nlink (dinode_at (disk s1) (key s1 parent)) \<and>
           (\<forall>n. lookup (disk s2) (key s1 parent) n =
              (if dirent_name n = dirent_name name then Some ?i else lookup (disk s1) (key s1 parent) n))
       | None \<Rightarrow> rc s2 = rc s \<and> content (disk s2) (key s1 parent) = content (disk s1) (key s1 parent) \<and>
           link_failed (disk s1) (key s1 parent) name (disk s2)"
    by (rule link_new_spec [OF s1(1) mr(1,2) s1(2) mr(4) [OF inv] n])
  have ty: "typ_kept (disk s) (disk s2)"
    using 2(5) making_kept(1) [OF m] by (simp add: typ_kept_def allocated_def)
  have none: "content (disk s2) j = content (disk s) j" if "q = None" "allocated (disk s) j" for j
  proof (cases "j = ?p")
    case True
    then show ?thesis using 2(7) that mr(3) making_kept(2) [OF m that(2)] by simp
  next
    case False
    moreover have "j \<noteq> ?i" using s1(4) that(2) by blast
    ultimately show ?thesis
      using kept_butD(2) [OF 2(4), of j] that mr(3) making_kept(2) [OF m that(2)] by (simp add: allocated_def)
  qed
  have "kept_but (disk s) {?i, ?p} (disk s2)"
    using kept_but_mono [OF s1(5), of "{?i, ?p}"] 2(4) mr(3) by (auto intro: kept_but_trans)
  moreover have "link_failed (disk s1) ?p name (disk s2) \<longleftrightarrow> link_failed (disk s) ?p name (disk s2)"
    using making_kept [OF m ap] by (simp add: link_failed_def)
  ultimately have "create_result s ?p name ty sz q s2"
    using 2 ty none s1 mr(3) ui making_kept(3) [OF m ap]
    by (auto simp: create_result_def create_failed_def split: option.splits)
  then show thesis using 2(1,3,6,7) mr(3) making_kept(4) [OF m ap] by (intro goal [of q s2]) (auto split: option.splits)
qed

lemma create_empty_file_spec:
  assumes inv: "fs_inv s" and p: "refd s parent"
  obtains q s' where "create_empty_file parent name s = Ok (q, s')" "create_result s (key s parent) name T_FILE 0 q s'"
    "case q of None \<Rightarrow> True | Some r \<Rightarrow> content (disk s') (key s' r) = [] \<and> d_nlink (dinode_at (disk s') (key s' r)) = 1"
proof -
  note goal = that
  have "T_FILE \<noteq> 0" by (simp add: T_FILE_def)
  with inv obtain a s1 where 1: "ialloc T_FILE s = Ok (a, s1)" "ialloc_result [1..<NINODES] T_FILE s a s1"
    by (rule ialloc_spec)
  show thesis
  proof (cases a)
    case None
    with 1 ialloc_failed show thesis by (intro goal [of None s1]) (auto simp: create_empty_file_def)
  next
    case (Some r)
    note al = ialloc_making [OF 1(2) [unfolded Some]]
    obtain ip s2 where 2: "ilock r s1 = Ok (ip, s2)" "fs_inv s2" "locked s2 r ip" "disk s2 = disk s1"
        "rc s2 = rc s1" "key s2 = key s1" "i_inum ip = key s1 r"
      using making_refs(2) [OF al(1) p] al(1) by (auto simp: making_def elim: ilock_then)
    have m2: "making s r T_FILE s2" using al(1) 2(2,4-6) by (intro making_step [OF al(1)]) simp_all
    obtain q s3 where 3: "link_new parent name r (key s2 r) s2 = Ok (q, s3)" "create_result s (key s parent) name T_FILE 0 q s3"
        "case q of None \<Rightarrow> True | Some q \<Rightarrow> q = r \<and> key s3 = key s2 \<and> content (disk s3) (key s2 r) = content (disk s2) (key s2 r) \<and>
           d_nlink (dinode_at (disk s3) (key s2 r)) = d_nlink (dinode_at (disk s2) (key s2 r)) + 1 \<and>
           d_nlink (dinode_at (disk s3) (key s parent)) = d_nlink (dinode_at (disk s) (key s parent))"
      by (rule making_linked [OF inv m2 p]) (use al(3) 2(4,6) in simp)
    have "create_empty_file parent name s = Ok (q, s3)"
      using 1(1) Some 2(1,6,7) 3(1) by (simp add: create_empty_file_def link_new_def)
    with 3 al 2(4,6) show thesis by (intro goal [of q s3]) (auto split: option.splits)
  qed
qed

lemma link_new_then:
  "bindE (link_child parent name inum s) (\<lambda>(ok, s).
     if \<not> ok then bindE (iput r s) (\<lambda>s. Ok (None, s)) else bindE (inc_nlink r s) F) =
   bindE (link_new parent name r inum s) (\<lambda>(q, s). case q of None \<Rightarrow> Ok (None, s) | Some _ \<Rightarrow> F s)"
  by (auto simp: link_new_def bindE_def split: sum.splits)

lemma create_file_spec:
  assumes inv: "fs_inv s" and p: "refd s parent"
  obtains q s' where "create_file parent name data s = Ok (q, s')" "create_result s (key s parent) name T_FILE (length data) q s'"
    "case q of None \<Rightarrow> True | Some r \<Rightarrow> content (disk s') (key s' r) = data \<and> d_nlink (dinode_at (disk s') (key s' r)) = 1"
proof -
  note goal = that
  have "T_FILE \<noteq> 0" by (simp add: T_FILE_def)
  with inv obtain a s1 where 1: "ialloc T_FILE s = Ok (a, s1)" "ialloc_result [1..<NINODES] T_FILE s a s1"
    by (rule ialloc_spec)
  show thesis
  proof (cases a)
    case None
    with 1 ialloc_failed show thesis by (intro goal [of None s1]) (auto simp: create_file_def)
  next
    case (Some r)
    note al = ialloc_making [OF 1(2) [unfolded Some]]
    have m: "fs_inv s1" "d_typ (dinode_at (disk s1) (key s1 r)) = T_FILE" using al(1) by (simp_all add: making_def)
    obtain ip s2 where 2: "ilock r s1 = Ok (ip, s2)" "fs_inv s2" "locked s2 r ip" "disk s2 = disk s1"
        "rc s2 = rc s1" "key s2 = key s1" "i_inum ip = key s1 r" "i_typ ip = T_FILE"
      using making_refs(2) [OF al(1) p] m by (auto elim: ilock_then)
    have nd: "i_typ ip \<noteq> T_DIR" using 2(8) by (simp add: T_FILE_def T_DIR_def)
    obtain t ip' s3 where 3: "inode_writei ip 0 data s2 = Ok (t, ip', s3)" "file_op s2 ip s3 ip'"
        "write_result s2 (i_inum ip) (unat (0 :: u32)) data t (set_inode r ip' s3)"
      by (rule locked_write [OF 2(2,3) nd])
    let ?s3 = "set_inode r ip' s3"
    note fk = file_op_kept [OF 2(2,3) 3(2)] and d3 = guard_write(4) [OF 2(2,3) nd 3(2)]
    have "kept_but (disk s1) {key s1 r} (disk ?s3)" using others_kept_but [OF fk(1)] 2(4,7) d3 by simp
    then have m3: "making s r T_FILE ?s3"
      by (rule making_step [OF al(1), rotated 3]) (use 3(3) 2(4-7) fk(3) d3 in \<open>simp_all add: write_result_def\<close>)
    show thesis
    proof (cases "t = length data")
      case False
      then have "create_failed s (key s parent) name (length data) (disk ?s3)"
        using 3(3) by (auto simp: write_result_def create_failed_def link_failed_def disk_full_def)
      then obtain s4 where "iput r ?s3 = Ok s4" "create_result s (key s parent) name T_FILE (length data) None s4"
        by (rule making_dropped [OF m3])
      then show thesis using 1(1) Some 2(1) 3(1) False by (intro goal [of None s4]) (simp_all add: create_file_def)
    next
      case True
      have c3: "content (disk ?s3) (key s1 r) = data"
        using 3(3) True al(2) 2(4,7) by (auto simp: write_result_def write_at_def)
      have k3: "key ?s3 = key s1" using 3(3) 2(6) by (simp add: write_result_def)
      obtain q s4 where 4: "link_new parent name r (key ?s3 r) ?s3 = Ok (q, s4)" "create_result s (key s parent) name T_FILE (length data) q s4"
          "case q of None \<Rightarrow> True | Some q \<Rightarrow> q = r \<and> key s4 = key ?s3 \<and> content (disk s4) (key ?s3 r) = content (disk ?s3) (key ?s3 r) \<and>
             d_nlink (dinode_at (disk s4) (key ?s3 r)) = d_nlink (dinode_at (disk ?s3) (key ?s3 r)) + 1 \<and>
             d_nlink (dinode_at (disk s4) (key s parent)) = d_nlink (dinode_at (disk s) (key s parent))"
        by (rule making_linked [OF inv m3 p]) (use al(3) fk 2(4,7) d3 k3 in simp)
      have "create_file parent name data s = Ok (q, s4)"
        using 1(1) Some 2(1,7) 3(1) 4(1) True k3 by (simp add: create_file_def link_new_def)
      with 4 al(3) 2(4,7) c3 k3 fk d3 show thesis by (intro goal [of q s4]) (auto split: option.splits)
    qed
  qed
qed

section \<open>Creating directories\<close>

lemma dots_distinct: "dirent_name (bytes ''.'') \<noteq> dirent_name (bytes ''..'')"
  by code_simp

text \<open>The entries of a new directory \<open>i\<close> below \<open>p\<close>.\<close>

definition only_dots :: "(nat \<Rightarrow> byte list) \<Rightarrow> u32 \<Rightarrow> u32 \<Rightarrow> bool" where
  "only_dots dk i p \<longleftrightarrow>
     (\<forall>n. lookup dk i n =
        (if dirent_name n = dirent_name (bytes ''..'') then Some p
         else if dirent_name n = dirent_name (bytes ''.'') then Some i else None))"

lemma mkdir_dots_spec:
  assumes inv: "fs_inv s" and m: "making s r T_DIR s1" and c: "content (disk s1) (key s1 r) = []"
    and p: "allocated (disk s) p"
  obtains ok s2 where "mkdir_dots r p s1 = Ok ((key s1 r, ok), s2)" "making s r T_DIR s2" "key s2 = key s1"
    "ok \<longrightarrow> d_nlink (dinode_at (disk s2) (key s1 r)) = 1 \<and>
       only_dots (disk s2) (key s1 r) p"
    "ok \<or> disk_full (disk s2)"
proof -
  let ?i = "key s1 r"
  note goal = that
  have s1: "fs_inv s1" "refd s1 r" "d_typ (dinode_at (disk s1) ?i) = T_DIR"
    using m by (simp_all add: making_def refd_def plus1_def)
  have l1: "lookup (disk s1) ?i n = None" for n using c by (simp add: lookup_def dirmap_def dents_def)
  obtain ip s2 where 2: "ilock r s1 = Ok (ip, s2)" "fs_inv s2" "locked s2 r ip" "disk s2 = disk s1"
      "rc s2 = rc s1" "key s2 = key s1" "i_inum ip = ?i"
    by (rule ilock_then [OF s1(1,2)])
  have m2: "making s r T_DIR s2" using 2 by (intro making_step [OF m]) simp_all
  have ai: "allocated (disk s2) ?i" using refd_allocated [OF s1(1,2)] 2(4) by simp
  obtain ok3 s3 where 3: "guard_dirlink r (bytes ''.'') ?i s2 = Ok (ok3, s3)"
      "link_result s2 (key s2 r) (bytes ''.'') ?i ok3 s3" "\<exists>ip'. locked s3 r ip'"
    by (rule guard_dirlink_spec [OF 2(2,3) ai])
  have m3: "making s r T_DIR s3"
    using 3(2) 2(6) by (intro making_step [OF m2]) (simp_all add: link_result_def)
  have k3: "key s3 = key s1" using 3(2) 2(6) by (simp add: link_result_def)
  show thesis
  proof (cases ok3)
    case False
    then have "disk_full (disk s3)"
      using 3(2) 2(4,6) l1 c s1(3) by (simp add: link_result_def link_failed_def layout_values BSIZE_def size_Dirent_def)
    with False 2 3 m3 k3 show thesis by (intro goal [of False s3]) (simp_all add: mkdir_dots_def)
  next
    case True
    obtain ip3 where l3: "locked s3 r ip3" using 3(3) by blast
    have "allocated (disk s3) p" using making_kept(1) [OF m3 p] p by (simp add: allocated_def)
    then obtain ok4 s4 where 4: "guard_dirlink r (bytes ''..'') p s3 = Ok (ok4, s4)"
        "link_result s3 (key s3 r) (bytes ''..'') p ok4 s4" "\<exists>ip'. locked s4 r ip'"
      using guard_dirlink_spec [of s3 r ip3 p "bytes ''..''"] l3 m3 by (auto simp: making_def)
    have m4: "making s r T_DIR s4"
      using 4(2) by (intro making_step [OF m3]) (simp_all add: link_result_def)
    have k4: "key s4 = key s1" using 4(2) k3 by (simp add: link_result_def)
    show thesis
    proof (cases ok4)
      case False
      moreover have "length (content (disk s3) ?i) \<le> size_Dirent"
        using 3(2) 2(4,6) c by (simp add: link_result_def)
      ultimately have "disk_full (disk s4)"
        using 4(2) 3(2) True k3 2(4,6) l1 s1(3) dots_distinct
        by (auto simp: link_result_def link_failed_def layout_values BSIZE_def size_Dirent_def)
      with False 2 3 4 True m4 k4 show thesis by (intro goal [of False s4]) (simp_all add: mkdir_dots_def)
    next
      case ok4: True
      obtain ip4 where l4: "locked s4 r ip4" using 4(3) by blast
      have inv4: "fs_inv s4" using m4 by (simp add: making_def)
      have sl: "icache s4 ! r = ip4" using l4 by (simp add: locked_def)
      have i4: "i_inum ip4 = ?i" using locked_image(2) [OF inv4 l4] k4 by simp
      obtain s5 where 5: "iupdate (ip4\<lparr>i_nlink := 1\<rparr>) (set_inode r (ip4\<lparr>i_nlink := 1\<rparr>) s4) = Ok s5"
          "fs_inv s5" "rc s5 = rc s4" "key s5 = key s4" "others_kept (disk s4) (i_inum ip4) (disk s5)"
          "content (disk s5) (i_inum ip4) = content (disk s4) (i_inum ip4)"
          "dinode_at (disk s5) (i_inum ip4) = dinode_of (ip4\<lparr>i_nlink := 1\<rparr>)"
        by (rule set_nlink_spec [OF inv4 l4 refl])
      have ty: "d_typ (dinode_at (disk s5) ?i) = d_typ (dinode_at (disk s4) ?i)"
        using 5(7) i4 locked_image(5) [OF inv4 l4] by (simp add: dinode_of_def)
      have m5: "making s r T_DIR s5"
        using 5 i4 k4 ty by (intro making_step [OF m4]) (simp_all add: others_kept_but)
      have "lookup (disk s5) ?i n = lookup (disk s4) ?i n" for n using ty 5(6) i4 by (simp add: lookup_def)
      moreover have "mkdir_dots r p s1 = Ok ((?i, True), s5)"
        using 2(1,7) 3(1) 4(1) 5(1) True ok4 sl by (simp add: mkdir_dots_def Let_def)
      ultimately show thesis
        using 3(2) 4(2) 5(7) m5 True ok4 l1 2(4,6) i4 k3 k4 5(4)
        by (intro goal [of True s5]) (simp_all add: link_result_def dinode_of_def only_dots_def)
    qed
  qed
qed

lemma create_result_again:
  assumes c: "create_result s p name ty sz (Some r) s1" and i: "key s1 r \<noteq> p" "unat p < NINODES"
    and s2: "fs_inv s2" "rc s2 = rc s1" "key s2 = key s1" "kept_but (disk s1) {p} (disk s2)"
      "content (disk s2) p = content (disk s1) p" "d_typ (dinode_at (disk s2) p) = d_typ (dinode_at (disk s1) p)"
    and u: "unat (key s1 r) < NINODES"
  shows "create_result s p name ty sz (Some r) s2"
proof -
  have t: "d_typ (dinode_at (disk s2) j) = d_typ (dinode_at (disk s1) j)" if "unat j < NINODES" for j
    using that s2(4,6) by (cases "j = p") (simp_all add: kept_but_def)
  have "kept_but (disk s) {key s1 r, p} (disk s2)"
    using c kept_but_mono [OF s2(4), of "{key s1 r, p}"] by (auto simp: create_result_def intro: kept_but_trans)
  moreover have "lookup (disk s2) p n = lookup (disk s1) p n" for n using s2(5,6) by (simp add: lookup_def)
  ultimately show ?thesis using c s2(1-3) t u by (simp add: create_result_def typ_kept_def allocated_def)
qed

lemma mkdir_tail:
  assumes inv: "fs_inv s" and p: "refd s parent" and m: "making s r T_DIR s1"
    and n: "d_nlink (dinode_at (disk s) (key s parent)) \<noteq> 0x7FFF" "d_nlink (dinode_at (disk s1) (key s1 r)) = 1"
    and d: "only_dots (disk s1) (key s1 r) (key s parent)"
  obtains q s' where
    "bindE (link_new parent name r (key s1 r) s1) (\<lambda>(q, s). case q of None \<Rightarrow> Ok (None, s)
       | Some _ \<Rightarrow> bindE (inc_nlink parent s) (\<lambda>s. Ok (Some r, s))) = Ok (q, s')"
    "create_result s (key s parent) name T_DIR 0 q s'"
    "case q of None \<Rightarrow> True | Some r \<Rightarrow> only_dots (disk s') (key s' r) (key s parent)"
proof -
  note goal = that and mr = making_refs [OF m p]
  let ?p = "key s parent" and ?i = "key s1 r"
  have i: "?i \<noteq> ?p" "d_typ (dinode_at (disk s1) ?i) = T_DIR" using mr(3,4) inv m by (simp_all add: making_def)
  obtain q s2 where 2: "link_new parent name r ?i s1 = Ok (q, s2)" "create_result s ?p name T_DIR 0 q s2"
      "case q of None \<Rightarrow> True | Some q \<Rightarrow> q = r \<and> key s2 = key s1 \<and> content (disk s2) ?i = content (disk s1) ?i \<and>
         d_nlink (dinode_at (disk s2) ?i) = d_nlink (dinode_at (disk s1) ?i) + 1 \<and>
         d_nlink (dinode_at (disk s2) ?p) = d_nlink (dinode_at (disk s) ?p)"
    by (rule making_linked [OF inv m p]) (use n(2) in simp)
  show thesis
  proof (cases q)
    case None
    with 2 show thesis by (intro goal [of None s2]) simp_all
  next
    case (Some x)
    have s2: "fs_inv s2" "rc s2 = rc s1" "key s2 = key s1" "x = r" "content (disk s2) ?i = content (disk s1) ?i"
        "d_nlink (dinode_at (disk s2) ?p) \<noteq> 0x7FFF" "d_typ (dinode_at (disk s2) ?i) = T_DIR"
      using m 2(2,3) Some n(1) by (simp_all add: create_result_def making_def)
    have r2: "refd s2 parent" "refd s2 r" "?p = key s2 parent" using mr s2(2,3) by (simp_all add: refd_def)
    note u = refd_allocated(2) [OF s2(1)]
    obtain s3 where 3: "inc_nlink parent s2 = Ok s3" "fs_inv s3" "rc s3 = rc s2" "key s3 = key s2"
        "kept_but (disk s2) {?p} (disk s3)" "content (disk s3) ?p = content (disk s2) ?p"
        "d_typ (dinode_at (disk s3) ?p) = d_typ (dinode_at (disk s2) ?p)"
      by (rule inc_nlink_spec [OF s2(1) r2(1,3) s2(6)])
    have "create_result s ?p name T_DIR 0 (Some r) s3"
      by (rule create_result_again [of s ?p name T_DIR 0 r s2])
        (use 2(2) Some s2(3,4) i 3 u [OF r2(1)] u [OF r2(2)] r2(3) in simp_all)
    moreover have "lookup (disk s3) ?i n = lookup (disk s1) ?i n" for n
      using kept_butD [OF 3(5), of ?i] u [OF r2(2)] s2(3,5,7) i by (simp add: lookup_def)
    ultimately show thesis
      using 2(1) 3(1,4) s2(3) Some d by (intro goal [of "Some r" s3]) (simp_all add: only_dots_def)
  qed
qed

lemma mkdir_child_spec:
  assumes inv: "fs_inv s" and p: "refd s parent" and n: "d_nlink (dinode_at (disk s) (key s parent)) \<noteq> 0x7FFF"
  obtains q s' where "mkdir_child parent name s = Ok (q, s')" "create_result s (key s parent) name T_DIR 0 q s'"
    "case q of None \<Rightarrow> True | Some r \<Rightarrow> only_dots (disk s') (key s' r) (key s parent)"
proof -
  note goal = that
  let ?p = "key s parent"
  obtain dp s1 where 1: "ilock parent s = Ok (dp, s1)" "fs_inv s1" "disk s1 = disk s" "rc s1 = rc s" "key s1 = key s"
      "i_inum dp = ?p"
    by (rule ilock_then [OF inv p])
  have ap: "allocated (disk s) ?p" "unat ?p < NINODES" using refd_allocated [OF inv p] by simp_all
  have "T_DIR \<noteq> 0" by (simp add: T_DIR_def)
  with 1(2) obtain a s2 where 2: "ialloc T_DIR s1 = Ok (a, s2)" "ialloc_result [1..<NINODES] T_DIR s1 a s2"
    by (rule ialloc_spec)
  have al: "ialloc_result [1..<NINODES] T_DIR s a s2" using 2(2) unfolding ialloc_result_def 1(3-5) .
  show thesis
  proof (cases a)
    case None
    with 1 2(1) al ialloc_failed show thesis by (intro goal [of None s2]) (auto simp: mkdir_child_def Let_def)
  next
    case (Some r)
    note m = ialloc_making [OF al [unfolded Some]]
    obtain ok s3 where 3: "mkdir_dots r ?p s2 = Ok ((key s2 r, ok), s3)" "making s r T_DIR s3" "key s3 = key s2"
        "ok \<longrightarrow> d_nlink (dinode_at (disk s3) (key s2 r)) = 1 \<and> only_dots (disk s3) (key s2 r) ?p"
        "ok \<or> disk_full (disk s3)"
      by (rule mkdir_dots_spec [OF inv m(1,2) ap(1)])
    show thesis
    proof (cases ok)
      case False
      then have "create_failed s ?p name 0 (disk s3)" using 3(5) by (simp add: create_failed_def link_failed_def)
      then obtain s4 where "iput r s3 = Ok s4" "create_result s ?p name T_DIR 0 None s4"
        by (rule making_dropped [OF 3(2)])
      with 1 2(1) 3(1) Some False show thesis by (intro goal [of None s4]) (simp_all add: mkdir_child_def)
    next
      case True
      have o: "d_nlink (dinode_at (disk s3) (key s3 r)) = 1" "only_dots (disk s3) (key s3 r) ?p"
        using 3(3,4) True by simp_all
      obtain q s4 where 4:
          "bindE (link_new parent name r (key s3 r) s3) (\<lambda>(q, s). case q of None \<Rightarrow> Ok (None, s)
             | Some _ \<Rightarrow> bindE (inc_nlink parent s) (\<lambda>s. Ok (Some r, s))) = Ok (q, s4)"
          "create_result s ?p name T_DIR 0 q s4"
          "case q of None \<Rightarrow> True | Some r \<Rightarrow> only_dots (disk s4) (key s4 r) ?p"
        by (rule mkdir_tail [OF inv p 3(2) n o])
      have "mkdir_child parent name s = Ok (q, s4)"
        using 1(1,6) 2(1) 3(1,3) 4(1) Some True by (simp add: mkdir_child_def link_new_then)
      with 4(2,3) show thesis by (intro goal)
    qed
  qed
qed

end
