(* ===== verification/Fs_Paths.thy ===== *)
theory Fs_Paths
  imports Fs_Create
begin

text \<open>
  \<open>create\<close> and \<open>mkdir\<close> on path names: they never panic, they leave every other file alone, they
  return with the references they took given back, and on success the path's last component names
  the inode they return.
\<close>

section \<open>Giving the parent back\<close>

text \<open>
  The outcome of a creation, seen from before the reference to the parent was taken: the inode cache
  is full as soon as only the parent's slot was free.
\<close>

definition room_failed :: "(nat \<Rightarrow> byte list) \<Rightarrow> u32 \<Rightarrow> byte list \<Rightarrow> nat \<Rightarrow> (nat \<Rightarrow> byte list) \<Rightarrow> bool" where
  "room_failed dk p name n dk' \<longleftrightarrow>
     (\<forall>i \<in> {1..<NINODES}. allocated dk (of_nat i)) \<or> link_failed dk p name dk' \<or> MAXFILE * BSIZE < n"

definition parent_result ::
    "'z fs_scheme \<Rightarrow> u32 \<Rightarrow> byte list \<Rightarrow> u16 \<Rightarrow> nat \<Rightarrow> inode_ref option \<Rightarrow> 'z fs_scheme \<Rightarrow> bool" where
  "parent_result s p name ty n q s' \<longleftrightarrow>
     fs_inv s' \<and> typ_kept (disk s) (disk s') \<and> (\<forall>x. 0 < rc s x \<longrightarrow> key s' x = key s x) \<and>
     (case q of
        Some r \<Rightarrow> rc s' = plus1 (rc s) r \<and> \<not> allocated (disk s) (key s' r) \<and>
          d_typ (dinode_at (disk s') (key s' r)) = ty \<and> kept_but (disk s) {key s' r, p} (disk s') \<and>
          lookup (disk s) p name = None \<and>
          (\<forall>n. lookup (disk s') p n = (if dirent_name n = dirent_name name then Some (key s' r) else lookup (disk s) p n))
      | None \<Rightarrow> rc s' = rc s \<and> (nearly_full (rc s) \<or> room_failed (disk s) p name n (disk s')) \<and>
          (\<forall>j. allocated (disk s) j \<longrightarrow> content (disk s') j = content (disk s) j))"

lemma nearly_full_plus1: "\<forall>x < NINODE. 0 < plus1 f r x \<Longrightarrow> nearly_full f"
  unfolding nearly_full_def plus1_def by (intro exI [of _ r]) (metis fun_upd_other)

lemma nearly_full_all: "\<forall>x < NINODE. 0 < f x \<Longrightarrow> nearly_full f"
  by (simp add: nearly_full_def)

lemma create_result_iput:
  assumes k: "keeps (rc s) s s1" and f: "rc s1 = plus1 (rc s) parent" and p: "refd s1 parent"
    and c: "create_result s1 p name ty n q s2"
  obtains s3 where "iput parent s2 = Ok s3" "parent_result s p name ty n q s3" "disk s3 = disk s2" "key s3 = key s2"
proof -
  have s1: "disk s1 = disk s" "\<forall>x. 0 < rc s x \<longrightarrow> key s1 x = key s x" using k by (simp_all add: keeps_def)
  have "fs_inv s2" using c by (simp add: create_result_def)
  moreover have "refd s2 parent"
    using c p f by (auto simp: create_result_def refd_def plus1_def split: option.splits)
  ultimately obtain s3 where 3: "iput parent s2 = Ok s3" "fs_inv s3" "disk s3 = disk s2"
      "rc s3 = (rc s2)(parent := rc s2 parent - 1)" "key s3 = key s2"
    by (rule iput_spec)
  have pos: "0 < rc s1 x" if "0 < rc s x" for x using that f by (simp add: plus1_def)
  have "parent_result s p name ty n q s3"
  proof (cases q)
    case None
    then have "rc s3 = rc s" using c 3(4) f plus1_drop [of "rc s" parent] by (simp add: create_result_def)
    moreover have "nearly_full (rc s) \<or> room_failed (disk s) p name n (disk s3)"
      using None c f s1(1) 3(3) nearly_full_plus1 [of "rc s" parent]
      by (auto simp: create_result_def create_failed_def room_failed_def)
    ultimately show ?thesis using None c 3 s1 pos by (simp add: create_result_def parent_result_def)
  next
    case (Some r)
    then have "rc s3 = plus1 (rc s) r" using c 3(4) f plus1_move [of "rc s" parent r] by (simp add: create_result_def)
    with Some c 3 s1 pos show ?thesis by (simp add: create_result_def parent_result_def)
  qed
  with 3 show thesis by (intro that)
qed

lemma keeps_more: "keeps (plus1 f r) s s' \<Longrightarrow> keeps f s s'"
  by (auto simp: keeps_def plus1_def)

lemma keeps_iput:
  assumes i: "fs_inv s" and r: "refd s r" and f: "rc s = plus1 f r"
  obtains s' where "iput r s = Ok s'" "keeps (rc s) s s'" "rc s' = f" "key s' = key s"
proof -
  obtain s' where "iput r s = Ok s'" "fs_inv s'" "disk s' = disk s" "rc s' = (rc s)(r := rc s r - 1)" "key s' = key s"
    by (rule iput_spec [OF i r])
  with f show thesis by (intro that [of s']) (simp_all add: keeps_def plus1_drop)
qed

section \<open>The parent and the entry\<close>

text \<open>The common beginning of the two: the parent directory and what it has under the name.\<close>

lemma parent_lookup:
  assumes inv: "fs_inv s" and r: "refd s r"
  obtains ip s1 s' where "ilock r s = Ok (ip, s1)" "dirlookup ip name s1 = Ok (lookup (disk s) (key s r) name, s')"
    "keeps (rc s) s s'" "rc s' = rc s" "key s' = key s" "refd s' r"
proof -
  obtain ip s1 where 1: "ilock r s = Ok (ip, s1)" "fs_inv s1" "locked s1 r ip" "disk s1 = disk s"
      "rc s1 = rc s" "key s1 = key s" "i_inum ip = key s r"
    by (rule ilock_then [OF inv r])
  obtain s2 where "dirlookup ip name s1 = Ok (lookup (disk s1) (i_inum ip) name, s2)"
      "fs_inv s2" "disk s2 = disk s1" "rc s2 = rc s1" "key s2 = key s1"
    by (rule dirlookup_locked [OF 1(2,3)])
  with 1 r show thesis by (intro that [of ip s1 s2]) (simp_all add: keeps_def refd_def)
qed

lemma with_parent:
  assumes inv: "fs_inv s" and cwd: "refd s cwd" and rt: "allocated (disk s) ROOTINO"
  obtains (none) s1 where "nameiparent cwd path s = Ok (None, s1)" "keeps (rc s) s s1" "rc s1 = rc s"
      "path = [] \<or> resolve_parent (disk s) (start_inum s cwd path) path = None \<or> nearly_full (rc s)"
  | (found) r name s1 ip s2 p s3 where "nameiparent cwd path s = Ok (Some (r, name), s1)"
      "resolve_parent (disk s) (start_inum s cwd path) path = Some (p, name)"
      "ilock r s1 = Ok (ip, s2)" "dirlookup ip name s2 = Ok (lookup (disk s) p name, s3)"
      "keeps (rc s) s s3" "rc s3 = plus1 (rc s) r" "refd s3 r" "key s3 r = p" "fs_inv s3" "disk s3 = disk s"
      "\<forall>j. lookup (disk s) p name = Some j \<longrightarrow> allocated (disk s) j"
proof -
  obtain a s1 where 1: "nameiparent cwd path s = Ok (a, s1)" "keeps (rc s) s s1"
      "case a of
         Some (r, name) \<Rightarrow> rc s1 = plus1 (rc s) r \<and> refd s1 r \<and> path \<noteq> [] \<and>
           resolve_parent (disk s) (start_inum s cwd path) path = Some (key s1 r, name)
       | None \<Rightarrow> rc s1 = rc s \<and>
           (path = [] \<or> resolve_parent (disk s) (start_inum s cwd path) path = None \<or> nearly_full (rc s))"
    using nameiparent_spec [OF assms] by blast
  have i1: "fs_inv s1" "disk s1 = disk s" using 1(2) by (simp_all add: keeps_def)
  show thesis
  proof (cases a)
    case None
    with 1 show thesis by (intro none [of s1]) simp_all
  next
    case (Some rn)
    obtain r name where rn: "rn = (r, name)" by fastforce
    have r: "rc s1 = plus1 (rc s) r" "refd s1 r" "resolve_parent (disk s) (start_inum s cwd path) path = Some (key s1 r, name)"
      using 1(3) Some rn by simp_all
    obtain ip s2 s3 where 2: "ilock r s1 = Ok (ip, s2)" "dirlookup ip name s2 = Ok (lookup (disk s1) (key s1 r) name, s3)"
        "keeps (rc s1) s1 s3" "rc s3 = rc s1" "key s3 = key s1" "refd s3 r"
      by (rule parent_lookup [OF i1(1) r(2)])
    have k3: "keeps (rc s) s s3" using keeps_trans [OF 1(2)] keeps_more 2(3) r(1) by metis
    have "allocated (disk s) j" if "lookup (disk s) (key s1 r) name = Some j" for j
      using lookup_allocated [OF i1(1)] that i1(2) refd_allocated [OF i1(1) r(2)] by metis
    with 1(1) Some rn r 2 i1(2) k3 show thesis
      by (intro found [of r name s1 "key s1 r" ip s2 s3]) (simp_all add: keeps_def)
  qed
qed

section \<open>\<open>create\<close>\<close>

text \<open>Opening what the parent already has under the name: only a file will do.\<close>

definition open_existing :: "u32 \<Rightarrow> 'z fs_scheme \<Rightarrow> (inode_ref option \<times> 'z fs_scheme) res" where
  "open_existing inum s =
     (case iget inum s of
        (None, s) \<Rightarrow> Ok (None, s)
      | (Some ip_ref, s) \<Rightarrow>
          bindE (inode_type ip_ref s) (\<lambda>(ty, s).
          if ty = File then Ok (Some ip_ref, s)
          else bindE (iput ip_ref s) (\<lambda>s. Ok (None, s))))"

lemma inode_type_spec:
  assumes inv: "fs_inv s" and r: "refd s r"
  obtains ty s' where "inode_type r s = Ok (ty, s')" "keeps (rc s) s s'" "rc s' = rc s" "key s' = key s"
    "ty = Dir \<longleftrightarrow> d_typ (dinode_at (disk s) (key s r)) = T_DIR"
    "ty = File \<longleftrightarrow> d_typ (dinode_at (disk s) (key s r)) \<notin> {T_DIR, T_DEVICE}"
proof -
  obtain ip s1 where 1: "ilock r s = Ok (ip, s1)" "fs_inv s1" "locked s1 r ip" "disk s1 = disk s"
      "rc s1 = rc s" "key s1 = key s" "i_inum ip = key s r" "i_typ ip = d_typ (dinode_at (disk s) (key s r))"
    by (rule ilock_then [OF inv r])
  then show thesis
    by (intro that [of "if i_typ ip = T_FILE then File else if i_typ ip = T_DIR then Dir
          else if i_typ ip = T_DEVICE then Device (i_major ip) else File" s1])
      (simp_all add: inode_type_def keeps_def T_FILE_def T_DIR_def T_DEVICE_def)
qed

lemma open_existing_spec:
  assumes inv: "fs_inv s" and i: "allocated (disk s) i"
  obtains q s' where "open_existing i s = Ok (q, s')" "keeps (rc s) s s'"
    "case q of None \<Rightarrow> rc s' = rc s \<and> (nearly_full (rc s) \<or> d_typ (dinode_at (disk s) i) \<in> {T_DIR, T_DEVICE})
     | Some r \<Rightarrow> refd s' r \<and> rc s' = plus1 (rc s) r \<and> key s' r = i \<and> d_typ (dinode_at (disk s) i) \<notin> {T_DIR, T_DEVICE}"
  using inv i
proof (cases rule: iget_spec)
  case full
  with inv nearly_full_all [OF full(2)] show thesis
    by (intro that [of None s]) (simp_all add: open_existing_def keeps_def)
next
  case (got r s1)
  have r: "refd s1 r" and f: "rc s1 = plus1 (rc s) r" using got by (simp_all add: refd_def plus1_def)
  have k1: "keeps (rc s) s s1" using got by (simp add: keeps_def)
  obtain ty s2 where 2: "inode_type r s1 = Ok (ty, s2)" "keeps (rc s1) s1 s2" "rc s2 = rc s1" "key s2 = key s1"
      "ty = File \<longleftrightarrow> d_typ (dinode_at (disk s1) (key s1 r)) \<notin> {T_DIR, T_DEVICE}"
    by (rule inode_type_spec [OF got(2) r])
  have k2: "keeps (rc s) s s2" using keeps_trans [OF k1] keeps_more 2(2) f by metis
  have s2: "fs_inv s2" "refd s2 r" using 2(2,3) r by (simp_all add: keeps_def refd_def)
  show thesis
  proof (cases "d_typ (dinode_at (disk s) i) \<in> {T_DIR, T_DEVICE}")
    case False
    with got(1,3,6) 2(1,3-5) k2 s2 f show thesis
      by (intro that [of "Some r" s2]) (simp_all add: open_existing_def)
  next
    case True
    obtain s3 where "iput r s2 = Ok s3" "keeps (rc s2) s2 s3" "rc s3 = rc s"
      by (rule keeps_iput [OF s2]) (use 2(3) f in simp)
    moreover from this have "keeps (rc s) s s3" using keeps_trans [OF k2] keeps_more 2(3) f by metis
    ultimately show thesis
      using True got(1,3,6) 2(1,5) by (intro that [of None s3]) (auto simp: open_existing_def)
  qed
qed

text \<open>
  The outcome of \<open>create\<close>. Nothing that existed changes but the parent directory, which may gain the
  one entry; an existing file is opened as it is.
\<close>

definition create_post :: "'z fs_scheme \<Rightarrow> inode_ref \<Rightarrow> byte list \<Rightarrow> inode_ref option \<Rightarrow> 'z fs_scheme \<Rightarrow> bool" where
  "create_post s cwd path q s' \<longleftrightarrow>
     fs_inv s' \<and> typ_kept (disk s) (disk s') \<and> (\<forall>x. 0 < rc s x \<longrightarrow> key s' x = key s x) \<and>
     (case q of
        None \<Rightarrow> rc s' = rc s \<and> (\<forall>j. allocated (disk s) j \<longrightarrow> content (disk s') j = content (disk s) j) \<and>
          (path = [] \<or> nearly_full (rc s) \<or>
           (case resolve_parent (disk s) (start_inum s cwd path) path of
              None \<Rightarrow> True
            | Some (p, name) \<Rightarrow>
                (case lookup (disk s) p name of
                   Some i \<Rightarrow> d_typ (dinode_at (disk s) i) \<in> {T_DIR, T_DEVICE}
                 | None \<Rightarrow> room_failed (disk s) p name 0 (disk s'))))
      | Some r \<Rightarrow> rc s' = plus1 (rc s) r \<and>
          (\<exists>p name. resolve_parent (disk s) (start_inum s cwd path) path = Some (p, name) \<and>
             lookup (disk s') p name = Some (key s' r) \<and>
             d_typ (dinode_at (disk s') (key s' r)) \<notin> {T_DIR, T_DEVICE} \<and>
             (if lookup (disk s) p name \<noteq> None then disk s' = disk s
              else \<not> allocated (disk s) (key s' r) \<and> content (disk s') (key s' r) = [] \<and>
                kept_but (disk s) {key s' r, p} (disk s') \<and>
                (\<forall>n. dirent_name n \<noteq> dirent_name name \<longrightarrow> lookup (disk s') p n = lookup (disk s) p n))))"

lemma create_post_kept:
  assumes "keeps (rc s) s s'" and "rc s' = rc s"
    and "path = [] \<or> resolve_parent (disk s) (start_inum s cwd path) path = None \<or> nearly_full (rc s)"
  shows "create_post s cwd path None s'"
  using assms by (auto simp: create_post_def keeps_def typ_kept_def)

lemma create_exists:
  assumes inv: "fs_inv s" and k: "keeps (rc s) s s1" and f: "rc s1 = plus1 (rc s) parent" and p: "refd s1 parent"
    and rp: "resolve_parent (disk s) (start_inum s cwd path) path = Some (p, name)"
    and lk: "lookup (disk s) p name = Some i" and i: "allocated (disk s) i"
  obtains q s' where "bindE (iput parent s1) (open_existing i) = Ok (q, s')" "create_post s cwd path q s'"
proof -
  have i1: "fs_inv s1" using k by (simp add: keeps_def)
  obtain s2 where 2: "iput parent s1 = Ok s2" "keeps (rc s1) s1 s2" "rc s2 = rc s" "key s2 = key s1"
    by (rule keeps_iput [OF i1 p f])
  have k2: "keeps (rc s) s s2" using keeps_trans [OF k] keeps_more 2(2) f by metis
  then have "fs_inv s2" "allocated (disk s2) i" using i by (simp_all add: keeps_def)
  then obtain q s3 where 3: "open_existing i s2 = Ok (q, s3)" "keeps (rc s2) s2 s3"
      "case q of None \<Rightarrow> rc s3 = rc s2 \<and> (nearly_full (rc s2) \<or> d_typ (dinode_at (disk s2) i) \<in> {T_DIR, T_DEVICE})
       | Some r \<Rightarrow> refd s3 r \<and> rc s3 = plus1 (rc s2) r \<and> key s3 r = i \<and> d_typ (dinode_at (disk s2) i) \<notin> {T_DIR, T_DEVICE}"
    by (rule open_existing_spec)
  have k3: "keeps (rc s) s s3" using keeps_trans [OF k2] 3(2) 2(3) by simp
  have d: "disk s3 = disk s" "disk s2 = disk s" using k2 k3 by (simp_all add: keeps_def)
  have "create_post s cwd path q s3"
  proof (cases q)
    case None
    with d k3 3(3) 2(3) rp lk show ?thesis by (auto simp: create_post_def keeps_def typ_kept_def)
  next
    case (Some r)
    with d k3 3(3) 2(3) rp lk show ?thesis
      unfolding create_post_def by (simp add: keeps_def typ_kept_def)
  qed
  with 2(1) 3(1) show thesis by (intro that [of q s3]) simp_all
qed

lemma create_result_post:
  assumes "parent_result s p name T_FILE 0 q s'" and "lookup (disk s) p name = None"
    and "resolve_parent (disk s) (start_inum s cwd path) path = Some (p, name)"
    and "case q of None \<Rightarrow> True | Some r \<Rightarrow> content (disk s') (key s' r) = []"
  shows "create_post s cwd path q s'"
  using assms
  by (cases q) (auto simp: create_post_def parent_result_def T_FILE_def T_DIR_def T_DEVICE_def)

lemma create_spec:
  assumes inv: "fs_inv s" and cwd: "refd s cwd" and rt: "allocated (disk s) ROOTINO"
  shows "\<exists>q s'. create cwd path s = Ok (q, s') \<and> create_post s cwd path q s'"
  using assms
proof (cases rule: with_parent [where path = path])
  case (none s1)
  then show ?thesis by (intro exI [of _ None] exI [of _ s1]) (simp add: create_def create_post_kept)
next
  case (found r name s1 ip s2 p s3)
  show ?thesis
  proof (cases "lookup (disk s) p name")
    case lk: (Some i)
    then have "allocated (disk s) i" using found(11) by blast
    then obtain q s' where "bindE (iput r s3) (open_existing i) = Ok (q, s')" "create_post s cwd path q s'"
      by (rule create_exists [OF inv found(5-7,2) lk])
    with found lk show ?thesis
      by (intro exI [of _ q] exI [of _ s']) (simp add: create_def open_existing_def [abs_def])
  next
    case lk: None
    obtain q s4 where 4: "create_empty_file r name s3 = Ok (q, s4)" "create_result s3 (key s3 r) name T_FILE 0 q s4"
        "case q of None \<Rightarrow> True | Some r \<Rightarrow> content (disk s4) (key s4 r) = [] \<and> d_nlink (dinode_at (disk s4) (key s4 r)) = 1"
      by (rule create_empty_file_spec [OF found(9,7)])
    obtain s5 where 5: "iput r s4 = Ok s5" "parent_result s (key s3 r) name T_FILE 0 q s5" "disk s5 = disk s4" "key s5 = key s4"
      by (rule create_result_iput [OF found(5-7) 4(2)])
    have "create_post s cwd path q s5"
      by (rule create_result_post [OF 5(2)]) (use lk found(2,8) 4(3) 5(3,4) in \<open>simp_all split: option.splits\<close>)
    with found lk 4(1) 5(1) show ?thesis
      by (intro exI [of _ q] exI [of _ s5]) (simp add: create_def)
  qed
qed

section \<open>\<open>mkdir\<close>\<close>

definition mkdir_post :: "'z fs_scheme \<Rightarrow> inode_ref \<Rightarrow> byte list \<Rightarrow> inode_ref option \<Rightarrow> 'z fs_scheme \<Rightarrow> bool" where
  "mkdir_post s cwd path q s' \<longleftrightarrow>
     fs_inv s' \<and> typ_kept (disk s) (disk s') \<and> (\<forall>x. 0 < rc s x \<longrightarrow> key s' x = key s x) \<and>
     (case q of
        None \<Rightarrow> rc s' = rc s \<and> (\<forall>j. allocated (disk s) j \<longrightarrow> content (disk s') j = content (disk s) j) \<and>
          (path = [] \<or> nearly_full (rc s) \<or>
           (case resolve_parent (disk s) (start_inum s cwd path) path of
              None \<Rightarrow> True
            | Some (p, name) \<Rightarrow> room_failed (disk s) p name 0 (disk s')))
      | Some r \<Rightarrow> rc s' = plus1 (rc s) r \<and>
          (\<exists>p name. resolve_parent (disk s) (start_inum s cwd path) path = Some (p, name) \<and>
             lookup (disk s) p name = None \<and> lookup (disk s') p name = Some (key s' r) \<and>
             d_typ (dinode_at (disk s') (key s' r)) = T_DIR \<and> \<not> allocated (disk s) (key s' r) \<and>
             only_dots (disk s') (key s' r) p \<and> kept_but (disk s) {key s' r, p} (disk s') \<and>
             (\<forall>n. dirent_name n \<noteq> dirent_name name \<longrightarrow> lookup (disk s') p n = lookup (disk s) p n)))"

lemma mkdir_post_kept:
  assumes "keeps (rc s) s s'" and "rc s' = rc s"
    and "path = [] \<or> nearly_full (rc s) \<or>
      (case resolve_parent (disk s) (start_inum s cwd path) path of
         None \<Rightarrow> True | Some (p, name) \<Rightarrow> lookup (disk s) p name \<noteq> None)"
  shows "mkdir_post s cwd path None s'"
  using assms by (auto simp: mkdir_post_def keeps_def typ_kept_def room_failed_def link_failed_def split: option.splits)

lemma mkdir_result_post:
  assumes "parent_result s p name T_DIR 0 q s'"
    and "resolve_parent (disk s) (start_inum s cwd path) path = Some (p, name)"
    and "case q of None \<Rightarrow> True | Some r \<Rightarrow> only_dots (disk s') (key s' r) p"
  shows "mkdir_post s cwd path q s'"
  using assms by (cases q) (auto simp: mkdir_post_def parent_result_def)

lemma mkdir_spec:
  assumes inv: "fs_inv s" and cwd: "refd s cwd" and rt: "allocated (disk s) ROOTINO"
    and n: "\<And>p name. resolve_parent (disk s) (start_inum s cwd path) path = Some (p, name) \<Longrightarrow>
      d_nlink (dinode_at (disk s) p) \<noteq> 0x7FFF"
  shows "\<exists>q s'. mkdir cwd path s = Ok (q, s') \<and> mkdir_post s cwd path q s'"
  using inv cwd rt
proof (cases rule: with_parent [where path = path])
  case (none s1)
  then have "mkdir_post s cwd path None s1" by (intro mkdir_post_kept) auto
  with none show ?thesis by (intro exI [of _ None] exI [of _ s1]) (simp add: mkdir_def)
next
  case (found r name s1 ip s2 p s3)
  show ?thesis
  proof (cases "lookup (disk s) p name")
    case lk: (Some i)
    obtain s' where "iput r s3 = Ok s'" "keeps (rc s3) s3 s'" "rc s' = rc s"
      by (rule keeps_iput [OF found(9,7,6)])
    moreover from this have "keeps (rc s) s s'" using keeps_trans [OF found(5)] keeps_more found(6) by metis
    ultimately show ?thesis
      using found lk by (intro exI [of _ None] exI [of _ s']) (simp add: mkdir_def mkdir_post_kept)
  next
    case lk: None
    have "d_nlink (dinode_at (disk s3) (key s3 r)) \<noteq> 0x7FFF" using n [OF found(2)] found(8,10) by simp
    then obtain q s4 where 4: "mkdir_child r name s3 = Ok (q, s4)" "create_result s3 (key s3 r) name T_DIR 0 q s4"
        "case q of None \<Rightarrow> True | Some r' \<Rightarrow> only_dots (disk s4) (key s4 r') (key s3 r)"
      by (rule mkdir_child_spec [OF found(9,7)])
    obtain s5 where 5: "iput r s4 = Ok s5" "parent_result s (key s3 r) name T_DIR 0 q s5" "disk s5 = disk s4" "key s5 = key s4"
      by (rule create_result_iput [OF found(5-7) 4(2)])
    have "mkdir_post s cwd path q s5"
      by (rule mkdir_result_post [OF 5(2)]) (use found(2,8) 4(3) 5(3,4) in \<open>simp_all split: option.splits\<close>)
    with found lk 4(1) 5(1) show ?thesis
      by (intro exI [of _ q] exI [of _ s5]) (simp add: mkdir_def)
  qed
qed

end
