(* ===== verification/Fs_Boot.thy ===== *)
theory Fs_Boot
  imports Fs_Paths
begin

text \<open>
  The state the kernel starts from: zeroed disk, empty caches (the initialisers of \<open>DISK\<close>,
  \<open>BCACHE\<close> and \<open>ICACHE\<close>), and the state after \<open>init_root\<close> has made the root directory.  They
  satisfy the invariant, so the guarantees of the operations hold from the first call on.
\<close>

definition zero_fs :: fs where
  "zero_fs = \<lparr>disk = (\<lambda>_. replicate BSIZE 0), bcache = replicate NBUF Buffer_empty,
     icache = replicate NINODE Inode_empty\<rparr>"

lemma word_of_le_zero [simp]: "word_of_le (replicate n 0) = (0 :: 'a::len word)"
  by (induction n) simp_all

lemma get_slice_replicate: "get_slice (replicate m x) off n = replicate (min n (m - off)) x"
  by (simp add: get_slice_def)

lemma zero_dinode: "dinode_at (\<lambda>_. replicate BSIZE 0) i = Dinode_new 0"
  unfolding dinode_at_def dinode_of_bytes_def Dinode_new_def
  by (simp add: get_slice_replicate map_replicate_const del: upt_Suc replicate_Suc)

lemma zero_inode:
  "iblocks (\<lambda>_. replicate BSIZE 0) (inode_at (\<lambda>_. replicate BSIZE 0) i) = {}"
  "file_ok (\<lambda>_. replicate BSIZE 0) (inode_at (\<lambda>_. replicate BSIZE 0) i)"
proof -
  have "inode_at (\<lambda>_. replicate BSIZE 0) i =
      (inode_at (\<lambda>_. replicate BSIZE 0) i)\<lparr>i_addrs := replicate (NDIRECT + 1) 0, i_size := 0\<rparr>"
    by (simp add: inode_at_def zero_dinode Dinode_new_def Let_def)
  from empty_inode(1,2) [OF this] show
    "iblocks (\<lambda>_. replicate BSIZE 0) (inode_at (\<lambda>_. replicate BSIZE 0) i) = {}"
    "file_ok (\<lambda>_. replicate BSIZE 0) (inode_at (\<lambda>_. replicate BSIZE 0) i)" by blast+
qed

lemma zero_fs_refs: "rc zero_fs r = 0" if "r < NINODE"
  using that by (simp add: rc_def zero_fs_def Inode_empty_def)

lemma zero_fs_inv: "fs_inv zero_fs"
proof -
  have "bc_inv zero_fs"
    by (simp add: bc_inv_def zero_fs_def disk_ok_def bc.uniq_def Buffer_empty_def buf_ok_def b_live_def)
  moreover have "nfree zero_fs = NBUF"
    by (simp add: nfree_def pins_def pin_def zero_fs_def Buffer_empty_def)
  moreover have nv: "\<not> view (icache zero_fs) i ip" for i ip
    by (auto simp: view_def zero_fs_def Inode_empty_def)
  then have "images_ok (disk zero_fs) (icache zero_fs)"
    by (auto simp: images_ok_def img_of_def zero_fs_def zero_inode extends_refl)
  moreover have "refs_ok (disk zero_fs) (icache zero_fs)"
    by (simp add: refs_ok_def zero_fs_def ic.uniq_def Inode_empty_def i_live_def)
  moreover have "dirs_ok (disk zero_fs)"
    by (simp add: dirs_ok_def zero_fs_def zero_dinode Dinode_new_def T_DIR_def)
  ultimately show ?thesis by (simp add: fs_inv_def)
qed

section \<open>The empty root directory\<close>

definition root_fs :: fs where
  "root_fs = (case init_root zero_fs of Ok (r, s) \<Rightarrow> s | _ \<Rightarrow> zero_fs)"

lemma iget_empty:
  assumes "icache s = icache zero_fs"
  shows "fst (iget i s) = Some 0"
proof -
  have "find_slot (\<lambda>ip. 0 < i_refcnt ip \<and> i_inum ip = i) (icache s) = None"
    unfolding find_slot_None_iff using assms by (simp add: zero_fs_def Inode_empty_def)
  moreover have "find_slot (\<lambda>ip. i_refcnt ip = 0) (icache s) = Some 0"
    using assms by (simp add: zero_fs_def Inode_empty_def NINODE_def numeral_eq_Suc)
  ultimately show ?thesis by (simp add: iget_def icache_get_def)
qed

lemma root_fs:
  shows "init_root zero_fs = Ok (Some 0, root_fs)" "fs_inv root_fs" "refd root_fs 0" "key root_fs 0 = ROOTINO"
    "dinode_at (disk root_fs) ROOTINO = Dinode_new T_DIR" "content (disk root_fs) ROOTINO = []"
    "allocated (disk root_fs) ROOTINO" "rc root_fs 1 = 0" "\<not> allocated (disk root_fs) 2"
proof -
  have u: "unat ROOTINO = 1" by (simp add: ROOTINO_def)
  then have n: "unat ROOTINO < NINODES" "0 < unat ROOTINO" by (simp_all add: NINODES_def)
  note zb = fs_inv_bc [OF zero_fs_inv]
  obtain s1 where 1: "write_dinode ROOTINO (Dinode_new T_DIR) zero_fs = Ok s1"
      "disk s1 = put_dinode ROOTINO (Dinode_new T_DIR) (disk zero_fs)" "bframe zero_fs s1"
    by (rule write_dinode_spec [OF zb(1,3) n(1) dinode_ok_new])
  have na: "\<not> allocated (disk zero_fs) ROOTINO"
    by (simp add: allocated_def zero_fs_def zero_dinode Dinode_new_def)
  have ty: "T_DIR \<noteq> 0" by (simp add: T_DIR_def)
  note new = fs_inv_new_dinode [OF zero_fs_inv na n(2,1) ty 1(3,2)]
  have ic: "icache s1 = icache zero_fs" by (rule more_icache [OF bframeD(4) [OF 1(3)]])
  have al: "allocated (disk s1) ROOTINO" using new(7) by blast
  obtain s2 where s2: "iget ROOTINO s1 = (Some 0, s2)" using iget_empty [OF ic, of ROOTINO] by (metis prod.collapse)
  then show e: "init_root zero_fs = Ok (Some 0, root_fs)"
    using 1(1) by (simp add: init_root_def root_fs_def)
  then have e2: "root_fs = s2" using 1(1) s2 by (simp add: init_root_def)
  have r1: "rc zero_fs 1 = 0" by (rule zero_fs_refs) (simp add: NINODE_def)
  have n2: "\<not> allocated (disk zero_fs) 2" by (simp add: allocated_def zero_fs_def zero_dinode Dinode_new_def)
  from new(1) al show "fs_inv root_fs" "refd root_fs 0" "key root_fs 0 = ROOTINO"
      "dinode_at (disk root_fs) ROOTINO = Dinode_new T_DIR" "content (disk root_fs) ROOTINO = []"
      "allocated (disk root_fs) ROOTINO" "rc root_fs 1 = 0" "\<not> allocated (disk root_fs) 2"
    by (cases rule: iget_spec, use s2 e2 new al r1 n2 in \<open>simp_all add: refd_def ROOTINO_def\<close>)+
qed

section \<open>An empty file beside it\<close>

definition file_ref :: inode_ref where
  "file_ref = (case ialloc T_FILE root_fs of Ok (Some r, s) \<Rightarrow> r | _ \<Rightarrow> 0)"

definition file_fs :: fs where
  "file_fs = (case ialloc T_FILE root_fs of Ok (r, s) \<Rightarrow> s | _ \<Rightarrow> root_fs)"

lemma file_fs:
  shows "ialloc T_FILE root_fs = Ok (Some file_ref, file_fs)" "fs_inv file_fs" "refd file_fs file_ref"
    "d_typ (dinode_at (disk file_fs) (key file_fs file_ref)) = T_FILE"
    "content (disk file_fs) (key file_fs file_ref) = []"
proof -
  have "T_FILE \<noteq> 0" by (simp add: T_FILE_def)
  with root_fs(2) obtain q s where 1: "ialloc T_FILE root_fs = Ok (q, s)"
      "ialloc_result [1..<NINODES] T_FILE root_fs q s"
    by (rule ialloc_spec)
  have "2 \<in> set [1..<NINODES]" "1 < NINODE" by (simp_all add: NINODES_def NINODE_def)
  moreover have "\<not> allocated (disk root_fs) (of_nat 2)" using root_fs(9) by simp
  moreover have "(disk s = disk root_fs \<and> (\<forall>i \<in> set [1..<NINODES]. allocated (disk root_fs) (of_nat i))) \<or>
      (\<forall>x < NINODE. 0 < rc root_fs x)" if "q = None"
    using 1(2) that unfolding ialloc_result_def by auto
  ultimately have "q \<noteq> None" using root_fs(8) by (metis less_irrefl)
  then obtain r where q: "q = Some r" by blast
  with 1(1) have e: "file_ref = r" "file_fs = s" by (simp_all add: file_ref_def file_fs_def)
  note m = ialloc_making [OF 1(2) [unfolded q]]
  from 1(1) q e show "ialloc T_FILE root_fs = Ok (Some file_ref, file_fs)" by simp
  from m e show "fs_inv file_fs" "refd file_fs file_ref" "d_typ (dinode_at (disk file_fs) (key file_fs file_ref)) = T_FILE"
    "content (disk file_fs) (key file_fs file_ref) = []" by (simp_all add: making_def refd_def plus1_def)
qed

end
