(* ===== verification/Fs_Theorems.thy ===== *)
theory Fs_Theorems
  imports Fs_Boot
begin

text \<open>
  The guarantees of the file system to the rest of the kernel, over the invariant \<open>fs_inv\<close>: one
  theorem per entry point of \<open>src/fs.rs\<close> that the system calls use, each with an instance at the
  states of \<open>Fs_Boot\<close>.
\<close>

section \<open>The first states\<close>

text \<open>C14. After \<open>init_root\<close> on a zeroed disk with empty caches the invariant of the file system holds,
  inode 1 is an empty directory, and slot 0 of the inode cache refers to it.\<close>

theorem boot_invariant:
  "fs_inv zero_fs \<and> init_root zero_fs = Ok (Some 0, root_fs) \<and> fs_inv root_fs \<and> refd root_fs 0 \<and>
   key root_fs 0 = ROOTINO \<and> dinode_at (disk root_fs) ROOTINO = Dinode_new T_DIR \<and>
   content (disk root_fs) ROOTINO = []"
  using zero_fs_inv root_fs by simp

section \<open>Names\<close>

text \<open>C7. \<open>namei\<close> never panics and leaves the disk alone. When it returns a reference, the reference is
  new and is to the inode the path resolves to, component by component, from the root or from the
  working directory; when it returns none, no reference was taken, and the path is empty, resolves to
  nothing, or all slots of the inode cache but one were taken.\<close>

theorem namei_resolves:
  assumes "fs_inv s" and "refd s cwd" and "allocated (disk s) ROOTINO"
  shows "\<exists>q s'. namei cwd path s = Ok (q, s') \<and> keeps (rc s) s s' \<and>
    (case q of
       Some r \<Rightarrow> rc s' = plus1 (rc s) r \<and> refd s' r \<and> path \<noteq> [] \<and>
         resolve (disk s) (start_inum s cwd path) path = Some (key s' r)
     | None \<Rightarrow> rc s' = rc s \<and>
         (path = [] \<or> resolve (disk s) (start_inum s cwd path) path = None \<or> nearly_full (rc s)))"
  by (rule namei_spec [OF assms])

theorem namei_resolves_witness:
  "fs_inv root_fs \<and> refd root_fs 0 \<and> (\<exists>q s'. namei 0 (bytes ''/'') root_fs = Ok (q, s') \<and> keeps (rc root_fs) root_fs s' \<and>
    (case q of
       Some r \<Rightarrow> rc s' = plus1 (rc root_fs) r \<and> refd s' r \<and> bytes ''/'' \<noteq> [] \<and>
         resolve (disk root_fs) (start_inum root_fs 0 (bytes ''/'')) (bytes ''/'') = Some (key s' r)
     | None \<Rightarrow> rc s' = rc root_fs \<and>
         (bytes ''/'' = [] \<or> resolve (disk root_fs) (start_inum root_fs 0 (bytes ''/'')) (bytes ''/'') = None \<or>
          nearly_full (rc root_fs))))"
  using namei_resolves [OF root_fs(2,3,7), of "bytes ''/''"] root_fs(2,3) by blast

text \<open>C2. \<open>create\<close> never panics. It keeps the invariant, the type of every inode and every held reference.
  When it returns a reference, the last component of the path names its inode afterwards: a file that
  was there before, with the disk unchanged, or a fresh empty file entered into the parent, whose other
  names are kept, with every other file unchanged. When it returns none, no file has changed and there
  is a reason: an empty path, no parent, no slot in the inode cache, a directory or device under that
  name, no free inode, or no room in the parent.\<close>

theorem create_correct:
  assumes "fs_inv s" and "refd s cwd" and "allocated (disk s) ROOTINO"
  shows "\<exists>q s'. create cwd path s = Ok (q, s') \<and> create_post s cwd path q s'"
  by (rule create_spec [OF assms])

theorem create_correct_witness:
  "fs_inv root_fs \<and> refd root_fs 0 \<and>
   (\<exists>q s'. create 0 (bytes ''/a'') root_fs = Ok (q, s') \<and> create_post root_fs 0 (bytes ''/a'') q s')"
  using create_correct [OF root_fs(2,3,7), of "bytes ''/a''"] root_fs(2,3) by blast

text \<open>C8. \<open>mkdir\<close> never panics as long as the parent's link count is not at the limit of its type. When
  it returns a reference, it is to a fresh directory with exactly the entries \<open>.\<close> (itself) and \<open>..\<close> (the
  parent), the parent has gained the one name and kept the others, and every other file is unchanged;
  when it returns none, no file has changed and there is a reason.\<close>

theorem mkdir_correct:
  assumes "fs_inv s" and "refd s cwd" and "allocated (disk s) ROOTINO"
    and "\<And>p name. resolve_parent (disk s) (start_inum s cwd path) path = Some (p, name) \<Longrightarrow>
      d_nlink (dinode_at (disk s) p) \<noteq> 0x7FFF"
  shows "\<exists>q s'. mkdir cwd path s = Ok (q, s') \<and> mkdir_post s cwd path q s'"
  by (rule mkdir_spec [OF assms])

lemma root_parent:
  "resolve_parent (disk root_fs) (start_inum root_fs 0 (bytes ''/d'')) (bytes ''/d'') = Some (ROOTINO, bytes ''d'')"
proof -
  have "skipelem (bytes ''/d'') = Some (bytes ''d'', [])" "skipelem [] = None" "bytes ''/d'' ! 0 = slash"
    by code_simp+
  then show ?thesis by (simp add: start_inum_def resolve_parent.simps)
qed

theorem mkdir_correct_witness:
  "fs_inv root_fs \<and> refd root_fs 0 \<and>
   (\<exists>q s'. mkdir 0 (bytes ''/d'') root_fs = Ok (q, s') \<and> mkdir_post root_fs 0 (bytes ''/d'') q s')"
  using mkdir_correct [OF root_fs(2,3,7), of "bytes ''/d''"] root_fs(2,3,5) root_parent
  by (auto simp: Dinode_new_def)

section \<open>Contents\<close>

text \<open>C15. \<open>readi\<close> on an offset that fits 32 bits returns the bytes of the file from that offset on, as
  many as the buffer takes and the file has, and changes nothing.\<close>

theorem readi_correct:
  assumes "fs_inv s" and "refd s r" and "unat off < 2 ^ 32"
  shows "\<exists>s'. readi r off dst s =
      (let d = take (length dst) (drop (unat off) (content (disk s) (key s r))) in
       Ok (int (length d), d @ drop (length d) dst, s')) \<and>
    fs_inv s' \<and> disk s' = disk s \<and> rc s' = rc s \<and> key s' = key s"
  by (rule readi_spec [OF assms]) blast

theorem readi_correct_witness:
  "fs_inv root_fs \<and> refd root_fs 0 \<and> (\<exists>s'. readi 0 0 [1, 2] root_fs =
      (let d = take (length [1 :: byte, 2]) (drop (unat (0 :: usize)) (content (disk root_fs) (key root_fs 0))) in
       Ok (int (length d), d @ drop (length d) [1, 2], s')) \<and>
    fs_inv s' \<and> disk s' = disk root_fs \<and> rc s' = rc root_fs \<and> key s' = key root_fs)"
  using readi_correct [OF root_fs(2,3), of 0 "[1, 2]"] root_fs(2,3) by simp

text \<open>C4. \<open>writei\<close> on a file stores a prefix of the bytes at the offset, filling a gap before it with
  zeros, returns the length of that prefix, and changes no other file; it stores less than all of them
  only beyond the maximum file size or when no data block is free.\<close>

theorem writei_correct:
  assumes "fs_inv s" and "refd s r" and "unat off < 2 ^ 32" and "d_typ (dinode_at (disk s) (key s r)) \<noteq> T_DIR"
  shows "\<exists>t s'. writei r off src s = Ok (int t, s') \<and> write_result s (key s r) (unat off) src t s'"
  by (rule writei_spec [OF assms]) blast

lemma file_not_dir: "d_typ (dinode_at (disk file_fs) (key file_fs file_ref)) \<noteq> T_DIR"
  unfolding file_fs(4) by (simp add: T_FILE_def T_DIR_def)

theorem writei_correct_witness:
  "fs_inv file_fs \<and> refd file_fs file_ref \<and> (\<exists>t s'. writei file_ref 3 [1, 2] file_fs = Ok (int t, s') \<and>
     write_result file_fs (key file_fs file_ref) (unat (3 :: usize)) [1, 2] t s')"
  using writei_correct [OF file_fs(2,3) _ file_not_dir, of 3 "[1, 2]"] file_fs(2,3) by simp

text \<open>C16. What \<open>writei\<close> stored is what \<open>readi\<close> returns from the same offset.\<close>

theorem write_then_read:
  assumes "fs_inv s" and "refd s r" and "unat off < 2 ^ 32" and "d_typ (dinode_at (disk s) (key s r)) \<noteq> T_DIR"
  shows "\<exists>t s' s''. writei r off src s = Ok (int t, s') \<and> readi r off (replicate t 0) s' = Ok (int t, take t src, s'')"
proof (rule writei_spec [OF assms])
  fix t s'
  assume w: "writei r off src s = Ok (int t, s')" "write_result s (key s r) (unat off) src t s'"
  have k: "key s' = key s" "fs_inv s'" "refd s' r" "t \<le> length src"
    using w(2) assms(2) by (simp_all add: write_result_def refd_def)
  obtain s'' where r: "readi r off (replicate t 0) s' =
      (let d = take (length (replicate t (0 :: byte))) (drop (unat off) (content (disk s') (key s' r))) in
       Ok (int (length d), d @ drop (length d) (replicate t 0), s''))"
    by (rule readi_spec [OF k(2,3) assms(3)])
  have "take t (drop (unat off) (content (disk s') (key s r))) = take t src"
    using w(2) k(4) read_write_at [of "take t src" "unat off" "content (disk s) (key s r)"]
    by (auto simp: write_result_def)
  with r k have "readi r off (replicate t 0) s' = Ok (int t, take t src, s'')" by (simp add: Let_def)
  with w(1) show ?thesis by blast
qed

theorem write_then_read_witness:
  "fs_inv file_fs \<and> refd file_fs file_ref \<and> (\<exists>t s' s''. writei file_ref 3 [1, 2] file_fs = Ok (int t, s') \<and>
     readi file_ref 3 (replicate t 0) s' = Ok (int t, take t [1, 2], s''))"
  using write_then_read [OF file_fs(2,3) _ file_not_dir, of 3 "[1, 2]"] file_fs(2,3) by simp

text \<open>C17. \<open>appendi\<close> stores a prefix of the bytes at the end of the file and returns its length and the new
  end.\<close>

theorem appendi_correct:
  assumes "fs_inv s" and "refd s r" and "d_typ (dinode_at (disk s) (key s r)) \<noteq> T_DIR"
  shows "\<exists>t s'. appendi r src s = Ok ((int t, length (content (disk s) (key s r)) + t), s') \<and>
    fs_inv s' \<and> others_kept (disk s) (key s r) (disk s') \<and> t \<le> length src \<and>
    content (disk s') (key s r) = content (disk s) (key s r) @ take t src \<and>
    (t < length src \<longrightarrow>
       MAXFILE * BSIZE < length (content (disk s) (key s r)) + length src \<or> disk_full (disk s'))"
proof (rule appendi_spec [OF assms])
  fix t s'
  assume w: "appendi r src s = Ok ((int t, length (content (disk s) (key s r)) + t), s')"
    "write_result s (key s r) (length (content (disk s) (key s r))) src t s'"
  then have "content (disk s') (key s r) = content (disk s) (key s r) @ take t src"
    by (auto simp: write_result_def write_at_def)
  with w show ?thesis by (auto simp: write_result_def disk_full_def)
qed

theorem appendi_correct_witness:
  "fs_inv file_fs \<and> refd file_fs file_ref \<and>
   (\<exists>t s'. appendi file_ref [1, 2] file_fs = Ok ((int t, length (content (disk file_fs) (key file_fs file_ref)) + t), s') \<and>
    fs_inv s' \<and> others_kept (disk file_fs) (key file_fs file_ref) (disk s') \<and> t \<le> length [1 :: byte, 2] \<and>
    content (disk s') (key file_fs file_ref) = content (disk file_fs) (key file_fs file_ref) @ take t [1, 2] \<and>
    (t < length [1 :: byte, 2] \<longrightarrow>
       MAXFILE * BSIZE < length (content (disk file_fs) (key file_fs file_ref)) + length [1 :: byte, 2] \<or>
       disk_full (disk s')))"
  using appendi_correct [OF file_fs(2,3) file_not_dir, of "[1, 2]"] file_fs(2,3) by blast

text \<open>C10. \<open>trunc\<close> empties the file, frees exactly the data blocks the cached inode maps, and changes no
  other file.\<close>

theorem trunc_correct:
  assumes "fs_inv s" and "refd s r" and "d_typ (dinode_at (disk s) (key s r)) \<noteq> T_DIR"
  shows "\<exists>ip s1 s'. ilock r s = Ok (ip, s1) \<and> trunc r s = Ok s' \<and> fs_inv s' \<and> rc s' = rc s \<and>
    others_kept (disk s) (key s r) (disk s') \<and> content (disk s') (key s r) = [] \<and>
    (\<forall>x < FSSIZE. blk_used (disk s') x \<longleftrightarrow> blk_used (disk s) x \<and> x \<notin> iblocks (disk s) ip)"
  by (rule trunc_spec [OF assms]) blast

theorem trunc_correct_witness:
  "fs_inv file_fs \<and> refd file_fs file_ref \<and>
   (\<exists>ip s1 s'. ilock file_ref file_fs = Ok (ip, s1) \<and> trunc file_ref file_fs = Ok s' \<and> fs_inv s' \<and> rc s' = rc file_fs \<and>
    others_kept (disk file_fs) (key file_fs file_ref) (disk s') \<and> content (disk s') (key file_fs file_ref) = [] \<and>
    (\<forall>x < FSSIZE. blk_used (disk s') x \<longleftrightarrow> blk_used (disk file_fs) x \<and> x \<notin> iblocks (disk file_fs) ip))"
  using trunc_correct [OF file_fs(2,3) file_not_dir] file_fs(2,3) by blast

section \<open>Inodes\<close>

text \<open>C18. \<open>ialloc\<close> never panics. A reference it returns is to an inode that was free, is now of the
  requested type, empty, with no links; it fails only when every inode is in use or the inode cache is
  full, and in the second case an inode has been marked as in use on the disk that nothing refers to.\<close>

theorem ialloc_correct:
  assumes "fs_inv s" and "ty \<noteq> 0"
  shows "\<exists>q s'. ialloc ty s = Ok (q, s') \<and> fs_inv s' \<and>
    (case q of
       Some r \<Rightarrow> rc s' = plus1 (rc s) r \<and> \<not> allocated (disk s) (key s' r) \<and>
         dinode_at (disk s') (key s' r) = Dinode_new ty \<and> content (disk s') (key s' r) = [] \<and>
         kept_but (disk s) {key s' r} (disk s')
     | None \<Rightarrow> rc s' = rc s \<and>
         (disk s' = disk s \<and> (\<forall>i \<in> set [1..<NINODES]. allocated (disk s) (of_nat i)) \<or>
          (\<forall>x < NINODE. 0 < rc s x) \<and>
          (\<exists>i. \<not> allocated (disk s) i \<and> dinode_at (disk s') i = Dinode_new ty \<and> kept_but (disk s) {i} (disk s'))))"
proof (rule ialloc_spec [OF assms])
  fix q s'
  assume "ialloc ty s = Ok (q, s')" "ialloc_result [1..<NINODES] ty s q s'"
  then show ?thesis
    by (intro exI [of _ q] exI [of _ s']) (cases q; simp add: ialloc_result_def; blast)
qed

theorem ialloc_correct_witness:
  "fs_inv root_fs \<and> T_FILE \<noteq> 0 \<and> (\<exists>q s'. ialloc T_FILE root_fs = Ok (q, s') \<and> fs_inv s' \<and>
    (case q of
       Some r \<Rightarrow> rc s' = plus1 (rc root_fs) r \<and> \<not> allocated (disk root_fs) (key s' r) \<and>
         dinode_at (disk s') (key s' r) = Dinode_new T_FILE \<and> content (disk s') (key s' r) = [] \<and>
         kept_but (disk root_fs) {key s' r} (disk s')
     | None \<Rightarrow> rc s' = rc root_fs \<and>
         (disk s' = disk root_fs \<and> (\<forall>i \<in> set [1..<NINODES]. allocated (disk root_fs) (of_nat i)) \<or>
          (\<forall>x < NINODE. 0 < rc root_fs x) \<and>
          (\<exists>i. \<not> allocated (disk root_fs) i \<and> dinode_at (disk s') i = Dinode_new T_FILE \<and>
             kept_but (disk root_fs) {i} (disk s')))))"
proof -
  have t: "T_FILE \<noteq> 0" by (simp add: T_FILE_def)
  show ?thesis using ialloc_correct [OF root_fs(2) t] root_fs(2) t by blast
qed

section \<open>Blocks\<close>

text \<open>\<open>read_dinode\<close> returns what \<open>write_dinode\<close> last stored for that inode number, and no other inode
  of the table changes, whichever buffers the cache holds.\<close>

theorem dinode_write_read:
  assumes "bc_inv s" and "0 < nfree s" and "unat i < NINODES" and "dinode_ok d"
  shows "\<exists>s' s''. write_dinode i d s = Ok s' \<and> read_dinode i s' = Ok (d, s'') \<and> bframe s s'' \<and>
    (\<forall>j. j \<noteq> i \<longrightarrow> dinode_at (disk s') j = dinode_at (disk s) j)"
proof (rule write_dinode_spec [OF assms])
  fix s'
  assume w: "write_dinode i d s = Ok s'" "disk s' = put_dinode i d (disk s)" "bframe s s'"
  have "bc_inv s'" "0 < nfree s'" using bframeD [OF w(3)] assms(2) by simp_all
  then obtain s'' where r: "read_dinode i s' = Ok (dinode_at (disk s') i, s'')" "bframe s' s''"
    using assms(3) by (auto elim: read_dinode_spec)
  have dok: "disk_ok (disk s)" using assms(1) by simp
  show ?thesis
    using w r bframe_trans [OF w(3) r(2)] dinode_at_put_same [OF dok assms(4), of i] dinode_at_put_other [OF dok assms(4)]
    by auto
qed

theorem dinode_write_read_witness:
  "bc_inv zero_fs \<and> 0 < nfree zero_fs \<and> dinode_ok (Dinode_new T_FILE) \<and>
   (\<exists>s' s''. write_dinode 5 (Dinode_new T_FILE) zero_fs = Ok s' \<and> read_dinode 5 s' = Ok (Dinode_new T_FILE, s'') \<and>
      bframe zero_fs s'' \<and> (\<forall>j. j \<noteq> 5 \<longrightarrow> dinode_at (disk s') j = dinode_at (disk zero_fs) j))"
  using dinode_write_read [OF fs_inv_bc(1,3) [OF zero_fs_inv], of 5 "Dinode_new T_FILE"] fs_inv_bc(1,3) [OF zero_fs_inv]
  by (simp add: NINODES_def)

text \<open>C19. \<open>balloc\<close> returns the first free data block, marked as used and zeroed with no other block changed,
  and none exactly when every data block is in use; freeing a block it returned gives the block back, and
  freeing it again panics.\<close>

theorem balloc_then_bfree:
  assumes "bc_inv s" and "0 < nfree s"
  shows "\<exists>r s'. balloc s = Ok (r, s') \<and> bframe s s' \<and>
    (case r of
       None \<Rightarrow> disk_full (disk s) \<and> disk s' = disk s
     | Some b \<Rightarrow> data_block (unat b) \<and> \<not> blk_used (disk s) (unat b) \<and>
         (\<forall>m. data_block m \<longrightarrow> \<not> blk_used (disk s) m \<longrightarrow> unat b \<le> m) \<and>
         (\<forall>m < FSSIZE. blk_used (disk s') m \<longleftrightarrow> m = unat b \<or> blk_used (disk s) m) \<and>
         disk s' (unat b) = replicate BSIZE 0 \<and>
         (\<forall>m. m \<noteq> unat b \<longrightarrow> m \<noteq> BMAPSTART \<longrightarrow> disk s' m = disk s m) \<and>
         (\<exists>s''. bfree b s' = Ok s'' \<and> (\<forall>m < FSSIZE. blk_used (disk s'') m \<longleftrightarrow> blk_used (disk s) m) \<and>
            bfree b s'' = panic ''freeing free block''))"
  using assms
proof (cases rule: balloc_cases)
  case (full s')
  then show ?thesis by (intro exI [of _ None] exI [of _ s']) (simp add: disk_full_def)
next
  case (got n s')
  have n: "unat (of_nat n :: u32) = n" "n < FSSIZE" using data_block_range [OF got(3)] by simp_all
  have dok: "disk_ok (disk s)" "disk_ok (disk s')" using assms(1) got(6) by simp_all
  have i': "bc_inv s'" "0 < nfree s'" using bframeD [OF got(2)] assms(2) by simp_all
  note used = take_block_used [OF dok(1) got(3), folded got(6)]
  have "data_block (unat (of_nat n :: u32))" "blk_used (disk s') (unat (of_nat n :: u32))"
    using got(3) n used by simp_all
  with i' obtain s'' where f: "bfree (of_nat n) s' = Ok s''" "bframe s' s''" "disk s'' = mark_free (unat (of_nat n :: u32)) (disk s')"
    by (rule bfree_used)
  have u'': "blk_used (disk s'') m \<longleftrightarrow> blk_used (disk s) m" if "m < FSSIZE" for m
    using blk_used_mark_free [OF dok(2) n(2) that] used [OF that] got(4) f(3) n(1) by auto
  have "bfree (of_nat n) s'' = panic ''freeing free block''"
    using bframeD [OF f(2)] i' got(3,4) n u'' by (intro bfree_unused) simp_all
  with got f(1) u'' used n take_block_other [of _ n "disk s"] show ?thesis
    by (intro exI [of _ "Some (of_nat n)"] exI [of _ s']) (auto simp: not_less [symmetric])
qed

theorem balloc_then_bfree_witness:
  "bc_inv zero_fs \<and> 0 < nfree zero_fs \<and> (\<exists>r s'. balloc zero_fs = Ok (r, s') \<and> bframe zero_fs s' \<and>
    (case r of
       None \<Rightarrow> disk_full (disk zero_fs) \<and> disk s' = disk zero_fs
     | Some b \<Rightarrow> data_block (unat b) \<and> \<not> blk_used (disk zero_fs) (unat b) \<and>
         (\<forall>m. data_block m \<longrightarrow> \<not> blk_used (disk zero_fs) m \<longrightarrow> unat b \<le> m) \<and>
         (\<forall>m < FSSIZE. blk_used (disk s') m \<longleftrightarrow> m = unat b \<or> blk_used (disk zero_fs) m) \<and>
         disk s' (unat b) = replicate BSIZE 0 \<and>
         (\<forall>m. m \<noteq> unat b \<longrightarrow> m \<noteq> BMAPSTART \<longrightarrow> disk s' m = disk zero_fs m) \<and>
         (\<exists>s''. bfree b s' = Ok s'' \<and> (\<forall>m < FSSIZE. blk_used (disk s'') m \<longleftrightarrow> blk_used (disk zero_fs) m) \<and>
            bfree b s'' = panic ''freeing free block'')))"
  using balloc_then_bfree [OF fs_inv_bc(1,3) [OF zero_fs_inv]] fs_inv_bc(1,3) [OF zero_fs_inv] by blast

end
