(* ===== verification/Ring.thy ===== *)
theory Ring
  imports Prelude
begin

text \<open>
  The ring buffers of the kernel: a fixed array of bytes with a read and a write counter that only
  grow, a counter taken modulo the size being the position (\<open>src/pipe.rs\<close>, \<open>src/console.rs\<close>).  The
  locale \<open>ring\<close> is the interface the two share; its lemmas say that the buffer is a queue.  The
  counters are \<open>usize\<close>: their checked arithmetic is \<open>usize_add\<close> and \<open>usize_sub\<close>.

  A system call that has to wait gives up its lock and sleeps on a channel; when it is woken it tests
  its condition again.  The code between two sleeps runs under a lock, so it is one function of the
  model, which returns an \<open>outcome\<close>: the result of the call, or the channel it sleeps on and where it
  resumes.
\<close>

section \<open>Checked arithmetic of \<open>usize\<close>\<close>

definition usize_add :: "nat \<Rightarrow> nat \<Rightarrow> nat res" where
  "usize_add a b = (if a + b < 2 ^ 64 then Ok (a + b) else panic ''attempt to add with overflow'')"

definition usize_sub :: "nat \<Rightarrow> nat \<Rightarrow> nat res" where
  "usize_sub a b = (if b \<le> a then Ok (a - b) else panic ''attempt to subtract with overflow'')"

lemma usize_add_Ok [simp]: "a + b < 2 ^ 64 \<Longrightarrow> usize_add a b = Ok (a + b)"
  by (simp add: usize_add_def)

lemma usize_sub_Ok [simp]: "b \<le> a \<Longrightarrow> usize_sub a b = Ok (a - b)"
  by (simp add: usize_sub_def)

lemma usize_add_OkD: "usize_add a b = Ok c \<Longrightarrow> c = a + b \<and> a + b < 2 ^ 64"
  by (simp add: usize_add_def split: if_splits)

lemma usize_sub_OkD: "usize_sub a b = Ok c \<Longrightarrow> c = a - b \<and> b \<le> a"
  by (simp add: usize_sub_def split: if_splits)

section \<open>Waiting\<close>

text \<open>
  The sleep channels of the kernel.  In the source a channel is an address: of a pipe, one past it, of
  a static of the console, of a process.  These objects do not overlap, so the addresses differ as the
  constructors do.
\<close>

datatype chan = ReadChan nat | WriteChan nat | InputChan | ProcChan nat

datatype ('a, 'k) outcome = Done 'a | Sleep chan 'k

section \<open>Ring buffers\<close>

locale ring =
  fixes size :: nat
    and buf :: "'s \<Rightarrow> byte list"
    and rd :: "'s \<Rightarrow> nat"
    and wr :: "'s \<Rightarrow> nat"
    and push :: "byte \<Rightarrow> 's \<Rightarrow> 's"
    and pop :: "'s \<Rightarrow> byte \<times> 's"
  assumes size_pos: "0 < size"
    and push_buf: "buf (push b s) = (buf s)[wr s mod size := b]"
    and push_rd: "rd (push b s) = rd s"
    and push_wr: "wr (push b s) = Suc (wr s)"
    and pop_fst: "fst (pop s) = buf s ! (rd s mod size)"
    and pop_buf: "buf (snd (pop s)) = buf s"
    and pop_rd: "rd (snd (pop s)) = Suc (rd s)"
    and pop_wr: "wr (snd (pop s)) = wr s"
begin

definition queue :: "'s \<Rightarrow> byte list" where
  "queue s = map (\<lambda>k. buf s ! (k mod size)) [rd s..<wr s]"

definition ok :: "'s \<Rightarrow> bool" where
  "ok s \<longleftrightarrow> length (buf s) = size \<and> rd s \<le> wr s \<and> wr s \<le> rd s + size"

lemma length_queue: "length (queue s) = wr s - rd s"
  by (simp add: queue_def)

lemma queue_empty: "ok s \<Longrightarrow> queue s = [] \<longleftrightarrow> rd s = wr s"
  by (auto simp: queue_def ok_def)

lemma queue_full: "ok s \<Longrightarrow> length (queue s) = size \<longleftrightarrow> wr s = rd s + size"
  using size_pos by (auto simp: length_queue ok_def)

text \<open>Positions of elements in the buffer are distinct, because at most \<open>size\<close> of them are in it.\<close>

lemma position_neq:
  assumes "rd s \<le> k" and "k < wr s" and "wr s < rd s + size"
  shows "k mod size \<noteq> wr s mod size"
proof
  assume "k mod size = wr s mod size"
  then have "size dvd wr s - k" using assms(2) mod_eq_dvd_iff_nat [of k "wr s" size] by simp
  then show False using assms by (auto dest: dvd_imp_le)
qed

lemma push:
  assumes "ok s" and "wr s < rd s + size"
  shows "ok (push b s)" "queue (push b s) = queue s @ [b]"
proof -
  show "ok (push b s)" using assms by (simp add: ok_def push_buf push_rd push_wr)
  have "map (\<lambda>k. (buf s)[wr s mod size := b] ! (k mod size)) [rd s..<wr s] =
      map (\<lambda>k. buf s ! (k mod size)) [rd s..<wr s]"
    using assms(2) by (intro map_cong refl nth_list_update_neq) (auto dest!: position_neq [of s])
  then show "queue (push b s) = queue s @ [b]"
    using assms size_pos by (simp add: queue_def push_buf push_rd push_wr ok_def)
qed

lemma pop:
  assumes "ok s" and "rd s < wr s"
  shows "ok (snd (pop s))" "queue s = fst (pop s) # queue (snd (pop s))"
  using assms by (auto simp: ok_def queue_def pop_fst pop_buf pop_rd pop_wr upt_conv_Cons)

end

end
