(* ===== verification/Pipe.thy ===== *)
theory Pipe
  imports Ring
begin

text \<open>
  Pipes, \<open>src/pipe.rs\<close>: the table of pipes, their ring buffers, and the two blocking calls \<open>read\<close>
  and \<open>write\<close>, each as the code it runs between two sleeps.  A pipe is referred to by its index in the
  table.  A function that calls \<open>proc::wakeup\<close> returns the channels it wakes.

  The results: the buffer is a queue; \<open>read\<close> takes from its front and \<open>write\<close> adds to its end; over
  every interleaving of readers and writers the bytes read are, in order, a prefix of the bytes
  written, and no call sleeps on a condition that no longer holds.
\<close>

definition NPIPE :: nat where "NPIPE = 64"
definition PIPESIZE :: nat where "PIPESIZE = 512"

record pipe =
  p_used :: bool
  p_data :: "byte list"
  p_nread :: nat
  p_nwrite :: nat
  p_readopen :: bool
  p_writeopen :: bool

definition Pipe_unused :: pipe where
  "Pipe_unused = \<lparr>p_used = False, p_data = replicate PIPESIZE 0, p_nread = 0, p_nwrite = 0,
     p_readopen = False, p_writeopen = False\<rparr>"

type_synonym pipe_ref = nat

section \<open>The table of pipes\<close>

definition pipe_alloc :: "pipe list \<Rightarrow> pipe_ref option \<times> pipe list" where
  "pipe_alloc ps =
     (case find_slot (\<lambda>p. \<not> p_used p) ps of
        Some i \<Rightarrow> (Some i, ps[i := (ps ! i)\<lparr>p_used := True, p_nread := 0, p_nwrite := 0,
          p_readopen := True, p_writeopen := True\<rparr>])
      | None \<Rightarrow> (None, ps))"

definition pipe_free_allocated :: "pipe_ref \<Rightarrow> pipe list \<Rightarrow> pipe list" where
  "pipe_free_allocated i ps =
     ps[i := (ps ! i)\<lparr>p_readopen := False, p_writeopen := False, p_nread := 0, p_nwrite := 0, p_used := False\<rparr>]"

definition pipe_close :: "pipe_ref \<Rightarrow> bool \<Rightarrow> pipe \<Rightarrow> chan list \<times> pipe" where
  "pipe_close i writable p =
     (let (ws, p) = (if writable then ([ReadChan i], p\<lparr>p_writeopen := False\<rparr>)
                     else ([WriteChan i], p\<lparr>p_readopen := False\<rparr>));
          do_free = (\<not> p_readopen p \<and> \<not> p_writeopen p)
      in (ws, if do_free then p\<lparr>p_used := False\<rparr> else p))"

section \<open>Reading and writing\<close>

text \<open>The bodies of the two copy loops.\<close>

definition pipe_get :: "pipe \<Rightarrow> byte \<times> pipe" where
  "pipe_get p = (p_data p ! (p_nread p mod PIPESIZE), p\<lparr>p_nread := Suc (p_nread p)\<rparr>)"

definition pipe_put :: "byte \<Rightarrow> pipe \<Rightarrow> pipe" where
  "pipe_put b p = p\<lparr>p_data := (p_data p)[p_nwrite p mod PIPESIZE := b], p_nwrite := Suc (p_nwrite p)\<rparr>"

fun pipe_read_loop :: "nat \<Rightarrow> pipe \<Rightarrow> (byte list \<times> pipe) res" where
  "pipe_read_loop 0 p = Ok ([], p)"
| "pipe_read_loop (Suc n) p =
     (if p_nread p = p_nwrite p then Ok ([], p)
      else
        bindE (usize_add (p_nread p) 1) (\<lambda>_.
        let (b, p) = pipe_get p in
        bindE (pipe_read_loop n p) (\<lambda>(bs, p).
        Ok (b # bs, p))))"

definition pipe_read :: "pipe_ref \<Rightarrow> nat \<Rightarrow> pipe \<Rightarrow> ((byte list, unit) outcome \<times> chan list \<times> pipe) res" where
  "pipe_read i len p =
     (if p_nread p = p_nwrite p \<and> p_writeopen p then Ok (Sleep (ReadChan i) (), [], p)
      else bindE (pipe_read_loop len p) (\<lambda>(bs, p). Ok (Done bs, [WriteChan i], p)))"

text \<open>
  \<open>write\<close> from the point where \<open>n\<close> bytes of \<open>src\<close> have been stored; it returns where it stands with
  the outcome.
\<close>

function pipe_write ::
    "pipe_ref \<Rightarrow> byte list \<Rightarrow> nat \<Rightarrow> pipe \<Rightarrow> ((int, unit) outcome \<times> nat \<times> chan list \<times> pipe) res" where
  "pipe_write i src n p =
     (if n < length src then
        bindE (usize_add (p_nread p) PIPESIZE) (\<lambda>lim.
        if p_nwrite p = lim then
          if \<not> p_readopen p then Ok (Done (-1), n, [], p)
          else Ok (Sleep (WriteChan i) (), n, [ReadChan i], p)
        else if \<not> p_readopen p then Ok (Done (-1), n, [], p)
        else
          bindE (usize_add (p_nwrite p) 1) (\<lambda>_.
          pipe_write i src (Suc n) (pipe_put (src ! n) p)))
      else Ok (Done (int n), n, [ReadChan i], p))"
  by pat_completeness auto

termination
  by (relation "measure (\<lambda>(i, src, n, p). length src - n)") auto

declare pipe_write.simps [simp del]

section \<open>The buffer of a pipe is a queue\<close>

interpretation pq: ring PIPESIZE p_data p_nread p_nwrite pipe_put pipe_get
  by unfold_locales (simp_all add: PIPESIZE_def pipe_put_def pipe_get_def)

lemma pipe_meta [simp]:
  "p_readopen (pipe_put b p) = p_readopen p" "p_writeopen (pipe_put b p) = p_writeopen p"
  "p_used (pipe_put b p) = p_used p" "p_nread (pipe_put b p) = p_nread p"
  "p_readopen (snd (pipe_get p)) = p_readopen p" "p_writeopen (snd (pipe_get p)) = p_writeopen p"
  "p_used (snd (pipe_get p)) = p_used p" "p_nwrite (snd (pipe_get p)) = p_nwrite p"
  by (simp_all add: pipe_put_def pipe_get_def)

lemma pq_eq:
  assumes "p_data p' = p_data p" "p_nread p' = p_nread p" "p_nwrite p' = p_nwrite p"
  shows "pq.queue p' = pq.queue p" "pq.ok p' = pq.ok p"
  using assms by (simp_all add: pq.queue_def pq.ok_def)

text \<open>The counters stay below this bound as long as fewer than \<open>2 ^ 64 - 512\<close> bytes go through.\<close>

definition pipe_ok :: "pipe \<Rightarrow> bool" where
  "pipe_ok p \<longleftrightarrow> pq.ok p \<and> p_nwrite p + PIPESIZE < 2 ^ 64"

definition same_ends :: "pipe \<Rightarrow> pipe \<Rightarrow> bool" where
  "same_ends p p' \<longleftrightarrow> p_readopen p' = p_readopen p \<and> p_writeopen p' = p_writeopen p \<and> p_used p' = p_used p"

lemma pipe_read_loop_spec:
  assumes "pipe_ok p"
  shows "\<exists>p'. pipe_read_loop n p = Ok (take n (pq.queue p), p') \<and> pipe_ok p' \<and>
    pq.queue p' = drop n (pq.queue p) \<and> same_ends p p' \<and> p_nwrite p' = p_nwrite p"
  using assms
proof (induction n arbitrary: p)
  case 0
  then show ?case by (simp add: same_ends_def)
next
  case (Suc n)
  have ok: "pq.ok p" using Suc.prems by (simp add: pipe_ok_def)
  show ?case
  proof (cases "p_nread p = p_nwrite p")
    case True
    then have "pq.queue p = []" using pq.queue_empty [OF ok] by simp
    with True Suc.prems show ?thesis by (simp add: same_ends_def)
  next
    case False
    obtain b p1 where g: "pipe_get p = (b, p1)" by fastforce
    have lt: "p_nread p < p_nwrite p" using False ok by (simp add: pq.ok_def)
    note pop = pq.pop [OF ok lt]
    have p1: "pipe_ok p1" "same_ends p p1" "p_nwrite p1 = p_nwrite p"
      using pop(1) Suc.prems pipe_meta(5-8) [of p] g by (simp_all add: pipe_ok_def same_ends_def)
    obtain p' where "pipe_read_loop n p1 = Ok (take n (pq.queue p1), p')" "pipe_ok p'"
        "pq.queue p' = drop n (pq.queue p1)" "same_ends p1 p'" "p_nwrite p' = p_nwrite p1"
      using Suc.IH [OF p1(1)] by blast
    moreover have "p_nread p + 1 < 2 ^ 64" using lt Suc.prems by (simp add: pipe_ok_def)
    ultimately show ?thesis
      using False g pop(2) p1 by (simp add: same_ends_def)
  qed
qed

lemma pipe_read_cases:
  assumes "pipe_ok p"
  obtains (sleep) "pq.queue p = []" "p_writeopen p" "pipe_read i n p = Ok (Sleep (ReadChan i) (), [], p)"
  | (read) p' where "pq.queue p \<noteq> [] \<or> \<not> p_writeopen p"
      "pipe_read i n p = Ok (Done (take n (pq.queue p)), [WriteChan i], p')" "pipe_ok p'"
      "pq.queue p' = drop n (pq.queue p)" "same_ends p p'" "p_nwrite p' = p_nwrite p"
proof (cases "p_nread p = p_nwrite p \<and> p_writeopen p")
  case True
  moreover from this have "pq.queue p = []" using assms pq.queue_empty [of p] by (simp add: pipe_ok_def)
  ultimately show thesis by (intro sleep) (simp_all add: pipe_read_def)
next
  case False
  then have c: "pq.queue p \<noteq> [] \<or> \<not> p_writeopen p" using assms pq.queue_empty [of p] by (auto simp: pipe_ok_def)
  obtain p' where "pipe_read_loop n p = Ok (take n (pq.queue p), p')" "pipe_ok p'"
      "pq.queue p' = drop n (pq.queue p)" "same_ends p p'" "p_nwrite p' = p_nwrite p"
    using pipe_read_loop_spec [OF assms] by blast
  with False c show thesis by (intro read [of p']) (auto simp: pipe_read_def)
qed

text \<open>How many bytes a call to \<open>write\<close> stores before it returns or sleeps.\<close>

definition room :: "pipe \<Rightarrow> nat" where
  "room p = PIPESIZE - length (pq.queue p)"

lemma pipe_write_closed:
  "n < length src \<Longrightarrow> \<not> p_readopen p \<Longrightarrow> p_nread p + PIPESIZE < 2 ^ 64 \<Longrightarrow>
   pipe_write i src n p = Ok (Done (-1), n, [], p)"
  by (simp add: pipe_write.simps [of i src n])

lemma pipe_write_spec:
  assumes "pq.ok p" and "n \<le> length src" and "p_readopen p \<or> n = length src"
    and "p_nwrite p + PIPESIZE + (length src - n) < 2 ^ 64" and "k = min (length src - n) (room p)"
  shows "\<exists>p'. pipe_write i src n p =
      Ok (if n + k = length src then Done (int (length src)) else Sleep (WriteChan i) (), n + k, [ReadChan i], p') \<and>
    pq.ok p' \<and> pq.queue p' = pq.queue p @ take k (drop n src) \<and> same_ends p p' \<and> p_nwrite p' = p_nwrite p + k"
  using assms
proof (induction "length src - n" arbitrary: n p k rule: less_induct)
  case less
  have lim: "p_nread p + PIPESIZE < 2 ^ 64" using less.prems(1,4) by (simp add: pq.ok_def)
  consider (stop) "n = length src" | (full) "n < length src" "p_nwrite p = p_nread p + PIPESIZE"
    | (put) "n < length src" "p_nwrite p \<noteq> p_nread p + PIPESIZE"
    using less.prems(2) by linarith
  then show ?case
  proof cases
    case stop
    with less.prems show ?thesis by (simp add: pipe_write.simps [of i src "length src"] same_ends_def)
  next
    case full
    then have "length (pq.queue p) = PIPESIZE" using pq.queue_full [OF less.prems(1)] by simp
    with full less.prems lim show ?thesis by (simp add: pipe_write.simps [of i src n] same_ends_def room_def)
  next
    case put
    let ?p = "pipe_put (src ! n) p"
    have ok: "p_nwrite p < p_nread p + PIPESIZE" using put less.prems(1) by (simp add: pq.ok_def)
    note push = pq.push [OF less.prems(1) ok, of "src ! n"]
    have rm: "room p = Suc (room ?p)"
      using ok less.prems(1) push(2) by (simp add: room_def pq.length_queue pq.ok_def)
    have w: "p_nwrite ?p = Suc (p_nwrite p)" by (simp add: pipe_put_def)
    have k: "k = Suc (min (length src - Suc n) (room ?p))" using put less.prems(5) rm by simp
    have h: "length src - Suc n < length src - n" "Suc n \<le> length src" "p_readopen ?p \<or> Suc n = length src"
        "p_nwrite ?p + PIPESIZE + (length src - Suc n) < 2 ^ 64" "k - 1 = min (length src - Suc n) (room ?p)"
      using put less.prems(3,4) w k by auto
    obtain p' where IH: "pipe_write i src (Suc n) ?p =
        Ok (if Suc n + (k - 1) = length src then Done (int (length src)) else Sleep (WriteChan i) (), Suc n + (k - 1), [ReadChan i], p')"
        "pq.ok p'" "pq.queue p' = pq.queue ?p @ take (k - 1) (drop (Suc n) src)" "same_ends ?p p'"
        "p_nwrite p' = p_nwrite ?p + (k - 1)"
      using less.hyps [OF h(1) push(1) h(2-5)] by blast
    have "pipe_write i src n p = pipe_write i src (Suc n) ?p"
      using put lim less.prems(3,4) by (simp add: pipe_write.simps [of i src n])
    moreover have "take k (drop n src) = src ! n # take (k - 1) (drop (Suc n) src)"
      using put k by (simp add: Cons_nth_drop_Suc [symmetric])
    ultimately show ?thesis using IH push(2) k w by (simp add: same_ends_def)
  qed
qed

lemma pipe_write_total:
  assumes "pq.ok p" and "n \<le> length src" and "p_nwrite p + PIPESIZE + (length src - n) < 2 ^ 64"
  shows "\<exists>r. pipe_write i src n p = Ok r"
proof (cases "n < length src \<and> \<not> p_readopen p")
  case True
  have "p_nread p + PIPESIZE < 2 ^ 64" using assms(1,3) by (simp add: pq.ok_def)
  with True pipe_write_closed show ?thesis by blast
next
  case False
  then have "p_readopen p \<or> n = length src" using assms(2) by auto
  from pipe_write_spec [OF assms(1,2) this assms(3) refl] show ?thesis by blast
qed

section \<open>Readers and writers\<close>

text \<open>
  Any number of threads use one pipe.  A thread is outside of a call, about to run the next part of a
  call under the pipe's lock, or asleep in a call.  A step runs one such part, or closes an end; the
  wake-ups of the step make the threads that sleep on those channels run again.  The state also
  records, in order, every byte that was stored and every byte that was returned.
\<close>

datatype task =
    Idle
  | Reading nat
  | ReadSleep nat
  | Writing "byte list" nat
  | WriteSleep "byte list" nat

record pipe_sys =
  the_pipe :: pipe
  tasks :: "nat \<Rightarrow> task"
  sent :: "byte list"
  received :: "byte list"

fun wake_task :: "pipe_ref \<Rightarrow> chan list \<Rightarrow> task \<Rightarrow> task" where
  "wake_task i ws (ReadSleep n) = (if ReadChan i \<in> set ws then Reading n else ReadSleep n)"
| "wake_task i ws (WriteSleep src n) = (if WriteChan i \<in> set ws then Writing src n else WriteSleep src n)"
| "wake_task i ws t = t"

inductive pipe_step :: "pipe_ref \<Rightarrow> pipe_sys \<Rightarrow> pipe_sys \<Rightarrow> bool" for i where
  call_read: "tasks s t = Idle \<Longrightarrow> pipe_step i s (s\<lparr>tasks := (tasks s)(t := Reading n)\<rparr>)"
| call_write: "tasks s t = Idle \<Longrightarrow> pipe_step i s (s\<lparr>tasks := (tasks s)(t := Writing src 0)\<rparr>)"
| read_done: "tasks s t = Reading n \<Longrightarrow> pipe_read i n (the_pipe s) = Ok (Done bs, ws, p) \<Longrightarrow>
    pipe_step i s (s\<lparr>the_pipe := p, tasks := wake_task i ws \<circ> (tasks s)(t := Idle), received := received s @ bs\<rparr>)"
| read_sleep: "tasks s t = Reading n \<Longrightarrow> pipe_read i n (the_pipe s) = Ok (Sleep (ReadChan i) (), ws, p) \<Longrightarrow>
    pipe_step i s (s\<lparr>the_pipe := p, tasks := (wake_task i ws \<circ> tasks s)(t := ReadSleep n)\<rparr>)"
| write_done: "tasks s t = Writing src n \<Longrightarrow> pipe_write i src n (the_pipe s) = Ok (Done r, n', ws, p) \<Longrightarrow>
    pipe_step i s (s\<lparr>the_pipe := p, tasks := wake_task i ws \<circ> (tasks s)(t := Idle),
      sent := sent s @ drop n (take n' src)\<rparr>)"
| write_sleep: "tasks s t = Writing src n \<Longrightarrow> pipe_write i src n (the_pipe s) = Ok (Sleep (WriteChan i) (), n', ws, p) \<Longrightarrow>
    pipe_step i s (s\<lparr>the_pipe := p, tasks := (wake_task i ws \<circ> tasks s)(t := WriteSleep src n'),
      sent := sent s @ drop n (take n' src)\<rparr>)"
| close_end: "pipe_close i writable (the_pipe s) = (ws, p) \<Longrightarrow>
    pipe_step i s (s\<lparr>the_pipe := p, tasks := wake_task i ws \<circ> tasks s\<rparr>)"

definition pipe_start :: pipe_sys where
  "pipe_start = \<lparr>the_pipe = Pipe_unused\<lparr>p_used := True, p_readopen := True, p_writeopen := True\<rparr>,
     tasks = (\<lambda>_. Idle), sent = [], received = []\<rparr>"

text \<open>
  The invariant: the bytes stored are the bytes returned followed by the bytes in the buffer, and a
  call is asleep only while what it waits for has not happened.
\<close>

fun task_ok :: "pipe \<Rightarrow> task \<Rightarrow> bool" where
  "task_ok p (ReadSleep n) \<longleftrightarrow> pq.queue p = [] \<and> p_writeopen p"
| "task_ok p (Writing src n) \<longleftrightarrow> n \<le> length src"
| "task_ok p (WriteSleep src n) \<longleftrightarrow> n < length src \<and> room p = 0 \<and> p_readopen p"
| "task_ok p t \<longleftrightarrow> True"

definition pipe_inv :: "pipe_sys \<Rightarrow> bool" where
  "pipe_inv s \<longleftrightarrow> pq.ok (the_pipe s) \<and> sent s = received s @ pq.queue (the_pipe s) \<and>
     (\<forall>t. task_ok (the_pipe s) (tasks s t))"

text \<open>What a part of a call does when it does not overflow a counter.\<close>

lemma pipe_read_loop_Ok:
  "pipe_read_loop n p = Ok (bs, p') \<Longrightarrow> pq.ok p \<Longrightarrow>
   pq.ok p' \<and> bs = take n (pq.queue p) \<and> pq.queue p' = drop n (pq.queue p) \<and> same_ends p p'"
proof (induction n arbitrary: p bs)
  case 0
  then show ?case by (simp add: same_ends_def)
next
  case (Suc n)
  show ?case
  proof (cases "p_nread p = p_nwrite p")
    case True
    then show ?thesis using Suc.prems pq.queue_empty [of p] by (simp add: same_ends_def)
  next
    case False
    obtain b p1 where g: "pipe_get p = (b, p1)" by fastforce
    have "p_nread p < p_nwrite p" using False Suc.prems(2) by (simp add: pq.ok_def)
    note pop = pq.pop [OF Suc.prems(2) this]
    obtain cs where "pipe_read_loop n p1 = Ok (cs, p')" "bs = b # cs"
      using Suc.prems(1) False g by (auto elim!: bindE_OkE)
    with Suc.IH [of p1 cs] pop g pipe_meta(5-7) [of p] show ?thesis by (simp add: same_ends_def)
  qed
qed

lemma pipe_read_Ok:
  assumes "pipe_read i n p = Ok (out, ws, p')" and "pq.ok p"
  shows "(out = Sleep (ReadChan i) () \<and> ws = [] \<and> p' = p \<and> pq.queue p = [] \<and> p_writeopen p) \<or>
    (out = Done (take n (pq.queue p)) \<and> ws = [WriteChan i] \<and> pq.ok p' \<and> pq.queue p' = drop n (pq.queue p) \<and>
     same_ends p p' \<and> (pq.queue p \<noteq> [] \<or> \<not> p_writeopen p))"
proof (cases "p_nread p = p_nwrite p \<and> p_writeopen p")
  case True
  with assms pq.queue_empty [OF assms(2)] show ?thesis by (simp add: pipe_read_def)
next
  case False
  then obtain bs where r: "pipe_read_loop n p = Ok (bs, p')" "out = Done bs" "ws = [WriteChan i]"
    using assms(1) unfolding pipe_read_def by (auto elim!: bindE_OkE)
  have "pq.queue p \<noteq> [] \<or> \<not> p_writeopen p" using False pq.queue_empty [OF assms(2)] by auto
  with r pipe_read_loop_Ok [OF r(1) assms(2)] show ?thesis by simp
qed

lemma room_put:
  assumes "pq.ok p" and "p_nwrite p \<noteq> p_nread p + PIPESIZE"
  shows "pq.ok (pipe_put b p)" "pq.queue (pipe_put b p) = pq.queue p @ [b]"
  using assms pq.push [of p b] by (simp_all add: pq.ok_def)

lemma pipe_write_Ok:
  "pipe_write i src n p = Ok (out, n', ws, p') \<Longrightarrow> pq.ok p \<Longrightarrow> n \<le> length src \<Longrightarrow>
   n \<le> n' \<and> n' \<le> length src \<and> pq.ok p' \<and> pq.queue p' = pq.queue p @ drop n (take n' src) \<and> same_ends p p' \<and>
   (out = Done (-1) \<and> p' = p \<and> n' = n \<and> ws = [] \<and> \<not> p_readopen p \<or>
    out = Done (int n') \<and> n' = length src \<and> ws = [ReadChan i] \<or>
    out = Sleep (WriteChan i) () \<and> n' < length src \<and> ws = [ReadChan i] \<and> room p' = 0 \<and> p_readopen p')"
proof (induction i src n p rule: pipe_write.induct)
  case (1 i src n p)
  consider (stop) "n = length src" | (full) "n < length src" "p_nwrite p = p_nread p + PIPESIZE"
    | (shut) "n < length src" "p_nwrite p \<noteq> p_nread p + PIPESIZE" "\<not> p_readopen p"
    | (put) "n < length src" "p_nwrite p \<noteq> p_nread p + PIPESIZE" "p_readopen p"
    using 1(4) by linarith
  then show ?case
  proof cases
    case stop
    with 1(2-4) show ?thesis by (auto simp: pipe_write.simps [of i src "length src"] same_ends_def)
  next
    case full
    then have "room p = 0" using pq.queue_full [OF 1(3)] by (simp add: room_def)
    with full 1(2-4) show ?thesis
      by (auto simp: pipe_write.simps [of i src n] same_ends_def dest!: usize_add_OkD split: if_splits elim!: bindE_OkE)
  next
    case shut
    with 1(2-4) show ?thesis
      by (auto simp: pipe_write.simps [of i src n] same_ends_def dest!: usize_add_OkD split: if_splits elim!: bindE_OkE)
  next
    case put
    let ?p = "pipe_put (src ! n) p"
    obtain a b where l: "usize_add (p_nread p) PIPESIZE = Ok a" "usize_add (p_nwrite p) 1 = Ok b"
      using 1(2) put
      by (auto simp: pipe_write.simps [of i src n] dest!: usize_add_OkD split: if_splits elim!: bindE_OkE)
    then have a: "a = p_nread p + PIPESIZE" by (simp add: usize_add_OkD)
    then have r: "pipe_write i src (Suc n) ?p = Ok (out, n', ws, p')"
      using 1(2) put l by (simp add: pipe_write.simps [of i src n])
    note rp = room_put [OF 1(3) put(2), of "src ! n"]
    note IH = 1(1) [OF put(1) l(1) _ _ l(2) r rp(1)]
    have "drop n (take n' src) = src ! n # drop (Suc n) (take n' src)" if "Suc n \<le> n'" "n' \<le> length src"
      using that put(1) by (simp add: Cons_nth_drop_Suc [symmetric])
    then show ?thesis using IH put a rp(2) by (auto simp: same_ends_def)
  qed
qed

text \<open>A task is still waiting rightly after a step if the step woke it or kept what it waits for.\<close>

lemma task_ok_wake:
  assumes "task_ok p t"
    and "pq.queue p = [] \<and> p_writeopen p \<Longrightarrow> ReadChan i \<in> set ws \<or> pq.queue p' = [] \<and> p_writeopen p'"
    and "room p = 0 \<and> p_readopen p \<Longrightarrow> WriteChan i \<in> set ws \<or> room p' = 0 \<and> p_readopen p'"
  shows "task_ok p' (wake_task i ws t)"
  using assms by (cases t) auto

lemma room_full: "pq.ok p \<Longrightarrow> room p = 0 \<longleftrightarrow> length (pq.queue p) = PIPESIZE"
  by (auto simp: room_def pq.length_queue pq.ok_def)

lemma length_queue_le: "pq.ok p \<Longrightarrow> length (pq.queue p) \<le> PIPESIZE"
  by (auto simp: pq.length_queue pq.ok_def)

lemma room_write:
  assumes "pq.ok p" "pq.ok p'" and "pq.queue p' = pq.queue p @ bs" and "room p = 0"
  shows "room p' = 0"
  using assms length_queue_le [of p'] by (simp add: room_full)

lemma pipe_close_eq:
  assumes "pipe_close i writable p = (ws, p')"
  shows "pq.queue p' = pq.queue p" "pq.ok p' = pq.ok p" "ws = [if writable then ReadChan i else WriteChan i]"
    "p_readopen p' \<longleftrightarrow> p_readopen p \<and> writable" "p_writeopen p' \<longleftrightarrow> p_writeopen p \<and> \<not> writable"
    "p_used p' \<longleftrightarrow> p_used p \<and> (p_readopen p' \<or> p_writeopen p')"
  using assms pq_eq [of p' p] by (auto simp: pipe_close_def Let_def split: if_splits)

lemma pipe_inv_step:
  assumes "pipe_step i s s'" and inv: "pipe_inv s"
  shows "pipe_inv s'"
  using assms(1)
proof cases
  case (read_done t n bs ws p)
  have ok: "pq.ok (the_pipe s)" "\<And>u. task_ok (the_pipe s) (tasks s u)" using inv by (simp_all add: pipe_inv_def)
  from pipe_read_Ok [OF read_done(3) ok(1)]
  have r: "bs = take n (pq.queue (the_pipe s))" "ws = [WriteChan i]" "pq.ok p" "pq.queue p = drop n (pq.queue (the_pipe s))"
      "pq.queue (the_pipe s) \<noteq> [] \<or> \<not> p_writeopen (the_pipe s)" by auto
  have "task_ok p (wake_task i ws (((tasks s)(t := Idle)) u))" for u
    using r ok(2) by (intro task_ok_wake [of "the_pipe s"]) auto
  with r inv show ?thesis by (simp add: read_done(1) pipe_inv_def)
next
  case (read_sleep t n ws p)
  have ok: "pq.ok (the_pipe s)" "\<And>u. task_ok (the_pipe s) (tasks s u)" using inv by (simp_all add: pipe_inv_def)
  from pipe_read_Ok [OF read_sleep(3) ok(1)]
  have r: "ws = []" "p = the_pipe s" "pq.queue p = []" "p_writeopen p" by auto
  have "task_ok p (wake_task i ws (tasks s u))" for u
    using r ok(2) by (intro task_ok_wake [of "the_pipe s"]) auto
  with r inv show ?thesis by (simp add: read_sleep(1) pipe_inv_def)
next
  case (write_done t src n r n' ws p)
  have ok: "pq.ok (the_pipe s)" "\<And>u. task_ok (the_pipe s) (tasks s u)" using inv by (simp_all add: pipe_inv_def)
  have n: "n \<le> length src" using ok(2) [of t] write_done(2) by simp
  note w = pipe_write_Ok [OF write_done(3) ok(1) n]
  have "task_ok p (wake_task i ws (((tasks s)(t := Idle)) u))" for u
    using w ok room_write [OF ok(1), of p] by (intro task_ok_wake [of "the_pipe s"]) (auto simp: same_ends_def)
  with w inv show ?thesis by (simp add: write_done(1) pipe_inv_def)
next
  case (write_sleep t src n n' ws p)
  have ok: "pq.ok (the_pipe s)" "\<And>u. task_ok (the_pipe s) (tasks s u)" using inv by (simp_all add: pipe_inv_def)
  have n: "n \<le> length src" using ok(2) [of t] write_sleep(2) by simp
  note w = pipe_write_Ok [OF write_sleep(3) ok(1) n]
  have "task_ok p (wake_task i ws (tasks s u))" for u
    using w ok room_write [OF ok(1), of p] by (intro task_ok_wake [of "the_pipe s"]) (auto simp: same_ends_def)
  with w inv show ?thesis by (simp add: write_sleep(1) pipe_inv_def)
next
  case (close_end writable ws p)
  have ok: "pq.ok (the_pipe s)" "\<And>u. task_ok (the_pipe s) (tasks s u)" using inv by (simp_all add: pipe_inv_def)
  note c = pipe_close_eq [OF close_end(2)]
  have "task_ok p (wake_task i ws (tasks s u))" for u
    using c ok(2) by (intro task_ok_wake [of "the_pipe s"]) (auto simp: room_def)
  with c inv show ?thesis by (simp add: close_end(1) pipe_inv_def)
qed (use inv in \<open>simp_all add: pipe_inv_def\<close>)

lemma pipe_inv_start: "pipe_inv pipe_start"
  by (simp add: pipe_inv_def pipe_start_def Pipe_unused_def pq.ok_def pq.queue_def)

lemma pipe_inv_reach: "(pipe_step i)\<^sup>*\<^sup>* pipe_start s \<Longrightarrow> pipe_inv s"
  by (induction rule: rtranclp_induct) (auto intro: pipe_inv_start pipe_inv_step)

section \<open>The guarantees of pipes\<close>

text \<open>C6. Over every interleaving of readers, writers and closers of a pipe, the bytes stored so far are
  the bytes returned so far followed by the contents of the buffer, which holds at most 512; a reader
  sleeps only while the buffer is empty and the write end open, and a writer only while the buffer is
  full and the read end open: no wake-up is lost.  As long as the counter of stored bytes, with what a
  call has left to store, stays more than 512 below \<open>2 ^ 64\<close>, the next part of every call returns or
  sleeps and does not panic.\<close>

theorem pipe_fifo:
  assumes "(pipe_step i)\<^sup>*\<^sup>* pipe_start s"
  shows "sent s = received s @ pq.queue (the_pipe s) \<and> length (pq.queue (the_pipe s)) \<le> PIPESIZE \<and>
    (\<forall>t n. tasks s t = ReadSleep n \<longrightarrow> pq.queue (the_pipe s) = [] \<and> p_writeopen (the_pipe s)) \<and>
    (\<forall>t src n. tasks s t = WriteSleep src n \<longrightarrow>
       n < length src \<and> length (pq.queue (the_pipe s)) = PIPESIZE \<and> p_readopen (the_pipe s)) \<and>
    (\<forall>t n. tasks s t = Reading n \<longrightarrow> p_nwrite (the_pipe s) + PIPESIZE < 2 ^ 64 \<longrightarrow> (\<exists>r. pipe_read i n (the_pipe s) = Ok r)) \<and>
    (\<forall>t src n. tasks s t = Writing src n \<longrightarrow> p_nwrite (the_pipe s) + PIPESIZE + (length src - n) < 2 ^ 64 \<longrightarrow>
       (\<exists>r. pipe_write i src n (the_pipe s) = Ok r))"
proof -
  have inv: "pipe_inv s" by (rule pipe_inv_reach [OF assms])
  then have ok: "pq.ok (the_pipe s)" and t: "\<And>t. task_ok (the_pipe s) (tasks s t)" by (simp_all add: pipe_inv_def)
  have "\<forall>t n. tasks s t = ReadSleep n \<longrightarrow> pq.queue (the_pipe s) = [] \<and> p_writeopen (the_pipe s)"
    using t by (metis task_ok.simps(1))
  moreover have "\<forall>t src n. tasks s t = WriteSleep src n \<longrightarrow>
      n < length src \<and> length (pq.queue (the_pipe s)) = PIPESIZE \<and> p_readopen (the_pipe s)"
    using t room_full [OF ok] by (metis task_ok.simps(3))
  moreover have "\<exists>r. pipe_read i n (the_pipe s) = Ok r" if "p_nwrite (the_pipe s) + PIPESIZE < 2 ^ 64" for n
  proof -
    have "pipe_ok (the_pipe s)" using that ok by (simp add: pipe_ok_def)
    then show ?thesis by (cases rule: pipe_read_cases [of _ i n]) blast+
  qed
  moreover have "\<exists>r. pipe_write i src n (the_pipe s) = Ok r"
    if "tasks s t = Writing src n" "p_nwrite (the_pipe s) + PIPESIZE + (length src - n) < 2 ^ 64" for t src n
    using pipe_write_total [OF ok _ that(2)] t [of t] that(1) by simp
  ultimately show ?thesis using inv length_queue_le [OF ok] by (simp add: pipe_inv_def)
qed

text \<open>A run: a reader finds the pipe empty and sleeps, a writer stores two bytes and wakes it.\<close>

definition pipe_run1 :: pipe_sys where
  "pipe_run1 = pipe_start\<lparr>tasks := (\<lambda>_. Idle)(0 := ReadSleep 4)\<rparr>"

definition pipe_run2 :: pipe_sys where
  "pipe_run2 = \<lparr>the_pipe = pipe_put 8 (pipe_put 7 (the_pipe pipe_start)), tasks = (\<lambda>_. Idle)(0 := Reading 4),
     sent = [7, 8], received = []\<rparr>"

lemma pipe_run: "(pipe_step 0)\<^sup>*\<^sup>* pipe_start pipe_run2"
proof -
  let ?r = "pipe_start\<lparr>tasks := (tasks pipe_start)(0 := Reading 4)\<rparr>"
  let ?w = "pipe_run1\<lparr>tasks := (tasks pipe_run1)(1 := Writing [7, 8] 0)\<rparr>"
  have "pipe_step 0 pipe_start ?r" by (intro call_read) (simp add: pipe_start_def)
  moreover have "pipe_read 0 4 (the_pipe ?r) = Ok (Sleep (ReadChan 0) (), [], the_pipe ?r)"
    by (simp add: pipe_read_def pipe_start_def Pipe_unused_def)
  then have "pipe_step 0 ?r (?r\<lparr>the_pipe := the_pipe ?r, tasks := (wake_task 0 [] \<circ> tasks ?r)(0 := ReadSleep 4)\<rparr>)"
    by (intro read_sleep) simp_all
  then have "pipe_step 0 ?r pipe_run1" by (simp add: pipe_run1_def pipe_start_def o_def fun_upd_def cong: if_cong)
  moreover have "pipe_step 0 pipe_run1 ?w" by (intro call_write) (simp add: pipe_run1_def pipe_start_def)
  ultimately have 1: "(pipe_step 0)\<^sup>*\<^sup>* pipe_start ?w"
    by (meson converse_rtranclp_into_rtranclp rtranclp.rtrancl_refl)
  have "pipe_write 0 [7, 8] 0 (the_pipe ?w) =
      Ok (Done 2, 2, [ReadChan 0], pipe_put 8 (pipe_put 7 (the_pipe ?w)))"
    by (simp add: pipe_write.simps [of 0 "[7, 8]" 0] pipe_write.simps [of 0 "[7, 8]" "Suc 0"]
        pipe_write.simps [of 0 "[7, 8]" "Suc (Suc 0)"] pipe_run1_def pipe_start_def Pipe_unused_def pipe_put_def PIPESIZE_def)
  then have "pipe_step 0 ?w (?w\<lparr>the_pipe := pipe_put 8 (pipe_put 7 (the_pipe ?w)),
      tasks := wake_task 0 [ReadChan 0] \<circ> (tasks ?w)(1 := Idle), sent := sent ?w @ drop 0 (take 2 [7, 8])\<rparr>)"
    by (intro write_done) simp_all
  moreover have "wake_task 0 [ReadChan 0] \<circ> (tasks ?w)(1 := Idle) = (\<lambda>_. Idle)(0 := Reading 4)"
    by (rule ext) (simp add: pipe_run1_def)
  ultimately have "pipe_step 0 ?w pipe_run2"
    by (simp add: pipe_run2_def pipe_run1_def pipe_start_def)
  with 1 show ?thesis by (rule rtranclp.rtrancl_into_rtrancl)
qed

theorem pipe_fifo_witness:
  "(pipe_step 0)\<^sup>*\<^sup>* pipe_start pipe_run2 \<and> tasks pipe_run2 0 = Reading 4 \<and> pq.queue (the_pipe pipe_run2) = [7, 8]"
proof -
  have "pq.queue (the_pipe pipe_run2) = [7, 8]"
    using pipe_fifo [OF pipe_run] by (simp add: pipe_run2_def)
  with pipe_run show ?thesis by (simp add: pipe_run2_def)
qed

text \<open>C21. As long as the counters do not overflow, \<open>read\<close> sleeps when the buffer is empty and the write end
  open, and otherwise returns the first bytes of the buffer, as many as the caller takes, and removes
  them: an empty result for a non-empty request means the end of the stream.\<close>

theorem pipe_read_correct:
  assumes "pipe_ok p"
  shows "if pq.queue p = [] \<and> p_writeopen p then pipe_read i n p = Ok (Sleep (ReadChan i) (), [], p)
    else \<exists>p'. pipe_read i n p = Ok (Done (take n (pq.queue p)), [WriteChan i], p') \<and> pipe_ok p' \<and>
      pq.queue p' = drop n (pq.queue p) \<and> same_ends p p' \<and>
      (take n (pq.queue p) = [] \<longleftrightarrow> n = 0 \<or> pq.queue p = [] \<and> \<not> p_writeopen p)"
  using assms by (cases rule: pipe_read_cases [where i = i and n = n]) auto

theorem pipe_read_correct_witness:
  "pipe_ok (the_pipe pipe_run2) \<and> (\<exists>p'. pipe_read 0 1 (the_pipe pipe_run2) = Ok (Done [7], [WriteChan 0], p'))"
proof -
  have q: "pq.queue (the_pipe pipe_run2) = [7, 8]" and ok: "pq.ok (the_pipe pipe_run2)"
    using pipe_inv_reach [OF pipe_run] by (simp_all add: pipe_inv_def pipe_run2_def)
  then have "pipe_ok (the_pipe pipe_run2)"
    by (simp add: pipe_ok_def pipe_run2_def pipe_put_def pipe_start_def Pipe_unused_def PIPESIZE_def)
  with pipe_read_correct [OF this, of 0 1] q show ?thesis by auto
qed

text \<open>C22. \<open>write\<close> with the read end open, or with nothing left to store, stores as many of the remaining bytes as fit, wakes the readers,
  and returns the length of the whole request if that was all of them, and otherwise sleeps; when bytes
  are left and the read end is closed, it returns an error and stores nothing.\<close>

theorem pipe_write_correct:
  assumes "pq.ok p" and "n \<le> length src" and "p_nwrite p + PIPESIZE + (length src - n) < 2 ^ 64"
  shows "if n < length src \<and> \<not> p_readopen p then pipe_write i src n p = Ok (Done (-1), n, [], p)
    else let k = min (length src - n) (room p) in
      \<exists>p'. pipe_write i src n p =
        Ok (if n + k = length src then Done (int (length src)) else Sleep (WriteChan i) (), n + k, [ReadChan i], p') \<and>
        pq.ok p' \<and> pq.queue p' = pq.queue p @ take k (drop n src) \<and> same_ends p p'"
proof (cases "n < length src \<and> \<not> p_readopen p")
  case True
  have "p_nread p + PIPESIZE < 2 ^ 64" using assms(1,3) by (simp add: pq.ok_def)
  with True show ?thesis by (simp add: pipe_write_closed)
next
  case False
  then have "p_readopen p \<or> n = length src" using assms(2) by auto
  from pipe_write_spec [OF assms(1,2) this assms(3) refl, of i] False show ?thesis by (auto simp: Let_def)
qed

theorem pipe_write_correct_witness:
  "pq.ok (the_pipe pipe_start) \<and> (\<exists>p'. pipe_write 0 [1, 2, 3] 1 (the_pipe pipe_start) = Ok (Done 3, 3, [ReadChan 0], p') \<and>
     pq.queue p' = [2, 3])"
proof -
  have ok: "pq.ok (the_pipe pipe_start)" and q: "pq.queue (the_pipe pipe_start) = []"
    using pipe_inv_start by (simp_all add: pipe_inv_def pipe_start_def)
  have "p_nwrite (the_pipe pipe_start) + PIPESIZE + (length [1 :: byte, 2, 3] - 1) < 2 ^ 64"
    "p_readopen (the_pipe pipe_start)"
    by (simp_all add: pipe_start_def Pipe_unused_def PIPESIZE_def)
  with pipe_write_correct [of "the_pipe pipe_start" 1 "[1, 2, 3]" 0] ok q show ?thesis
    by (auto simp: room_def PIPESIZE_def)
qed

text \<open>\<open>alloc\<close> takes the first unused pipe of the table and hands it out empty with both ends open,
  leaving the others alone, and fails only when all are in use.\<close>

theorem pipe_alloc_correct:
  "case pipe_alloc ps of
     (None, ps') \<Rightarrow> ps' = ps \<and> list_all p_used ps
   | (Some i, ps') \<Rightarrow> i < length ps \<and> \<not> p_used (ps ! i) \<and> list_all p_used (take i ps) \<and>
       ps' = ps[i := ps' ! i] \<and> p_used (ps' ! i) \<and> p_readopen (ps' ! i) \<and> p_writeopen (ps' ! i) \<and>
       pq.queue (ps' ! i) = [] \<and> p_data (ps' ! i) = p_data (ps ! i)"
proof (cases "find_slot (\<lambda>p. \<not> p_used p) ps")
  case None
  then have "list_all p_used ps" by (simp add: find_slot_None_iff list_all_iff)
  with None show ?thesis by (simp add: pipe_alloc_def)
next
  case (Some i)
  note f = find_slot_SomeD [OF Some]
  then have "list_all p_used (take i ps)" by (simp add: list_all_length)
  with Some f show ?thesis by (simp add: pipe_alloc_def pq.queue_def)
qed

end
