(* ===== verification/Console.thy ===== *)
theory Console
  imports Ring
begin

text \<open>
  The console, \<open>src/console.rs\<close>: the cooked input buffer with its read, commit and edit counters, the
  interrupt handler that fills it, and the blocking \<open>read\<close>.  The UART is a device: the bytes it has
  received are the argument of the interrupt handler, the bytes sent to it are a list in the state.

  The results: the code implements a line editor on two lists, the committed bytes and the line being
  edited; a reader is woken whenever committed bytes become available; \<open>read\<close> returns at most a line.
\<close>

definition INPUT_BUF :: nat where "INPUT_BUF = 128"
definition BACKSPACE :: byte where "BACKSPACE = 0x08"
definition DELETE :: byte where "DELETE = 0x7f"
definition EOF :: byte where "EOF = 0x04"
definition NEWLINE :: byte where "NEWLINE = 10"
definition RETURN :: byte where "RETURN = 13"

record console =
  in_buf :: "byte list"
  in_r :: nat
  in_w :: nat
  in_e :: nat
  uart_out :: "byte list"

definition Console_new :: console where
  "Console_new = \<lparr>in_buf = replicate 128 0, in_r = 0, in_w = 0, in_e = 0, uart_out = []\<rparr>"

section \<open>Operations\<close>

definition console_write_bytes :: "byte list \<Rightarrow> console \<Rightarrow> console" where
  "console_write_bytes bs c = c\<lparr>uart_out := uart_out c @ bs\<rparr>"

definition input_available :: "console \<Rightarrow> bool" where
  "input_available c \<longleftrightarrow> in_r c \<noteq> in_w c"

definition input_getc :: "console \<Rightarrow> byte \<times> console" where
  "input_getc c = (in_buf c ! (in_r c mod INPUT_BUF), c\<lparr>in_r := Suc (in_r c)\<rparr>)"

text \<open>\<open>buf[e % INPUT_BUF] = b; e += 1\<close>.\<close>

definition input_store :: "byte \<Rightarrow> console \<Rightarrow> console" where
  "input_store b c = c\<lparr>in_buf := (in_buf c)[in_e c mod INPUT_BUF := b], in_e := Suc (in_e c)\<rparr>"

definition input_putc :: "byte \<Rightarrow> console \<Rightarrow> (bool \<times> console) res" where
  "input_putc b c =
     (let b = (if b = RETURN then NEWLINE else b) in
      if b = BACKSPACE \<or> b = DELETE then
        if in_e c \<noteq> in_w c then
          bindE (usize_sub (in_e c) 1) (\<lambda>e.
          Ok (False, console_write_bytes [0x08, 0x20, 0x08] (c\<lparr>in_e := e\<rparr>)))
        else Ok (False, c)
      else
        bindE (usize_sub (in_e c) (in_r c)) (\<lambda>used.
        if INPUT_BUF \<le> used then Ok (False, c)
        else
          bindE (usize_add (in_e c) 1) (\<lambda>_.
          let c = input_store b c in
          if b = EOF then Ok (True, c\<lparr>in_w := in_e c\<rparr>)
          else
            (let c = console_write_bytes [b] c in
             bindE (usize_sub (in_e c) (in_r c)) (\<lambda>used.
             if b = NEWLINE \<or> used = INPUT_BUF then Ok (True, c\<lparr>in_w := in_e c\<rparr>)
             else Ok (False, c))))))"

text \<open>The interrupt handler on the bytes the UART holds; it returns the channels it wakes.\<close>

fun intr_loop :: "byte list \<Rightarrow> bool \<Rightarrow> console \<Rightarrow> (bool \<times> console) res" where
  "intr_loop [] do_wakeup c = Ok (do_wakeup, c)"
| "intr_loop (b # rx) do_wakeup c =
     bindE (input_putc b c) (\<lambda>(w, c). intr_loop rx (do_wakeup \<or> w) c)"

definition console_intr :: "byte list \<Rightarrow> console \<Rightarrow> (chan list \<times> console) res" where
  "console_intr rx c =
     bindE (intr_loop rx False c) (\<lambda>(do_wakeup, c).
     Ok (if do_wakeup then [InputChan] else [], c))"

text \<open>
  \<open>read\<close> into a buffer of \<open>len\<close> bytes, from the point where it holds \<open>acc\<close>.
\<close>

function console_read_loop ::
    "nat \<Rightarrow> byte list \<Rightarrow> console \<Rightarrow> ((byte list, byte list) outcome \<times> console) res" where
  "console_read_loop len acc c =
     (if length acc < len then
        if \<not> input_available c then Ok (Sleep InputChan acc, c)
        else
          bindE (usize_add (in_r c) 1) (\<lambda>_.
          let (b, c) = input_getc c in
          if b = EOF then
            if 0 < length acc then bindE (usize_sub (in_r c) 1) (\<lambda>r. Ok (Done acc, c\<lparr>in_r := r\<rparr>))
            else Ok (Done acc, c)
          else if b = NEWLINE then Ok (Done (acc @ [b]), c)
          else console_read_loop len (acc @ [b]) c)
      else Ok (Done acc, c))"
  by pat_completeness auto

termination
  by (relation "measure (\<lambda>(len, acc, c). len - length acc)") auto

declare console_read_loop.simps [simp del]

definition console_read :: "nat \<Rightarrow> console \<Rightarrow> ((byte list, byte list) outcome \<times> console) res" where
  "console_read len c = (if len = 0 then Ok (Done [], c) else console_read_loop len [] c)"

section \<open>The input buffer as a queue\<close>

text \<open>
  From the reader's side the buffer is a ring between \<open>r\<close> and \<open>e\<close>; the bytes below \<open>w\<close> are committed.
\<close>

interpretation cq: ring INPUT_BUF in_buf in_r in_e input_store input_getc
  by unfold_locales (simp_all add: INPUT_BUF_def input_store_def input_getc_def)

definition committed :: "console \<Rightarrow> byte list" where
  "committed c = take (in_w c - in_r c) (cq.queue c)"

definition pending :: "console \<Rightarrow> byte list" where
  "pending c = drop (in_w c - in_r c) (cq.queue c)"

definition console_ok :: "console \<Rightarrow> bool" where
  "console_ok c \<longleftrightarrow> cq.ok c \<and> in_r c \<le> in_w c \<and> in_w c \<le> in_e c"

text \<open>The line editor the buffer implements.\<close>

definition line_putc :: "byte \<Rightarrow> byte list \<times> byte list \<Rightarrow> bool \<times> byte list \<times> byte list" where
  "line_putc b = (\<lambda>(com, pen).
     let b = (if b = RETURN then NEWLINE else b) in
     if b \<in> {BACKSPACE, DELETE} then (False, com, butlast pen)
     else if INPUT_BUF \<le> length com + length pen then (False, com, pen)
     else if b = EOF \<or> b = NEWLINE \<or> length com + length pen + 1 = INPUT_BUF then (True, com @ pen @ [b], [])
     else (False, com, pen @ [b]))"

definition line_echo :: "byte \<Rightarrow> byte list \<times> byte list \<Rightarrow> byte list" where
  "line_echo b = (\<lambda>(com, pen).
     let b = (if b = RETURN then NEWLINE else b) in
     if b \<in> {BACKSPACE, DELETE} then (if pen = [] then [] else [0x08, 0x20, 0x08])
     else if INPUT_BUF \<le> length com + length pen \<or> b = EOF then []
     else [b])"

text \<open>What a reader of \<open>len\<close> bytes takes from the committed bytes.\<close>

fun line_read :: "nat \<Rightarrow> byte list \<Rightarrow> byte list \<Rightarrow> (byte list, byte list) outcome \<times> byte list" where
  "line_read len acc [] = (if length acc < len then Sleep InputChan acc else Done acc, [])"
| "line_read len acc (b # com) =
     (if length acc < len then
        if b = EOF then (Done acc, if acc = [] then com else b # com)
        else if b = NEWLINE then (Done (acc @ [b]), com)
        else line_read len (acc @ [b]) com
      else (Done acc, b # com))"

lemma committed_pending: "committed c @ pending c = cq.queue c"
  by (simp add: committed_def pending_def)

lemma console_lengths:
  assumes "console_ok c"
  shows "length (committed c) = in_w c - in_r c" "length (pending c) = in_e c - in_w c"
    "length (committed c) + length (pending c) = in_e c - in_r c"
  using assms by (auto simp: console_ok_def committed_def pending_def cq.length_queue)

lemma available_iff: "console_ok c \<Longrightarrow> input_available c \<longleftrightarrow> committed c \<noteq> []"
  using console_lengths(1) [of c] by (auto simp: input_available_def console_ok_def)

lemma cq_out [simp]: "cq.queue (c\<lparr>uart_out := o'\<rparr>) = cq.queue c" "cq.ok (c\<lparr>uart_out := o'\<rparr>) = cq.ok c"
  "cq.queue (c\<lparr>in_w := w\<rparr>) = cq.queue c" "cq.ok (c\<lparr>in_w := w\<rparr>) = cq.ok c"
  by (simp_all add: cq.queue_def cq.ok_def)

text \<open>Taking back the last byte of the line.\<close>

lemma cq_back:
  assumes "cq.ok c" and "in_r c < in_e c"
  shows "cq.ok (c\<lparr>in_e := in_e c - 1\<rparr>)" "cq.queue (c\<lparr>in_e := in_e c - 1\<rparr>) = butlast (cq.queue c)"
proof -
  have "[in_r c..<in_e c] = [in_r c..<in_e c - 1] @ [in_e c - 1]"
    using assms(2) by (metis Suc_diff_1 less_imp_Suc_add upt_Suc_append not_less_eq_eq zero_less_Suc less_Suc_eq_le)
  then show "cq.queue (c\<lparr>in_e := in_e c - 1\<rparr>) = butlast (cq.queue c)" by (simp add: cq.queue_def)
  show "cq.ok (c\<lparr>in_e := in_e c - 1\<rparr>)" using assms by (auto simp: cq.ok_def)
qed

lemma input_store_spec:
  assumes ok: "console_ok c" and room: "in_e c < in_r c + INPUT_BUF"
  shows "console_ok (input_store b c)" "committed (input_store b c) = committed c"
    "pending (input_store b c) = pending c @ [b]" "in_r (input_store b c) = in_r c"
    "in_e (input_store b c) = Suc (in_e c)" "uart_out (input_store b c) = uart_out c"
proof -
  have q: "cq.ok c" using ok by (simp add: console_ok_def)
  note push = cq.push [OF q room, of b]
  have len: "in_w c - in_r c \<le> length (cq.queue c)" using ok by (auto simp: console_ok_def cq.length_queue)
  show "console_ok (input_store b c)" using ok push(1) by (simp add: console_ok_def input_store_def)
  show "committed (input_store b c) = committed c" "pending (input_store b c) = pending c @ [b]"
    using push(2) len by (simp_all add: committed_def pending_def) (simp_all add: input_store_def)
qed (simp_all add: input_store_def)

lemma commit_spec:
  assumes ok: "console_ok c"
  shows "console_ok (c\<lparr>in_w := in_e c\<rparr>)" "committed (c\<lparr>in_w := in_e c\<rparr>) = committed c @ pending c"
    "pending (c\<lparr>in_w := in_e c\<rparr>) = []"
proof -
  have "length (cq.queue c) = in_e c - in_r c" by (simp add: cq.length_queue)
  then show "committed (c\<lparr>in_w := in_e c\<rparr>) = committed c @ pending c" "pending (c\<lparr>in_w := in_e c\<rparr>) = []"
    unfolding committed_pending by (simp_all add: committed_def pending_def)
  show "console_ok (c\<lparr>in_w := in_e c\<rparr>)" using ok by (auto simp: console_ok_def)
qed

lemma echo_spec [simp]:
  "console_ok (console_write_bytes bs c) = console_ok c" "committed (console_write_bytes bs c) = committed c"
  "pending (console_write_bytes bs c) = pending c" "in_r (console_write_bytes bs c) = in_r c"
  "in_e (console_write_bytes bs c) = in_e c" "in_w (console_write_bytes bs c) = in_w c"
  "uart_out (console_write_bytes bs c) = uart_out c @ bs"
  by (simp_all add: console_write_bytes_def console_ok_def committed_def pending_def)

lemma erase_spec:
  assumes ok: "console_ok c" and ne: "in_e c \<noteq> in_w c"
  shows "console_ok (c\<lparr>in_e := in_e c - 1\<rparr>)" "committed (c\<lparr>in_e := in_e c - 1\<rparr>) = committed c"
    "pending (c\<lparr>in_e := in_e c - 1\<rparr>) = butlast (pending c)"
proof -
  have lt: "in_r c < in_e c" "cq.ok c" "in_w c - in_r c < length (cq.queue c)"
    using ok ne by (auto simp: console_ok_def cq.length_queue)
  note bk = cq_back [OF lt(2,1)]
  show "console_ok (c\<lparr>in_e := in_e c - 1\<rparr>)" using ok ne bk(1) by (auto simp: console_ok_def)
  show "committed (c\<lparr>in_e := in_e c - 1\<rparr>) = committed c" "pending (c\<lparr>in_e := in_e c - 1\<rparr>) = butlast (pending c)"
    using bk(2) lt(3) by (simp_all add: committed_def pending_def take_butlast drop_butlast)
qed

lemma input_putc_spec:
  assumes ok: "console_ok c" and e: "in_e c + 1 < 2 ^ 64"
  shows "\<exists>c'. input_putc b c = Ok (fst (line_putc b (committed c, pending c)), c') \<and> console_ok c' \<and>
    (committed c', pending c') = snd (line_putc b (committed c, pending c)) \<and>
    uart_out c' = uart_out c @ line_echo b (committed c, pending c) \<and> in_r c' = in_r c \<and> in_e c' \<le> Suc (in_e c)"
proof -
  define b' where "b' = (if b = RETURN then NEWLINE else b)"
  have le: "in_r c \<le> in_w c" "in_w c \<le> in_e c" using ok by (simp_all add: console_ok_def)
  have len: "length (committed c) + length (pending c) = in_e c - in_r c" by (rule console_lengths(3) [OF ok])
  have pen: "pending c = [] \<longleftrightarrow> in_e c = in_w c"
    using console_lengths(2) [OF ok] le by (metis diff_is_0_eq le_antisym length_0_conv order_refl)
  consider (rub) "b' \<in> {BACKSPACE, DELETE}" | (full) "b' \<notin> {BACKSPACE, DELETE}" "INPUT_BUF \<le> in_e c - in_r c"
    | (store) "b' \<notin> {BACKSPACE, DELETE}" "in_e c - in_r c < INPUT_BUF"
    by linarith
  then show ?thesis
  proof cases
    case rub
    then show ?thesis
      using ok erase_spec [OF ok] pen le
      by (cases "in_e c = in_w c") (auto simp: input_putc_def line_putc_def line_echo_def Let_def b'_def [symmetric])
  next
    case full
    then show ?thesis
      using ok le len by (auto simp: input_putc_def line_putc_def line_echo_def Let_def b'_def [symmetric])
  next
    case store
    then have "in_e c < in_r c + INPUT_BUF" using le by simp
    note st = input_store_spec [OF ok this, of b']
    have d: "Suc (in_e c) - in_r c = Suc (in_e c - in_r c)" using le by simp
    show ?thesis
      using store le len e st commit_spec [OF st(1)] d
        commit_spec [of "console_write_bytes [b'] (input_store b' c)"]
      by (auto simp: input_putc_def line_putc_def line_echo_def Let_def b'_def [symmetric])
  qed
qed

fun line_input :: "byte list \<Rightarrow> byte list \<times> byte list \<Rightarrow> bool \<times> byte list \<times> byte list" where
  "line_input [] l = (False, l)"
| "line_input (b # rx) l =
     (let (w, l) = line_putc b l; (ws, l) = line_input rx l in (w \<or> ws, l))"

lemma intr_loop_spec:
  assumes "console_ok c" and "in_e c + length rx < 2 ^ 64"
  shows "\<exists>c'. intr_loop rx w c = Ok (w \<or> fst (line_input rx (committed c, pending c)), c') \<and> console_ok c' \<and>
    (committed c', pending c') = snd (line_input rx (committed c, pending c)) \<and> in_r c' = in_r c \<and>
    in_e c' \<le> in_e c + length rx"
  using assms
proof (induction rx arbitrary: c w)
  case Nil
  then show ?case by simp
next
  case (Cons b rx)
  have "in_e c + 1 < 2 ^ 64" using Cons.prems(2) by simp
  from input_putc_spec [OF Cons.prems(1) this, of b] obtain c1 where
    1: "input_putc b c = Ok (fst (line_putc b (committed c, pending c)), c1)" "console_ok c1"
      "(committed c1, pending c1) = snd (line_putc b (committed c, pending c))" "in_r c1 = in_r c" "in_e c1 \<le> Suc (in_e c)"
    by blast
  have "in_e c1 + length rx < 2 ^ 64" using Cons.prems(2) 1(5) by simp
  from Cons.IH [OF 1(2) this] obtain c' where
    "intr_loop rx (w \<or> fst (line_putc b (committed c, pending c))) c1 =
       Ok ((w \<or> fst (line_putc b (committed c, pending c))) \<or> fst (line_input rx (committed c1, pending c1)), c')"
    "console_ok c'" "(committed c', pending c') = snd (line_input rx (committed c1, pending c1))"
    "in_r c' = in_r c1" "in_e c' \<le> in_e c1 + length rx" by blast
  with 1 show ?case by (auto simp: case_prod_beta Let_def)
qed

text \<open>Committed bytes only appear when a wake-up is due.\<close>

lemma line_putc_wakes:
  "\<not> fst (line_putc b (com, pen)) \<Longrightarrow> fst (snd (line_putc b (com, pen))) = com"
  by (auto simp: line_putc_def Let_def split: if_splits)

lemma line_input_wakes:
  "\<not> fst (line_input rx l) \<Longrightarrow> fst (snd (line_input rx l)) = fst l"
proof (induction rx arbitrary: l)
  case (Cons b rx)
  then show ?case
    using line_putc_wakes [of b "fst l" "snd l"] by (auto simp: case_prod_beta Let_def)
qed simp

lemma input_getc_spec:
  assumes ok: "console_ok c" and com: "committed c = b # com"
  shows "fst (input_getc c) = b" "console_ok (snd (input_getc c))" "committed (snd (input_getc c)) = com"
    "pending (snd (input_getc c)) = pending c" "in_e (snd (input_getc c)) = in_e c"
proof -
  have lt: "in_r c < in_w c" "in_w c \<le> in_e c" using console_lengths(1) [OF ok] com ok by (auto simp: console_ok_def)
  have q: "cq.ok c" "in_r c < in_e c" using ok lt by (simp_all add: console_ok_def)
  note pop = cq.pop [OF q]
  have n: "in_w c - in_r c = Suc (in_w c - Suc (in_r c))" using lt by simp
  have w: "in_w (snd (input_getc c)) = in_w c" "in_r (snd (input_getc c)) = Suc (in_r c)" by (simp_all add: input_getc_def)
  show "in_e (snd (input_getc c)) = in_e c" by (simp add: input_getc_def)
  with pop(1) lt w show "console_ok (snd (input_getc c))" by (simp add: console_ok_def)
  show "fst (input_getc c) = b" "committed (snd (input_getc c)) = com" "pending (snd (input_getc c)) = pending c"
    using com pop(2) n w by (simp_all add: committed_def pending_def)
qed

text \<open>Putting the last byte read back: \<open>r -= 1\<close>.\<close>

lemma input_unget:
  "(snd (input_getc c))\<lparr>in_r := in_r (snd (input_getc c)) - 1\<rparr> = c"
  by (simp add: input_getc_def)

lemma console_read_loop_spec:
  assumes "console_ok c" and "in_e c + 1 < 2 ^ 64"
  shows "\<exists>c'. console_read_loop len acc c = Ok (fst (line_read len acc (committed c)), c') \<and> console_ok c' \<and>
    committed c' = snd (line_read len acc (committed c)) \<and> pending c' = pending c"
  using assms
proof (induction "committed c" arbitrary: acc c)
  case Nil
  then have "\<not> input_available c" using available_iff by metis
  with Nil show ?case by (auto simp: console_read_loop.simps [of len acc c])
next
  case (Cons b com)
  note g = input_getc_spec [OF Cons.prems(1) Cons.hyps(2) [symmetric]]
  have av: "input_available c" using available_iff [OF Cons.prems(1)] Cons.hyps(2) by (metis list.distinct(1))
  obtain c1 where c1: "input_getc c = (b, c1)" using g(1) by (metis prod.collapse)
  have c1': "console_ok c1" "committed c1 = com" "pending c1 = pending c" "in_e c1 = in_e c" using g c1 by simp_all
  have un: "c1\<lparr>in_r := in_r c1 - 1\<rparr> = c" "1 \<le> in_r c1" using input_unget [of c] c1 by (auto simp: input_getc_def)
  have r: "in_r c + 1 < 2 ^ 64" using Cons.prems by (simp add: console_ok_def)
  show ?case
  proof (cases "length acc < len \<and> b \<noteq> EOF \<and> b \<noteq> NEWLINE")
    case True
    from Cons.hyps(1) [of c1 "acc @ [b]"] c1' Cons.prems(2) obtain c' where
      "console_read_loop len (acc @ [b]) c1 = Ok (fst (line_read len (acc @ [b]) com), c')" "console_ok c'"
      "committed c' = snd (line_read len (acc @ [b]) com)" "pending c' = pending c1" by auto
    with True av c1 c1' r show ?thesis
      by (auto simp: console_read_loop.simps [of len acc c] Cons.hyps(2) [symmetric])
  next
    case False
    with av c1 c1' r un Cons.prems Cons.hyps(2) show ?thesis
      by (auto simp: console_read_loop.simps [of len acc c] Cons.hyps(2) [symmetric])
  qed
qed

text \<open>What a read takes from the committed bytes \<open>com\<close>, in terms of the first line of them.\<close>

abbreviation first_line :: "byte list \<Rightarrow> byte list" where
  "first_line com \<equiv> takeWhile (\<lambda>b. b \<noteq> EOF \<and> b \<noteq> NEWLINE) com"

lemma line_read_full: "len \<le> length acc \<Longrightarrow> line_read len acc com = (Done acc, com)"
  by (cases com) auto

lemma line_read_eq:
  assumes "length acc < len"
  shows "line_read len acc com =
    (if len - length acc \<le> length (first_line com) then (Done (acc @ take (len - length acc) com), drop (len - length acc) com)
     else if first_line com = com then (Sleep InputChan (acc @ com), [])
     else if com ! length (first_line com) = NEWLINE then
       (Done (acc @ first_line com @ [NEWLINE]), drop (Suc (length (first_line com))) com)
     else (Done (acc @ first_line com), if acc @ first_line com = [] then drop 1 com else drop (length (first_line com)) com))"
  using assms
proof (induction com arbitrary: acc)
  case Nil
  then show ?case by simp
next
  case (Cons b com)
  have ne: "EOF \<noteq> NEWLINE" by (simp add: EOF_def NEWLINE_def)
  show ?case
  proof (cases "b \<noteq> EOF \<and> b \<noteq> NEWLINE")
    case False
    with Cons.prems ne show ?thesis by auto
  next
    case True
    obtain n where n: "len - length acc = Suc n" using Cons.prems by (metis Suc_diff_Suc)
    show ?thesis
    proof (cases "Suc (length acc) < len")
      case True
      then have h: "length (acc @ [b]) < len" by simp
      have m: "len - length (acc @ [b]) = n" using n by simp
      from Cons.IH [OF h, unfolded m] \<open>b \<noteq> EOF \<and> b \<noteq> NEWLINE\<close> Cons.prems n show ?thesis by simp
    next
      case False
      then have "n = 0" using n by simp
      with False line_read_full [of len "acc @ [b]" com] \<open>b \<noteq> EOF \<and> b \<noteq> NEWLINE\<close> Cons.prems n show ?thesis by auto
    qed
  qed
qed

section \<open>The guarantees of the console\<close>

text \<open>C23. The interrupt handler implements the line editor: on any bytes from the UART it changes the
  committed bytes and the line being edited as the editor does, keeps the buffer well formed, never
  panics as long as the counters do not overflow, and wakes the readers whenever it has committed
  anything.\<close>

theorem console_intr_refines:
  assumes "console_ok c" and "in_e c + length rx < 2 ^ 64"
  shows "\<exists>ws c'. console_intr rx c = Ok (ws, c') \<and> console_ok c' \<and>
    (committed c', pending c') = snd (line_input rx (committed c, pending c)) \<and>
    (committed c' \<noteq> committed c \<longrightarrow> ws = [InputChan])"
proof -
  obtain c' where "intr_loop rx False c = Ok (False \<or> fst (line_input rx (committed c, pending c)), c')" "console_ok c'"
      "(committed c', pending c') = snd (line_input rx (committed c, pending c))"
    using intr_loop_spec [OF assms] by blast
  moreover from this have "fst (line_input rx (committed c, pending c))" if "committed c' \<noteq> committed c"
    using that line_input_wakes [of rx "(committed c, pending c)"] by (metis fst_conv)
  ultimately show ?thesis by (auto simp: console_intr_def)
qed

lemma console_new_ok: "console_ok Console_new" "committed Console_new = []" "pending Console_new = []"
  by (simp_all add: console_ok_def committed_def pending_def Console_new_def cq.ok_def cq.queue_def) (simp add: INPUT_BUF_def)

theorem console_intr_refines_witness:
  "console_ok Console_new \<and> (\<exists>c'. console_intr [97, 98, 8, 13, 99] Console_new = Ok ([InputChan], c') \<and>
     committed c' = [97, 10] \<and> pending c' = [99])"
proof -
  have "snd (line_input [97, 98, 8, 13, 99] (committed Console_new, pending Console_new)) = ([97, 10], [99])"
    unfolding console_new_ok(2,3) by code_simp
  moreover have "in_e Console_new + length [97 :: byte, 98, 8, 13, 99] < 2 ^ 64" by (simp add: Console_new_def)
  ultimately show ?thesis
    using console_intr_refines [OF console_new_ok(1), of "[97, 98, 8, 13, 99]"] console_new_ok by auto
qed

text \<open>C24. A part of \<open>read\<close> that starts with \<open>acc\<close> already delivered, at the beginning or after a sleep, depends on
  the first line of the committed bytes, up to a newline or an end-of-file mark.  If the buffer of the caller ends
  inside of the line, it returns with the buffer full.  Otherwise, if there is no newline and no mark, it takes
  all committed bytes and sleeps; a newline ends the read and is returned; a mark ends the read and is
  consumed only if nothing was delivered, so that it shows as the end of the file.\<close>

theorem console_read_correct:
  assumes "console_ok c" and "in_e c + 1 < 2 ^ 64" and "length acc < len"
  shows "\<exists>r c'. console_read_loop len acc c = Ok (r, c') \<and> (acc = [] \<longrightarrow> console_read len c = Ok (r, c')) \<and>
    console_ok c' \<and> pending c' = pending c \<and>
    (let com = committed c; line = takeWhile (\<lambda>b. b \<noteq> EOF \<and> b \<noteq> NEWLINE) com; n = len - length acc in
     if n \<le> length line then r = Done (acc @ take n com) \<and> committed c' = drop n com
     else if line = com then r = Sleep InputChan (acc @ com) \<and> committed c' = []
     else if com ! length line = NEWLINE then r = Done (acc @ line @ [NEWLINE]) \<and> committed c' = drop (Suc (length line)) com
     else r = Done (acc @ line) \<and> committed c' = (if acc @ line = [] then drop 1 com else drop (length line) com))"
proof -
  obtain c' where c': "console_read_loop len acc c = Ok (fst (line_read len acc (committed c)), c')" "console_ok c'"
      "committed c' = snd (line_read len acc (committed c))" "pending c' = pending c"
    using console_read_loop_spec [OF assms(1,2)] by blast
  have "acc = [] \<longrightarrow> console_read len c = Ok (fst (line_read len acc (committed c)), c')"
    using c'(1) assms(3) by (auto simp: console_read_def)
  with c' show ?thesis
    unfolding Let_def line_read_eq [OF assms(3)] by (intro exI conjI) (assumption | simp)+
qed

definition demo_console :: console where
  "demo_console = \<lparr>in_buf = [104, 105, 10, 104] @ replicate 124 0, in_r = 0, in_w = 3, in_e = 4, uart_out = []\<rparr>"

lemma demo_console: "console_ok demo_console" "committed demo_console = [104, 105, 10]" "in_e demo_console + 1 < 2 ^ 64"
  by (simp_all add: demo_console_def console_ok_def committed_def cq.ok_def cq.queue_def)
    (simp_all add: INPUT_BUF_def upt_rec)

theorem console_read_correct_witness:
  "(\<exists>c'. console_read 8 demo_console = Ok (Done [104, 105, 10], c') \<and> committed c' = []) \<and>
   (\<exists>c'. console_read_loop 8 [97] Console_new = Ok (Sleep InputChan [97], c'))"
proof -
  have e: "in_e Console_new + 1 < 2 ^ 64" by (simp add: Console_new_def)
  have "\<exists>c'. console_read 8 demo_console = Ok (Done [104, 105, 10], c') \<and> committed c' = []"
    using console_read_correct [OF demo_console(1,3), of "[]" 8] by (auto simp: demo_console(2) EOF_def NEWLINE_def Let_def)
  moreover have "\<exists>c'. console_read_loop 8 [97] Console_new = Ok (Sleep InputChan [97], c')"
    using console_read_correct [OF console_new_ok(1) e, of "[97]" 8] by (auto simp: console_new_ok(2) Let_def)
  ultimately show ?thesis by blast
qed

end
