(* ===== verification/Kalloc.thy ===== *)
theory Kalloc
  imports Prelude
begin

text \<open>
  Physical memory and the page allocator, \<open>src/memlayout.rs\<close> and \<open>src/kalloc.rs\<close>.  Memory is a function
  from addresses to bytes; the free list is threaded through the free pages, each holding the address
  of the next one in its first eight bytes.  The addresses the linker chooses are fields of the state
  that no operation changes.

  The results: the allocator implements a stack of free pages; the pages it hands out are aligned,
  managed by it, and on no list; \<open>kalloc_zeroed\<close> returns a page of zeros; only the page being freed or
  zeroed changes.
\<close>

section \<open>The memory map\<close>

definition PGSIZE :: nat where "PGSIZE = 4096"
definition KERNBASE :: u64 where "KERNBASE = 0x80200000"
definition PHYSTOP :: u64 where "PHYSTOP = 0x88000000"

type_synonym paddr = u64

definition is_page_aligned :: "u64 \<Rightarrow> bool" where
  "is_page_aligned a \<longleftrightarrow> a AND (of_nat PGSIZE - 1) = 0"

section \<open>Bytes in memory\<close>

type_synonym memory = "nat \<Rightarrow> byte"

definition load_bytes :: "memory \<Rightarrow> nat \<Rightarrow> nat \<Rightarrow> byte list" where
  "load_bytes m a n = map m [a..<a + n]"

definition store_bytes :: "nat \<Rightarrow> byte list \<Rightarrow> memory \<Rightarrow> memory" where
  "store_bytes a bs m = (\<lambda>x. if a \<le> x \<and> x < a + length bs then bs ! (x - a) else m x)"

definition load_u64 :: "memory \<Rightarrow> nat \<Rightarrow> u64" where
  "load_u64 m a = word_of_le (load_bytes m a 8)"

definition store_u64 :: "nat \<Rightarrow> u64 \<Rightarrow> memory \<Rightarrow> memory" where
  "store_u64 a w m = store_bytes a (le_of_word w) m"

definition fill :: "nat \<Rightarrow> byte \<Rightarrow> nat \<Rightarrow> memory \<Rightarrow> memory" where
  "fill a b n m = store_bytes a (replicate n b) m"

section \<open>The allocator\<close>

record kmem =
  mem :: memory
  head :: paddr
  kernel_end :: u64
  trampoline_start :: u64
  etext :: u64
  erodata :: u64

definition kfree :: "paddr \<Rightarrow> kmem \<Rightarrow> kmem res" where
  "kfree pa s =
     (if \<not> is_page_aligned pa then panic ''kfree: pa not page-aligned''
      else if pa < kernel_end s then panic ''kfree: pa below kernel end''
      else if \<not> pa < PHYSTOP then panic ''kfree: pa beyond PHYSTOP''
      else
        (let m = fill (unat pa) 0x05 PGSIZE (mem s) in
         Ok (s\<lparr>mem := store_u64 (unat pa) (head s) m, head := pa\<rparr>)))"

definition kalloc :: "kmem \<Rightarrow> paddr option \<times> kmem" where
  "kalloc s =
     (let r = head s in
      if r = 0 then (None, s)
      else (Some r, s\<lparr>head := load_u64 (mem s) (unat r)\<rparr>))"

definition kalloc_zeroed :: "kmem \<Rightarrow> paddr option \<times> kmem" where
  "kalloc_zeroed s =
     (case kalloc s of
        (None, s) \<Rightarrow> (None, s)
      | (Some pa, s) \<Rightarrow> (Some pa, s\<lparr>mem := fill (unat pa) 0 PGSIZE (mem s)\<rparr>))"

function freerange :: "nat \<Rightarrow> nat \<Rightarrow> kmem \<Rightarrow> kmem res" where
  "freerange p stop s =
     (if p + PGSIZE \<le> stop then
        bindE (kfree (of_nat p) s) (\<lambda>s. freerange (p + PGSIZE) stop s)
      else Ok s)"
  by pat_completeness auto

termination
  by (relation "measure (\<lambda>(p, e, s). e - p)") (auto simp: PGSIZE_def)

declare freerange.simps [simp del]

definition kalloc_init :: "kmem \<Rightarrow> kmem res" where
  "kalloc_init s =
     (if \<not> is_page_aligned (kernel_end s) then panic ''__kernel_end must be page-aligned''
      else freerange (unat (kernel_end s)) (unat PHYSTOP) s)"

section \<open>Facts on memory\<close>

lemma aligned_iff: "is_page_aligned a \<longleftrightarrow> unat a mod PGSIZE = 0"
proof -
  have "(of_nat PGSIZE - 1 :: u64) = mask 12" by (simp add: PGSIZE_def mask_eq_exp_minus_1)
  then have "a AND (of_nat PGSIZE - 1) = take_bit 12 a" by (simp add: take_bit_eq_mask)
  moreover have "unat (take_bit 12 a) = unat a mod PGSIZE"
    by (simp add: take_bit_eq_mod unat_mod PGSIZE_def)
  ultimately show ?thesis by (simp add: is_page_aligned_def unat_eq_0 [symmetric])
qed

lemma length_load_bytes [simp]: "length (load_bytes m a n) = n"
  by (simp add: load_bytes_def)

lemma nth_load_bytes [simp]: "i < n \<Longrightarrow> load_bytes m a n ! i = m (a + i)"
  by (simp add: load_bytes_def)

lemma load_bytes_eq_iff: "load_bytes m a n = load_bytes m' a n \<longleftrightarrow> (\<forall>x. a \<le> x \<and> x < a + n \<longrightarrow> m x = m' x)"
  by (auto simp: load_bytes_def)

lemma load_store_same: "n = length bs \<Longrightarrow> load_bytes (store_bytes a bs m) a n = bs"
  by (rule nth_equalityI) (simp_all add: store_bytes_def)

lemma load_store_other:
  "b + n \<le> a \<or> a + length bs \<le> b \<Longrightarrow> load_bytes (store_bytes a bs m) b n = load_bytes m b n"
  by (auto simp: load_bytes_eq_iff store_bytes_def)

lemma store_bytes_other [simp]: "x < a \<or> a + length bs \<le> x \<Longrightarrow> store_bytes a bs m x = m x"
  by (auto simp: store_bytes_def)

lemma load_u64_store_same [simp]: "load_u64 (store_u64 a w m) a = w"
  by (simp add: load_u64_def store_u64_def load_store_same)

lemma load_u64_store_other: "b + 8 \<le> a \<or> a + 8 \<le> b \<Longrightarrow> load_u64 (store_u64 a w m) b = load_u64 m b"
  by (simp add: load_u64_def store_u64_def load_store_other)

text \<open>The bytes of a page.\<close>

definition page :: "memory \<Rightarrow> paddr \<Rightarrow> byte list" where
  "page m a = load_bytes m (unat a) PGSIZE"

definition in_page :: "paddr \<Rightarrow> nat \<Rightarrow> bool" where
  "in_page a x \<longleftrightarrow> unat a \<le> x \<and> x < unat a + PGSIZE"

lemma in_page_unique:
  assumes "is_page_aligned a" "is_page_aligned b" "in_page a x" "in_page b x"
  shows "a = b"
proof -
  have "unat a = x div PGSIZE * PGSIZE" if "is_page_aligned a" "in_page a x" for a :: paddr
  proof -
    from that(1) obtain k where k: "unat a = PGSIZE * k" by (auto simp: aligned_iff)
    with that(2) have "x div PGSIZE = k"
      by (intro div_nat_eqI) (simp_all add: in_page_def mult.commute)
    with k show ?thesis by simp
  qed
  from this [OF assms(1,3)] this [OF assms(2,4)] show ?thesis by (simp add: word_unat_eq_iff)
qed

text \<open>\<open>m'\<close> differs from \<open>m\<close> in the page \<open>a\<close> only.\<close>

lemma page_cong: "(\<And>x. in_page a x \<Longrightarrow> m x = m' x) \<Longrightarrow> page m a = page m' a"
  unfolding page_def load_bytes_eq_iff in_page_def by blast

lemma load_u64_cong: "(\<And>x. a \<le> x \<Longrightarrow> x < a + 8 \<Longrightarrow> m x = m' x) \<Longrightarrow> load_u64 m a = load_u64 m' a"
  unfolding load_u64_def by (rule arg_cong [where f = word_of_le]) (simp add: load_bytes_eq_iff)

lemma fill_page: "page (fill (unat a) b PGSIZE m) a = replicate PGSIZE b"
  by (simp add: page_def fill_def load_store_same)

lemma fill_other: "\<not> in_page a x \<Longrightarrow> fill (unat a) b PGSIZE m x = m x"
  by (auto simp: fill_def in_page_def not_le)

section \<open>The free list\<close>

text \<open>The pages the allocator manages, and the list of pages that starts at an address.\<close>

definition managed :: "kmem \<Rightarrow> paddr \<Rightarrow> bool" where
  "managed s a \<longleftrightarrow> is_page_aligned a \<and> kernel_end s \<le> a \<and> a < PHYSTOP"

fun links :: "memory \<Rightarrow> paddr \<Rightarrow> paddr list \<Rightarrow> bool" where
  "links m a [] \<longleftrightarrow> a = 0"
| "links m a (p # ps) \<longleftrightarrow> a = p \<and> links m (load_u64 m (unat p)) ps"

definition free_pages :: "kmem \<Rightarrow> paddr list \<Rightarrow> bool" where
  "free_pages s ps \<longleftrightarrow> 0 < kernel_end s \<and> links (mem s) (head s) ps \<and> distinct ps \<and> list_all (managed s) ps"

definition same_layout :: "kmem \<Rightarrow> kmem \<Rightarrow> bool" where
  "same_layout s s' \<longleftrightarrow> kernel_end s' = kernel_end s \<and> trampoline_start s' = trampoline_start s \<and>
     etext s' = etext s \<and> erodata s' = erodata s"

lemma same_layout_refl [simp]: "same_layout s s"
  by (simp add: same_layout_def)

lemma same_layout_trans: "same_layout s t \<Longrightarrow> same_layout t u \<Longrightarrow> same_layout s u"
  by (simp add: same_layout_def)

lemma same_layout_managed: "same_layout s s' \<Longrightarrow> managed s' a = managed s a"
  by (simp add: same_layout_def managed_def)

lemma managed_range: "managed s a \<Longrightarrow> unat a + PGSIZE \<le> unat PHYSTOP"
proof -
  assume "managed s a"
  then have "unat a mod PGSIZE = 0" "unat a < unat PHYSTOP" by (simp_all add: managed_def aligned_iff word_less_nat_alt)
  then show ?thesis by (auto simp: PHYSTOP_def PGSIZE_def)
qed

lemma managed_nonzero: "0 < kernel_end s \<Longrightarrow> managed s a \<Longrightarrow> a \<noteq> 0"
  by (auto simp: managed_def)

lemma in_page_start: "x < 8 \<Longrightarrow> in_page a (unat a + x)"
  by (simp add: in_page_def PGSIZE_def)

lemma links_cong: "(\<And>p x. p \<in> set ps \<Longrightarrow> in_page p x \<Longrightarrow> m' x = m x) \<Longrightarrow> links m' a ps = links m a ps"
proof (induction ps arbitrary: a)
  case (Cons p ps)
  have "load_u64 m' (unat p) = load_u64 m (unat p)"
    using Cons.prems [of p] by (intro load_u64_cong) (simp add: in_page_def PGSIZE_def)
  moreover have "links m' (load_u64 m (unat p)) ps = links m (load_u64 m (unat p)) ps"
    using Cons.prems by (intro Cons.IH) auto
  ultimately show ?case by simp
qed simp

text \<open>Writes to pages that are not free leave the list alone.\<close>

lemma free_pages_frame:
  assumes "free_pages s ps" and "\<And>p x. p \<in> set ps \<Longrightarrow> in_page p x \<Longrightarrow> m x = mem s x"
  shows "free_pages (s\<lparr>mem := m\<rparr>) ps"
  using assms links_cong [of ps m "mem s" "head s"] by (auto simp: free_pages_def managed_def list_all_iff)

lemma distinct_pages:
  assumes "is_page_aligned p" "is_page_aligned a" "p \<noteq> a" "in_page p x"
  shows "\<not> in_page a x"
  using in_page_unique assms by blast

lemma kfree_spec:
  assumes f: "free_pages s ps" and a: "managed s a" "a \<notin> set ps"
  obtains s' where "kfree a s = Ok s'" "free_pages s' (a # ps)" "same_layout s s'"
    "\<And>x. \<not> in_page a x \<Longrightarrow> mem s' x = mem s x"
proof -
  let ?m = "store_u64 (unat a) (head s) (fill (unat a) 0x05 PGSIZE (mem s))"
  have out: "?m x = mem s x" if "\<not> in_page a x" for x
    using that fill_other [OF that] by (auto simp: store_u64_def in_page_def PGSIZE_def)
  have "?m x = mem s x" if "p \<in> set ps" "in_page p x" for p x
    using that f a distinct_pages [of p a x] by (intro out) (auto simp: free_pages_def managed_def list_all_iff)
  then have "links ?m (head s) ps" using f links_cong [of ps ?m "mem s"] by (simp add: free_pages_def)
  moreover have "managed (s\<lparr>mem := ?m, head := a\<rparr>) p = managed s p" for p by (simp add: managed_def)
  ultimately have "free_pages (s\<lparr>mem := ?m, head := a\<rparr>) (a # ps)"
    using f a by (simp add: free_pages_def list_all_iff)
  moreover have "kfree a s = Ok (s\<lparr>mem := ?m, head := a\<rparr>)"
    using a(1) by (auto simp: kfree_def managed_def)
  ultimately show thesis
    using out by (intro that [of "s\<lparr>mem := ?m, head := a\<rparr>"]) (simp_all add: same_layout_def)
qed

lemma kalloc_spec:
  assumes f: "free_pages s ps"
  shows "case ps of [] \<Rightarrow> kalloc s = (None, s)
    | p # qs \<Rightarrow> \<exists>s'. kalloc s = (Some p, s') \<and> free_pages s' qs \<and> same_layout s s' \<and> mem s' = mem s"
proof (cases ps)
  case Nil
  with f show ?thesis by (simp add: kalloc_def free_pages_def)
next
  case (Cons p qs)
  then have "p \<noteq> 0" using f managed_nonzero [of s p] by (simp add: free_pages_def)
  with f Cons show ?thesis by (simp add: kalloc_def free_pages_def managed_def list_all_iff same_layout_def Let_def)
qed

lemma kalloc_zeroed_cases:
  assumes f: "free_pages s ps"
  obtains (none) "ps = []" "kalloc_zeroed s = (None, s)"
  | (page) p qs s' where "ps = p # qs" "kalloc_zeroed s = (Some p, s')" "free_pages s' qs" "same_layout s s'"
      "managed s p" "p \<notin> set qs" "page (mem s') p = replicate PGSIZE 0"
      "\<And>x. \<not> in_page p x \<Longrightarrow> mem s' x = mem s x"
proof (cases ps)
  case Nil
  with kalloc_spec [OF f] show thesis by (intro none) (simp_all add: kalloc_zeroed_def)
next
  case (Cons p qs)
  with kalloc_spec [OF f] obtain s1 where 1: "kalloc s = (Some p, s1)" "free_pages s1 qs" "same_layout s s1" "mem s1 = mem s"
    by auto
  let ?s = "s1\<lparr>mem := fill (unat p) 0 PGSIZE (mem s1)\<rparr>"
  have p: "managed s p" "p \<notin> set qs" "list_all (managed s) qs" using f Cons by (simp_all add: free_pages_def)
  have "fill (unat p) 0 PGSIZE (mem s1) x = mem s1 x" if "q \<in> set qs" "in_page q x" for q x
    using that p distinct_pages [of q p x] by (intro fill_other) (auto simp: managed_def list_all_iff)
  then have "free_pages ?s qs" by (rule free_pages_frame [OF 1(2)])
  moreover have "kalloc_zeroed s = (Some p, ?s)" using 1(1) by (simp add: kalloc_zeroed_def)
  ultimately show thesis
    using Cons p 1(3,4) fill_other fill_page [of p 0] by (intro page [of p qs ?s]) (simp_all add: same_layout_def)
qed

section \<open>Initialisation\<close>

lemma mod_step: "p + n \<le> a" if p: "p mod n = 0" and a: "a mod n = 0" and "p < a" for p a n :: nat
proof -
  from p a obtain i j where e: "p = n * i" "a = n * j" by (auto simp: mod_eq_0_iff_dvd elim!: dvdE)
  with \<open>p < a\<close> have "Suc i \<le> j" by simp
  then have "n * Suc i \<le> n * j" by (rule mult_le_mono2)
  with e show ?thesis by simp
qed

lemma managed_next:
  assumes "p mod PGSIZE = 0" and "unat (kernel_end s) \<le> p" and "p + PGSIZE \<le> unat PHYSTOP"
  shows "managed s (of_nat p)" "unat (of_nat p :: paddr) = p"
proof -
  have "p < 2 ^ 64" using assms(3) by (simp add: PHYSTOP_def PGSIZE_def)
  then show u: "unat (of_nat p :: paddr) = p" by (simp add: unat_of_nat take_bit_nat_eq_self)
  show "managed s (of_nat p)"
    using assms by (simp add: managed_def aligned_iff u word_le_nat_alt word_less_nat_alt PGSIZE_def)
qed

lemma freerange_spec:
  assumes "free_pages s ps" and "\<forall>a \<in> set ps. unat a < p" and "p mod PGSIZE = 0" and "unat (kernel_end s) \<le> p"
  shows "\<exists>s' ps'. freerange p (unat PHYSTOP) s = Ok s' \<and> free_pages s' ps' \<and> same_layout s s' \<and>
    set ps' = set ps \<union> {a. managed s a \<and> p \<le> unat a}"
  using assms
proof (induction "unat PHYSTOP - p" arbitrary: p s ps rule: less_induct)
  case less
  show ?case
  proof (cases "p + PGSIZE \<le> unat PHYSTOP")
    case False
    have "\<not> (managed s a \<and> p \<le> unat a)" for a using False managed_range [of s a] by auto
    with False less.prems show ?thesis by (auto simp: freerange.simps [of p])
  next
    case True
    note n = managed_next [OF less.prems(3,4) True]
    let ?a = "of_nat p :: paddr"
    have "?a \<notin> set ps" using less.prems(2) n(2) by auto
    then obtain s1 where 1: "kfree ?a s = Ok s1" "free_pages s1 (?a # ps)" "same_layout s s1"
      by (rule kfree_spec [OF less.prems(1) n(1)])
    have ke: "kernel_end s1 = kernel_end s" "\<And>a. managed s1 a = managed s a"
      using 1(3) same_layout_managed [OF 1(3)] by (simp_all add: same_layout_def)
    have "\<forall>a \<in> set (?a # ps). unat a < p + PGSIZE" using less.prems(2) n(2) by (auto simp: PGSIZE_def)
    moreover have "unat PHYSTOP - (p + PGSIZE) < unat PHYSTOP - p" using True by (simp add: PGSIZE_def)
    ultimately obtain s' ps' where 2: "freerange (p + PGSIZE) (unat PHYSTOP) s1 = Ok s'" "free_pages s' ps'"
        "same_layout s1 s'" "set ps' = set (?a # ps) \<union> {a. managed s1 a \<and> p + PGSIZE \<le> unat a}"
      using less.hyps [of "p + PGSIZE" s1 "?a # ps"] 1(2) less.prems(3,4) ke(1) by auto
    have "{a. managed s a \<and> p \<le> unat a} = insert ?a {a. managed s a \<and> p + PGSIZE \<le> unat a}"
    proof (intro set_eqI iffI)
      fix a assume "a \<in> {a. managed s a \<and> p \<le> unat a}"
      then have a: "managed s a" "p \<le> unat a" "unat a mod PGSIZE = 0" by (simp_all add: managed_def aligned_iff)
      have "p + PGSIZE \<le> unat a" if "p \<noteq> unat a"
        using a(2) that by (intro mod_step [OF less.prems(3) a(3)]) simp
      moreover have "a = ?a" if "p = unat a" using that by simp
      ultimately show "a \<in> insert ?a {a. managed s a \<and> p + PGSIZE \<le> unat a}" using a(1) by blast
    next
      fix a assume "a \<in> insert ?a {a. managed s a \<and> p + PGSIZE \<le> unat a}"
      then consider "a = ?a" | "managed s a" "p + PGSIZE \<le> unat a" by blast
      then show "a \<in> {a. managed s a \<and> p \<le> unat a}" using n by cases simp_all
    qed
    then have "set ps' = set ps \<union> {a. managed s a \<and> p \<le> unat a}" using 2(4) ke(2) by simp
    moreover have "freerange p (unat PHYSTOP) s = Ok s'" using 1(1) 2(1) True by (simp add: freerange.simps [of p])
    ultimately show ?thesis using 2(2) same_layout_trans [OF 1(3) 2(3)] by blast
  qed
qed

section \<open>The guarantees of the allocator\<close>

text \<open>C25. After \<open>init\<close> the free list holds exactly the pages between the end of the kernel image and
  \<open>PHYSTOP\<close>, each once.\<close>

theorem kalloc_init_correct:
  assumes "is_page_aligned (kernel_end s)" and "0 < kernel_end s" and "head s = 0"
  shows "\<exists>s' ps. kalloc_init s = Ok s' \<and> free_pages s' ps \<and> set ps = {a. managed s a}"
proof -
  have f: "free_pages s []" using assms by (simp add: free_pages_def)
  have "unat (kernel_end s) mod PGSIZE = 0" using assms(1) by (simp add: aligned_iff)
  then obtain s' ps where "freerange (unat (kernel_end s)) (unat PHYSTOP) s = Ok s'" "free_pages s' ps"
      "set ps = {a. managed s a \<and> unat (kernel_end s) \<le> unat a}"
    using freerange_spec [OF f, of "unat (kernel_end s)"] by auto
  with assms(1) show ?thesis by (auto simp: kalloc_init_def managed_def word_le_nat_alt)
qed

definition km_start :: kmem where
  "km_start = \<lparr>mem = (\<lambda>_. 0), head = 0, kernel_end = 0x87FFD000, trampoline_start = 0x80200000,
     etext = 0x80210000, erodata = 0x80220000\<rparr>"

theorem kalloc_init_correct_witness:
  "is_page_aligned (kernel_end km_start) \<and> 0 < kernel_end km_start \<and> head km_start = 0 \<and>
   (\<exists>s' ps. kalloc_init km_start = Ok s' \<and> free_pages s' ps \<and> set ps = {a. managed km_start a})"
proof -
  have a: "is_page_aligned (kernel_end km_start)" "0 < kernel_end km_start" "head km_start = 0"
    by (simp_all add: aligned_iff km_start_def PGSIZE_def)
  show ?thesis using kalloc_init_correct [OF a] a by blast
qed

text \<open>\<open>kfree\<close> of a managed page that is not free puts it on the free list and writes to no other page;
  the next \<open>kalloc\<close> returns that page and restores the list, and \<open>kalloc_zeroed\<close> returns it filled with
  zeros.\<close>

theorem kfree_then_kalloc:
  assumes "free_pages s ps" and "managed s a" and "a \<notin> set ps"
  shows "\<exists>s1 s2 s3. kfree a s = Ok s1 \<and> free_pages s1 (a # ps) \<and> (\<forall>x. \<not> in_page a x \<longrightarrow> mem s1 x = mem s x) \<and>
    kalloc s1 = (Some a, s2) \<and> free_pages s2 ps \<and> mem s2 = mem s1 \<and>
    kalloc_zeroed s1 = (Some a, s3) \<and> free_pages s3 ps \<and> page (mem s3) a = replicate PGSIZE 0 \<and>
    (\<forall>x. \<not> in_page a x \<longrightarrow> mem s3 x = mem s x)"
proof (rule kfree_spec [OF assms])
  fix s1
  assume 1: "kfree a s = Ok s1" "free_pages s1 (a # ps)" "same_layout s s1" "\<And>x. \<not> in_page a x \<Longrightarrow> mem s1 x = mem s x"
  obtain s2 where 2: "kalloc s1 = (Some a, s2)" "free_pages s2 ps" "mem s2 = mem s1"
    using kalloc_spec [OF 1(2)] by auto
  from 1(2) obtain s3 where 3: "kalloc_zeroed s1 = (Some a, s3)" "free_pages s3 ps" "page (mem s3) a = replicate PGSIZE 0"
      "\<And>x. \<not> in_page a x \<Longrightarrow> mem s3 x = mem s1 x"
    by (cases rule: kalloc_zeroed_cases) auto
  from 1 2 3 show ?thesis by auto
qed

theorem kfree_then_kalloc_witness:
  "free_pages km_start [] \<and> managed km_start 0x87FFE000 \<and>
   (\<exists>s1 s2 s3. kfree 0x87FFE000 km_start = Ok s1 \<and> free_pages s1 [0x87FFE000] \<and>
    (\<forall>x. \<not> in_page 0x87FFE000 x \<longrightarrow> mem s1 x = mem km_start x) \<and>
    kalloc s1 = (Some 0x87FFE000, s2) \<and> free_pages s2 [] \<and> mem s2 = mem s1 \<and>
    kalloc_zeroed s1 = (Some 0x87FFE000, s3) \<and> free_pages s3 [] \<and> page (mem s3) 0x87FFE000 = replicate PGSIZE 0 \<and>
    (\<forall>x. \<not> in_page 0x87FFE000 x \<longrightarrow> mem s3 x = mem km_start x))"
proof -
  have a: "free_pages km_start []" "managed km_start 0x87FFE000" "(0x87FFE000 :: paddr) \<notin> set []"
    by (simp_all add: free_pages_def managed_def aligned_iff km_start_def PGSIZE_def PHYSTOP_def)
  show ?thesis using kfree_then_kalloc [OF a] a(1,2) by blast
qed

end
