(* ===== verification/Vm.thy ===== *)
theory Vm
  imports Ring Kalloc
begin

text \<open>
  Page tables and user address spaces, \<open>src/vm.rs\<close>: the code of the three-level Sv39 tables.  A table
  is a page of memory, a page-table entry eight bytes of it; the functions that follow pointers in the
  source load and store those bytes here.  Virtual addresses and sizes are \<open>usize\<close> as natural numbers,
  with the checks on overflow; \<open>Option<()>\<close> is a truth value.  The tables as trees are in
  \<open>Page_Table\<close>, the properties in \<open>Vm_Theorems\<close>.
\<close>

section \<open>The virtual memory map\<close>

definition MAXVA :: nat where "MAXVA = 2 ^ 38"
definition TRAMPOLINE :: nat where "TRAMPOLINE = MAXVA - PGSIZE"
definition TRAPFRAME :: nat where "TRAPFRAME = MAXVA - 2 * PGSIZE"
definition USER_STACK :: nat where "USER_STACK = MAXVA - 3 * PGSIZE"

definition UART0 :: nat where "UART0 = 0x10000000"
definition CLINT :: nat where "CLINT = 0x02000000"
definition PLIC :: nat where "PLIC = 0x0c000000"

definition va_aligned :: "nat \<Rightarrow> bool" where
  "va_aligned va \<longleftrightarrow> va AND (PGSIZE - 1) = 0"

definition page_round_down :: "nat \<Rightarrow> nat" where
  "page_round_down va = push_bit 12 (drop_bit 12 va)"

definition page_round_up :: "nat \<Rightarrow> nat res" where
  "page_round_up va =
     bindE (usize_add va PGSIZE) (\<lambda>v. bindE (usize_sub v 1) (\<lambda>v. Ok (page_round_down v)))"

section \<open>Page-table entries\<close>

definition PTE_V :: u64 where "PTE_V = push_bit 0 1"
definition PTE_R :: u64 where "PTE_R = push_bit 1 1"
definition PTE_W :: u64 where "PTE_W = push_bit 2 1"
definition PTE_X :: u64 where "PTE_X = push_bit 3 1"
definition PTE_U :: u64 where "PTE_U = push_bit 4 1"
definition PTE_G :: u64 where "PTE_G = push_bit 5 1"
definition PTE_A :: u64 where "PTE_A = push_bit 6 1"
definition PTE_D :: u64 where "PTE_D = push_bit 7 1"

definition ppn :: "paddr \<Rightarrow> u64" where
  "ppn pa = drop_bit 12 pa"

definition new_leaf :: "paddr \<Rightarrow> u64 \<Rightarrow> u64 res" where
  "new_leaf pa flags =
     (if \<not> is_page_aligned pa then panic ''new_leaf: pa not aligned''
      else Ok (push_bit 10 (ppn pa) OR flags OR PTE_V OR PTE_A OR PTE_D))"

definition new_table :: "paddr \<Rightarrow> u64 res" where
  "new_table pa =
     (if \<not> is_page_aligned pa then panic ''new_table: pa not aligned''
      else Ok (push_bit 10 (ppn pa) OR PTE_V))"

definition is_valid :: "u64 \<Rightarrow> bool" where
  "is_valid pte \<longleftrightarrow> pte AND PTE_V \<noteq> 0"

definition is_leaf :: "u64 \<Rightarrow> bool" where
  "is_leaf pte \<longleftrightarrow> is_valid pte \<and> pte AND (PTE_R OR PTE_W OR PTE_X) \<noteq> 0"

definition pte_pa :: "u64 \<Rightarrow> paddr" where
  "pte_pa pte = push_bit 12 (drop_bit 10 pte AND (push_bit 44 1 - 1))"

definition pte_flags :: "u64 \<Rightarrow> u64" where
  "pte_flags pte = pte AND 0x3ff"

text \<open>The address of entry \<open>i\<close> of the table at \<open>pt\<close>.\<close>

definition pte_addr :: "paddr \<Rightarrow> nat \<Rightarrow> nat" where
  "pte_addr pt i = unat pt + 8 * i"

section \<open>Walking the tables\<close>

definition pt_index :: "nat \<Rightarrow> nat \<Rightarrow> nat" where
  "pt_index level va = drop_bit (12 + 9 * level) va AND 0x1ff"

fun walk_levels :: "nat list \<Rightarrow> paddr \<Rightarrow> nat \<Rightarrow> bool \<Rightarrow> kmem \<Rightarrow> (paddr option \<times> kmem) res" where
  "walk_levels [] pt va alloc s = Ok (Some pt, s)"
| "walk_levels (level # levels) pt va alloc s =
     (let a = pte_addr pt (pt_index level va);
          pte = load_u64 (mem s) a in
      if is_valid pte then
        if is_leaf pte then Ok (None, s)
        else walk_levels levels (pte_pa pte) va alloc s
      else if alloc then
        (case kalloc_zeroed s of
           (None, s) \<Rightarrow> Ok (None, s)
         | (Some pa, s) \<Rightarrow>
             bindE (new_table pa) (\<lambda>t.
             walk_levels levels pa va alloc (s\<lparr>mem := store_u64 a t (mem s)\<rparr>)))
      else Ok (None, s))"

definition walk :: "paddr \<Rightarrow> nat \<Rightarrow> bool \<Rightarrow> kmem \<Rightarrow> (nat option \<times> kmem) res" where
  "walk pt va alloc s =
     bindE (walk_levels [2, 1] pt va alloc s) (\<lambda>(r, s).
     Ok (map_option (\<lambda>pt. pte_addr pt (pt_index 0 va)) r, s))"

text \<open>A walk that does not allocate leaves the state alone, so its callers drop the state.\<close>

definition walk_user_perm :: "paddr \<Rightarrow> nat \<Rightarrow> u64 \<Rightarrow> kmem \<Rightarrow> u64 option res" where
  "walk_user_perm pt va perm s =
     (if MAXVA \<le> va then Ok None
      else
        bindE (walk pt va False s) (\<lambda>(r, _).
        case r of
          None \<Rightarrow> Ok None
        | Some a \<Rightarrow>
            let pte = load_u64 (mem s) a in
            if \<not> is_valid pte then Ok None
            else if pte AND PTE_U = 0 then Ok None
            else if pte AND perm \<noteq> perm then Ok None
            else if \<not> is_leaf pte then Ok None
            else Ok (Some pte)))"

section \<open>Mapping\<close>

definition pa_add :: "paddr \<Rightarrow> nat \<Rightarrow> paddr res" where
  "pa_add pa n = bindE (usize_add (unat pa) n) (\<lambda>a. Ok (of_nat a))"

function mappages_loop :: "paddr \<Rightarrow> nat \<Rightarrow> nat \<Rightarrow> paddr \<Rightarrow> u64 \<Rightarrow> kmem \<Rightarrow> (bool \<times> kmem) res" where
  "mappages_loop pt va lim pa flags s =
     (if va < lim then
        bindE (walk pt va True s) (\<lambda>(r, s).
        case r of
          None \<Rightarrow> Ok (False, s)
        | Some a \<Rightarrow>
            if is_valid (load_u64 (mem s) a) then Ok (False, s)
            else
              bindE (new_leaf pa flags) (\<lambda>pte.
              bindE (usize_add va PGSIZE) (\<lambda>va.
              bindE (pa_add pa PGSIZE) (\<lambda>pa.
              mappages_loop pt va lim pa flags (s\<lparr>mem := store_u64 a pte (mem s)\<rparr>)))))
      else Ok (True, s))"
  by pat_completeness auto

termination
  by (relation "measure (\<lambda>(pt, va, lim, pa, flags, s). lim - va)") (auto simp: PGSIZE_def dest!: usize_add_OkD)

declare mappages_loop.simps [simp del]

definition mappages :: "paddr \<Rightarrow> nat \<Rightarrow> nat \<Rightarrow> paddr \<Rightarrow> u64 \<Rightarrow> kmem \<Rightarrow> (bool \<times> kmem) res" where
  "mappages pt va len pa flags s =
     (if \<not> va_aligned va then panic ''mappages: va not aligned''
      else if \<not> is_page_aligned pa then panic ''mappages: pa not aligned''
      else if len = 0 then panic ''assertion failed: size > 0''
      else
        bindE (usize_add va len) (\<lambda>v.
        bindE (page_round_up v) (\<lambda>lim.
        mappages_loop pt va lim pa flags s)))"

section \<open>The kernel page table\<close>

definition unwrap :: "(bool \<times> 's) res \<Rightarrow> 's res" where
  "unwrap r = bindE r (\<lambda>(ok, s). if ok then Ok s else panic ''called unwrap on a None value'')"

definition kvmmap :: "paddr \<Rightarrow> nat \<Rightarrow> nat \<Rightarrow> u64 \<Rightarrow> kmem \<Rightarrow> kmem res" where
  "kvmmap pt va_pa len flags s = unwrap (mappages pt va_pa len (of_nat va_pa) flags s)"

definition kvmmap_range :: "paddr \<Rightarrow> nat \<Rightarrow> nat \<Rightarrow> u64 \<Rightarrow> kmem \<Rightarrow> kmem res" where
  "kvmmap_range pt start stop flags s =
     bindE (usize_sub stop start) (\<lambda>len. kvmmap pt start len flags s)"

definition kvmmake :: "kmem \<Rightarrow> (paddr \<times> kmem) res" where
  "kvmmake s =
     bindE (expect ''kvmmake: out of memory'' (kalloc_zeroed s)) (\<lambda>(pt, s).
     bindE (kvmmap pt UART0 PGSIZE (PTE_R OR PTE_W) s) (\<lambda>s.
     bindE (kvmmap pt CLINT 0x10000 (PTE_R OR PTE_W) s) (\<lambda>s.
     bindE (kvmmap pt PLIC 0x400000 (PTE_R OR PTE_W) s) (\<lambda>s.
     bindE (kvmmap_range pt (unat KERNBASE) (unat (etext s)) (PTE_R OR PTE_X) s) (\<lambda>s.
     bindE (kvmmap_range pt (unat (etext s)) (unat (erodata s)) PTE_R s) (\<lambda>s.
     bindE (kvmmap_range pt (unat (erodata s)) (unat PHYSTOP) (PTE_R OR PTE_W) s) (\<lambda>s.
     bindE (unwrap (mappages pt TRAMPOLINE PGSIZE (trampoline_start s) (PTE_R OR PTE_X) s)) (\<lambda>s.
     Ok (pt, s)))))))))"

definition make_satp :: "paddr \<Rightarrow> u64" where
  "make_satp root = push_bit 60 8 OR drop_bit 12 root"

section \<open>Unmapping\<close>

text \<open>\<open>for i in from..npages\<close>, from the \<open>i\<close>-th page on.\<close>

fun uvmunmap_loop :: "paddr \<Rightarrow> nat \<Rightarrow> nat list \<Rightarrow> bool \<Rightarrow> kmem \<Rightarrow> kmem res" where
  "uvmunmap_loop pt va [] do_free s = Ok s"
| "uvmunmap_loop pt va (i # is) do_free s =
     bindE (usize_add va (i * PGSIZE)) (\<lambda>a.
     bindE (walk pt a False s) (\<lambda>(r, s).
     case r of
       None \<Rightarrow> panic ''uvmunmap: walk''
     | Some p \<Rightarrow>
         let pte = load_u64 (mem s) p in
         if \<not> is_valid pte then panic ''uvmunmap: not mapped''
         else if \<not> is_leaf pte then panic ''uvmunmap: not leaf''
         else
           bindE (if do_free then kfree (pte_pa pte) s else Ok s) (\<lambda>s.
           uvmunmap_loop pt va is do_free (s\<lparr>mem := store_u64 p 0 (mem s)\<rparr>))))"

definition uvmunmap :: "paddr \<Rightarrow> nat \<Rightarrow> nat \<Rightarrow> bool \<Rightarrow> kmem \<Rightarrow> kmem res" where
  "uvmunmap pt va npages do_free s =
     (if \<not> va_aligned va then panic ''uvmunmap: va not aligned''
      else if npages = 0 then panic ''uvmunmap: npages must be positive''
      else uvmunmap_loop pt va [0..<npages] do_free s)"

text \<open>
  \<open>freewalk\<close> calls itself on every child table.  A table of a process is three levels deep; the model
  stops at the depth it is given, and \<open>freewalk_spec\<close> shows that three levels are enough.
\<close>

fun foldE :: "('a \<Rightarrow> 's \<Rightarrow> 's res) \<Rightarrow> 'a list \<Rightarrow> 's \<Rightarrow> 's res" where
  "foldE f [] s = Ok s"
| "foldE f (x # xs) s = bindE (f x s) (foldE f xs)"

definition freewalk_entry :: "(paddr \<Rightarrow> kmem \<Rightarrow> kmem res) \<Rightarrow> paddr \<Rightarrow> nat \<Rightarrow> kmem \<Rightarrow> kmem res" where
  "freewalk_entry recur pt i s =
     (let a = pte_addr pt i; pte = load_u64 (mem s) a in
      if is_valid pte \<and> \<not> is_leaf pte then
        bindE (recur (pte_pa pte) s) (\<lambda>s. Ok (s\<lparr>mem := store_u64 a 0 (mem s)\<rparr>))
      else if is_leaf pte then panic ''freewalk: leaf''
      else Ok s)"

primrec freewalk :: "nat \<Rightarrow> paddr \<Rightarrow> kmem \<Rightarrow> kmem res" where
  "freewalk 0 pt s = panic ''freewalk: deeper than the page tables''"
| "freewalk (Suc depth) pt s =
     bindE (foldE (freewalk_entry (freewalk depth) pt) [0..<512] s) (kfree pt)"

definition uvmfree :: "paddr \<Rightarrow> nat \<Rightarrow> kmem \<Rightarrow> kmem res" where
  "uvmfree pt sz s =
     bindE (page_round_up sz) (\<lambda>lim.
     let npages = lim div PGSIZE in
     bindE (if 0 < sz then uvmunmap pt 0 npages True s else Ok s) (freewalk 3 pt))"

section \<open>The address space of a process\<close>

definition uvmcreate :: "kmem \<Rightarrow> paddr option \<times> kmem" where
  "uvmcreate s = kalloc_zeroed s"

definition proc_pagetable :: "paddr \<Rightarrow> kmem \<Rightarrow> (paddr option \<times> kmem) res" where
  "proc_pagetable trapframe s =
     (case uvmcreate s of
        (None, s) \<Rightarrow> Ok (None, s)
      | (Some pt, s) \<Rightarrow>
          bindE (mappages pt TRAMPOLINE PGSIZE (trampoline_start s) (PTE_R OR PTE_X) s) (\<lambda>(ok, s).
          if \<not> ok then bindE (freewalk 3 pt s) (\<lambda>s. Ok (None, s))
          else
            bindE (mappages pt TRAPFRAME PGSIZE trapframe (PTE_R OR PTE_W) s) (\<lambda>(ok, s).
            if \<not> ok then
              bindE (uvmunmap pt TRAMPOLINE 1 False s) (\<lambda>s.
              bindE (freewalk 3 pt s) (\<lambda>s. Ok (None, s)))
            else Ok (Some pt, s))))"

definition proc_freepagetable :: "paddr \<Rightarrow> nat \<Rightarrow> kmem \<Rightarrow> kmem res" where
  "proc_freepagetable pt sz s =
     bindE (uvmunmap pt TRAMPOLINE 1 False s) (\<lambda>s.
     bindE (uvmunmap pt TRAPFRAME 1 False s) (\<lambda>s.
     bindE (walk_user_perm pt USER_STACK 0 s) (\<lambda>r.
     bindE (if r \<noteq> None then uvmunmap pt USER_STACK 1 True s else Ok s) (uvmfree pt sz))))"

text \<open>\<open>copy_nonoverlapping\<close> of a page.\<close>

definition copy_page :: "paddr \<Rightarrow> paddr \<Rightarrow> kmem \<Rightarrow> kmem" where
  "copy_page src dst s = s\<lparr>mem := store_bytes (unat dst) (load_bytes (mem s) (unat src) PGSIZE) (mem s)\<rparr>"

fun uvmcopy_loop :: "paddr \<Rightarrow> paddr \<Rightarrow> nat list \<Rightarrow> kmem \<Rightarrow> (bool \<times> kmem) res" where
  "uvmcopy_loop old new [] s = Ok (True, s)"
| "uvmcopy_loop old new (i # is) s =
     (let a = i * PGSIZE in
      bindE (walk_user_perm old a 0 s) (\<lambda>r.
      case r of
        None \<Rightarrow> panic ''uvmcopy: pte not found''
      | Some pte \<Rightarrow>
          (case kalloc_zeroed s of
             (None, s) \<Rightarrow>
               bindE (if 0 < i then uvmunmap new 0 i True s else Ok s) (\<lambda>s. Ok (False, s))
           | (Some dst, s) \<Rightarrow>
               bindE (mappages new a PGSIZE dst (pte_flags pte) (copy_page (pte_pa pte) dst s)) (\<lambda>(ok, s).
               if \<not> ok then
                 bindE (kfree dst s) (\<lambda>s.
                 bindE (if 0 < i then uvmunmap new 0 i True s else Ok s) (\<lambda>s. Ok (False, s)))
               else uvmcopy_loop old new is s))))"

definition uvmcopy :: "paddr \<Rightarrow> paddr \<Rightarrow> nat \<Rightarrow> kmem \<Rightarrow> (bool \<times> kmem) res" where
  "uvmcopy old new sz s =
     bindE (page_round_up sz) (\<lambda>lim. uvmcopy_loop old new [0..<lim div PGSIZE] s)"

definition uvmcopy_stack :: "paddr \<Rightarrow> paddr \<Rightarrow> kmem \<Rightarrow> (bool \<times> kmem) res" where
  "uvmcopy_stack old new s =
     bindE (walk_user_perm old USER_STACK 0 s) (\<lambda>r.
     case r of
       None \<Rightarrow> Ok (False, s)
     | Some pte \<Rightarrow>
         (case kalloc_zeroed s of
            (None, s) \<Rightarrow> Ok (False, s)
          | (Some dst, s) \<Rightarrow>
              bindE (mappages new USER_STACK PGSIZE dst (PTE_U OR PTE_R OR PTE_W) (copy_page (pte_pa pte) dst s))
                (\<lambda>(ok, s). if \<not> ok then bindE (kfree dst s) (\<lambda>s. Ok (False, s)) else Ok (True, s))))"

function uvmalloc_loop :: "paddr \<Rightarrow> nat \<Rightarrow> nat \<Rightarrow> nat \<Rightarrow> kmem \<Rightarrow> (bool \<times> kmem) res" where
  "uvmalloc_loop pt a0 a a1 s =
     (if a < a1 then
        (case kalloc_zeroed s of
           (None, s) \<Rightarrow> Ok (False, s)
         | (Some pa, s) \<Rightarrow>
             bindE (mappages pt a PGSIZE pa (PTE_U OR PTE_R OR PTE_W) s) (\<lambda>(ok, s).
             if \<not> ok then
               bindE (kfree pa s) (\<lambda>s.
               bindE (if a0 < a then uvmunmap pt a0 ((a - a0) div PGSIZE) True s else Ok s) (\<lambda>s.
               Ok (False, s)))
             else bindE (usize_add a PGSIZE) (\<lambda>a. uvmalloc_loop pt a0 a a1 s)))
      else Ok (True, s))"
  by pat_completeness auto

termination
  by (relation "measure (\<lambda>(pt, a0, a, a1, s). a1 - a)") (auto simp: PGSIZE_def dest!: usize_add_OkD)

declare uvmalloc_loop.simps [simp del]

definition uvmalloc :: "paddr \<Rightarrow> nat \<Rightarrow> nat \<Rightarrow> kmem \<Rightarrow> (bool \<times> kmem) res" where
  "uvmalloc pt oldsz newsz s =
     bindE (page_round_up oldsz) (\<lambda>a0.
     bindE (page_round_up newsz) (\<lambda>a1. uvmalloc_loop pt a0 a0 a1 s))"

section \<open>Copying to and from user memory\<close>

text \<open>
  The three loops share their head: the address of the next byte, checked, and the physical address and
  length of the longest chunk from there to the end of the page or of the buffer.
\<close>

definition user_chunk :: "paddr \<Rightarrow> nat \<Rightarrow> nat \<Rightarrow> u64 \<Rightarrow> kmem \<Rightarrow> (nat \<times> nat) option res" where
  "user_chunk pt va left perm s =
     (if 2 ^ 64 \<le> va \<or> MAXVA \<le> va then Ok None
      else
        (let va_page = page_round_down va;
             off = va - va_page;
             n = min (PGSIZE - off) left in
         bindE (walk_user_perm pt va_page perm s) (\<lambda>r.
         Ok (map_option (\<lambda>pte. (unat (pte_pa pte) + off, n)) r))))"

lemma page_round_down_eq: "page_round_down va = va div PGSIZE * PGSIZE"
  by (simp add: page_round_down_def push_bit_eq_mult drop_bit_eq_div PGSIZE_def)

lemma page_offset: "va - page_round_down va = va mod PGSIZE"
  by (simp add: page_round_down_eq modulo_nat_def)

lemma user_chunk_pos:
  assumes "user_chunk pt va left perm s = Ok (Some (pa, n))" and "0 < left"
  shows "0 < n" "n \<le> left"
proof -
  have "n = min (PGSIZE - va mod PGSIZE) left"
    using assms(1) by (auto simp: user_chunk_def page_offset bindE_Ok_iff Let_def split: if_splits)
  moreover have "va mod PGSIZE < PGSIZE" by (simp add: PGSIZE_def)
  ultimately show "0 < n" "n \<le> left" using assms(2) by simp_all
qed

function copyin_loop :: "paddr \<Rightarrow> nat \<Rightarrow> nat \<Rightarrow> byte list \<Rightarrow> kmem \<Rightarrow> byte list option res" where
  "copyin_loop pt src_va len dst s =
     (if length dst < len then
        bindE (user_chunk pt (src_va + length dst) (len - length dst) PTE_R s) (\<lambda>r.
        case r of
          None \<Rightarrow> Ok None
        | Some (pa, n) \<Rightarrow> copyin_loop pt src_va len (dst @ load_bytes (mem s) pa n) s)
      else Ok (Some dst))"
  by pat_completeness auto

termination
  by (relation "measure (\<lambda>(pt, src_va, len, dst, s). len - length dst)") (auto dest: user_chunk_pos)

declare copyin_loop.simps [simp del]

definition copyin :: "paddr \<Rightarrow> nat \<Rightarrow> nat \<Rightarrow> kmem \<Rightarrow> byte list option res" where
  "copyin pt len src_va s = copyin_loop pt src_va len [] s"

text \<open>\<open>copyinstr\<close> returns the bytes before the NUL, which is what its callers use of the buffer.\<close>

function copyinstr_loop :: "paddr \<Rightarrow> nat \<Rightarrow> nat \<Rightarrow> byte list \<Rightarrow> kmem \<Rightarrow> byte list option res" where
  "copyinstr_loop pt src_va len dst s =
     (if length dst < len then
        bindE (user_chunk pt (src_va + length dst) (len - length dst) PTE_R s) (\<lambda>r.
        case r of
          None \<Rightarrow> Ok None
        | Some (pa, n) \<Rightarrow>
            let bs = load_bytes (mem s) pa n in
            (case find_slot (\<lambda>b. b = 0) bs of
               Some i \<Rightarrow> Ok (Some (dst @ take i bs))
             | None \<Rightarrow> copyinstr_loop pt src_va len (dst @ bs) s))
      else Ok None)"
  by pat_completeness auto

termination
  by (relation "measure (\<lambda>(pt, src_va, len, dst, s). len - length dst)") (auto dest: user_chunk_pos)

declare copyinstr_loop.simps [simp del]

definition copyinstr :: "paddr \<Rightarrow> nat \<Rightarrow> nat \<Rightarrow> kmem \<Rightarrow> byte list option res" where
  "copyinstr pt len src_va s = copyinstr_loop pt src_va len [] s"

function copyout_loop :: "paddr \<Rightarrow> nat \<Rightarrow> byte list \<Rightarrow> nat \<Rightarrow> kmem \<Rightarrow> (bool \<times> kmem) res" where
  "copyout_loop pt dst_va src count s =
     (if count < length src then
        bindE (user_chunk pt (dst_va + count) (length src - count) PTE_W s) (\<lambda>r.
        case r of
          None \<Rightarrow> Ok (False, s)
        | Some (pa, n) \<Rightarrow>
            copyout_loop pt dst_va src (count + n)
              (s\<lparr>mem := store_bytes pa (take n (drop count src)) (mem s)\<rparr>))
      else Ok (True, s))"
  by pat_completeness auto

termination
  by (relation "measure (\<lambda>(pt, dst_va, src, count, s). length src - count)") (auto dest: user_chunk_pos)

declare copyout_loop.simps [simp del]

definition copyout :: "paddr \<Rightarrow> nat \<Rightarrow> byte list \<Rightarrow> kmem \<Rightarrow> (bool \<times> kmem) res" where
  "copyout pt dst_va src s = copyout_loop pt dst_va src 0 s"

end
