(* ===== verification/Pte.thy ===== *)
theory Pte
  imports Vm
begin

text \<open>
  Facts about single page-table entries and about the arithmetic of virtual addresses: what the
  constructors of \<open>Pte\<close> build is what its accessors read, and a virtual page number is the three
  indices of a walk.
\<close>

section \<open>Entries\<close>

lemmas pte_bits = PTE_V_def PTE_R_def PTE_W_def PTE_X_def PTE_U_def PTE_G_def PTE_A_def PTE_D_def

definition table_pte :: "paddr \<Rightarrow> u64" where
  "table_pte pa = push_bit 10 (ppn pa) OR PTE_V"

definition leaf_pte :: "paddr \<Rightarrow> u64 \<Rightarrow> u64" where
  "leaf_pte pa flags = push_bit 10 (ppn pa) OR flags OR PTE_V OR PTE_A OR PTE_D"

lemma new_table_Ok [simp]: "is_page_aligned pa \<Longrightarrow> new_table pa = Ok (table_pte pa)"
  by (simp add: new_table_def table_pte_def)

lemma new_leaf_Ok [simp]: "is_page_aligned pa \<Longrightarrow> new_leaf pa flags = Ok (leaf_pte pa flags)"
  by (simp add: new_leaf_def leaf_pte_def)

lemma and_push_bit_1: "(a :: u64) AND push_bit n 1 \<noteq> 0 \<longleftrightarrow> n < 64 \<and> bit a n"
  by (auto simp: push_bit_of_1 and_exp_eq_0_iff_not_bit dest: bit_imp_le_length)

lemma is_valid_iff: "is_valid e \<longleftrightarrow> bit e 0"
  by (simp only: is_valid_def PTE_V_def and_push_bit_1) simp

lemma is_leaf_iff: "is_leaf e \<longleftrightarrow> bit e 0 \<and> (bit e 1 \<or> bit e 2 \<or> bit e 3)"
proof -
  have "e AND (PTE_R OR PTE_W OR PTE_X) \<noteq> 0 \<longleftrightarrow> e AND PTE_R \<noteq> 0 \<or> e AND PTE_W \<noteq> 0 \<or> e AND PTE_X \<noteq> 0"
    by (simp only: bit.conj_disj_distrib or_eq_0_iff de_Morgan_conj)
  also have "\<dots> \<longleftrightarrow> bit e 1 \<or> bit e 2 \<or> bit e 3"
    by (simp only: PTE_R_def PTE_W_def PTE_X_def and_push_bit_1) simp
  finally show ?thesis by (simp add: is_leaf_def is_valid_iff)
qed

lemma bit_push_1: "bit (push_bit k 1 :: u64) n \<longleftrightarrow> n = k \<and> k < 64"
  by (auto simp: push_bit_of_1 bit_exp_iff bit_simps)

lemma bit_perm: "k < 64 \<Longrightarrow> e AND push_bit k 1 = push_bit k 1 \<longleftrightarrow> bit e k" for e :: u64
proof
  assume "k < 64" "e AND push_bit k 1 = push_bit k 1"
  then have "bit (e AND push_bit k 1) k" by (simp only: bit_push_1)
  then show "bit e k" by (simp only: bit_and_iff)
next
  assume "bit e k"
  then show "e AND push_bit k 1 = push_bit k 1"
    by (intro bit_word_eqI) (simp only: bit_and_iff bit_push_1, blast)
qed

lemma bit_ppn: "bit (push_bit 10 (ppn pa)) k \<longleftrightarrow> 10 \<le> k \<and> k < 64 \<and> bit pa (k + 2)"
  by (auto simp: ppn_def bit_simps)

lemma bit_table_pte: "bit (table_pte pa) k \<longleftrightarrow> 10 \<le> k \<and> k < 64 \<and> bit pa (k + 2) \<or> k = 0"
  unfolding table_pte_def bit_or_iff bit_ppn PTE_V_def bit_push_1 by auto

lemma bit_leaf_pte:
  "bit (leaf_pte pa flags) k \<longleftrightarrow> 10 \<le> k \<and> k < 64 \<and> bit pa (k + 2) \<or> bit flags k \<or> k = 0 \<or> k = 6 \<or> k = 7"
  unfolding leaf_pte_def bit_or_iff bit_ppn PTE_V_def PTE_A_def PTE_D_def bit_push_1 by auto

lemma not_valid_0 [simp]: "\<not> is_valid 0" "\<not> is_leaf 0"
  by (simp_all add: is_valid_iff is_leaf_iff)

lemma valid_leaf: "is_leaf e \<Longrightarrow> is_valid e"
  by (simp add: is_leaf_def)

lemma valid_table [simp]: "is_valid (table_pte pa)" "\<not> is_leaf (table_pte pa)"
  by (simp_all add: is_valid_iff is_leaf_iff bit_table_pte)

lemma valid_leaf_pte [simp]: "is_valid (leaf_pte pa flags)"
  by (simp add: is_valid_iff bit_leaf_pte)

lemma is_leaf_leaf_pte [simp]: "is_leaf (leaf_pte pa flags) \<longleftrightarrow> bit flags 1 \<or> bit flags 2 \<or> bit flags 3"
  by (simp add: is_leaf_iff bit_leaf_pte)

lemma user_leaf_pte: "leaf_pte pa flags AND PTE_U = 0 \<longleftrightarrow> flags AND PTE_U = 0"
proof -
  have "leaf_pte pa flags AND PTE_U \<noteq> 0 \<longleftrightarrow> flags AND PTE_U \<noteq> 0"
    unfolding PTE_U_def and_push_bit_1 bit_leaf_pte by simp
  then show ?thesis by blast
qed

text \<open>An address an entry can hold is aligned and below \<open>2 ^ 56\<close>; flags are the ten low bits.\<close>

lemma bit_small:
  assumes "unat (w :: u64) < 2 ^ k" and "k \<le> n"
  shows "\<not> bit w n"
proof -
  have "(2 :: nat) ^ k \<le> 2 ^ n" using assms(2) by (rule power_increasing) simp
  with assms(1) have "unat w < 2 ^ n" by (rule order_less_le_trans)
  then have "drop_bit n (unat w) = 0" by (simp add: drop_bit_eq_div)
  then have "unat (drop_bit n w) = 0" by (simp add: unat_drop_bit_eq)
  then have "drop_bit n w = 0" by (simp only: unat_eq_0)
  then show ?thesis by (simp add: bit_iff_odd_drop_bit)
qed

lemma bit_aligned:
  assumes "is_page_aligned a" and "n < 12"
  shows "\<not> bit a n"
proof -
  have "(of_nat PGSIZE - 1 :: u64) = mask 12" by (simp add: PGSIZE_def mask_eq_exp_minus_1)
  with assms(1) have "take_bit 12 a = 0" by (simp add: is_page_aligned_def take_bit_eq_mask)
  with assms(2) show ?thesis by (metis bit_0_eq bit_take_bit_iff bot_apply bot_bool_def)
qed

lemma bit_pte_pa: "bit (pte_pa e) n \<longleftrightarrow> 12 \<le> n \<and> n < 56 \<and> bit e (n - 2)"
proof -
  have m: "(push_bit 44 1 - 1 :: u64) = mask 44" by (simp add: mask_eq_exp_minus_1)
  have "bit (drop_bit 10 e AND mask 44) k \<longleftrightarrow> bit e (k + 10) \<and> k < 44" for k
    unfolding bit_and_iff bit_mask_iff bit_drop_bit_eq by (auto simp: add.commute)
  then have "bit (pte_pa e) n \<longleftrightarrow> 12 \<le> n \<and> n < 64 \<and> bit e (n - 12 + 10) \<and> n - 12 < 44"
    unfolding pte_pa_def m bit_push_bit_iff by (auto simp: bit_simps)
  moreover have "n - 12 + 10 = n - 2" if "12 \<le> n" using that by simp
  ultimately show ?thesis by auto
qed

lemma pte_pa_high:
  assumes "is_page_aligned pa" and "unat pa < 2 ^ 56" and "\<And>n. 10 \<le> n \<Longrightarrow> bit e n \<longleftrightarrow> n < 64 \<and> bit pa (n + 2)"
  shows "pte_pa e = pa"
proof (rule bit_word_eqI)
  fix n assume "n < LENGTH(64)"
  then show "bit (pte_pa e) n = bit pa n"
  proof (cases "12 \<le> n \<and> n < 56")
    case True
    then have "n - 2 + 2 = n" "10 \<le> n - 2" "n - 2 < 64" by arith+
    with assms(3) [of "n - 2"] True show ?thesis unfolding bit_pte_pa by simp
  next
    case False
    then have "n < 12 \<or> 56 \<le> n" by arith
    then have "\<not> bit pa n" using bit_aligned [OF assms(1)] bit_small [OF assms(2)] by blast
    with False show ?thesis unfolding bit_pte_pa by blast
  qed
qed

lemma pte_pa_table [simp]: "is_page_aligned pa \<Longrightarrow> unat pa < 2 ^ 56 \<Longrightarrow> pte_pa (table_pte pa) = pa"
  by (erule pte_pa_high) (auto simp: bit_table_pte)

lemma pte_pa_leaf [simp]:
  assumes "is_page_aligned pa" and "unat pa < 2 ^ 56" and "unat flags < 2 ^ 10"
  shows "pte_pa (leaf_pte pa flags) = pa"
  using assms(1,2) by (rule pte_pa_high) (auto simp: bit_leaf_pte bit_small [OF assms(3)])

lemma pte_flags_leaf:
  assumes "unat flags < 2 ^ 10"
  shows "pte_flags (leaf_pte pa flags) = flags OR PTE_V OR PTE_A OR PTE_D"
proof -
  have m: "(0x3ff :: u64) = mask 10" by (simp add: mask_eq_exp_minus_1)
  show ?thesis
  proof (rule bit_word_eqI)
    fix n assume "n < LENGTH(64)"
    show "bit (pte_flags (leaf_pte pa flags)) n = bit (flags OR PTE_V OR PTE_A OR PTE_D) n"
      unfolding pte_flags_def m bit_and_iff bit_or_iff bit_leaf_pte bit_mask_iff PTE_V_def PTE_A_def PTE_D_def bit_push_1
      using bit_small [OF assms, of n] \<open>n < LENGTH(64)\<close> by (cases "n < 10") auto
  qed
qed

lemma pte_flags_small: "unat (pte_flags e) < 2 ^ 10"
proof -
  have m: "(0x3ff :: u64) = mask 10" by (simp add: mask_eq_exp_minus_1)
  have "unat (take_bit 10 e) < 2 ^ 10" by (simp only: unsigned_take_bit_eq take_bit_nat_less_exp)
  then show ?thesis by (simp only: pte_flags_def m take_bit_eq_mask)
qed

lemma bit_pte_flags: "bit (pte_flags e) n \<longleftrightarrow> n < 10 \<and> bit e n"
proof -
  have m: "(0x3ff :: u64) = mask 10" by (simp add: mask_eq_exp_minus_1)
  show ?thesis unfolding pte_flags_def m bit_and_iff bit_mask_iff by auto
qed

section \<open>Virtual addresses\<close>

lemma and_511: "(n :: nat) AND 0x1ff = n mod 512"
proof -
  have m: "(0x1ff :: nat) = mask 9" by (simp add: mask_eq_exp_minus_1)
  show ?thesis unfolding m take_bit_eq_mask [symmetric] take_bit_eq_mod by simp
qed

lemma pt_index_eq: "pt_index level va = va div PGSIZE div 512 ^ level mod 512"
  by (simp add: pt_index_def and_511 drop_bit_eq_div power_add power_mult PGSIZE_def div_mult2_eq)

lemma va_aligned_iff: "va_aligned va \<longleftrightarrow> va mod PGSIZE = 0"
proof -
  have m: "PGSIZE - 1 = mask 12" by (simp add: mask_eq_exp_minus_1 PGSIZE_def)
  show ?thesis unfolding va_aligned_def m take_bit_eq_mask [symmetric] take_bit_eq_mod by (simp add: PGSIZE_def)
qed

text \<open>The pages that cover \<open>n\<close> bytes.\<close>

definition pages :: "nat \<Rightarrow> nat" where
  "pages n = (n + PGSIZE - 1) div PGSIZE"

lemma page_round_up_eq: "va + PGSIZE < 2 ^ 64 \<Longrightarrow> page_round_up va = Ok (pages va * PGSIZE)"
  by (simp add: page_round_up_def page_round_down_eq pages_def PGSIZE_def)

lemma pages_mult [simp]: "pages (n * PGSIZE) = n"
  by (simp add: pages_def PGSIZE_def)

text \<open>The path of a virtual page number: the indices of the two upper levels.\<close>

definition vpath :: "nat \<Rightarrow> nat list" where
  "vpath v = [v div 512 div 512 mod 512, v div 512 mod 512]"

lemma vpath_inj:
  assumes "vpath v = vpath w" and "v mod 512 = w mod 512" and "v < 512 ^ 3" and "w < 512 ^ 3"
  shows "v = w"
proof -
  have s: "v div 512 div 512 < 512" "w div 512 div 512 < 512" using assms(3,4) by (auto simp: div_mult2_eq [symmetric] div_less_iff_less_mult)
  have "v div 512 div 512 = w div 512 div 512" "v div 512 mod 512 = w div 512 mod 512"
    using assms(1) s by (simp_all add: vpath_def)
  then have "v div 512 = w div 512" using mult_div_mod_eq [of 512 "v div 512"] mult_div_mod_eq [of 512 "w div 512"] by metis
  then show ?thesis using assms(2) mult_div_mod_eq [of 512 v] mult_div_mod_eq [of 512 w] by metis
qed

end
