(* ===== verification/Page_Table.thy ===== *)
theory Page_Table
  imports Pte
begin

text \<open>
  What the bytes of a page table mean.  The table pages are named by the path that leads to them, the
  list of the indices of the upper levels: a partial function \<open>R\<close> from paths to pages.  \<open>pt_rep\<close> says
  that memory holds the tables \<open>R\<close>, and \<open>pte_at\<close> reads the entry of a virtual page number.  The lemmas
  say how \<open>walk\<close> finds or builds the path to an entry and how a store to an entry changes \<open>pte_at\<close>.
\<close>

section \<open>Tables in memory\<close>

type_synonym tables = "nat list \<Rightarrow> paddr option"

definition entry :: "memory \<Rightarrow> paddr \<Rightarrow> nat \<Rightarrow> u64" where
  "entry m t i = load_u64 m (pte_addr t i)"

text \<open>The shape: paths are closed under prefixes, at most two indices long, and lead to distinct pages.\<close>

definition tree_ok :: "tables \<Rightarrow> bool" where
  "tree_ok R \<longleftrightarrow>
     (\<forall>p i. R (p @ [i]) \<noteq> None \<longrightarrow> R p \<noteq> None \<and> i < 512 \<and> length p < 2) \<and>
     (\<forall>p q t. R p = Some t \<longrightarrow> R q = Some t \<longrightarrow> p = q)"

definition tables_ok :: "memory \<Rightarrow> tables \<Rightarrow> bool" where
  "tables_ok m R \<longleftrightarrow>
     (\<forall>p t i. R p = Some t \<longrightarrow> length p < 2 \<longrightarrow> i < 512 \<longrightarrow>
        (case R (p @ [i]) of None \<Rightarrow> \<not> is_valid (entry m t i) | Some c \<Rightarrow> entry m t i = table_pte c))"

definition pt_rep :: "kmem \<Rightarrow> paddr \<Rightarrow> tables \<Rightarrow> bool" where
  "pt_rep s root R \<longleftrightarrow>
     R [] = Some root \<and> tree_ok R \<and> tables_ok (mem s) R \<and> (\<forall>t \<in> ran R. managed s t)"

definition pte_at :: "memory \<Rightarrow> tables \<Rightarrow> nat \<Rightarrow> u64" where
  "pte_at m R v = (case R (vpath v) of None \<Rightarrow> 0 | Some t \<Rightarrow> entry m t (v mod 512))"

text \<open>The tables together with the free list.\<close>

definition vm_inv :: "kmem \<Rightarrow> paddr \<Rightarrow> tables \<Rightarrow> paddr list \<Rightarrow> bool" where
  "vm_inv s root R ps \<longleftrightarrow> pt_rep s root R \<and> free_pages s ps \<and> set ps \<inter> ran R = {}"

lemma managed_small: "managed s t \<Longrightarrow> unat t < 2 ^ 56"
  using managed_range [of s t] by (simp add: PHYSTOP_def PGSIZE_def)

lemma managed_aligned: "managed s t \<Longrightarrow> is_page_aligned t"
  by (simp add: managed_def)

lemma pt_rep_table:
  assumes "pt_rep s root R" and "R p = Some t"
  shows "managed s t" "is_page_aligned t" "unat t < 2 ^ 56"
proof -
  show m: "managed s t" using assms by (auto simp: pt_rep_def ran_def)
  then show "is_page_aligned t" "unat t < 2 ^ 56" by (rule managed_aligned, rule managed_small)
qed

lemma pt_rep_tables: "pt_rep s root R \<Longrightarrow> tables_ok (mem s) R"
  by (simp add: pt_rep_def)

lemma pt_rep_inj: "pt_rep s root R \<Longrightarrow> R p = Some t \<Longrightarrow> R q = Some t \<Longrightarrow> p = q"
  by (auto simp: pt_rep_def tree_ok_def)

lemma pt_rep_parent: "pt_rep s root R \<Longrightarrow> R (p @ [i]) = Some c \<Longrightarrow> \<exists>t. R p = Some t \<and> i < 512 \<and> length p < 2"
  by (auto simp: pt_rep_def tree_ok_def)

lemma pt_rep_length:
  assumes "pt_rep s root R" and "R p = Some t"
  shows "length p \<le> 2"
proof (cases p rule: rev_cases)
  case (snoc q i)
  with pt_rep_parent [OF assms(1), of q i t] assms(2) show ?thesis by auto
qed simp

lemma pt_rep_entry:
  assumes "pt_rep s root R" and "R p = Some t" and "length p < 2" and "i < 512"
  shows "R (p @ [i]) = None \<Longrightarrow> \<not> is_valid (entry (mem s) t i)"
    and "R (p @ [i]) = Some c \<Longrightarrow> entry (mem s) t i = table_pte c"
proof -
  have "case R (p @ [i]) of None \<Rightarrow> \<not> is_valid (entry (mem s) t i) | Some c \<Rightarrow> entry (mem s) t i = table_pte c"
    using assms unfolding pt_rep_def tables_ok_def by blast
  then show "R (p @ [i]) = None \<Longrightarrow> \<not> is_valid (entry (mem s) t i)"
    and "R (p @ [i]) = Some c \<Longrightarrow> entry (mem s) t i = table_pte c" by simp_all
qed

section \<open>Loads and stores of entries\<close>

lemma pte_in_page: "i < 512 \<Longrightarrow> j < 8 \<Longrightarrow> in_page t (pte_addr t i + j)"
  by (simp add: pte_addr_def in_page_def PGSIZE_def)

lemma entry_cong: "i < 512 \<Longrightarrow> (\<And>x. in_page t x \<Longrightarrow> m x = m' x) \<Longrightarrow> entry m t i = entry m' t i"
  unfolding entry_def by (rule load_u64_cong) (simp add: in_page_def pte_addr_def PGSIZE_def)

lemma entry_store_same [simp]: "entry (store_u64 (pte_addr t i) e m) t i = e"
  by (simp add: entry_def)

lemma entry_store_index: "i \<noteq> j \<Longrightarrow> entry (store_u64 (pte_addr t i) e m) t j = entry m t j"
  unfolding entry_def by (rule load_u64_store_other) (auto simp: pte_addr_def)

lemma store_entry_other:
  assumes "\<not> in_page t x" and "i < 512"
  shows "store_u64 (pte_addr t i) e m x = m x"
  using assms unfolding store_u64_def
  by (intro store_bytes_other) (auto simp: pte_addr_def in_page_def PGSIZE_def)

lemma entry_store_page:
  assumes "is_page_aligned t" and "is_page_aligned u" and "t \<noteq> u" and "i < 512" and "j < 512"
  shows "entry (store_u64 (pte_addr t i) e m) u j = entry m u j"
  using assms(5)
proof (rule entry_cong)
  fix x assume "in_page u x"
  with distinct_pages [OF assms(2,1)] assms(3) have "\<not> in_page t x" by blast
  then show "store_u64 (pte_addr t i) e m x = m x" using assms(4) by (rule store_entry_other)
qed

lemma entry_zero: "i < 512 \<Longrightarrow> page m t = replicate PGSIZE 0 \<Longrightarrow> entry m t i = 0"
proof -
  assume i: "i < 512" and z: "page m t = replicate PGSIZE 0"
  have "m (unat t + k) = 0" if "k < PGSIZE" for k
    using z that nth_load_bytes [of k PGSIZE m "unat t"] by (simp add: page_def)
  then have "load_bytes m (pte_addr t i) 8 = replicate 8 0"
    using i by (intro nth_equalityI) (simp_all add: pte_addr_def add.assoc PGSIZE_def)
  moreover have "le_of_word (0 :: u64) = replicate 8 0" by (simp add: le_of_word_def map_replicate_const)
  ultimately show ?thesis using le_words by (metis entry_def load_u64_def)
qed

section \<open>Frames\<close>

lemma tables_ok_cong:
  assumes "tables_ok m R"
    and "\<And>p t i. R p = Some t \<Longrightarrow> length p < 2 \<Longrightarrow> i < 512 \<Longrightarrow> entry m' t i = entry m t i"
  shows "tables_ok m' R"
  unfolding tables_ok_def
proof (intro allI impI)
  fix p t and i :: nat
  assume a: "R p = Some t" "length p < 2" "i < 512"
  then have "case R (p @ [i]) of None \<Rightarrow> \<not> is_valid (entry m t i) | Some c \<Rightarrow> entry m t i = table_pte c"
    using assms(1) by (simp add: tables_ok_def)
  then show "case R (p @ [i]) of None \<Rightarrow> \<not> is_valid (entry m' t i) | Some c \<Rightarrow> entry m' t i = table_pte c"
    by (simp only: assms(2) [OF a])
qed

text \<open>The tables depend on the table pages only.\<close>

lemma pt_rep_frame:
  assumes "pt_rep s root R" and "same_layout s s'"
    and "\<And>t x. t \<in> ran R \<Longrightarrow> in_page t x \<Longrightarrow> mem s' x = mem s x"
  shows "pt_rep s' root R"
proof -
  have "entry (mem s') t i = entry (mem s) t i" if "R p = Some t" "i < 512" for p t i
    using that assms(3) by (intro entry_cong) (auto simp: ran_def)
  then have "tables_ok (mem s') R" by (rule tables_ok_cong [OF pt_rep_tables [OF assms(1)]])
  then show ?thesis using assms(1) same_layout_managed [OF assms(2)] by (simp add: pt_rep_def)
qed

lemma pte_at_frame:
  assumes "\<And>t x. t \<in> ran R \<Longrightarrow> in_page t x \<Longrightarrow> m' x = m x"
  shows "pte_at m' R v = pte_at m R v"
proof (cases "R (vpath v)")
  case (Some t)
  then have "entry m' t (v mod 512) = entry m t (v mod 512)"
    using assms by (intro entry_cong) (auto simp: ran_def)
  with Some show ?thesis by (simp add: pte_at_def)
qed (simp add: pte_at_def)

section \<open>Walking without allocation\<close>

lemma walk_levels_False: "walk_levels ls pt va False s = Ok (r, s') \<Longrightarrow> s' = s"
  by (induction ls arbitrary: pt) (auto simp: Let_def split: if_splits)

lemma walk_down:
  assumes "pt_rep s root R" and "R p = Some t" and "length p < 2" and "i = pt_index l va"
  shows "walk_levels (l # ls) t va False s =
    (case R (p @ [i]) of None \<Rightarrow> Ok (None, s) | Some c \<Rightarrow> walk_levels ls c va False s)"
proof -
  have i: "i < 512" using assms(4) by (simp add: pt_index_eq)
  show ?thesis
  proof (cases "R (p @ [i])")
    case None
    with pt_rep_entry(1) [OF assms(1,2,3) i] assms(4) show ?thesis by (simp add: entry_def Let_def)
  next
    case (Some c)
    with pt_rep_entry(2) [OF assms(1,2,3) i Some] assms(4) pt_rep_table(2,3) [OF assms(1) Some]
    show ?thesis by (simp add: entry_def Let_def)
  qed
qed

lemma vpath_index: "vpath (va div PGSIZE) = [pt_index 2 va, pt_index 1 va]" "pt_index 0 va = va div PGSIZE mod 512"
proof -
  have "n div 512 div 512 = n div 512 ^ 2" for n :: nat by (simp add: div_mult2_eq [symmetric])
  then show "vpath (va div PGSIZE) = [pt_index 2 va, pt_index 1 va]" by (simp only: vpath_def pt_index_eq) simp
qed (simp add: pt_index_eq)

lemma walk_False:
  assumes "pt_rep s root R"
  shows "walk root va False s =
    Ok (map_option (\<lambda>t. pte_addr t (va div PGSIZE mod 512)) (R (vpath (va div PGSIZE))), s)"
proof -
  note step = walk_down [OF assms]
  have root: "R [] = Some root" using assms by (simp add: pt_rep_def)
  note 1 = step [OF root, of "pt_index 2 va" 2 va "[1]"]
  show ?thesis
  proof (cases "R [pt_index 2 va]")
    case None
    have "R [pt_index 2 va, pt_index 1 va] = None"
      using pt_rep_parent [OF assms, of "[pt_index 2 va]"] None by fastforce
    with 1 None show ?thesis by (simp add: walk_def vpath_index)
  next
    case (Some t)
    with 1 step [OF Some, of "pt_index 1 va" 1 va "[]"] show ?thesis
      by (cases "R [pt_index 2 va, pt_index 1 va]") (simp_all add: walk_def vpath_index)
  qed
qed

lemma load_pte_at: "R (vpath v) = Some t \<Longrightarrow> load_u64 m (pte_addr t (v mod 512)) = pte_at m R v"
  by (simp add: pte_at_def entry_def)

text \<open>A page of user memory that grants \<open>perm\<close>.\<close>

definition grants :: "u64 \<Rightarrow> u64 \<Rightarrow> bool" where
  "grants perm e \<longleftrightarrow> is_leaf e \<and> e AND PTE_U \<noteq> 0 \<and> e AND perm = perm"

lemma walk_user_perm_eq:
  assumes "pt_rep s root R"
  shows "walk_user_perm root va perm s =
    Ok (let e = pte_at (mem s) R (va div PGSIZE) in if va < MAXVA \<and> grants perm e then Some e else None)"
proof (cases "R (vpath (va div PGSIZE))")
  case None
  then show ?thesis
    by (simp add: walk_user_perm_def walk_False [OF assms] pte_at_def grants_def)
next
  case (Some t)
  then show ?thesis
    by (auto simp: walk_user_perm_def walk_False [OF assms] load_pte_at [of R, OF Some] grants_def Let_def valid_leaf)
qed

section \<open>Storing an entry\<close>

lemma vpath_length [simp]: "length (vpath v) = 2"
  by (simp add: vpath_def)

lemma store_entry_rep:
  assumes "pt_rep s root R" and t: "R p = Some t" "length p = 2" and i: "i < 512"
  shows "pt_rep (s\<lparr>mem := store_u64 (pte_addr t i) e (mem s)\<rparr>) root R"
proof -
  have "entry (store_u64 (pte_addr t i) e (mem s)) u j = entry (mem s) u j"
    if "R q = Some u" "length q < 2" "j < 512" for q u j
  proof (rule entry_store_page)
    show "t \<noteq> u" using pt_rep_inj [OF assms(1) t(1), of q] that t(2) by auto
  qed (use pt_rep_table(2) [OF assms(1)] t that i in auto)
  then have "tables_ok (store_u64 (pte_addr t i) e (mem s)) R"
    by (rule tables_ok_cong [OF pt_rep_tables [OF assms(1)]])
  with assms(1) show ?thesis by (simp add: pt_rep_def managed_def)
qed

lemma store_entry_at:
  assumes "pt_rep s root R" and t: "R (vpath v) = Some t" and v: "v < 512 ^ 3" "w < 512 ^ 3"
  shows "pte_at (store_u64 (pte_addr t (v mod 512)) e (mem s)) R w = (if w = v then e else pte_at (mem s) R w)"
proof (cases "R (vpath w)")
  case None
  with t show ?thesis by (auto simp: pte_at_def)
next
  case (Some u)
  show ?thesis
  proof (cases "vpath w = vpath v")
    case True
    with Some t have "u = t" by simp
    with Some t True vpath_inj [of w v] v show ?thesis
      by (cases "w mod 512 = v mod 512") (auto simp: pte_at_def entry_store_index)
  next
    case False
    then have "t \<noteq> u" using pt_rep_inj [OF assms(1) t] Some by auto
    with False Some pt_rep_table(2) [OF assms(1)] t show ?thesis
      by (auto simp: pte_at_def entry_store_page)
  qed
qed

lemma store_entry_inv:
  assumes "vm_inv s root R ps" and t: "R p = Some t" "length p = 2" and i: "i < 512"
  shows "vm_inv (s\<lparr>mem := store_u64 (pte_addr t i) e (mem s)\<rparr>) root R ps"
proof -
  note r = assms(1) [unfolded vm_inv_def]
  have tr: "t \<in> ran R" using t(1) by (auto simp: ran_def)
  have "store_u64 (pte_addr t i) e (mem s) x = mem s x" if "q \<in> set ps" "in_page q x" for q x
  proof (rule store_entry_other [OF _ i])
    have "q \<noteq> t" "is_page_aligned q" using r tr that(1) by (auto simp: free_pages_def list_all_iff managed_def)
    then show "\<not> in_page t x" using distinct_pages [of q t x] that(2) pt_rep_table(2) [of s root R p t] r t(1) by blast
  qed
  then have "free_pages (s\<lparr>mem := store_u64 (pte_addr t i) e (mem s)\<rparr>) ps"
    using r by (intro free_pages_frame) auto
  then show ?thesis using r store_entry_rep [of s root R p t i e] t i by (simp add: vm_inv_def)
qed

end
