(* ===== verification/Walk.thy ===== *)
theory Walk
  imports Page_Table
begin

text \<open>
  How \<open>walk\<close> with allocation and \<open>mappages\<close> change an address space: the free pages that become tables,
  the entries that are set, and the memory that is left alone.
\<close>

section \<open>Growing a page table\<close>

definition outside :: "paddr set \<Rightarrow> nat \<Rightarrow> bool" where
  "outside A x \<longleftrightarrow> (\<forall>a \<in> A. \<not> in_page a x)"

text \<open>
  \<open>grows s R ps s' R' ps'\<close>: tables are added from the free list and no page is lost; only pages that were
  tables or free have changed.
\<close>

definition grows :: "kmem \<Rightarrow> tables \<Rightarrow> paddr list \<Rightarrow> kmem \<Rightarrow> tables \<Rightarrow> paddr list \<Rightarrow> bool" where
  "grows s R ps s' R' ps' \<longleftrightarrow>
     same_layout s s' \<and> ran R' \<union> set ps' = ran R \<union> set ps \<and> R \<subseteq>\<^sub>m R' \<and>
     (\<forall>x. outside (ran R \<union> set ps) x \<longrightarrow> mem s' x = mem s x)"

definition same_ptes :: "memory \<Rightarrow> tables \<Rightarrow> memory \<Rightarrow> tables \<Rightarrow> bool" where
  "same_ptes m R m' R' \<longleftrightarrow> (\<forall>v < 512 ^ 3. pte_at m' R' v = pte_at m R v)"

lemma grows_refl [simp]: "grows s R ps s R ps"
  by (simp add: grows_def)

lemma grows_trans: "grows s R ps t S qs \<Longrightarrow> grows t S qs u T rs \<Longrightarrow> grows s R ps u T rs"
  by (auto simp: grows_def intro: same_layout_trans map_le_trans)

lemma grows_sub: "grows s R ps s' R' ps' \<Longrightarrow> R p = Some t \<Longrightarrow> R' p = Some t"
  by (metis domI grows_def map_le_def)

lemma same_ptes_refl [simp]: "same_ptes m R m R"
  by (simp add: same_ptes_def)

lemma same_ptes_trans: "same_ptes m R m' R' \<Longrightarrow> same_ptes m' R' m'' R'' \<Longrightarrow> same_ptes m R m'' R''"
  by (simp add: same_ptes_def)

lemma vm_inv_rep: "vm_inv s root R ps \<Longrightarrow> pt_rep s root R"
  by (simp add: vm_inv_def)

lemma vm_inv_free: "vm_inv s root R ps \<Longrightarrow> free_pages s ps"
  by (simp add: vm_inv_def)

lemma link_table_tree:
  assumes "tree_ok R" and "R p = Some t" and "length p < 2" and "i < 512" and "c \<notin> ran R" and "R (p @ [i]) = None"
  shows "tree_ok (R(p @ [i] \<mapsto> c))"
  unfolding tree_ok_def
proof (intro conjI allI impI)
  fix q j assume a: "(R(p @ [i] \<mapsto> c)) (q @ [j]) \<noteq> None"
  have "R q \<noteq> None \<and> j < 512 \<and> length q < 2"
  proof (cases "q @ [j] = p @ [i]")
    case True
    with assms(2-4) show ?thesis by simp
  next
    case False
    with a have "R (q @ [j]) \<noteq> None" by (metis fun_upd_other)
    with assms(1) show ?thesis unfolding tree_ok_def by blast
  qed
  then show "(R(p @ [i] \<mapsto> c)) q \<noteq> None" "j < 512" "length q < 2" by simp_all
next
  fix q r u assume a: "(R(p @ [i] \<mapsto> c)) q = Some u" "(R(p @ [i] \<mapsto> c)) r = Some u"
  have n: "R q' \<noteq> Some c" for q' using assms(5) by (auto simp: ran_def)
  have e: "q' = r'" if "R q' = Some u" "R r' = Some u" for q' r' using assms(1) that unfolding tree_ok_def by blast
  show "q = r" using a n e by (simp split: if_splits)
qed

lemma link_table:
  assumes v: "vm_inv s root R ps" and t: "R p = Some t" "length p < 2" and i: "i < 512" "R (p @ [i]) = None"
    and k: "kalloc_zeroed s = (Some c, s1)"
  defines "s2 \<equiv> s1\<lparr>mem := store_u64 (pte_addr t i) (table_pte c) (mem s1)\<rparr>"
    and "S \<equiv> R(p @ [i] \<mapsto> c)"
  obtains qs where "ps = c # qs" "vm_inv s2 root S qs" "grows s R ps s2 S qs" "same_ptes (mem s) R (mem s2) S"
proof -
  note r = vm_inv_rep [OF v] and f = vm_inv_free [OF v]
  from f obtain qs where q: "ps = c # qs" "free_pages s1 qs" "same_layout s s1" "managed s c" "c \<notin> set qs"
      "page (mem s1) c = replicate PGSIZE 0" "\<And>x. \<not> in_page c x \<Longrightarrow> mem s1 x = mem s x"
    using k by (cases rule: kalloc_zeroed_cases) auto
  have cR: "c \<notin> ran R" and qR: "set qs \<inter> ran R = {}" using v q(1) by (auto simp: vm_inv_def)
  have tc: "t \<noteq> c" using cR t(1) by (auto simp: ran_def)
  note al = pt_rep_table(2) [OF r] managed_aligned [OF q(4)]
  have fr: "mem s2 x = mem s x" if "\<not> in_page c x" "\<not> in_page t x" for x
    using that q(7) by (simp add: s2_def store_entry_other i)
  have E1: "entry (mem s2) t j = (if j = i then table_pte c else entry (mem s) t j)" if "j < 512" for j
  proof -
    have "entry (mem s1) t j = entry (mem s) t j"
      using that q(7) distinct_pages [OF al(1) [OF t(1)] al(2) tc] by (intro entry_cong) auto
    then show ?thesis by (simp add: s2_def entry_store_index)
  qed
  have E2: "entry (mem s2) u j = entry (mem s) u j" if "R q = Some u" "u \<noteq> t" "j < 512" for q u j
  proof (rule entry_cong [OF that(3)])
    fix x assume x: "in_page u x"
    have "u \<noteq> c" using cR that(1) by (auto simp: ran_def)
    with x show "mem s2 x = mem s x"
      using distinct_pages [OF al(1) [OF that(1)] al(2)] distinct_pages [OF al(1) [OF that(1)] al(1) [OF t(1)] that(2)]
      by (intro fr) auto
  qed
  have E3: "entry (mem s2) c j = 0" if "j < 512" for j
    using entry_store_page [OF al(1) [OF t(1)] al(2) tc i(1) that] entry_zero [OF that q(6)] by (simp add: s2_def)
  have ok: "tables_ok (mem s2) S"
    unfolding tables_ok_def
  proof (intro allI impI)
    fix q u j
    assume a: "S q = Some u" "length q < 2" "j < (512 :: nat)"
    show "case S (q @ [j]) of None \<Rightarrow> \<not> is_valid (entry (mem s2) u j) | Some d \<Rightarrow> entry (mem s2) u j = table_pte d"
    proof (cases "q = p @ [i]")
      case True
      have "R ((p @ [i]) @ [j]) = None" using pt_rep_parent [OF r, of "p @ [i]" j] i(2) by (cases "R ((p @ [i]) @ [j])") auto
      with True a have "S (q @ [j]) = None" "u = c" by (simp_all add: S_def)
      with E3 [OF a(3)] show ?thesis by simp
    next
      case False
      with a(1) have q: "R q = Some u" by (simp add: S_def)
      show ?thesis
      proof (cases "q = p \<and> j = i")
        case True
        with q t(1) E1 [OF a(3)] show ?thesis by (simp add: S_def)
      next
        case F: False
        have "entry (mem s2) u j = entry (mem s) u j"
          using E1 [OF a(3)] E2 [OF q _ a(3)] pt_rep_inj [OF r q, of p] t(1) F by (cases "u = t") auto
        moreover have "S (q @ [j]) = R (q @ [j])" using F by (auto simp: S_def)
        ultimately show ?thesis using pt_rep_entry [OF r q a(2,3)] by (simp split: option.split)
      qed
    qed
  qed
  have ran: "ran S = insert c (ran R)" using i(2) by (simp add: S_def)
  have lay: "same_layout s s2" using q(3) by (simp add: s2_def same_layout_def)
  have "free_pages s2 qs"
    unfolding s2_def
  proof (rule free_pages_frame [OF q(2)])
    fix u x assume u: "u \<in> set qs" "in_page u x"
    have "u \<noteq> t" "is_page_aligned u" using qR u(1) t(1) q(2) by (auto simp: ran_def free_pages_def list_all_iff managed_def)
    then show "store_u64 (pte_addr t i) (table_pte c) (mem s1) x = mem s1 x"
      using distinct_pages [of u t x] al(1) [OF t(1)] u(2) i(1) by (intro store_entry_other) auto
  qed
  moreover have "R [] = Some root" "\<And>u. u \<in> ran R \<Longrightarrow> managed s u" "tree_ok R" using r by (auto simp: pt_rep_def)
  ultimately have inv: "vm_inv s2 root S qs"
    using ok link_table_tree [of R p t i c] t i cR q(4,5) qR ran same_layout_managed [OF lay]
    by (auto simp: vm_inv_def pt_rep_def S_def)
  have gr: "grows s R ps s2 S qs"
    using lay ran q(1) i(2) fr t(1) by (auto simp: grows_def S_def map_le_def outside_def ran_def)
  have sp: "same_ptes (mem s) R (mem s2) S"
    unfolding same_ptes_def
  proof (intro allI impI)
    fix v :: nat
    show "pte_at (mem s2) S v = pte_at (mem s) R v"
    proof (cases "vpath v = p @ [i]")
      case True
      then show ?thesis using i(2) E3 [of "v mod 512"] by (simp add: pte_at_def S_def)
    next
      case False
      have "u \<noteq> t" if "R (vpath v) = Some u" for u using pt_rep_inj [OF r that, of p] t by (auto dest: arg_cong [where f = length])
      with False E2 [of "vpath v" _ "v mod 512"] show ?thesis by (auto simp: pte_at_def S_def split: option.split)
    qed
  qed
  show thesis by (rule that [OF q(1) inv gr sp])
qed

section \<open>Walking with allocation\<close>

text \<open>One level: the table below is found or made, or there is no free page.\<close>

lemma walk_level_True:
  assumes v: "vm_inv s root R ps" and t: "R p = Some t" "length p < 2" and i: "i = pt_index l va"
  obtains (stop) "walk_levels (l # ls) t va True s = Ok (None, s)" "ps = []" "R (p @ [i]) = None"
  | (go) s' R' ps' c where "walk_levels (l # ls) t va True s = walk_levels ls c va True s'" "R' (p @ [i]) = Some c"
      "vm_inv s' root R' ps'" "grows s R ps s' R' ps'" "same_ptes (mem s) R (mem s') R'"
      "length ps \<le> length ps' + 1" "R (p @ [i]) \<noteq> None \<longrightarrow> ps' = ps"
proof -
  note r = vm_inv_rep [OF v]
  have i5: "i < 512" using i by (simp add: pt_index_eq)
  show thesis
  proof (cases "R (p @ [i])")
    case (Some c)
    have "walk_levels (l # ls) t va True s = walk_levels ls c va True s"
      using pt_rep_entry(2) [OF r t i5 Some] i pt_rep_table(2,3) [OF r Some] by (simp add: entry_def Let_def)
    then show thesis using Some v by (intro go [of c s R ps]) simp_all
  next
    case None
    have e: "\<not> is_valid (load_u64 (mem s) (pte_addr t (pt_index l va)))"
      using pt_rep_entry(1) [OF r t i5 None] i by (simp add: entry_def)
    from vm_inv_free [OF v] show thesis
    proof (cases rule: kalloc_zeroed_cases)
      case none
      then show thesis using e None by (intro stop) (simp_all add: Let_def)
    next
      case (page c qs s1)
      note k = page(2)
      from link_table [OF v t i5 None k] obtain qs' where
        q: "ps = c # qs'" "vm_inv (s1\<lparr>mem := store_u64 (pte_addr t i) (table_pte c) (mem s1)\<rparr>) root (R(p @ [i] \<mapsto> c)) qs'"
          "grows s R ps (s1\<lparr>mem := store_u64 (pte_addr t i) (table_pte c) (mem s1)\<rparr>) (R(p @ [i] \<mapsto> c)) qs'"
          "same_ptes (mem s) R (mem (s1\<lparr>mem := store_u64 (pte_addr t i) (table_pte c) (mem s1)\<rparr>)) (R(p @ [i] \<mapsto> c))" .
      have "is_page_aligned c" using page(5) by (rule managed_aligned)
      with e k i have "walk_levels (l # ls) t va True s =
          walk_levels ls c va True (s1\<lparr>mem := store_u64 (pte_addr t i) (table_pte c) (mem s1)\<rparr>)"
        by (simp add: Let_def)
      then show thesis
        by (rule go [OF _ _ q(2-4)]) (use q(1) None in simp_all)
    qed
  qed
qed

lemma walk_True:
  assumes v: "vm_inv s root R ps"
  obtains (stop) s' R' where "walk root va True s = Ok (None, s')" "vm_inv s' root R' []" "grows s R ps s' R' []"
      "same_ptes (mem s) R (mem s') R'" "length ps < 2" "R (vpath (va div PGSIZE)) = None"
  | (found) s' R' ps' t where "walk root va True s = Ok (Some (pte_addr t (va div PGSIZE mod 512)), s')"
      "R' (vpath (va div PGSIZE)) = Some t" "vm_inv s' root R' ps'" "grows s R ps s' R' ps'"
      "same_ptes (mem s) R (mem s') R'" "length ps \<le> length ps' + 2"
      "R (vpath (va div PGSIZE)) \<noteq> None \<longrightarrow> ps' = ps"
proof -
  have root: "R [] = Some root" using v by (simp add: vm_inv_def pt_rep_def)
  let ?i = "pt_index 2 va" and ?j = "pt_index 1 va"
  have vp: "vpath (va div PGSIZE) = [?i, ?j]" "pt_index 0 va = va div PGSIZE mod 512" by (rule vpath_index)+
  have up: "R [?i, ?j] = None" if "R [?i] = None"
    using that pt_rep_parent [OF vm_inv_rep [OF v], of "[?i]" ?j] by (cases "R [?i, ?j]") auto
  show thesis
  proof (rule walk_level_True [OF v root, where i = ?i and l = 2 and va = va and ls = "[1]"])
    assume "walk_levels [2, 1] root va True s = Ok (None, s)" "ps = []" "R ([] @ [?i]) = None"
    with v up show thesis by (intro that(1) [of s R]) (auto simp: walk_def vp simp del: walk_levels.simps(2))
  next
    fix s1 R1 ps1 c
    assume 1: "walk_levels [2, 1] root va True s = walk_levels [1] c va True s1" "R1 ([] @ [?i]) = Some c"
      "vm_inv s1 root R1 ps1" "grows s R ps s1 R1 ps1" "same_ptes (mem s) R (mem s1) R1"
      "length ps \<le> length ps1 + 1" "R ([] @ [?i]) \<noteq> None \<longrightarrow> ps1 = ps"
    have sub: "R [?i, ?j] = None" if "R1 [?i, ?j] = None"
      using that grows_sub [OF 1(4)] by (cases "R [?i, ?j]") auto
    show thesis
    proof (rule walk_level_True [OF 1(3,2), where i = ?j and l = 1 and va = va and ls = "[]"])
      assume "walk_levels [1] c va True s1 = Ok (None, s1)" "ps1 = []" "R1 (([] @ [?i]) @ [?j]) = None"
      with 1 sub show thesis by (intro that(1) [of s1 R1]) (auto simp: walk_def vp simp del: walk_levels.simps(2))
    next
      fix s2 R2 ps2 d
      assume 2: "walk_levels [1] c va True s1 = walk_levels [] d va True s2" "R2 (([] @ [?i]) @ [?j]) = Some d"
        "vm_inv s2 root R2 ps2" "grows s1 R1 ps1 s2 R2 ps2" "same_ptes (mem s1) R1 (mem s2) R2"
        "length ps1 \<le> length ps2 + 1" "R1 (([] @ [?i]) @ [?j]) \<noteq> None \<longrightarrow> ps2 = ps1"
      show thesis
        by (rule that(2) [OF _ _ 2(3) grows_trans [OF 1(4) 2(4)] same_ptes_trans [OF 1(5) 2(5)]])
          (use 1 2 sub up in \<open>auto simp: walk_def vp simp del: walk_levels.simps(2)\<close>)
    qed simp_all
  qed simp_all
qed

section \<open>Mapping pages\<close>

lemma store_grows:
  assumes "R p = Some t" and "i < 512"
  shows "grows s R ps (s\<lparr>mem := store_u64 (pte_addr t i) e (mem s)\<rparr>) R ps"
  using assms by (auto simp: grows_def same_layout_def outside_def ran_def intro!: store_entry_other)

text \<open>The \<open>k\<close>-th page after \<open>pa\<close>.\<close>

definition frame :: "paddr \<Rightarrow> nat \<Rightarrow> paddr" where
  "frame pa k = of_nat (unat pa + k * PGSIZE)"

lemma unat_frame: "unat pa + k * PGSIZE < 2 ^ 64 \<Longrightarrow> unat (frame pa k) = unat pa + k * PGSIZE"
  unfolding frame_def by (subst unat_of_nat) simp

lemma frame_0 [simp]: "frame pa 0 = pa"
  by (simp add: frame_def)

lemma frame_frame: "unat pa + PGSIZE < 2 ^ 64 \<Longrightarrow> frame (frame pa 1) k = frame pa (Suc k)"
  using unat_frame [of pa 1] unfolding frame_def [of _ k] frame_def [of _ "Suc k"] by (simp add: add.assoc)

lemma aligned_frame: "is_page_aligned pa \<Longrightarrow> unat pa + k * PGSIZE < 2 ^ 64 \<Longrightarrow> is_page_aligned (frame pa k)"
  by (simp add: aligned_iff unat_frame)

lemma pa_add_frame: "unat pa + PGSIZE < 2 ^ 64 \<Longrightarrow> pa_add pa PGSIZE = Ok (frame pa 1)"
  by (simp add: pa_add_def frame_def)

text \<open>The entries after \<open>n\<close> pages from \<open>v\<close> on have been mapped to the frames from \<open>pa\<close> on.\<close>

definition mapped :: "(nat \<Rightarrow> u64) \<Rightarrow> nat \<Rightarrow> nat \<Rightarrow> paddr \<Rightarrow> u64 \<Rightarrow> nat \<Rightarrow> u64" where
  "mapped f v n pa flags w =
     (if v \<le> w \<and> w < v + n then leaf_pte (frame pa (w - v)) flags else f w)"

lemma mapped_0 [simp]: "mapped f v 0 pa flags = f"
  by (auto simp: mapped_def fun_eq_iff)

lemma mapped_1: "mapped f v (Suc 0) pa flags = f(v := leaf_pte pa flags)"
  by (auto simp: mapped_def fun_eq_iff)

lemma mapped_Suc:
  assumes "unat pa + PGSIZE < 2 ^ 64"
  shows "mapped (f(v := leaf_pte pa flags)) (Suc v) n (frame pa 1) flags = mapped f v (Suc n) pa flags"
proof
  fix w
  have "frame (frame pa 1) (w - Suc v) = frame pa (w - v)" if "Suc v \<le> w"
  proof -
    have "w - v = Suc (w - Suc v)" using that by simp
    then show ?thesis using frame_frame [OF assms] by simp
  qed
  then show "mapped (f(v := leaf_pte pa flags)) (Suc v) n (frame pa 1) flags w = mapped f v (Suc n) pa flags w"
    by (cases "w = v") (auto simp: mapped_def)
qed

lemma mapped_cong: "f w = g w \<Longrightarrow> mapped f v n pa flags w = mapped g v n pa flags w"
  by (simp add: mapped_def)

text \<open>
  What \<open>mappages\<close> of \<open>n\<close> pages does: \<open>k\<close> pages are mapped, all of them if it succeeds.  It takes at most two
  pages for tables per page, and fails only if it runs out of them or meets a page that is mapped.
\<close>

definition mapping :: "paddr \<Rightarrow> kmem \<Rightarrow> tables \<Rightarrow> paddr list \<Rightarrow> nat \<Rightarrow> nat \<Rightarrow> paddr \<Rightarrow> u64 \<Rightarrow> bool \<Rightarrow> kmem \<Rightarrow> tables \<Rightarrow> paddr list \<Rightarrow> bool" where
  "mapping root s R ps v n pa flags ok s' R' ps' \<longleftrightarrow>
     vm_inv s' root R' ps' \<and> grows s R ps s' R' ps' \<and> length ps \<le> length ps' + 2 * n \<and>
     (\<exists>k \<le> n. (\<forall>w < 512 ^ 3. pte_at (mem s') R' w = mapped (pte_at (mem s) R) v k pa flags w) \<and>
        (if ok then k = n else k < n \<and> (ps' = [] \<and> length ps < 2 * n \<or> is_valid (pte_at (mem s) R (v + k)))))"

lemma mapping_step:
  assumes a: "grows s R ps s1 R1 ps1" "same_ptes (mem s) R (mem s1) R1" "\<not> is_valid (pte_at (mem s) R v)"
    and l: "length ps \<le> length ps1 + 2"
    and t: "R1 (vpath v) = Some t" "vm_inv s1 root R1 ps1" and v: "v + Suc n \<le> 512 ^ 3"
    and pa: "unat pa + PGSIZE < 2 ^ 64"
    and m: "mapping root (s1\<lparr>mem := store_u64 (pte_addr t (v mod 512)) (leaf_pte pa flags) (mem s1)\<rparr>) R1 ps1
      (Suc v) n (frame pa 1) flags ok s' R' ps'"
  shows "mapping root s R ps v (Suc n) pa flags ok s' R' ps'"
proof -
  let ?s2 = "s1\<lparr>mem := store_u64 (pte_addr t (v mod 512)) (leaf_pte pa flags) (mem s1)\<rparr>"
  have at: "pte_at (mem ?s2) R1 w = ((pte_at (mem s) R)(v := leaf_pte pa flags)) w" if "w < 512 ^ 3" for w
    using store_entry_at [OF vm_inv_rep [OF t(2)] t(1) _ that] v a(2) that by (simp add: same_ptes_def)
  from m have l1: "length ps1 \<le> length ps' + 2 * n" by (simp add: mapping_def)
  from m obtain k where k: "k \<le> n"
      "if ok then k = n else k < n \<and> (ps' = [] \<and> length ps1 < 2 * n \<or> is_valid (pte_at (mem ?s2) R1 (Suc v + k)))"
      "\<And>w. w < 512 ^ 3 \<Longrightarrow> pte_at (mem s') R' w = mapped (pte_at (mem ?s2) R1) (Suc v) k (frame pa 1) flags w"
    and i: "vm_inv s' root R' ps'" "grows ?s2 R1 ps1 s' R' ps'"
    unfolding mapping_def by blast
  have "pte_at (mem s') R' w = mapped (pte_at (mem s) R) v (Suc k) pa flags w" if "w < 512 ^ 3" for w
    using k(3) [OF that] mapped_cong [of _ w "(pte_at (mem s) R)(v := leaf_pte pa flags)"] at [OF that] mapped_Suc [OF pa] by metis
  moreover have "if ok then Suc k = Suc n else Suc k < Suc n \<and>
      (ps' = [] \<and> length ps < 2 * Suc n \<or> is_valid (pte_at (mem s) R (v + Suc k)))"
    using k(2) at [of "Suc v + k"] v l by (auto split: if_splits)
  moreover have "length ps \<le> length ps' + 2 * Suc n" using l l1 by simp
  moreover have "grows s R ps s' R' ps'"
    using grows_trans [OF a(1) grows_trans [OF store_grows i(2)]] t(1) by simp
  ultimately show ?thesis using k(1) i(1) unfolding mapping_def by (metis Suc_le_mono)
qed

lemma mappages_loop_spec:
  assumes "vm_inv s root R ps" and "is_page_aligned pa" and "unat pa + n * PGSIZE < 2 ^ 64" and "v + n \<le> 512 ^ 3"
  shows "\<exists>ok s' R' ps'. mappages_loop root (v * PGSIZE) ((v + n) * PGSIZE) pa flags s = Ok (ok, s') \<and>
    mapping root s R ps v n pa flags ok s' R' ps'"
  using assms
proof (induction n arbitrary: s R ps v pa)
  case 0
  have "mapping root s R ps v 0 pa flags True s R ps" using 0 by (simp add: mapping_def)
  moreover have "mappages_loop root (v * PGSIZE) ((v + 0) * PGSIZE) pa flags s = Ok (True, s)"
    by (simp add: mappages_loop.simps [of root "v * PGSIZE"])
  ultimately show ?case by blast
next
  case (Suc n)
  note v = Suc.prems(1)
  have lt: "v * PGSIZE < (v + Suc n) * PGSIZE" by (simp add: PGSIZE_def)
  have pa: "unat pa + PGSIZE < 2 ^ 64" "unat pa + PGSIZE + n * PGSIZE < 2 ^ 64" using Suc.prems(3) by simp_all
  have al: "is_page_aligned (frame pa 1)" "unat (frame pa 1) = unat pa + PGSIZE"
    using aligned_frame [OF Suc.prems(2), of 1] unat_frame [of pa 1] pa(1) by simp_all
  have va: "v * PGSIZE + PGSIZE < 2 ^ 64" using Suc.prems(4) by (simp add: PGSIZE_def)
  have vd: "v * PGSIZE div PGSIZE = v" by (simp add: PGSIZE_def)
  note unf = mappages_loop.simps [of root "v * PGSIZE" "(v + Suc n) * PGSIZE"] lt
  from v show ?case
  proof (cases rule: walk_True [where va = "v * PGSIZE"])
    case (stop s' R')
    then have "mapping root s R ps v (Suc n) pa flags False s' R' []"
      unfolding mapping_def same_ptes_def by (intro conjI exI [of _ 0]) simp_all
    moreover have "mappages_loop root (v * PGSIZE) ((v + Suc n) * PGSIZE) pa flags s = Ok (False, s')"
      unfolding unf(1) using lt stop(1) by simp
    ultimately show ?thesis by blast
  next
    case (found s1 R1 ps1 t)
    note f = found [unfolded vd]
    have ld: "load_u64 (mem s1) (pte_addr t (v mod 512)) = pte_at (mem s) R v"
      using load_pte_at [of R1, OF f(2)] f(5) Suc.prems(4) by (simp add: same_ptes_def)
    show ?thesis
    proof (cases "is_valid (pte_at (mem s) R v)")
      case True
      then have "mapping root s R ps v (Suc n) pa flags False s1 R1 ps1"
        using f unfolding mapping_def same_ptes_def by (intro conjI exI [of _ 0]) simp_all
      moreover have "mappages_loop root (v * PGSIZE) ((v + Suc n) * PGSIZE) pa flags s = Ok (False, s1)"
        unfolding unf(1) using lt f(1) ld True by simp
      ultimately show ?thesis by blast
    next
      case False
      let ?s2 = "s1\<lparr>mem := store_u64 (pte_addr t (v mod 512)) (leaf_pte pa flags) (mem s1)\<rparr>"
      have inv: "vm_inv ?s2 root R1 ps1" by (rule store_entry_inv [OF f(3,2)]) simp_all
      have "mappages_loop root (v * PGSIZE) ((v + Suc n) * PGSIZE) pa flags s =
          mappages_loop root (Suc v * PGSIZE) ((Suc v + n) * PGSIZE) (frame pa 1) flags ?s2"
        unfolding unf(1) using lt f(1) ld False Suc.prems(2) va pa(1) by (simp add: pa_add_frame add.commute)
      moreover obtain ok s' R' ps' where
        "mappages_loop root (Suc v * PGSIZE) ((Suc v + n) * PGSIZE) (frame pa 1) flags ?s2 = Ok (ok, s')"
        "mapping root ?s2 R1 ps1 (Suc v) n (frame pa 1) flags ok s' R' ps'"
        using Suc.IH [OF inv al(1), of "Suc v"] al(2) pa(2) Suc.prems(4) by auto
      ultimately show ?thesis using mapping_step [OF f(4,5) False f(6,2,3) Suc.prems(4) pa(1)] by metis
    qed
  qed
qed

end
