(* ===== verification/Unmap.thy ===== *)
theory Unmap
  imports Walk
begin

text \<open>
  \<open>mappages\<close> as a whole, \<open>uvmunmap\<close>, and \<open>freewalk\<close>: what they do to the entries of an address space and
  to the free list.
\<close>

section \<open>Mapping\<close>

lemma pages_add: "pages (v * PGSIZE + len) = v + pages len"
  by (simp add: pages_def PGSIZE_def)

lemma pages_bound: "n \<le> pages n * PGSIZE"
proof -
  have "(n + PGSIZE - 1) mod PGSIZE < PGSIZE" by (simp add: PGSIZE_def)
  moreover have "pages n * PGSIZE = n + PGSIZE - 1 - (n + PGSIZE - 1) mod PGSIZE"
    by (simp add: pages_def minus_mod_eq_div_mult)
  ultimately show ?thesis by simp
qed

lemma va_div [simp]: "v * PGSIZE div PGSIZE = v" "v * PGSIZE mod PGSIZE = 0"
  by (simp_all add: PGSIZE_def)

lemma mappages_spec:
  assumes "vm_inv s root R ps" and "is_page_aligned pa" and "0 < len"
    and "unat pa + pages len * PGSIZE < 2 ^ 64" and v: "v + pages len \<le> 512 ^ 3"
  shows "\<exists>ok s' R' ps'. mappages root (v * PGSIZE) len pa flags s = Ok (ok, s') \<and>
    mapping root s R ps v (pages len) pa flags ok s' R' ps'"
proof -
  have "len \<le> pages len * PGSIZE" by (rule pages_bound)
  moreover have "(v + pages len) * PGSIZE \<le> 512 ^ 3 * PGSIZE" using v by (rule mult_le_mono1)
  ultimately have b: "v * PGSIZE + len + PGSIZE < 2 ^ 64" by (simp add: PGSIZE_def algebra_simps)
  then have "page_round_up (v * PGSIZE + len) = Ok ((v + pages len) * PGSIZE)"
    by (simp only: page_round_up_eq pages_add)
  moreover have "usize_add (v * PGSIZE) len = Ok (v * PGSIZE + len)" using b by simp
  ultimately have "mappages root (v * PGSIZE) len pa flags s =
      mappages_loop root (v * PGSIZE) ((v + pages len) * PGSIZE) pa flags s"
    using assms(2,3) by (simp add: mappages_def va_aligned_iff)
  then show ?thesis using mappages_loop_spec [OF assms(1,2,4) v] by simp
qed

lemma pages_PGSIZE [simp]: "pages PGSIZE = 1"
  using pages_mult [of 1] by simp

lemma mappages_one:
  assumes "vm_inv s root R ps" and "is_page_aligned pa" and "unat pa + PGSIZE < 2 ^ 64" and "v < 512 ^ 3"
  obtains (ok) s' R' ps' where "mappages root (v * PGSIZE) PGSIZE pa flags s = Ok (True, s')" "vm_inv s' root R' ps'"
      "grows s R ps s' R' ps'"
      "\<And>w. w < 512 ^ 3 \<Longrightarrow> pte_at (mem s') R' w = ((pte_at (mem s) R)(v := leaf_pte pa flags)) w" "length ps \<le> length ps' + 2"
  | (fail) s' R' ps' where "mappages root (v * PGSIZE) PGSIZE pa flags s = Ok (False, s')" "vm_inv s' root R' ps'"
      "grows s R ps s' R' ps'" "same_ptes (mem s) R (mem s') R'" "ps' = [] \<and> length ps < 2 \<or> is_valid (pte_at (mem s) R v)"
proof -
  have "0 < PGSIZE" by (simp add: PGSIZE_def)
  from mappages_spec [OF assms(1,2) this, of v flags] assms(3,4) obtain b s' R' ps'
    where m: "mappages root (v * PGSIZE) PGSIZE pa flags s = Ok (b, s')"
      and g: "mapping root s R ps v 1 pa flags b s' R' ps'" by auto
  from g obtain k where k: "k \<le> 1" "vm_inv s' root R' ps'" "grows s R ps s' R' ps'"
      "\<forall>w < 512 ^ 3. pte_at (mem s') R' w = mapped (pte_at (mem s) R) v k pa flags w"
      "if b then k = 1 else k < 1 \<and> (ps' = [] \<and> length ps < 2 * 1 \<or> is_valid (pte_at (mem s) R (v + k)))"
      "length ps \<le> length ps' + 2 * 1"
    unfolding mapping_def by blast
  show thesis
  proof (cases b)
    case True
    with k have "k = Suc 0" by simp
    with k(4) have "\<And>w. w < 512 ^ 3 \<Longrightarrow> pte_at (mem s') R' w = ((pte_at (mem s) R)(v := leaf_pte pa flags)) w"
      by (simp only: mapped_1)
    moreover have "mappages root (v * PGSIZE) PGSIZE pa flags s = Ok (True, s')" using m True by simp
    moreover have "length ps \<le> length ps' + 2" using k(6) by simp
    ultimately show thesis using ok k(2,3) by blast
  next
    case False
    with k have z: "k = 0" by simp
    with k(4) have "same_ptes (mem s) R (mem s') R'" by (simp add: same_ptes_def)
    moreover have "mappages root (v * PGSIZE) PGSIZE pa flags s = Ok (False, s')" using m False by simp
    moreover have "ps' = [] \<and> length ps < 2 \<or> is_valid (pte_at (mem s) R v)" using k(5) z False by simp
    ultimately show thesis using fail k(2,3) by blast
  qed
qed

section \<open>Unmapping\<close>

text \<open>The frames behind \<open>n\<close> pages from \<open>v\<close> on.\<close>

definition frames :: "memory \<Rightarrow> tables \<Rightarrow> nat list \<Rightarrow> paddr list" where
  "frames m R vs = map (\<lambda>w. pte_pa (pte_at m R w)) vs"

lemma pte_at_bound: "is_valid (pte_at m R v) \<Longrightarrow> \<exists>t. R (vpath v) = Some t"
  by (cases "R (vpath v)") (simp_all add: pte_at_def)

text \<open>Freeing a page that is neither a table nor free keeps the tables.\<close>

lemma kfree_vm_inv:
  assumes v: "vm_inv s root R ps" and a: "managed s a" "a \<notin> set ps" "a \<notin> ran R"
  obtains s' where "kfree a s = Ok s'" "vm_inv s' root R (a # ps)" "same_layout s s'"
    "\<And>w. pte_at (mem s') R w = pte_at (mem s) R w" "\<And>x. \<not> in_page a x \<Longrightarrow> mem s' x = mem s x"
proof (rule kfree_spec [OF vm_inv_free [OF v] a(1,2)])
  fix s'
  assume k: "kfree a s = Ok s'" "free_pages s' (a # ps)" "same_layout s s'" "\<And>x. \<not> in_page a x \<Longrightarrow> mem s' x = mem s x"
  have fr: "mem s' x = mem s x" if "t \<in> ran R" "in_page t x" for t x
  proof (rule k(4))
    have "managed s t" using v that(1) by (simp add: vm_inv_def pt_rep_def)
    then show "\<not> in_page a x"
      using distinct_pages [of t a x] that a(1,3) by (auto simp: managed_def)
  qed
  have "vm_inv s' root R (a # ps)"
    using pt_rep_frame [OF vm_inv_rep [OF v] k(3) fr] v k(2) a(3) by (auto simp: vm_inv_def)
  then show thesis using k pte_at_frame [of R "mem s'" "mem s"] fr by (intro that [of s']) auto
qed

text \<open>What \<open>uvmunmap\<close> leaves: the entries cleared, the frames on the free list if they were to be freed.\<close>

definition unmapped :: "paddr \<Rightarrow> kmem \<Rightarrow> tables \<Rightarrow> paddr list \<Rightarrow> nat set \<Rightarrow> paddr list \<Rightarrow> kmem \<Rightarrow> bool" where
  "unmapped root s R ps vs fs s' \<longleftrightarrow>
     vm_inv s' root R (rev fs @ ps) \<and> same_layout s s' \<and>
     (\<forall>w < 512 ^ 3. pte_at (mem s') R w = (if w \<in> vs then 0 else pte_at (mem s) R w)) \<and>
     (\<forall>x. outside (ran R \<union> set fs) x \<longrightarrow> mem s' x = mem s x)"

lemma outside_simps [simp]:
  "outside {} x" "outside (insert a A) x \<longleftrightarrow> \<not> in_page a x \<and> outside A x"
  "outside (A \<union> B) x \<longleftrightarrow> outside A x \<and> outside B x"
  by (auto simp: outside_def)

lemma unmap_step:
  assumes v: "vm_inv s root R ps" and w: "v < 512 ^ 3" and l: "is_leaf (pte_at (mem s) R v)"
    and f: "do_free \<longrightarrow> managed s (pte_pa (pte_at (mem s) R v)) \<and> pte_pa (pte_at (mem s) R v) \<notin> set ps \<union> ran R"
    and b: "va + i * PGSIZE = v * PGSIZE"
  obtains s' where "uvmunmap_loop root va (i # is) do_free s = uvmunmap_loop root va is do_free s'"
    "unmapped root s R ps {v} (if do_free then [pte_pa (pte_at (mem s) R v)] else []) s'"
proof -
  obtain t where t: "R (vpath v) = Some t" using pte_at_bound valid_leaf [OF l] by blast
  let ?e = "pte_at (mem s) R v"
  have ub: "usize_add va (i * PGSIZE) = Ok (v * PGSIZE)" using b w by (simp add: PGSIZE_def)
  have walk: "walk root (v * PGSIZE) False s = Ok (Some (pte_addr t (v mod 512)), s)"
    using walk_False [OF vm_inv_rep [OF v], of "v * PGSIZE"] t by simp
  have step: "uvmunmap_loop root va (i # is) do_free s =
      bindE (if do_free then kfree (pte_pa ?e) s else Ok s)
        (\<lambda>s. uvmunmap_loop root va is do_free (s\<lparr>mem := store_u64 (pte_addr t (v mod 512)) 0 (mem s)\<rparr>))"
    using ub walk load_pte_at [of R, OF t] l by (simp add: valid_leaf)
  have clear: "unmapped root s R ps {v} fs (s1\<lparr>mem := store_u64 (pte_addr t (v mod 512)) 0 (mem s1)\<rparr>)"
    if i: "vm_inv s1 root R (rev fs @ ps)" "same_layout s s1" "\<And>w. pte_at (mem s1) R w = pte_at (mem s) R w"
      "\<And>x. outside (set fs) x \<Longrightarrow> mem s1 x = mem s x" for s1 fs
    unfolding unmapped_def
  proof (intro conjI allI impI)
    show "vm_inv (s1\<lparr>mem := store_u64 (pte_addr t (v mod 512)) 0 (mem s1)\<rparr>) root R (rev fs @ ps)"
      by (rule store_entry_inv [OF i(1) t]) simp_all
    show "pte_at (mem (s1\<lparr>mem := store_u64 (pte_addr t (v mod 512)) 0 (mem s1)\<rparr>)) R u =
        (if u \<in> {v} then 0 else pte_at (mem s) R u)" if "u < 512 ^ 3" for u
      using store_entry_at [OF vm_inv_rep [OF i(1)] t w that] i(3) by simp
    show "mem (s1\<lparr>mem := store_u64 (pte_addr t (v mod 512)) 0 (mem s1)\<rparr>) x = mem s x"
      if "outside (ran R \<union> set fs) x" for x
    proof -
      have "\<not> in_page t x" using that t by (auto simp: outside_def ran_def)
      with that i(4) show ?thesis by (simp add: store_entry_other)
    qed
  qed (use i(2) in \<open>simp add: same_layout_def\<close>)
  show thesis
  proof (cases do_free)
    case True
    then have p: "managed s (pte_pa ?e)" "pte_pa ?e \<notin> set ps" "pte_pa ?e \<notin> ran R" using f by simp_all
    show thesis
    proof (rule kfree_vm_inv [OF v p])
      fix s1
      assume k: "kfree (pte_pa ?e) s = Ok s1" "vm_inv s1 root R (pte_pa ?e # ps)" "same_layout s s1"
        "\<And>w. pte_at (mem s1) R w = pte_at (mem s) R w" "\<And>x. \<not> in_page (pte_pa ?e) x \<Longrightarrow> mem s1 x = mem s x"
      then have "unmapped root s R ps {v} [pte_pa ?e] (s1\<lparr>mem := store_u64 (pte_addr t (v mod 512)) 0 (mem s1)\<rparr>)"
        by (intro clear) simp_all
      with True step k(1) show thesis by (intro that) simp_all
    qed
  next
    case False
    have "unmapped root s R ps {v} [] (s\<lparr>mem := store_u64 (pte_addr t (v mod 512)) 0 (mem s)\<rparr>)"
      using v by (intro clear) simp_all
    with False step show thesis by (intro that) simp_all
  qed
qed

lemma unmapped_trans:
  assumes "unmapped root s R ps A fs s1" and "unmapped root s1 R (rev fs @ ps) B gs s2"
  shows "unmapped root s R ps (A \<union> B) (fs @ gs) s2"
  using assms same_layout_trans [of s s1 s2] unfolding unmapped_def by simp

text \<open>The pages of a range can be unmapped, and freed if that is asked for.\<close>

definition unmappable :: "kmem \<Rightarrow> tables \<Rightarrow> paddr list \<Rightarrow> nat list \<Rightarrow> bool \<Rightarrow> bool" where
  "unmappable s R ps vs do_free \<longleftrightarrow>
     (\<forall>w \<in> set vs. w < 512 ^ 3 \<and> is_leaf (pte_at (mem s) R w)) \<and>
     (do_free \<longrightarrow> distinct (frames (mem s) R vs) \<and>
        (\<forall>f \<in> set (frames (mem s) R vs). managed s f \<and> f \<notin> set ps \<union> ran R))"

lemma frames_cong: "(\<And>w. w \<in> set vs \<Longrightarrow> pte_at m' R' w = pte_at m R w) \<Longrightarrow> frames m' R' vs = frames m R vs"
  by (simp add: frames_def)

lemma uvmunmap_loop_spec:
  assumes "vm_inv s root R ps" and "unmappable s R ps [v + i..<v + i + n] do_free"
  shows "\<exists>s'. uvmunmap_loop root (v * PGSIZE) [i..<i + n] do_free s = Ok s' \<and>
    unmapped root s R ps (set [v + i..<v + i + n]) (if do_free then frames (mem s) R [v + i..<v + i + n] else []) s'"
  using assms
proof (induction n arbitrary: s ps i)
  case 0
  then show ?case by (simp add: unmapped_def frames_def)
next
  case (Suc n)
  define w and us where d: "w = v + i" "us = [v + Suc i..<v + Suc i + n]"
  have vs: "[v + i..<v + i + Suc n] = w # us" "[i..<i + Suc n] = i # [Suc i..<Suc i + n]"
    unfolding d by (simp_all add: upt_rec)
  note u = Suc.prems(2) [unfolded vs]
  let ?f = "pte_pa (pte_at (mem s) R w)" and ?fs = "if do_free then [pte_pa (pte_at (mem s) R w)] else []"
  have fs: "frames m R (w # us) = pte_pa (pte_at m R w) # frames m R us" for m by (simp add: frames_def)
  have w: "w < 512 ^ 3" "is_leaf (pte_at (mem s) R w)" "do_free \<longrightarrow> managed s ?f \<and> ?f \<notin> set ps \<union> ran R"
    using u by (simp_all add: unmappable_def fs)
  have va: "v * PGSIZE + i * PGSIZE = w * PGSIZE" unfolding d by (simp add: algebra_simps)
  obtain s1 where 1: "uvmunmap_loop root (v * PGSIZE) (i # [Suc i..<Suc i + n]) do_free s =
        uvmunmap_loop root (v * PGSIZE) [Suc i..<Suc i + n] do_free s1" "unmapped root s R ps {w} ?fs s1"
    by (rule unmap_step [OF Suc.prems(1) w va, of "[Suc i..<Suc i + n]"]) blast
  have ne: "x < 512 ^ 3 \<and> x \<noteq> w" if "x \<in> set us" for x
    using that u by (auto simp: unmappable_def d)
  then have at: "pte_at (mem s1) R x = pte_at (mem s) R x" if "x \<in> set us" for x
    using 1(2) that by (simp add: unmapped_def)
  then have fr: "frames (mem s1) R us = frames (mem s) R us" by (rule frames_cong)
  have "same_layout s s1" using 1(2) by (simp add: unmapped_def)
  then have man: "managed s1 a = managed s a" for a by (rule same_layout_managed)
  have inv: "vm_inv s1 root R (rev ?fs @ ps)" using 1(2) by (simp add: unmapped_def)
  have un: "unmappable s1 R (rev ?fs @ ps) us do_free"
    using u at ne unfolding unmappable_def fr man fs by auto
  from Suc.IH [OF inv un [unfolded d(2)]] obtain s' where 2: "uvmunmap_loop root (v * PGSIZE) [Suc i..<Suc i + n] do_free s1 = Ok s' \<and>
      unmapped root s1 R (rev ?fs @ ps) (set us) (if do_free then frames (mem s1) R us else []) s'"
    unfolding d(2) by (rule exE)
  have "?fs @ (if do_free then frames (mem s1) R us else []) = (if do_free then frames (mem s) R (w # us) else [])"
    using fr fs by simp
  with unmapped_trans [OF 1(2) conjunct2 [OF 2]]
  have "unmapped root s R ps (set (w # us)) (if do_free then frames (mem s) R (w # us) else []) s'" by simp
  then show ?case unfolding vs 1(1) using 2 by blast
qed

lemma uvmunmap_spec:
  assumes "vm_inv s root R ps" and "unmappable s R ps [v..<v + n] do_free" and "0 < n"
  shows "\<exists>s'. uvmunmap root (v * PGSIZE) n do_free s = Ok s' \<and>
    unmapped root s R ps {v..<v + n} (if do_free then frames (mem s) R [v..<v + n] else []) s'"
  using uvmunmap_loop_spec [OF assms(1), of v 0 n do_free] assms(2,3)
  unfolding add_0_right add_0_left uvmunmap_def va_aligned_iff by simp

end
