(* ===== verification/Freewalk.thy ===== *)
theory Freewalk
  imports Unmap "HOL-Library.Sublist"
begin

text \<open>
  \<open>freewalk\<close> gives back every table of an address space whose pages have been unmapped.  The proof follows
  the recursion: the tables below a path are freed, nothing else changes.
\<close>

section \<open>The tables below a path\<close>

definition below :: "tables \<Rightarrow> nat list \<Rightarrow> paddr set" where
  "below R p = {t. \<exists>q. prefix p q \<and> R q = Some t}"

text \<open>The tables below \<open>p\<close> are linked as \<open>R\<close> says, and those of the last level are empty.\<close>

definition linked :: "memory \<Rightarrow> tables \<Rightarrow> nat list \<Rightarrow> bool" where
  "linked m R p \<longleftrightarrow>
     (\<forall>q t i. prefix p q \<longrightarrow> R q = Some t \<longrightarrow> i < 512 \<longrightarrow>
        (case R (q @ [i]) of None \<Rightarrow> \<not> is_valid (entry m t i) | Some c \<Rightarrow> entry m t i = table_pte c))"

lemma below_self: "R p = Some t \<Longrightarrow> t \<in> below R p"
  by (auto simp: below_def)

lemma below_mono: "prefix p q \<Longrightarrow> below R q \<subseteq> below R p"
  by (auto simp: below_def intro: prefix_order.trans)

lemma linked_mono: "linked m R p \<Longrightarrow> prefix p q \<Longrightarrow> linked m R q"
  unfolding linked_def by (meson prefix_order.trans)

lemma linked_cong:
  assumes "linked m R p" and "\<And>t x. t \<in> below R p \<Longrightarrow> in_page t x \<Longrightarrow> m' x = m x"
  shows "linked m' R p"
  unfolding linked_def
proof (intro allI impI)
  fix q t i assume a: "prefix p q" "R q = Some t" "i < (512 :: nat)"
  then have "t \<in> below R p" by (auto simp: below_def)
  then have e: "entry m' t i = entry m t i" using assms(2) a(3) by (intro entry_cong) auto
  have "case R (q @ [i]) of None \<Rightarrow> \<not> is_valid (entry m t i) | Some c \<Rightarrow> entry m t i = table_pte c"
    using assms(1) a unfolding linked_def by blast
  then show "case R (q @ [i]) of None \<Rightarrow> \<not> is_valid (entry m' t i) | Some c \<Rightarrow> entry m' t i = table_pte c"
    unfolding e .
qed

lemma prefix_snoc_cases: "prefix p q \<longleftrightarrow> q = p \<or> (\<exists>i. prefix (p @ [i]) q)"
proof
  assume "prefix p q"
  then obtain r where "q = p @ r" by (auto simp: prefix_def)
  then show "q = p \<or> (\<exists>i. prefix (p @ [i]) q)" by (cases r) (auto simp: prefix_def)
next
  assume "q = p \<or> (\<exists>i. prefix (p @ [i]) q)"
  then show "prefix p q" by (auto simp: prefix_def)
qed

lemma tree_prefix: "tree_ok R \<Longrightarrow> R (p @ r) \<noteq> None \<Longrightarrow> R p \<noteq> None"
proof (induction r rule: rev_induct)
  case (snoc j r)
  then have "R ((p @ r) @ [j]) \<noteq> None" by simp
  then have "R (p @ r) \<noteq> None" using snoc.prems(1) unfolding tree_ok_def by blast
  then show ?case by (rule snoc.IH [OF snoc.prems(1)])
qed simp

lemma below_None: "tree_ok R \<Longrightarrow> R p = None \<Longrightarrow> below R p = {}"
  using tree_prefix [of R p] by (auto simp: below_def prefix_def)

lemma below_children:
  assumes "tree_ok R" and "R p = Some t"
  shows "below R p = insert t (\<Union>i \<in> {..<512}. below R (p @ [i]))"
proof -
  have "i < 512" if "R ((p @ [i]) @ r) \<noteq> None" for i r
    using tree_prefix [OF assms(1) that] assms(1) unfolding tree_ok_def by blast
  then have "i < 512" if "prefix (p @ [i]) q" "R q = Some u" for i q u
    using that by (metis prefixE option.discI)
  then show ?thesis using assms(2) by (auto simp: below_def prefix_snoc_cases [of p]) (metis lessThan_iff)
qed

lemma below_disjoint:
  assumes "tree_ok R" and "u \<in> below R (p @ [i])" and "u \<in> below R (p @ [j])"
  shows "i = j"
proof -
  obtain q r where "prefix (p @ [i]) q" "prefix (p @ [j]) r" "R q = Some u" "R r = Some u" using assms(2,3) by (auto simp: below_def)
  moreover then have "q = r" using assms(1) unfolding tree_ok_def by blast
  ultimately show ?thesis by (auto simp: prefix_def)
qed

lemma below_not_self:
  assumes "tree_ok R" and "R p = Some t"
  shows "t \<notin> below R (p @ [i])"
proof
  assume "t \<in> below R (p @ [i])"
  then obtain q where "prefix (p @ [i]) q" "R q = Some t" by (auto simp: below_def)
  moreover then have "q = p" using assms unfolding tree_ok_def by blast
  ultimately show False by (auto simp: prefix_def)
qed

section \<open>Freeing\<close>

text \<open>\<open>freed s ps A s'\<close>: the pages \<open>A\<close> have been put on the free list, and nothing else has changed.\<close>

definition freed :: "kmem \<Rightarrow> paddr list \<Rightarrow> paddr set \<Rightarrow> kmem \<Rightarrow> paddr list \<Rightarrow> bool" where
  "freed s ps A s' ps' \<longleftrightarrow>
     free_pages s' ps' \<and> set ps' = set ps \<union> A \<and> same_layout s s' \<and> (\<forall>x. outside A x \<longrightarrow> mem s' x = mem s x)"

lemma freed_refl: "free_pages s ps \<Longrightarrow> freed s ps {} s ps"
  by (simp add: freed_def)

text \<open>Storing into a table while its children are freed.\<close>

definition freeing :: "kmem \<Rightarrow> paddr list \<Rightarrow> paddr \<Rightarrow> paddr set \<Rightarrow> kmem \<Rightarrow> paddr list \<Rightarrow> bool" where
  "freeing s ps t A s' ps' \<longleftrightarrow>
     free_pages s' ps' \<and> set ps' = set ps \<union> A \<and> same_layout s s' \<and> (\<forall>x. outside (insert t A) x \<longrightarrow> mem s' x = mem s x)"

lemma freeing_trans: "freeing s ps t A s1 qs \<Longrightarrow> freeing s1 qs t B s2 rs \<Longrightarrow> freeing s ps t (A \<union> B) s2 rs"
  using same_layout_trans [of s s1 s2] by (auto simp: freeing_def)

text \<open>What the recursion needs of a path: its tables are managed and not free.\<close>

definition freeable :: "kmem \<Rightarrow> tables \<Rightarrow> paddr list \<Rightarrow> nat list \<Rightarrow> bool" where
  "freeable s R ps p \<longleftrightarrow> linked (mem s) R p \<and> free_pages s ps \<and> (\<forall>t \<in> below R p. managed s t \<and> t \<notin> set ps)"

lemma free_pages_other:
  assumes "free_pages s ps" and "is_page_aligned t" and "t \<notin> set ps" and "i < 512"
  shows "free_pages (s\<lparr>mem := store_u64 (pte_addr t i) e (mem s)\<rparr>) ps"
proof (rule free_pages_frame [OF assms(1)])
  fix q x assume q: "q \<in> set ps" "in_page q x"
  then have "is_page_aligned q" "q \<noteq> t" using assms(1,3) by (auto simp: free_pages_def list_all_iff managed_def)
  then have "\<not> in_page t x" using distinct_pages assms(2) q(2) by blast
  then show "store_u64 (pte_addr t i) e (mem s) x = mem s x" using assms(4) by (rule store_entry_other)
qed

lemma freewalk_entry_spec:
  assumes tree: "tree_ok R" and t: "R p = Some t" "managed s t" "t \<notin> set ps" and j: "j < 512"
    and e: "case R (p @ [j]) of None \<Rightarrow> \<not> is_valid (entry (mem s) t j) | Some c \<Rightarrow> entry (mem s) t j = table_pte c"
    and f: "freeable s R ps (p @ [j])"
    and IH: "\<And>c. R (p @ [j]) = Some c \<Longrightarrow> \<exists>s' ps'. recur c s = Ok s' \<and> freed s ps (below R (p @ [j])) s' ps'"
  shows "\<exists>s' ps'. freewalk_entry recur t j s = Ok s' \<and> freeing s ps t (below R (p @ [j])) s' ps' \<and>
    (\<forall>k < 512. k \<noteq> j \<longrightarrow> entry (mem s') t k = entry (mem s) t k)"
proof (cases "R (p @ [j])")
  case None
  with e have "\<not> is_valid (entry (mem s) t j)" by simp
  then have "freewalk_entry recur t j s = Ok s"
    using valid_leaf by (auto simp: freewalk_entry_def entry_def Let_def)
  moreover have "freeing s ps t (below R (p @ [j])) s ps"
    using f below_None [OF tree None] by (simp add: freeing_def freeable_def)
  ultimately show ?thesis by blast
next
  case (Some c)
  let ?A = "below R (p @ [j])"
  have c: "c \<in> ?A" using Some by (rule below_self)
  then have m: "managed s c" using f by (simp add: freeable_def)
  have ec: "load_u64 (mem s) (pte_addr t j) = table_pte c" using e Some by (simp add: entry_def)
  from IH [OF Some] obtain s1 qs where 1: "recur c s = Ok s1" "freed s ps ?A s1 qs" by blast
  let ?s2 = "s1\<lparr>mem := store_u64 (pte_addr t j) 0 (mem s1)\<rparr>"
  have "freewalk_entry recur t j s = Ok ?s2"
    using ec pte_pa_table [OF managed_aligned [OF m] managed_small [OF m]] 1(1) by (simp add: freewalk_entry_def Let_def)
  moreover have tq: "t \<notin> set qs" using 1(2) t(3) below_not_self [OF tree t(1)] by (auto simp: freed_def)
  have "freeing s ps t ?A ?s2 qs"
    using 1(2) free_pages_other [of s1 qs t j 0] tq managed_aligned [OF t(2)] j
    by (auto simp: freeing_def freed_def same_layout_def store_entry_other)
  moreover have "entry (mem ?s2) t k = entry (mem s) t k" if "k < 512" "k \<noteq> j" for k
  proof -
    have "mem s1 x = mem s x" if "in_page t x" for x
    proof -
      have "\<not> in_page a x" if "a \<in> ?A" for a
        using distinct_pages [of t a x] \<open>in_page t x\<close> managed_aligned [OF t(2)] f that below_not_self [OF tree t(1), of j]
        by (auto simp: freeable_def managed_def)
      then show ?thesis using 1(2) by (simp add: freed_def outside_def)
    qed
    then have "entry (mem s1) t k = entry (mem s) t k" using that(1) by (intro entry_cong)
    then show ?thesis using that(2) by (simp add: entry_store_index)
  qed
  ultimately show ?thesis by blast
qed

lemma freeable_freeing:
  assumes tree: "tree_ok R" and t: "R p = Some t" and f: "freeable s R ps (p @ [k])" and j: "j \<noteq> k"
    and a: "freeing s ps t (below R (p @ [j])) s' ps'" and al: "is_page_aligned t" "\<forall>u \<in> below R (p @ [j]). is_page_aligned u"
  shows "freeable s' R ps' (p @ [k])"
  unfolding freeable_def
proof (intro conjI ballI)
  have man: "managed s' u = managed s u" for u using a same_layout_managed [of s s'] by (simp add: freeing_def)
  have dis: "u \<noteq> t \<and> u \<notin> below R (p @ [j])" if "u \<in> below R (p @ [k])" for u
    using below_disjoint [OF tree that, of j] below_not_self [OF tree t, of k] that j by blast
  show "linked (mem s') R (p @ [k])"
  proof (rule linked_cong)
    show "linked (mem s) R (p @ [k])" using f by (simp add: freeable_def)
    fix u x assume u: "u \<in> below R (p @ [k])" "in_page u x"
    then have "is_page_aligned u" using f by (auto simp: freeable_def managed_def)
    then have "outside (insert t (below R (p @ [j]))) x"
      using distinct_pages [OF _ _ _ u(2)] dis [OF u(1)] al unfolding outside_def by blast
    then show "mem s' x = mem s x" using a by (simp add: freeing_def)
  qed
  show "free_pages s' ps'" using a by (simp add: freeing_def)
  fix u assume u: "u \<in> below R (p @ [k])"
  then show "managed s' u" "u \<notin> set ps'" using f a man dis [OF u] by (auto simp: freeable_def freeing_def)
qed

lemma freewalk_loop_spec:
  assumes tree: "tree_ok R" and t: "R p = Some t"
    and IH: "\<And>c s ps j. R (p @ [j]) = Some c \<Longrightarrow> freeable s R ps (p @ [j]) \<Longrightarrow>
      \<exists>s' ps'. recur c s = Ok s' \<and> freed s ps (below R (p @ [j])) s' ps'"
    and "distinct js" and "set js \<subseteq> {..<512}" and "managed s t" and "t \<notin> set ps" and "free_pages s ps"
    and "\<forall>j \<in> set js. freeable s R ps (p @ [j]) \<and>
      (case R (p @ [j]) of None \<Rightarrow> \<not> is_valid (entry (mem s) t j) | Some c \<Rightarrow> entry (mem s) t j = table_pte c)"
  shows "\<exists>s' ps'. foldE (freewalk_entry recur t) js s = Ok s' \<and> freeing s ps t (\<Union>j \<in> set js. below R (p @ [j])) s' ps'"
  using assms(4-)
proof (induction js arbitrary: s ps)
  case Nil
  then show ?case by (auto simp: freeing_def)
next
  case (Cons j js)
  let ?A = "below R (p @ [j])"
  have j: "j < 512" "freeable s R ps (p @ [j])"
      "case R (p @ [j]) of None \<Rightarrow> \<not> is_valid (entry (mem s) t j) | Some c \<Rightarrow> entry (mem s) t j = table_pte c"
    using Cons.prems by simp_all
  have "\<exists>s1 qs. freewalk_entry recur t j s = Ok s1 \<and> freeing s ps t ?A s1 qs \<and>
      (\<forall>k < 512. k \<noteq> j \<longrightarrow> entry (mem s1) t k = entry (mem s) t k)"
    by (rule freewalk_entry_spec [OF tree t Cons.prems(3,4) j(1,3,2)]) (rule IH [OF _ j(2)])
  then obtain s1 qs where 1: "freewalk_entry recur t j s = Ok s1" "freeing s ps t ?A s1 qs"
      "\<forall>k < 512. k \<noteq> j \<longrightarrow> entry (mem s1) t k = entry (mem s) t k" by blast
  have man: "managed s1 t" using Cons.prems(3) 1(2) same_layout_managed [of s s1] by (simp add: freeing_def)
  have tq: "t \<notin> set qs" using 1(2) Cons.prems(4) below_not_self [OF tree t, of j] by (simp add: freeing_def)
  have al: "is_page_aligned t" "\<forall>u \<in> ?A. is_page_aligned u"
    using Cons.prems(3) j(2) by (auto simp: freeable_def managed_def)
  have rest: "\<forall>k \<in> set js. freeable s1 R qs (p @ [k]) \<and>
      (case R (p @ [k]) of None \<Rightarrow> \<not> is_valid (entry (mem s1) t k) | Some c \<Rightarrow> entry (mem s1) t k = table_pte c)"
  proof
    fix k assume k: "k \<in> set js"
    then have kj: "j \<noteq> k" "k < 512" using Cons.prems(1,2) by auto
    then have e: "entry (mem s1) t k = entry (mem s) t k" using 1(3) by auto
    show "freeable s1 R qs (p @ [k]) \<and>
        (case R (p @ [k]) of None \<Rightarrow> \<not> is_valid (entry (mem s1) t k) | Some c \<Rightarrow> entry (mem s1) t k = table_pte c)"
      unfolding e using freeable_freeing [OF tree t _ kj(1) 1(2) al] bspec [OF Cons.prems(6), of k] k by simp
  qed
  have "free_pages s1 qs" using 1(2) by (simp add: freeing_def)
  then obtain s2 rs where 2: "foldE (freewalk_entry recur t) js s1 = Ok s2"
      "freeing s1 qs t (\<Union>j \<in> set js. below R (p @ [j])) s2 rs"
    using Cons.IH [OF _ _ man tq _ rest] Cons.prems(1,2) by auto
  then show ?case using freeing_trans [OF 1(2) 2(2)] 1(1) by auto
qed

lemma freewalk_sub:
  assumes "tree_ok R" and "R p = Some t" and "freeable s R ps p" and "length p + d = 3"
  shows "\<exists>s' ps'. freewalk d t s = Ok s' \<and> freed s ps (below R p) s' ps'"
  using assms(2-4)
proof (induction d arbitrary: p t s ps)
  case 0
  then have "length p = 3" by simp
  then obtain q i where "p = q @ [i]" "length q = 2" by (cases p rule: rev_cases) auto
  with 0 assms(1) show ?case unfolding tree_ok_def by force
next
  case (Suc d)
  note tree = assms(1) and t = Suc.prems(1) and f = Suc.prems(2)
  have tb: "t \<in> below R p" using t by (rule below_self)
  have m: "managed s t" "t \<notin> set ps" "free_pages s ps" using f tb by (auto simp: freeable_def)
  have sub: "freeable s R ps (p @ [j])" for j
    using f below_mono [of p "p @ [j]" R] linked_mono [of "mem s" R p "p @ [j]"] by (auto simp: freeable_def)
  have e: "case R (p @ [j]) of None \<Rightarrow> \<not> is_valid (entry (mem s) t j) | Some c \<Rightarrow> entry (mem s) t j = table_pte c"
    if "j < 512" for j using f t that unfolding freeable_def linked_def by blast
  have IH: "\<exists>s' ps'. freewalk d c s = Ok s' \<and> freed s ps (below R (p @ [j])) s' ps'"
    if "R (p @ [j]) = Some c" "freeable s R ps (p @ [j])" for c s ps j
    using Suc.IH [OF that] Suc.prems(3) by simp
  let ?A = "\<Union>j \<in> set [0..<512]. below R (p @ [j])"
  obtain s1 qs where 1: "foldE (freewalk_entry (freewalk d) t) [0..<512] s = Ok s1" "freeing s ps t ?A s1 qs"
  proof -
    have "\<exists>s1 qs. foldE (freewalk_entry (freewalk d) t) [0..<512] s = Ok s1 \<and> freeing s ps t ?A s1 qs"
      by (rule freewalk_loop_spec [OF tree t IH]) (use m sub e in auto)
    then show thesis using that by blast
  qed
  have A: "below R p = insert t ?A" using below_children [OF tree t] by (simp add: lessThan_atLeast0)
  have "t \<notin> ?A" using below_not_self [OF tree t] by blast
  then have tq: "t \<notin> set qs" using 1(2) m(2) unfolding freeing_def by blast
  have m1: "managed s1 t" using m(1) 1(2) same_layout_managed [of s s1] by (simp add: freeing_def)
  have f1: "free_pages s1 qs" using 1(2) by (simp add: freeing_def)
  show ?case
  proof (rule kfree_spec [OF f1 m1 tq])
    fix s2
    assume 2: "kfree t s1 = Ok s2" "free_pages s2 (t # qs)" "same_layout s1 s2" "\<And>x. \<not> in_page t x \<Longrightarrow> mem s2 x = mem s1 x"
    then have "freed s ps (below R p) s2 (t # qs)"
      using 1(2) same_layout_trans [of s s1 s2] unfolding A freed_def freeing_def by simp
    moreover have "freewalk (Suc d) t s = Ok s2" unfolding freewalk.simps 1(1) using 2(1) by simp
    ultimately show ?thesis by blast
  qed
qed

section \<open>A whole address space\<close>

text \<open>Once no page is mapped, \<open>freewalk\<close> returns every table to the free list.\<close>

lemma freewalk_spec:
  assumes v: "vm_inv s root R ps" and "\<forall>w < 512 ^ 3. \<not> is_valid (pte_at (mem s) R w)"
  shows "\<exists>s' ps'. freewalk 3 root s = Ok s' \<and> freed s ps (ran R) s' ps'"
proof -
  note r = vm_inv_rep [OF v]
  have tree: "tree_ok R" and root: "R [] = Some root" using r by (simp_all add: pt_rep_def)
  have all: "below R [] = ran R" by (auto simp: below_def ran_def)
  have idx: "\<exists>i j. q = [i, j] \<and> i < 512 \<and> j < 512" if q: "R q = Some t" "length q = 2" for q t
  proof -
    obtain i j where ij: "q = [i] @ [j]" using q(2) by (auto simp: length_Suc_conv numeral_2_eq_2)
    with q(1) pt_rep_parent [OF r, of "[i]" j t] obtain u where "R ([] @ [i]) = Some u" "j < 512" by auto
    with ij pt_rep_parent [OF r, of "[]" i u] show ?thesis by auto
  qed
  have "linked (mem s) R []"
    unfolding linked_def
  proof (intro allI impI)
    fix q t i assume q: "R q = Some t" "i < (512 :: nat)"
    show "case R (q @ [i]) of None \<Rightarrow> \<not> is_valid (entry (mem s) t i) | Some c \<Rightarrow> entry (mem s) t i = table_pte c"
    proof (cases "length q < 2")
      case True
      then show ?thesis using pt_rep_tables [OF r] q unfolding tables_ok_def by blast
    next
      case False
      then have l: "length q = 2" using pt_rep_length [OF r q(1)] by simp
      obtain a b where ab: "q = [a, b]" "a < 512" "b < 512" using idx [OF q(1) l] by blast
      let ?w = "(a * 512 + b) * 512 + i"
      have d: "(k * 512 + n) div 512 = k" "(k * 512 + n) mod 512 = n" if "n < 512" for k n :: nat using that by simp_all
      have "vpath ?w = q" unfolding vpath_def d [OF q(2)] d [OF ab(3)] using ab by simp
      moreover have "?w mod 512 = i" by (rule d(2) [OF q(2)])
      moreover have "?w < 512 ^ 3" using ab q(2) by simp
      ultimately have "entry (mem s) t i = pte_at (mem s) R ?w" using q(1) by (simp only: pte_at_def option.case)
      then have "\<not> is_valid (entry (mem s) t i)" using assms(2) \<open>?w < 512 ^ 3\<close> by simp
      moreover have "R (q @ [i]) = None" using pt_rep_parent [OF r, of q i] l by (cases "R (q @ [i])") auto
      ultimately show ?thesis by simp
    qed
  qed
  then have "freeable s R ps []"
    using v unfolding freeable_def all vm_inv_def pt_rep_def by blast
  then show ?thesis using freewalk_sub [OF tree root, of s ps 3] unfolding all by simp
qed

end
