(* ===== verification/Aspace.thy ===== *)
theory Aspace
  imports Freewalk
begin

text \<open>
  The address space of a process: the trampoline and the trapframe at fixed addresses, and a set of user
  pages, each with a frame of its own.  The operations of \<open>src/vm.rs\<close> that build, extend, copy and free an
  address space, and the account they give of the physical pages.
\<close>

section \<open>Address spaces\<close>

definition tramp_vpn :: nat where "tramp_vpn = 2 ^ 26 - 1"
definition frame_vpn :: nat where "frame_vpn = 2 ^ 26 - 2"
definition stack_vpn :: nat where "stack_vpn = 2 ^ 26 - 3"

lemma fixed_pages:
  "TRAMPOLINE = tramp_vpn * PGSIZE" "TRAPFRAME = frame_vpn * PGSIZE" "USER_STACK = stack_vpn * PGSIZE"
  by (simp_all add: TRAMPOLINE_def TRAPFRAME_def USER_STACK_def MAXVA_def PGSIZE_def tramp_vpn_def frame_vpn_def stack_vpn_def)

lemma fixed_bounds:
  "tramp_vpn < 512 ^ 3" "frame_vpn < 512 ^ 3" "stack_vpn < 512 ^ 3" "tramp_vpn \<noteq> frame_vpn" "stack_vpn < frame_vpn"
  "stack_vpn < tramp_vpn" "frame_vpn < tramp_vpn" "USER_STACK < MAXVA"
  by (simp_all add: tramp_vpn_def frame_vpn_def stack_vpn_def USER_STACK_def MAXVA_def PGSIZE_def)

text \<open>The frame of a page.\<close>

definition fr :: "kmem \<Rightarrow> tables \<Rightarrow> nat \<Rightarrow> paddr" where
  "fr s R v = pte_pa (pte_at (mem s) R v)"

definition aspace :: "kmem \<Rightarrow> paddr \<Rightarrow> tables \<Rightarrow> paddr list \<Rightarrow> paddr \<Rightarrow> nat set \<Rightarrow> bool" where
  "aspace s root R ps tf U \<longleftrightarrow>
     vm_inv s root R ps \<and> U \<subseteq> {..<frame_vpn} \<and>
     pte_at (mem s) R tramp_vpn = leaf_pte (trampoline_start s) (PTE_R OR PTE_X) \<and>
     pte_at (mem s) R frame_vpn = leaf_pte tf (PTE_R OR PTE_W) \<and>
     (\<forall>v \<in> U. grants 0 (pte_at (mem s) R v)) \<and>
     (\<forall>v < 512 ^ 3. v \<notin> U \<and> v \<noteq> tramp_vpn \<and> v \<noteq> frame_vpn \<longrightarrow> \<not> is_valid (pte_at (mem s) R v)) \<and>
     inj_on (fr s R) U \<and> (\<forall>v \<in> U. managed s (fr s R v) \<and> fr s R v \<notin> ran R \<union> set ps)"

lemma leaf_flags:
  "is_leaf (leaf_pte pa (PTE_R OR PTE_X))" "is_leaf (leaf_pte pa (PTE_R OR PTE_W))"
  by (simp_all add: bit_or_iff PTE_R_def PTE_X_def PTE_W_def)

lemma aspace_leaf:
  assumes "aspace s root R ps tf U" and "v \<in> U \<or> v = tramp_vpn \<or> v = frame_vpn"
  shows "v < 512 ^ 3" "is_leaf (pte_at (mem s) R v)"
proof -
  have "U \<subseteq> {..<frame_vpn}" using assms(1) by (simp add: aspace_def)
  then show "v < 512 ^ 3" using assms(2) fixed_bounds by fastforce
  show "is_leaf (pte_at (mem s) R v)"
    using assms leaf_flags by (auto simp: aspace_def grants_def)
qed

lemma frames_fr: "frames (mem s) R vs = map (fr s R) vs"
  by (simp add: frames_def fr_def)

text \<open>
  Unmapping goes through an address space range by range: \<open>A\<close> is what has been unmapped so far, \<open>fs\<close> the
  frames freed so far.
\<close>

lemma aspace_unmap:
  assumes a: "aspace s root R ps tf U" and u: "unmapped root s R ps A fs s1" and fs: "set fs = fr s R ` (A \<inter> U)"
    and r: "{v..<v + n} \<inter> A = {}" "0 < n" "{v..<v + n} \<subseteq> U \<union> {tramp_vpn, frame_vpn}"
    and d: "if do_free then {v..<v + n} \<subseteq> U else {v..<v + n} \<inter> U = {}"
  shows "\<exists>s2 gs. uvmunmap root (v * PGSIZE) n do_free s1 = Ok s2 \<and>
    unmapped root s R ps (A \<union> {v..<v + n}) gs s2 \<and> set gs = fr s R ` ((A \<union> {v..<v + n}) \<inter> U)"
proof -
  let ?V = "{v..<v + n}"
  have leaf: "w < 512 ^ 3" "is_leaf (pte_at (mem s) R w)" if "w \<in> ?V" for w
    using aspace_leaf [OF a, of w] r(3) that by blast+
  have at: "pte_at (mem s1) R w = pte_at (mem s) R w" if "w \<in> ?V" for w
  proof -
    have "w \<notin> A" using r(1) that by blast
    then show ?thesis using u leaf(1) [OF that] by (simp add: unmapped_def)
  qed
  then have fr: "frames (mem s1) R [v..<v + n] = map (fr s R) [v..<v + n]"
    unfolding frames_fr [symmetric] by (intro frames_cong) simp
  have inv: "vm_inv s1 root R (rev fs @ ps)" and lay: "same_layout s s1" using u by (simp_all add: unmapped_def)
  have "unmappable s1 R (rev fs @ ps) [v..<v + n] do_free"
    unfolding unmappable_def fr
  proof (intro conjI impI ballI)
    fix w assume "w \<in> set [v..<v + n]"
    then have w: "w \<in> ?V" by simp
    then show "w < 512 ^ 3" "is_leaf (pte_at (mem s1) R w)" using leaf [OF w] at [OF w] by simp_all
  next
    assume do_free
    with d have VU: "?V \<subseteq> U" by simp
    moreover have inj: "inj_on (fr s R) U" using a by (simp add: aspace_def)
    ultimately show "distinct (map (fr s R) [v..<v + n])" by (simp add: distinct_map inj_on_subset)
    fix f assume "f \<in> set (map (fr s R) [v..<v + n])"
    then obtain w where w: "w \<in> ?V" "f = fr s R w" by auto
    then have wU: "w \<in> U" using VU by blast
    have "f \<notin> set fs"
    proof
      assume "f \<in> set fs"
      then obtain x where "x \<in> A" "x \<in> U" "fr s R x = fr s R w" using fs w(2) by auto
      then have "w \<in> A" using inj wU by (auto dest: inj_onD)
      then show False using r(1) w(1) by blast
    qed
    then show "managed s1 f" "f \<notin> set (rev fs @ ps) \<union> ran R"
      using a wU w(2) same_layout_managed [OF lay] by (auto simp: aspace_def)
  qed
  from uvmunmap_spec [OF inv this r(2)] obtain s2 where
    2: "uvmunmap root (v * PGSIZE) n do_free s1 = Ok s2"
      "unmapped root s1 R (rev fs @ ps) ?V (if do_free then map (fr s R) [v..<v + n] else []) s2" unfolding fr by blast
  have "set (fs @ (if do_free then map (fr s R) [v..<v + n] else [])) = fr s R ` ((A \<union> ?V) \<inter> U)"
    using d fs by (auto split: if_splits)
  then show ?thesis using 2(1) unmapped_trans [OF u 2(2)] by blast
qed

lemma unmapped_refl: "vm_inv s root R ps \<Longrightarrow> unmapped root s R ps {} [] s"
  by (simp add: unmapped_def)

lemma aspace_unmap1:
  assumes a: "aspace s root R ps tf U" and u: "unmapped root s R ps A fs s1" and fs: "set fs = fr s R ` (A \<inter> U)"
    and v: "v \<notin> A" "v \<in> U \<union> {tramp_vpn, frame_vpn}" "do_free = (v \<in> U)"
  obtains s2 gs where "uvmunmap root (v * PGSIZE) 1 do_free s1 = Ok s2" "unmapped root s R ps (insert v A) gs s2"
    "set gs = fr s R ` (insert v A \<inter> U)"
proof -
  have "{v..<v + 1} = {v}" by auto
  then show thesis using aspace_unmap [OF a u fs, of v 1 do_free] v that by auto
qed

section \<open>Freeing an address space\<close>

text \<open>The user pages of a process: \<open>n\<close> pages from 0 on, and the stack page.\<close>

definition span :: "nat \<Rightarrow> bool \<Rightarrow> nat set" where
  "span n stk = {..<n} \<union> (if stk then {stack_vpn} else {})"

lemma pages_0_iff: "pages n = 0 \<longleftrightarrow> n = 0"
  using pages_bound [of n] by (auto simp: pages_def PGSIZE_def)

lemma freewalk_aspace:
  assumes a: "aspace s root R ps tf U" and u: "unmapped root s R ps (U \<union> {tramp_vpn, frame_vpn}) fs s1"
    and fs: "set fs = fr s R ` U"
  shows "\<exists>s' ps'. freewalk 3 root s1 = Ok s' \<and> freed s ps (ran R \<union> fr s R ` U) s' ps'"
proof -
  have inv: "vm_inv s1 root R (rev fs @ ps)" using u by (simp add: unmapped_def)
  moreover have "\<forall>w < 512 ^ 3. \<not> is_valid (pte_at (mem s1) R w)"
    using a u by (auto simp: unmapped_def aspace_def)
  ultimately obtain s' ps' where f: "freewalk 3 root s1 = Ok s'" "freed s1 (rev fs @ ps) (ran R) s' ps'"
    using freewalk_spec by blast
  have "freed s ps (ran R \<union> fr s R ` U) s' ps'"
    using f(2) u fs same_layout_trans [of s s1 s'] unfolding freed_def unmapped_def by auto
  with f(1) show ?thesis by blast
qed

lemma uvmfree_spec:
  assumes a: "aspace s root R ps tf (span n stk)" and n: "n = pages sz" "n \<le> stack_vpn" "sz + PGSIZE < 2 ^ 64"
    and u: "unmapped root s R ps (span 0 stk \<union> {tramp_vpn, frame_vpn}) fs s1" and fs: "set fs = fr s R ` span 0 stk"
  shows "\<exists>s' ps'. uvmfree root sz s1 = Ok s' \<and> freed s ps (ran R \<union> fr s R ` span n stk) s' ps'"
proof (cases "sz = 0")
  case True
  then have "n = 0" using n(1) pages_0_iff by simp
  then show ?thesis using freewalk_aspace [OF a, of fs s1] u fs True by (simp add: uvmfree_def page_round_up_eq n PGSIZE_def)
next
  case False
  then have np: "0 < n" using n(1) pages_0_iff [of sz] by simp
  let ?A = "span 0 stk \<union> {tramp_vpn, frame_vpn}"
  have iU: "?A \<inter> span n stk = span 0 stk" using n(2) fixed_bounds by (auto simp: span_def)
  have "\<exists>s2 gs. uvmunmap root (0 * PGSIZE) n True s1 = Ok s2 \<and> unmapped root s R ps (?A \<union> {0..<0 + n}) gs s2 \<and>
      set gs = fr s R ` ((?A \<union> {0..<0 + n}) \<inter> span n stk)"
    by (rule aspace_unmap [OF a u]) (use n(2) np fs iU fixed_bounds in \<open>auto simp: span_def\<close>)
  then obtain s2 gs where 2: "uvmunmap root 0 n True s1 = Ok s2" "unmapped root s R ps (?A \<union> {0..<n}) gs s2"
      "set gs = fr s R ` ((?A \<union> {0..<n}) \<inter> span n stk)" by auto
  have "?A \<union> {0..<n} = span n stk \<union> {tramp_vpn, frame_vpn}" "(?A \<union> {0..<n}) \<inter> span n stk = span n stk"
    by (auto simp: span_def)
  with freewalk_aspace [OF a, of gs s2] 2 False n show ?thesis
    by (auto simp: uvmfree_def page_round_up_eq)
qed

lemma proc_freepagetable_spec:
  assumes a: "aspace s root R ps tf (span n stk)" and n: "n = pages sz" "n \<le> stack_vpn" "sz + PGSIZE < 2 ^ 64"
  shows "\<exists>s' ps'. proc_freepagetable root sz s = Ok s' \<and> freed s ps (ran R \<union> fr s R ` span n stk) s' ps'"
proof -
  let ?U = "span n stk"
  have U: "\<forall>v \<in> ?U. v < frame_vpn" using a unfolding aspace_def by blast
  have nU: "tramp_vpn \<notin> ?U" "frame_vpn \<notin> ?U" using U fixed_bounds by auto
  have inv: "vm_inv s root R ps" using a by (simp add: aspace_def)
  obtain s1 f1 where 1: "uvmunmap root (tramp_vpn * PGSIZE) 1 False s = Ok s1" "unmapped root s R ps {tramp_vpn} f1 s1"
      "set f1 = fr s R ` ({tramp_vpn} \<inter> ?U)"
    by (rule aspace_unmap1 [OF a unmapped_refl [OF inv], of tramp_vpn False]) (use nU in auto)
  obtain s2 f2 where 2: "uvmunmap root (frame_vpn * PGSIZE) 1 False s1 = Ok s2" "unmapped root s R ps {frame_vpn, tramp_vpn} f2 s2"
      "set f2 = fr s R ` ({frame_vpn, tramp_vpn} \<inter> ?U)"
    by (rule aspace_unmap1 [OF a 1(2,3), of frame_vpn False]) (use nU fixed_bounds in auto)
  have f2: "set f2 = {}" using 2(3) nU by auto
  have w: "walk_user_perm root USER_STACK 0 s2 =
      Ok (if grants 0 (pte_at (mem s) R stack_vpn) then Some (pte_at (mem s) R stack_vpn) else None)"
  proof -
    have "pt_rep s2 root R" using 2(2) by (simp add: unmapped_def vm_inv_def)
    moreover have "pte_at (mem s2) R stack_vpn = pte_at (mem s) R stack_vpn"
      using 2(2) fixed_bounds by (simp add: unmapped_def)
    moreover have "USER_STACK div PGSIZE = stack_vpn" by (simp add: fixed_pages)
    ultimately show ?thesis using walk_user_perm_eq [of s2 root R USER_STACK 0] fixed_bounds(8) by (simp add: Let_def)
  qed
  have g: "grants 0 (pte_at (mem s) R stack_vpn) \<longleftrightarrow> stk"
  proof (cases stk)
    case True
    then show ?thesis using a by (simp add: aspace_def span_def)
  next
    case False
    then have "stack_vpn \<notin> ?U" using n(2) by (simp add: span_def)
    then have "\<not> is_valid (pte_at (mem s) R stack_vpn)" using a fixed_bounds by (simp add: aspace_def)
    then show ?thesis using False valid_leaf by (auto simp: grants_def)
  qed
  obtain s3 f3 where 3: "(if stk then uvmunmap root USER_STACK 1 True s2 else Ok s2) = Ok s3"
      "unmapped root s R ps (span 0 stk \<union> {tramp_vpn, frame_vpn}) f3 s3" "set f3 = fr s R ` span 0 stk"
  proof (cases stk)
    case True
    then have sU: "stack_vpn \<in> ?U" by (simp add: span_def)
    obtain s3 f3 where 3: "uvmunmap root (stack_vpn * PGSIZE) 1 True s2 = Ok s3"
        "unmapped root s R ps {stack_vpn, frame_vpn, tramp_vpn} f3 s3"
        "set f3 = fr s R ` ({stack_vpn, frame_vpn, tramp_vpn} \<inter> ?U)"
      by (rule aspace_unmap1 [OF a 2(2,3), of stack_vpn True]) (use sU fixed_bounds in auto)
    have "{stack_vpn, frame_vpn, tramp_vpn} \<inter> ?U = span 0 stk"
        "{stack_vpn, frame_vpn, tramp_vpn} = span 0 stk \<union> {tramp_vpn, frame_vpn}"
      using nU True by (auto simp: span_def)
    then show thesis using True 3 by (intro that [of s3 f3]) (simp_all add: fixed_pages)
  next
    case False
    then show thesis using that [of s2 f2] 2(2) f2 by (simp add: span_def insert_commute)
  qed
  have "proc_freepagetable root sz s = uvmfree root sz s3"
    using 1(1) 2(1) w g 3(1) by (cases stk) (simp_all add: proc_freepagetable_def fixed_pages)
  then show ?thesis using uvmfree_spec [OF a n 3(2,3)] by simp
qed

section \<open>Building an address space\<close>

lemma uvmcreate_spec:
  assumes f: "free_pages s ps"
  obtains (none) "ps = []" "uvmcreate s = (None, s)"
  | (page) root qs s' where "ps = root # qs" "uvmcreate s = (Some root, s')" "vm_inv s' root [[] \<mapsto> root] qs" "same_layout s s'"
      "\<And>v. pte_at (mem s') [[] \<mapsto> root] v = 0" "\<And>x. \<not> in_page root x \<Longrightarrow> mem s' x = mem s x"
  using f
proof (cases rule: kalloc_zeroed_cases)
  case none
  then show thesis by (intro that(1)) (simp_all add: uvmcreate_def)
next
  case (page p qs s')
  have "tree_ok [[] \<mapsto> p]" by (auto simp: tree_ok_def split: if_splits)
  moreover have "tables_ok (mem s') [[] \<mapsto> p]"
    unfolding tables_ok_def using entry_zero [OF _ page(7)] by (auto split: if_splits)
  ultimately have "vm_inv s' p [[] \<mapsto> p] qs"
    using page same_layout_managed [OF page(4)] by (auto simp: vm_inv_def pt_rep_def)
  then show thesis using page by (intro that(2) [of p qs s']) (simp_all add: uvmcreate_def pte_at_def vpath_def)
qed

lemma grows_freed:
  assumes "grows s0 [[] \<mapsto> root] qs s1 R1 ps1" and "freed s1 ps1 (ran R1) s2 ps2"
    and "ps = root # qs" and "same_layout s s0" and "\<And>x. \<not> in_page root x \<Longrightarrow> mem s0 x = mem s x"
  shows "free_pages s2 ps2 \<and> set ps2 = set ps \<and> same_layout s s2 \<and> (\<forall>x. outside (set ps) x \<longrightarrow> mem s2 x = mem s x)"
proof -
  have "set ps2 = set ps" using assms(1,2,3) by (auto simp: grows_def freed_def)
  moreover have "mem s2 x = mem s x" if "outside (set ps) x" for x
  proof -
    have "outside (ran R1) x" using that assms(1,3) by (auto simp: grows_def outside_def)
    then show ?thesis using that assms by (simp add: grows_def freed_def)
  qed
  ultimately show ?thesis
    using assms(1,2,4) same_layout_trans [of s s0 s1] same_layout_trans [of s s1 s2] by (simp add: grows_def freed_def)
qed

lemma unmapped_nil:
  assumes "unmapped root s R ps A [] s'"
  shows "vm_inv s' root R ps" "grows s R ps s' R ps"
  using assms by (auto simp: unmapped_def grows_def)

lemma proc_pagetable_spec:
  assumes f: "free_pages s ps" and tr: "is_page_aligned (trampoline_start s)" "unat (trampoline_start s) + PGSIZE < 2 ^ 64"
    and tf: "is_page_aligned tf" "unat tf + PGSIZE < 2 ^ 64"
  shows "\<exists>r s'. proc_pagetable tf s = Ok (r, s') \<and> same_layout s s' \<and> (\<forall>x. outside (set ps) x \<longrightarrow> mem s' x = mem s x) \<and>
    (case r of
       None \<Rightarrow> length ps < 5 \<and> (\<exists>ps'. free_pages s' ps' \<and> set ps' = set ps)
     | Some root \<Rightarrow> \<exists>R ps'. aspace s' root R ps' tf {} \<and> ran R \<union> set ps' = set ps \<and> length ps \<le> length ps' + 5)"
  using f
proof (cases rule: uvmcreate_spec)
  case none
  then show ?thesis using f by (auto simp: proc_pagetable_def)
next
  case (page root qs s0)
  note p = page
  let ?R0 = "[[] \<mapsto> root]"
  have t0: "trampoline_start s0 = trampoline_start s" using p(4) by (simp add: same_layout_def)
  from p(3) tr [folded t0] fixed_bounds(1) show ?thesis
  proof (cases rule: mappages_one [where v = tramp_vpn and flags = "PTE_R OR PTE_X"])
    case (fail s1 R1 ps1)
    have "\<forall>w < 512 ^ 3. \<not> is_valid (pte_at (mem s1) R1 w)" using fail(4) p(5) by (simp add: same_ptes_def)
    then obtain s2 ps2 where 2: "freewalk 3 root s1 = Ok s2" "freed s1 ps1 (ran R1) s2 ps2"
      using freewalk_spec [OF fail(2)] by blast
    have "proc_pagetable tf s = Ok (None, s2)"
      using p(2) fail(1) 2(1) by (simp add: proc_pagetable_def fixed_pages)
    moreover have "length ps < 5" using fail(5) p(1,5) by simp
    ultimately show ?thesis using grows_freed [OF fail(3) 2(2) p(1,4,6)] by auto
  next
    case (ok s1 R1 ps1)
    note m = ok
    from m(2) tf fixed_bounds(2) show ?thesis
    proof (cases rule: mappages_one [where v = frame_vpn and flags = "PTE_R OR PTE_W"])
      case (fail s2 R2 ps2)
      have at: "pte_at (mem s2) R2 w = (if w = tramp_vpn then leaf_pte (trampoline_start s) (PTE_R OR PTE_X) else 0)"
        if "w < 512 ^ 3" for w using m(4) [OF that] fail(4) p(5) that t0 by (simp add: same_ptes_def)
      then have "unmappable s2 R2 ps2 [tramp_vpn..<tramp_vpn + 1] False"
        using fixed_bounds(1) leaf_flags by (simp add: unmappable_def)
      from uvmunmap_spec [OF fail(2) this] obtain s3 where
        3: "uvmunmap root (tramp_vpn * PGSIZE) 1 False s2 = Ok s3" "unmapped root s2 R2 ps2 {tramp_vpn..<tramp_vpn + 1} [] s3"
        by auto
      note g3 = unmapped_nil [OF 3(2)]
      have "\<forall>w < 512 ^ 3. \<not> is_valid (pte_at (mem s3) R2 w)" using 3(2) at by (simp add: unmapped_def)
      then obtain s4 ps4 where 4: "freewalk 3 root s3 = Ok s4" "freed s3 ps2 (ran R2) s4 ps4"
        using freewalk_spec [OF g3(1)] by blast
      have "proc_pagetable tf s = Ok (None, s4)"
        using p(2) m(1) fail(1) 3(1) 4(1) t0 by (simp add: proc_pagetable_def fixed_pages)
      moreover have "\<not> is_valid (pte_at (mem s1) R1 frame_vpn)" using m(4) [OF fixed_bounds(2)] p(5) fixed_bounds(4) by simp
      then have "length ps < 5" using fail(5) m(5) p(1) by simp
      ultimately show ?thesis
        using grows_freed [OF grows_trans [OF grows_trans [OF m(3) fail(3)] g3(2)] 4(2) p(1,4,6)] by auto
    next
      case (ok s2 R2 ps2)
      note g = grows_trans [OF m(3) ok(3)]
      have lay: "same_layout s s2" using p(4) g same_layout_trans [of s s0 s2] by (simp add: grows_def)
      have at: "pte_at (mem s2) R2 w = (if w = frame_vpn then leaf_pte tf (PTE_R OR PTE_W)
          else if w = tramp_vpn then leaf_pte (trampoline_start s) (PTE_R OR PTE_X) else 0)"
        if "w < 512 ^ 3" for w using m(4) [OF that] ok(4) [OF that] p(5) t0 by simp
      have "aspace s2 root R2 ps2 tf {}"
        using ok(2) at fixed_bounds lay by (simp add: aspace_def same_layout_def)
      moreover have "ran R2 \<union> set ps2 = set ps" using g p(1) by (auto simp: grows_def)
      moreover have "mem s2 x = mem s x" if "outside (set ps) x" for x
        using that g p(1,6) by (auto simp: grows_def)
      moreover have "proc_pagetable tf s = Ok (Some root, s2)"
        using p(2) m(1) ok(1) t0 by (simp add: proc_pagetable_def fixed_pages)
      moreover have "length ps \<le> length ps2 + 5" using m(5) ok(5) p(1) by simp
      ultimately show ?thesis using lay by auto
    qed
  qed
qed

end
