(* ===== verification/Uvm.thy ===== *)
theory Uvm
  imports Aspace
begin

text \<open>
  Growing and copying the user part of an address space: \<open>uvmalloc\<close>, \<open>uvmcopy\<close>, \<open>uvmcopy_stack\<close>.
\<close>

section \<open>One more page\<close>

text \<open>The pages an address space holds: its tables and the frames of its user pages.\<close>

definition owned :: "kmem \<Rightarrow> tables \<Rightarrow> nat set \<Rightarrow> paddr set" where
  "owned s R U = ran R \<union> fr s R ` U"

lemma aspace_inv: "aspace s root R ps tf U \<Longrightarrow> vm_inv s root R ps"
  by (simp add: aspace_def)

lemma aspace_owned: "aspace s root R ps tf U \<Longrightarrow> a \<in> owned s R U \<Longrightarrow> managed s a \<and> a \<notin> set ps"
  by (auto simp: aspace_def owned_def vm_inv_def pt_rep_def)

lemma outside_page: "is_page_aligned a \<Longrightarrow> a \<notin> B \<Longrightarrow> \<forall>b \<in> B. is_page_aligned b \<Longrightarrow> in_page a x \<Longrightarrow> outside B x"
  using distinct_pages unfolding outside_def by blast

lemma page_outside:
  assumes "is_page_aligned a" and "a \<notin> B" and "\<forall>b \<in> B. is_page_aligned b" and "\<And>x. outside B x \<Longrightarrow> m' x = m x"
  shows "page m' a = page m a"
  using outside_page [OF assms(1-3)] assms(4) by (intro page_cong) blast

lemma vm_inv_aligned: "vm_inv s root R ps \<Longrightarrow> \<forall>b \<in> ran R \<union> set ps. is_page_aligned b"
  by (auto simp: vm_inv_def pt_rep_def free_pages_def list_all_iff managed_def)

lemma aspace_user: "aspace s root R ps tf U \<Longrightarrow> w \<in> U \<Longrightarrow> is_page_aligned (fr s R w) \<and> fr s R w \<notin> ran R \<union> set ps"
  by (auto simp: aspace_def managed_def)

text \<open>What an address space depends on: its tables, and that its pages are not free.\<close>

lemma aspace_frame:
  assumes a: "aspace s root R ps tf U" and "same_layout s s'" and "free_pages s' ps'" and d: "owned s R U \<inter> set ps' = {}"
    and m: "\<And>t x. t \<in> ran R \<Longrightarrow> in_page t x \<Longrightarrow> mem s' x = mem s x"
  shows "aspace s' root R ps' tf U" "fr s' R = fr s R" "pte_at (mem s') R = pte_at (mem s) R"
proof -
  have at: "pte_at (mem s') R v = pte_at (mem s) R v" for v by (rule pte_at_frame) (rule m)
  then show "pte_at (mem s') R = pte_at (mem s) R" by (simp add: fun_eq_iff)
  show f: "fr s' R = fr s R" by (simp add: fun_eq_iff fr_def at)
  have "pt_rep s' root R" using pt_rep_frame [OF vm_inv_rep [OF aspace_inv [OF a]] assms(2)] m by blast
  then have "vm_inv s' root R ps'" using assms(3) d by (auto simp: vm_inv_def owned_def)
  then show "aspace s' root R ps' tf U"
    using a d same_layout_managed [OF assms(2)] assms(2) unfolding aspace_def f at owned_def same_layout_def by auto
qed

text \<open>Taking a page from the free list.\<close>

lemma aspace_alloc:
  assumes a: "aspace s root R (p # qs) tf U" and k: "kalloc_zeroed s = (Some p, s')" "free_pages s' qs" "same_layout s s'"
      "\<And>x. \<not> in_page p x \<Longrightarrow> mem s' x = mem s x"
  shows "aspace s' root R qs tf U" "fr s' R = fr s R" "pte_at (mem s') R = pte_at (mem s) R"
proof -
  have "mem s' x = mem s x" if "t \<in> ran R" "in_page t x" for t x
  proof (rule k(4))
    have "managed s t" "t \<noteq> p" using aspace_owned [OF a, of t] that(1) by (auto simp: owned_def)
    moreover have "managed s p" using vm_inv_free [OF aspace_inv [OF a]] by (simp add: free_pages_def)
    ultimately show "\<not> in_page p x" using distinct_pages that(2) by (auto simp: managed_def)
  qed
  moreover have "owned s R U \<inter> set qs = {}" using aspace_owned [OF a] by auto
  ultimately show "aspace s' root R qs tf U" "fr s' R = fr s R" "pte_at (mem s') R = pte_at (mem s) R"
    using aspace_frame [OF a k(3,2)] by blast+
qed

text \<open>Mapping a fresh frame.\<close>

lemma aspace_map:
  assumes a: "aspace s root R ps tf U" and v: "v \<notin> U" "v < frame_vpn"
    and p: "managed s p" "p \<notin> owned s R U" "p \<notin> set ps" and fl: "unat flags < 2 ^ 10" "grants 0 (leaf_pte p flags)"
    and m: "vm_inv s' root R' ps'" "grows s R ps s' R' ps'"
      "\<And>w. w < 512 ^ 3 \<Longrightarrow> pte_at (mem s') R' w = ((pte_at (mem s) R)(v := leaf_pte p flags)) w"
  shows "aspace s' root R' ps' tf (insert v U)" "fr s' R' v = p" "\<And>w. w \<in> U \<Longrightarrow> fr s' R' w = fr s R w"
proof -
  have lay: "same_layout s s'" and acc: "ran R' \<union> set ps' = ran R \<union> set ps" using m(2) by (simp_all add: grows_def)
  have v3: "v < 512 ^ 3" "v \<noteq> tramp_vpn" "v \<noteq> frame_vpn" using v fixed_bounds by simp_all
  have U: "w < 512 ^ 3" "w \<noteq> v" if "w \<in> U" for w using aspace_leaf(1) [OF a] v(1) that by auto
  show fv: "fr s' R' v = p"
    using m(3) [OF v3(1)] pte_pa_leaf [OF managed_aligned [OF p(1)] managed_small [OF p(1)] fl(1)] by (simp add: fr_def)
  show fw: "fr s' R' w = fr s R w" if "w \<in> U" for w using m(3) [OF U(1) [OF that]] U(2) [OF that] by (simp add: fr_def)
  have gr: "grants 0 (pte_at (mem s') R' w)" if "w \<in> insert v U" for w
  proof (cases "w = v")
    case True
    then show ?thesis using m(3) [OF v3(1)] fl(2) by simp
  next
    case False
    with that have "w \<in> U" by simp
    then show ?thesis using m(3) [OF U(1)] False a by (simp add: aspace_def)
  qed
  have nv: "\<not> is_valid (pte_at (mem s') R' w)"
    if "w < 512 ^ 3" "w \<notin> insert v U" "w \<noteq> tramp_vpn" "w \<noteq> frame_vpn" for w
    using m(3) [OF that(1)] that a by (simp add: aspace_def)
  have im: "fr s' R' ` U = fr s R ` U" using fw by (intro image_cong) simp_all
  have "inj_on (fr s' R') U" using a fw inj_on_cong [of U "fr s' R'" "fr s R"] by (simp add: aspace_def)
  moreover have "fr s' R' v \<notin> fr s' R' ` U" unfolding im fv using p(2) by (simp add: owned_def)
  ultimately have inj: "inj_on (fr s' R') (insert v U)" using v(1) by simp
  have own: "managed s' (fr s' R' w) \<and> fr s' R' w \<notin> ran R' \<union> set ps'" if "w \<in> insert v U" for w
  proof (cases "w = v")
    case True
    then show ?thesis using fv p same_layout_managed [OF lay] unfolding acc by (simp add: owned_def)
  next
    case False
    with that have w: "w \<in> U" by simp
    then show ?thesis using fw [OF w] a same_layout_managed [OF lay] unfolding acc by (auto simp: aspace_def)
  qed
  have "trampoline_start s' = trampoline_start s" using lay by (simp add: same_layout_def)
  then show "aspace s' root R' ps' tf (insert v U)"
    using m(1) a m(3) [OF fixed_bounds(1)] m(3) [OF fixed_bounds(2)] v v3 gr nv inj own unfolding aspace_def by auto
qed

text \<open>Giving a page back that could not be mapped.\<close>

lemma aspace_kfree:
  assumes a: "aspace s root R ps tf U" and p: "managed s p" "p \<notin> owned s R U" "p \<notin> set ps"
  obtains s' where "kfree p s = Ok s'" "aspace s' root R (p # ps) tf U" "same_layout s s'" "fr s' R = fr s R"
    "pte_at (mem s') R = pte_at (mem s) R" "\<And>x. \<not> in_page p x \<Longrightarrow> mem s' x = mem s x"
proof (rule kfree_spec [OF vm_inv_free [OF aspace_inv [OF a]] p(1,3)])
  fix s'
  assume k: "kfree p s = Ok s'" "free_pages s' (p # ps)" "same_layout s s'" "\<And>x. \<not> in_page p x \<Longrightarrow> mem s' x = mem s x"
  have fm: "mem s' x = mem s x" if "t \<in> ran R" "in_page t x" for t x
  proof (rule k(4))
    have "managed s t" "t \<noteq> p" using aspace_owned [OF a, of t] that(1) p(2) by (auto simp: owned_def)
    then show "\<not> in_page p x" using distinct_pages that(2) p(1) by (auto simp: managed_def)
  qed
  have d: "owned s R U \<inter> set (p # ps) = {}" using aspace_owned [OF a] p(2) by auto
  show thesis
    by (rule that [OF k(1) aspace_frame(1) [OF a k(3,2) d fm] k(3) aspace_frame(2,3) [OF a k(3,2) d fm] k(4)])
qed

text \<open>Unmapping and freeing the pages \<open>v\<close> to \<open>v + n\<close> of an address space.\<close>

lemma aspace_uvmunmap:
  assumes a: "aspace s root R ps tf U" and V: "{v..<v + n} \<subseteq> U" "0 < n"
  obtains s' ps' where "uvmunmap root (v * PGSIZE) n True s = Ok s'" "aspace s' root R ps' tf (U - {v..<v + n})"
    "set ps' = set ps \<union> fr s R ` {v..<v + n}" "same_layout s s'"
    "\<And>w. w \<in> U - {v..<v + n} \<Longrightarrow> pte_at (mem s') R w = pte_at (mem s) R w"
    "\<And>x. outside (ran R \<union> fr s R ` {v..<v + n}) x \<Longrightarrow> mem s' x = mem s x"
proof -
  define W where W: "W = {v..<v + n}"
  note V = V [folded W]
  have "\<exists>s' gs. uvmunmap root (v * PGSIZE) n True s = Ok s' \<and> unmapped root s R ps ({} \<union> W) gs s' \<and>
      set gs = fr s R ` (({} \<union> W) \<inter> U)"
    unfolding W by (rule aspace_unmap [OF a unmapped_refl [OF aspace_inv [OF a]]]) (use V [unfolded W] in auto)
  then obtain s' gs where 1: "uvmunmap root (v * PGSIZE) n True s = Ok s'" "unmapped root s R ps W gs s'" "set gs = fr s R ` W"
    using V(1) by (auto simp: Int_absorb2)
  have at: "pte_at (mem s') R w = (if w \<in> W then 0 else pte_at (mem s) R w)" if "w < 512 ^ 3" for w
    using 1(2) that by (simp add: unmapped_def)
  have lay: "same_layout s s'" and inv: "vm_inv s' root R (rev gs @ ps)" using 1(2) by (simp_all add: unmapped_def)
  have U: "w < frame_vpn" if "w \<in> U" for w using a that by (auto simp: aspace_def)
  have U3: "w < 512 ^ 3" if "w \<in> U" for w using U [OF that] fixed_bounds by simp
  have f: "fr s' R w = fr s R w" if "w \<in> U - W" for w
    using at [OF U3, of w] that by (simp add: fr_def)
  have fx: "tramp_vpn \<notin> W" "frame_vpn \<notin> W" using V(1) U fixed_bounds(7) by (meson less_asym' less_irrefl subsetD)+
  have inj: "inj_on (fr s' R) (U - W)"
    using a f inj_on_cong [of "U - W" "fr s' R" "fr s R"] by (auto simp: aspace_def intro: inj_on_subset)
  have own: "managed s' (fr s' R w) \<and> fr s' R w \<notin> ran R \<union> set (rev gs @ ps)" if w: "w \<in> U - W" for w
  proof -
    have "fr s R w \<notin> fr s R ` W" using a w V(1) by (auto simp: aspace_def dest: inj_onD)
    then show ?thesis using f [OF w] a w 1(3) same_layout_managed [OF lay] by (auto simp: aspace_def)
  qed
  have gr: "grants 0 (pte_at (mem s') R w)" if "w \<in> U - W" for w
    using at [OF U3, of w] that a by (simp add: aspace_def)
  have nv: "\<not> is_valid (pte_at (mem s') R w)"
    if "w < 512 ^ 3" "w \<notin> U - W" "w \<noteq> tramp_vpn" "w \<noteq> frame_vpn" for w
    using at [OF that(1)] that a by (auto simp: aspace_def)
  have ts: "trampoline_start s' = trampoline_start s" using lay by (simp add: same_layout_def)
  have "aspace s' root R (rev gs @ ps) tf (U - W)"
    using inv a at [OF fixed_bounds(1)] at [OF fixed_bounds(2)] fx gr nv inj own ts unfolding aspace_def by auto
  moreover have "mem s' x = mem s x" if "outside (ran R \<union> fr s R ` W) x" for x
    using that 1(2) unfolding 1(3) [symmetric] by (simp add: unmapped_def)
  moreover have "pte_at (mem s') R w = pte_at (mem s) R w" if "w \<in> U - W" for w
    using at [OF U3, of w] that by simp
  moreover have "set (rev gs @ ps) = set ps \<union> fr s R ` W" using 1(3) by auto
  ultimately show thesis using 1(1) lay unfolding W by (intro that [of s' "rev gs @ ps"]) simp_all
qed

lemma aspace_grows:
  assumes a: "aspace s root R ps tf U" and m: "vm_inv s' root R' ps'" "grows s R ps s' R' ps'" "same_ptes (mem s) R (mem s') R'"
  shows "aspace s' root R' ps' tf U" "\<And>w. w \<in> U \<Longrightarrow> fr s' R' w = fr s R w"
proof -
  have lay: "same_layout s s'" and acc: "ran R' \<union> set ps' = ran R \<union> set ps" using m(2) by (simp_all add: grows_def)
  have at: "pte_at (mem s') R' w = pte_at (mem s) R w" if "w < 512 ^ 3" for w using m(3) that by (simp add: same_ptes_def)
  have U: "w < 512 ^ 3" if "w \<in> U" for w using aspace_leaf(1) [OF a] that by blast
  show f: "fr s' R' w = fr s R w" if "w \<in> U" for w using at [OF U [OF that]] by (simp add: fr_def)
  have gr: "grants 0 (pte_at (mem s') R' w)" if "w \<in> U" for w using at [OF U [OF that]] a that by (simp add: aspace_def)
  have nv: "\<not> is_valid (pte_at (mem s') R' w)" if "w < 512 ^ 3" "w \<notin> U" "w \<noteq> tramp_vpn" "w \<noteq> frame_vpn" for w
    using at [OF that(1)] a that by (simp add: aspace_def)
  have inj: "inj_on (fr s' R') U" using a f inj_on_cong [of U "fr s' R'" "fr s R"] by (simp add: aspace_def)
  have own: "managed s' (fr s' R' w) \<and> fr s' R' w \<notin> ran R' \<union> set ps'" if "w \<in> U" for w
    using f [OF that] a that same_layout_managed [OF lay] unfolding acc by (simp add: aspace_def)
  have "trampoline_start s' = trampoline_start s" using lay by (simp add: same_layout_def)
  then show "aspace s' root R' ps' tf U"
    using m(1) a at [OF fixed_bounds(1)] at [OF fixed_bounds(2)] gr nv inj own unfolding aspace_def by auto
qed

lemma managed_bound: "managed s p \<Longrightarrow> unat p + PGSIZE < 2 ^ 64"
  using managed_range [of s p] by (simp add: PHYSTOP_def)

text \<open>\<open>mappages\<close> of a frame at a page that is not mapped: it fails only for want of pages.\<close>

lemma aspace_mappages:
  assumes a: "aspace s root R ps tf U" and v: "v \<notin> U" "v < frame_vpn"
    and p: "managed s p" "p \<notin> owned s R U" "p \<notin> set ps" and fl: "unat flags < 2 ^ 10" "grants 0 (leaf_pte p flags)"
  obtains (ok) s' R' ps' where "mappages root (v * PGSIZE) PGSIZE p flags s = Ok (True, s')"
      "aspace s' root R' ps' tf (insert v U)" "grows s R ps s' R' ps'" "fr s' R' v = p"
      "\<And>w. w \<in> U \<Longrightarrow> fr s' R' w = fr s R w"
      "\<And>w. w < 512 ^ 3 \<Longrightarrow> pte_at (mem s') R' w = ((pte_at (mem s) R)(v := leaf_pte p flags)) w"
      "length ps \<le> length ps' + 2"
  | (fail) s' R' where "mappages root (v * PGSIZE) PGSIZE p flags s = Ok (False, s')"
      "aspace s' root R' [] tf U" "grows s R ps s' R' []" "\<And>w. w \<in> U \<Longrightarrow> fr s' R' w = fr s R w"
      "\<And>w. w < 512 ^ 3 \<Longrightarrow> pte_at (mem s') R' w = pte_at (mem s) R w" "length ps < 2"
proof -
  have v3: "v < 512 ^ 3" "v \<noteq> tramp_vpn" "v \<noteq> frame_vpn" using v fixed_bounds by simp_all
  from aspace_inv [OF a] managed_aligned [OF p(1)] managed_bound [OF p(1)] v3(1) show thesis
  proof (cases rule: mappages_one [where flags = flags])
    case (ok s' R' ps')
    note am = aspace_map [OF a v p fl ok(2,3,4)]
    show thesis by (rule that(1) [OF ok(1) am(1) ok(3) am(2,3) ok(4,5)])
  next
    case (fail s' R' ps')
    have "\<not> is_valid (pte_at (mem s) R v)" using a v(1) v3 by (simp add: aspace_def)
    then have [simp]: "ps' = []" and l: "length ps < 2" using fail(5) by simp_all
    note ag = aspace_grows [OF a fail(2-4)]
    have "\<And>w. w < 512 ^ 3 \<Longrightarrow> pte_at (mem s') R' w = pte_at (mem s) R w" using fail(4) by (simp add: same_ptes_def)
    then show thesis using that(2) [of s' R'] fail(1,3) ag l by simp
  qed
qed

text \<open>\<open>kalloc_zeroed\<close> in the presence of an address space.\<close>

lemma aspace_kalloc:
  assumes a: "aspace s root R ps tf U"
  obtains (none) "ps = []" "kalloc_zeroed s = (None, s)"
  | (page) p qs s' where "ps = p # qs" "kalloc_zeroed s = (Some p, s')" "aspace s' root R qs tf U" "same_layout s s'"
      "fr s' R = fr s R" "pte_at (mem s') R = pte_at (mem s) R" "managed s' p" "p \<notin> owned s' R U" "p \<notin> set qs"
      "page (mem s') p = replicate PGSIZE 0" "\<And>x. \<not> in_page p x \<Longrightarrow> mem s' x = mem s x"
  using vm_inv_free [OF aspace_inv [OF a]]
proof (cases rule: kalloc_zeroed_cases)
  case none
  then show thesis by (rule that(1))
next
  case (page p qs s')
  note al = aspace_alloc [OF a [unfolded page(1)] page(2,3,4,8)]
  have "p \<notin> owned s R U" using aspace_owned [OF a, of p] page(1) by auto
  then have "p \<notin> owned s' R U" by (simp add: owned_def al(2))
  moreover have "managed s' p" using page(5) same_layout_managed [OF page(4)] by simp
  ultimately show thesis using page al by (intro that(2) [of p qs s']) simp_all
qed

lemma user_flags: "unat (PTE_U OR PTE_R OR PTE_W) < 2 ^ 10" "grants 0 (leaf_pte p (PTE_U OR PTE_R OR PTE_W))"
proof -
  show "unat (PTE_U OR PTE_R OR PTE_W) < 2 ^ 10" by (simp add: PTE_U_def PTE_R_def PTE_W_def)
  have "(PTE_U OR PTE_R OR PTE_W) AND PTE_U \<noteq> 0" by (simp add: PTE_U_def PTE_R_def PTE_W_def)
  then show "grants 0 (leaf_pte p (PTE_U OR PTE_R OR PTE_W))"
    by (simp add: grants_def user_leaf_pte bit_or_iff PTE_R_def)
qed

lemma user_leaf_grants: "p = PTE_R \<or> p = PTE_W \<Longrightarrow> grants p (leaf_pte pa (PTE_U OR PTE_R OR PTE_W))"
proof -
  assume p: "p = PTE_R \<or> p = PTE_W"
  have "leaf_pte pa (PTE_U OR PTE_R OR PTE_W) AND p = p"
  proof (rule bit_word_eqI)
    fix n show "bit (leaf_pte pa (PTE_U OR PTE_R OR PTE_W) AND p) n = bit p n"
      using p unfolding bit_and_iff bit_leaf_pte bit_or_iff by blast
  qed
  then show ?thesis using user_flags(2) [of pa] by (simp add: grants_def)
qed

section \<open>Growing\<close>

text \<open>
  The state after user pages have been added or removed: they are \<open>W\<close> now, no physical page is lost, a new
  page \<open>w\<close> holds \<open>C w\<close> and has the flags \<open>F w\<close>, and the old pages and everything outside the address space
  are as before.
\<close>

definition put_page :: "paddr \<Rightarrow> byte list \<Rightarrow> kmem \<Rightarrow> kmem" where
  "put_page p c s = s\<lparr>mem := store_bytes (unat p) c (mem s)\<rparr>"

lemma aspace_put:
  assumes a: "aspace s root R ps tf U" and p: "managed s p" "p \<notin> owned s R U" "p \<notin> set ps" and c: "length c = PGSIZE"
  shows "aspace (put_page p c s) root R ps tf U" "fr (put_page p c s) R = fr s R"
    "pte_at (mem (put_page p c s)) R = pte_at (mem s) R" "page (mem (put_page p c s)) p = c"
    "\<And>x. \<not> in_page p x \<Longrightarrow> mem (put_page p c s) x = mem s x" "same_layout s (put_page p c s)"
proof -
  show o: "mem (put_page p c s) x = mem s x" if "\<not> in_page p x" for x
    using that c by (auto simp: put_page_def in_page_def)
  show lay: "same_layout s (put_page p c s)" by (simp add: put_page_def same_layout_def)
  show "page (mem (put_page p c s)) p = c" using c by (simp add: put_page_def page_def load_store_same)
  note inv = aspace_inv [OF a]
  have al: "is_page_aligned p" using p(1) by (rule managed_aligned)
  have fm: "mem (put_page p c s) x = mem s x" if "t \<in> ran R \<union> set ps" "in_page t x" for t x
  proof (rule o)
    have "t \<noteq> p" "is_page_aligned t" using that(1) p vm_inv_aligned [OF inv] by (auto simp: owned_def)
    then show "\<not> in_page p x" using distinct_pages al that(2) by blast
  qed
  have fp: "free_pages (put_page p c s) ps"
  proof -
    have e: "put_page p c s = s\<lparr>mem := mem (put_page p c s)\<rparr>" by (simp add: put_page_def)
    show ?thesis by (subst e, rule free_pages_frame [OF vm_inv_free [OF inv]]) (rule fm, simp_all)
  qed
  have d: "owned s R U \<inter> set ps = {}" using aspace_owned [OF a] by blast
  show "aspace (put_page p c s) root R ps tf U" "fr (put_page p c s) R = fr s R"
    "pte_at (mem (put_page p c s)) R = pte_at (mem s) R"
    using aspace_frame [OF a lay fp d] fm by blast+
qed

lemma put_page_same: "page (mem s) p = c \<Longrightarrow> length c = PGSIZE \<Longrightarrow> put_page p c s = s"
proof -
  assume p: "page (mem s) p = c" and c: "length c = PGSIZE"
  have "c ! (x - unat p) = mem s x" if "unat p \<le> x" "x < unat p + length c" for x
    using p c that nth_load_bytes [of "x - unat p" PGSIZE "mem s" "unat p"] by (auto simp: page_def)
  then have "store_bytes (unat p) c (mem s) = mem s" by (auto simp: store_bytes_def fun_eq_iff)
  then show ?thesis by (simp add: put_page_def)
qed

definition grown :: "(nat \<Rightarrow> byte list) \<Rightarrow> (nat \<Rightarrow> u64) \<Rightarrow> kmem \<Rightarrow> tables \<Rightarrow> paddr list \<Rightarrow> nat set \<Rightarrow> paddr \<Rightarrow> paddr \<Rightarrow> kmem \<Rightarrow> tables \<Rightarrow> paddr list \<Rightarrow> nat set \<Rightarrow> bool" where
  "grown C F s R ps U root tf s' R' ps' W \<longleftrightarrow>
     aspace s' root R' ps' tf W \<and> same_layout s s' \<and> owned s' R' W \<union> set ps' = owned s R U \<union> set ps \<and>
     (\<forall>w \<in> U \<inter> W. pte_at (mem s') R' w = pte_at (mem s) R w \<and> page (mem s') (fr s' R' w) = page (mem s) (fr s R w)) \<and>
     (\<forall>w \<in> W - U. page (mem s') (fr s' R' w) = C w \<and> pte_at (mem s') R' w = leaf_pte (fr s' R' w) (F w)) \<and>
     (\<forall>x. outside (owned s R U \<union> set ps) x \<longrightarrow> mem s' x = mem s x)"

lemma grown_refl: "aspace s root R ps tf U \<Longrightarrow> grown C F s R ps U root tf s R ps U"
  by (simp add: grown_def)

text \<open>One page more.\<close>

lemma grown_step:
  assumes a: "aspace s root R ps tf U" and v: "v \<notin> U" "v < frame_vpn"
    and cf: "length (C v) = PGSIZE" "unat (F v) < 2 ^ 10" "\<And>p. grants 0 (leaf_pte p (F v))"
  obtains (none) "ps = []" "kalloc_zeroed s = (None, s)"
  | (fail) p s1 s2 s3 R' where "kalloc_zeroed s = (Some p, s1)" "page (mem s1) p = replicate PGSIZE 0"
      "mappages root (v * PGSIZE) PGSIZE p (F v) (put_page p (C v) s1) = Ok (False, s2)"
      "kfree p s2 = Ok s3" "grown C F s R ps U root tf s3 R' [p] U" "length ps < 3"
  | (ok) p s1 s2 R' ps' where "kalloc_zeroed s = (Some p, s1)" "page (mem s1) p = replicate PGSIZE 0"
      "mappages root (v * PGSIZE) PGSIZE p (F v) (put_page p (C v) s1) = Ok (True, s2)"
      "grown C F s R ps U root tf s2 R' ps' (insert v U)" "length ps \<le> length ps' + 3"
  using a
proof (cases rule: aspace_kalloc)
  case none
  then show thesis by (rule that(1))
next
  case (page p qs s0)
  define s1 where s1: "s1 = put_page p (C v) s0"
  note put = aspace_put [OF page(3,7,8,9) cf(1), folded s1]
  have k: "ps = p # qs" "kalloc_zeroed s = (Some p, s0)" "aspace s1 root R qs tf U" "same_layout s s1"
      "fr s1 R = fr s R" "pte_at (mem s1) R = pte_at (mem s) R" "managed s1 p" "p \<notin> owned s1 R U" "p \<notin> set qs"
      "page (mem s1) p = C v" "\<And>x. \<not> in_page p x \<Longrightarrow> mem s1 x = mem s x"
    using page put same_layout_trans [OF page(4) put(6)] same_layout_managed [OF put(6)] by (simp_all add: owned_def)
  have ow: "owned s1 R U = owned s R U" by (simp add: owned_def k(5))
  have U3: "w < 512 ^ 3" "w \<noteq> v" if "w \<in> U" for w using aspace_leaf(1) [OF a] v(1) that by auto
  \<comment> \<open>the frames of the old pages lie outside what changes\<close>
  have pg: "page (mem s') (fr s R w) = page (mem s) (fr s R w)"
    if "w \<in> U" and "\<And>x. outside (ran R \<union> set ps) x \<Longrightarrow> mem s' x = mem s x" for s' w
    using aspace_user [OF a that(1)] vm_inv_aligned [OF aspace_inv [OF a]] that(2) by (intro page_outside) auto
  from k(3) v k(7,8,9) cf(2,3) show thesis
  proof (cases rule: aspace_mappages)
    case (ok s2 R2 ps2)
    have lay: "same_layout s s2" using k(4) ok(3) same_layout_trans [of s s1 s2] by (simp add: grows_def)
    have acc: "owned s2 R2 (insert v U) \<union> set ps2 = owned s R U \<union> set ps"
      using ok(3,4,5) k(1) by (auto simp: grows_def owned_def k(5))
    have fm: "mem s2 x = mem s x" if "outside (ran R \<union> set ps) x" for x
      using that ok(3) k(1,11) by (auto simp: grows_def)
    have zero: "page (mem s2) p = C v" "pte_at (mem s2) R2 v = leaf_pte p (F v)"
    proof -
      show "pte_at (mem s2) R2 v = leaf_pte p (F v)" using ok(6) [of v] v fixed_bounds by simp
      show "page (mem s2) p = C v"
      unfolding k(10) [symmetric]
      by (rule page_outside [of p "ran R \<union> set qs"])
        (use managed_aligned [OF k(7)] k(8,9) ok(3) vm_inv_aligned [OF aspace_inv [OF k(3)]] in \<open>auto simp: grows_def owned_def\<close>)
    qed
    have old: "pte_at (mem s2) R2 w = pte_at (mem s) R w" "fr s2 R2 w = fr s R w" if "w \<in> U" for w
      using ok(5) [OF that] ok(6) [OF U3(1) [OF that]] U3(2) [OF that] k(5,6) by simp_all
    have pg2: "page (mem s2) (fr s R w) = page (mem s) (fr s R w)" if "w \<in> U" for w using pg [OF that fm] .
    have "grown C F s R ps U root tf s2 R2 ps2 (insert v U)"
      unfolding grown_def
    proof (intro conjI ballI allI impI)
      fix x assume "outside (owned s R U \<union> set ps) x"
      then show "mem s2 x = mem s x" by (intro fm) (simp add: owned_def)
    qed (use ok(2) lay acc old pg2 zero ok(4) v(1) in auto)
    moreover have "length ps \<le> length ps2 + 3" using ok(7) k(1) by simp
    ultimately show thesis using that(3) [OF k(2) page(10) ok(1) [unfolded s1]] by blast
  next
    case (fail s2 R2)
    have rR: "ran R2 = ran R \<union> set qs" using fail(3) by (auto simp: grows_def)
    have old: "pte_at (mem s2) R2 w = pte_at (mem s) R w" "fr s2 R2 w = fr s R w" if "w \<in> U" for w
      using fail(4) [OF that] fail(5) [OF U3(1) [OF that]] k(5,6) by simp_all
    then have im: "fr s2 R2 ` U = fr s R ` U" by (intro image_cong) simp_all
    have "managed s2 p" using k(7) fail(3) same_layout_managed [of s1 s2] by (simp add: grows_def)
    moreover have "p \<notin> owned s2 R2 U" using k(8,9) by (simp add: owned_def rR im k(5))
    ultimately show thesis
    proof (rule aspace_kfree [OF fail(2)])
      fix s3
      assume f: "kfree p s2 = Ok s3" "aspace s3 root R2 [p] tf U" "same_layout s2 s3" "fr s3 R2 = fr s2 R2"
        "pte_at (mem s3) R2 = pte_at (mem s2) R2" "\<And>x. \<not> in_page p x \<Longrightarrow> mem s3 x = mem s2 x"
      have fm: "mem s3 x = mem s x" if "outside (ran R \<union> set ps) x" for x
        using that fail(3) k(1,11) f(6) by (auto simp: grows_def)
      have lay: "same_layout s s3"
        using k(4) fail(3) f(3) same_layout_trans [of s s1 s2] same_layout_trans [of s s2 s3] by (simp add: grows_def)
      have pg3: "page (mem s3) (fr s R w) = page (mem s) (fr s R w)" if "w \<in> U" for w using pg [OF that fm] .
      have "grown C F s R ps U root tf s3 R2 [p] U"
        unfolding grown_def
      proof (intro conjI ballI allI impI)
        fix x assume "outside (owned s R U \<union> set ps) x"
        then show "mem s3 x = mem s x" by (intro fm) (simp add: owned_def)
      qed (use f(2,4,5) lay old pg3 rR im k(1) in \<open>auto simp: owned_def\<close>)
      moreover have "length ps < 3" using fail(6) k(1) by simp
      ultimately show thesis using that(2) [OF k(2) page(10) fail(1) [unfolded s1] f(1)] by blast
    qed simp
  qed
qed

lemma grown_trans:
  assumes 1: "grown C F s R ps U root tf s1 R1 ps1 V" and 2: "grown C F s1 R1 ps1 V root tf s2 R2 ps2 W" and UV: "U \<inter> W \<subseteq> V"
  shows "grown C F s R ps U root tf s2 R2 ps2 W"
  unfolding grown_def
proof (intro conjI ballI allI impI)
  have acc: "owned s1 R1 V \<union> set ps1 = owned s R U \<union> set ps" using 1 by (simp add: grown_def)
  show "aspace s2 root R2 ps2 tf W" using 2 by (simp add: grown_def)
  show "same_layout s s2" using 1 2 same_layout_trans [of s s1 s2] by (simp add: grown_def)
  show "owned s2 R2 W \<union> set ps2 = owned s R U \<union> set ps" using 2 acc by (simp add: grown_def)
  show "pte_at (mem s2) R2 w = pte_at (mem s) R w" "page (mem s2) (fr s2 R2 w) = page (mem s) (fr s R w)" if "w \<in> U \<inter> W" for w
    using 1 2 that UV unfolding grown_def by auto
  show "page (mem s2) (fr s2 R2 w) = C w" "pte_at (mem s2) R2 w = leaf_pte (fr s2 R2 w) (F w)" if "w \<in> W - U" for w
  proof -
    have "fr s2 R2 w = fr s1 R1 w" if "w \<in> V \<inter> W" using 2 that by (simp add: grown_def fr_def)
    moreover have "pte_at (mem s2) R2 w = pte_at (mem s1) R1 w" "page (mem s2) (fr s2 R2 w) = page (mem s1) (fr s1 R1 w)"
      if "w \<in> V \<inter> W" using 2 that unfolding grown_def by blast+
    moreover have "page (mem s1) (fr s1 R1 w) = C w" "pte_at (mem s1) R1 w = leaf_pte (fr s1 R1 w) (F w)" if "w \<in> V - U"
      using 1 that unfolding grown_def by blast+
    moreover have "page (mem s2) (fr s2 R2 w) = C w" "pte_at (mem s2) R2 w = leaf_pte (fr s2 R2 w) (F w)" if "w \<in> W - V"
      using 2 that unfolding grown_def by blast+
    ultimately have "page (mem s2) (fr s2 R2 w) = C w \<and> pte_at (mem s2) R2 w = leaf_pte (fr s2 R2 w) (F w)"
      using that by (cases "w \<in> V") auto
    then show "page (mem s2) (fr s2 R2 w) = C w" "pte_at (mem s2) R2 w = leaf_pte (fr s2 R2 w) (F w)" by simp_all
  qed
  show "mem s2 x = mem s x" if "outside (owned s R U \<union> set ps) x" for x
    using 1 2 that unfolding grown_def acc by simp
qed

lemma grown_unmap:
  assumes a: "aspace s root R ps tf U" and V: "{v..<v + n} \<subseteq> U"
  obtains s' ps' where "(if 0 < n then uvmunmap root (v * PGSIZE) n True s else Ok s) = Ok s'"
    "grown C F s R ps U root tf s' R ps' (U - {v..<v + n})"
proof (cases "0 < n")
  case True
  show thesis
  proof (rule aspace_uvmunmap [OF a V True])
    fix s' ps'
    assume u: "uvmunmap root (v * PGSIZE) n True s = Ok s'" "aspace s' root R ps' tf (U - {v..<v + n})"
      "set ps' = set ps \<union> fr s R ` {v..<v + n}" "same_layout s s'"
      "\<And>w. w \<in> U - {v..<v + n} \<Longrightarrow> pte_at (mem s') R w = pte_at (mem s) R w"
      "\<And>x. outside (ran R \<union> fr s R ` {v..<v + n}) x \<Longrightarrow> mem s' x = mem s x"
    have f: "fr s' R w = fr s R w" if "w \<in> U - {v..<v + n}" for w using u(5) [OF that] by (simp add: fr_def)
    have pg: "page (mem s') (fr s R w) = page (mem s) (fr s R w)" if w: "w \<in> U - {v..<v + n}" for w
    proof (rule page_outside)
      show "\<forall>b \<in> ran R \<union> fr s R ` {v..<v + n}. is_page_aligned b"
        using vm_inv_aligned [OF aspace_inv [OF a]] aspace_user [OF a] V by blast
      show "fr s R w \<notin> ran R \<union> fr s R ` {v..<v + n}"
        using a w V unfolding aspace_def inj_on_def by blast
    qed (use aspace_user [OF a, of w] w u(6) in auto)
    have im: "fr s' R ` (U - {v..<v + n}) = fr s R ` (U - {v..<v + n})" using f by (rule image_cong [OF refl])
    have im2: "fr s R ` U = fr s R ` (U - {v..<v + n}) \<union> fr s R ` {v..<v + n}" using V by blast
    have acc: "owned s' R (U - {v..<v + n}) \<union> set ps' = owned s R U \<union> set ps"
      unfolding owned_def u(3) im im2 by (simp only: Un_ac)
    have "grown C F s R ps U root tf s' R ps' (U - {v..<v + n})"
      unfolding grown_def
    proof (intro conjI ballI allI impI)
      fix x assume "outside (owned s R U \<union> set ps) x"
      then show "mem s' x = mem s x" unfolding owned_def im2 by (intro u(6)) simp
    next
      fix w assume "w \<in> U \<inter> (U - {v..<v + n})"
      then have w: "w \<in> U - {v..<v + n}" by blast
      show "pte_at (mem s') R w = pte_at (mem s) R w" "page (mem s') (fr s' R w) = page (mem s) (fr s R w)"
        using u(5) [OF w] f [OF w] pg [OF w] by simp_all
    qed (use u(2,4) acc in auto)
    then show thesis using True u(1) by (intro that [of s' ps']) simp_all
  qed
next
  case False
  then show thesis using that [of s ps] a by (simp add: grown_refl)
qed

definition zeros :: "nat \<Rightarrow> byte list" where
  "zeros w = replicate PGSIZE 0"

lemma zeros_len: "length (zeros w) = PGSIZE"
  by (simp add: zeros_def)

lemma zeros_put: "page (mem s) p = replicate PGSIZE 0 \<Longrightarrow> put_page p (zeros w) s = s"
  by (rule put_page_same) (simp_all add: zeros_def)

lemma uvmalloc_loop_spec:
  assumes "aspace s root R ps tf U" and "v0 \<le> v" and "{v0..<v} \<subseteq> U" and "{v..<v + n} \<inter> U = {}" and "v + n \<le> frame_vpn"
  shows "\<exists>ok s' R' ps' W. uvmalloc_loop root (v0 * PGSIZE) (v * PGSIZE) ((v + n) * PGSIZE) s = Ok (ok, s') \<and>
    grown zeros (\<lambda>_. PTE_U OR PTE_R OR PTE_W) s R ps U root tf s' R' ps' W \<and>
    (if ok then W = U \<union> {v..<v + n} else length ps < 3 * n \<and> (W = U - {v0..<v} \<or> (\<exists>k < n. W = U \<union> {v..<v + k}) \<and> ps' = []))"
  using assms
proof (induction n arbitrary: s R ps U v)
  case 0
  have "uvmalloc_loop root (v0 * PGSIZE) (v * PGSIZE) ((v + 0) * PGSIZE) s = Ok (True, s)"
    by (simp add: uvmalloc_loop.simps [of root "v0 * PGSIZE" "v * PGSIZE"])
  moreover have "grown zeros (\<lambda>_. PTE_U OR PTE_R OR PTE_W) s R ps U root tf s R ps (U \<union> {v..<v + 0})" using grown_refl [OF "0.prems"(1)] by simp
  ultimately show ?case by (metis (full_types))
next
  case (Suc n)
  note a = Suc.prems(1)
  have "v \<in> {v..<v + Suc n}" by simp
  then have v: "v \<notin> U" "v < frame_vpn" using Suc.prems(4,5) by (blast, simp)
  have lt: "v * PGSIZE < (v + Suc n) * PGSIZE" by (simp add: PGSIZE_def)
  have va: "v * PGSIZE + PGSIZE < 2 ^ 64" using v(2) by (simp add: PGSIZE_def frame_vpn_def)
  note unf = uvmalloc_loop.simps [of root "v0 * PGSIZE" "v * PGSIZE" "(v + Suc n) * PGSIZE"]
  from a v zeros_len user_flags show ?case
  proof (cases rule: grown_step [where C = zeros and F = "\<lambda>_. PTE_U OR PTE_R OR PTE_W"])
    case none
    have "uvmalloc_loop root (v0 * PGSIZE) (v * PGSIZE) ((v + Suc n) * PGSIZE) s = Ok (False, s)"
      unfolding unf using lt none by simp
    moreover have "\<exists>k < Suc n. U = U \<union> {v..<v + k}" by (rule exI [of _ 0]) simp
    moreover have "length ps < 3 * Suc n" using none(1) by simp
    ultimately show ?thesis using grown_refl [OF a] none(1) by (metis (full_types))
  next
    case (fail p s1 s2 s3 R')
    note fail(3) [unfolded zeros_put [OF fail(2)]]
    note fail = fail(1) this fail(4,5,6)
    have a3: "aspace s3 root R' [p] tf U" using fail(4) by (simp add: grown_def)
    have V: "{v0..<v0 + (v - v0)} \<subseteq> U" using Suc.prems(2,3) by simp
    obtain s4 ps4 where 4: "(if 0 < v - v0 then uvmunmap root (v0 * PGSIZE) (v - v0) True s3 else Ok s3) = Ok s4"
        "grown zeros (\<lambda>_. PTE_U OR PTE_R OR PTE_W) s3 R' [p] U root tf s4 R' ps4 (U - {v0..<v0 + (v - v0)})" by (rule grown_unmap [OF a3 V])
    have e: "(v * PGSIZE - v0 * PGSIZE) div PGSIZE = v - v0" "v0 * PGSIZE < v * PGSIZE \<longleftrightarrow> 0 < v - v0"
      by (simp_all add: diff_mult_distrib [symmetric]) (simp add: PGSIZE_def)
    have "uvmalloc_loop root (v0 * PGSIZE) (v * PGSIZE) ((v + Suc n) * PGSIZE) s = Ok (False, s4)"
      unfolding unf using lt fail(1,2,3) 4(1) unfolding e by simp
    moreover have "grown zeros (\<lambda>_. PTE_U OR PTE_R OR PTE_W) s R ps U root tf s4 R' ps4 (U - {v0..<v})"
      using grown_trans [OF fail(4) 4(2)] Suc.prems(2) by auto
    moreover have "length ps < 3 * Suc n" using fail(5) by simp
    ultimately show ?thesis by (metis (full_types))
  next
    case (ok p s1 s2 R' ps')
    note ok(3) [unfolded zeros_put [OF ok(2)]]
    note ok = ok(1) this ok(4,5)
    let ?U = "insert v U"
    have a2: "aspace s2 root R' ps' tf ?U" using ok(3) by (simp add: grown_def)
    have "{Suc v..<Suc v + n} \<subseteq> {v..<v + Suc n}" by auto
    then have "{Suc v..<Suc v + n} \<inter> U = {}" using Suc.prems(4) by blast
    then have "{v0..<Suc v} \<subseteq> ?U" "{Suc v..<Suc v + n} \<inter> ?U = {}" using Suc.prems(2,3) by (auto simp: less_Suc_eq)
    then obtain b s4 R4 ps4 W where 4:
      "uvmalloc_loop root (v0 * PGSIZE) (Suc v * PGSIZE) ((Suc v + n) * PGSIZE) s2 = Ok (b, s4)"
      "grown zeros (\<lambda>_. PTE_U OR PTE_R OR PTE_W) s2 R' ps' ?U root tf s4 R4 ps4 W"
      "if b then W = ?U \<union> {Suc v..<Suc v + n} else length ps' < 3 * n \<and>
          (W = ?U - {v0..<Suc v} \<or> (\<exists>k < n. W = ?U \<union> {Suc v..<Suc v + k}) \<and> ps4 = [])"
      using Suc.IH [OF a2, of "Suc v"] Suc.prems(2,5) by auto
    have "uvmalloc_loop root (v0 * PGSIZE) (v * PGSIZE) ((v + Suc n) * PGSIZE) s = Ok (b, s4)"
      unfolding unf using lt ok(1,2) va 4(1) by (simp add: add.commute)
    moreover have "grown zeros (\<lambda>_. PTE_U OR PTE_R OR PTE_W) s R ps U root tf s4 R4 ps4 W" by (rule grown_trans [OF ok(3) 4(2)]) auto
    moreover have "if b then W = U \<union> {v..<v + Suc n} else length ps < 3 * Suc n \<and>
        (W = U - {v0..<v} \<or> (\<exists>k < Suc n. W = U \<union> {v..<v + k}) \<and> ps4 = [])"
    proof -
      have i: "?U \<union> {Suc v..<Suc v + k} = U \<union> {v..<v + Suc k}" for k by auto
      have d: "?U - {v0..<Suc v} = U - {v0..<v}" using Suc.prems(2) v(1) by (auto simp: less_Suc_eq)
      have l: "length ps < 3 * Suc n" if "length ps' < 3 * n" using that ok(4) by simp
      show ?thesis using 4(3) l unfolding i d by (metis (full_types) Suc_less_eq)
    qed
    ultimately show ?thesis by blast
  qed
qed

end
