(* ===== verification/Uvm_Copy.thy ===== *)
theory Uvm_Copy
  imports Uvm
begin

text \<open>
  \<open>uvmcopy\<close> and \<open>uvmcopy_stack\<close>: the pages of one address space are copied into another.  The source is
  described by what its pages hold, so that its tables may share memory with nothing that changes.
\<close>

section \<open>The source of a copy\<close>

text \<open>Pages \<open>V\<close> of the tables \<open>R\<close> hold \<open>C\<close> with the flags \<open>F\<close>, and lie outside the pages \<open>A\<close>.\<close>

definition source :: "kmem \<Rightarrow> paddr \<Rightarrow> tables \<Rightarrow> (nat \<Rightarrow> byte list) \<Rightarrow> (nat \<Rightarrow> u64) \<Rightarrow> nat set \<Rightarrow> paddr set \<Rightarrow> bool" where
  "source s old R C F V A \<longleftrightarrow>
     pt_rep s old R \<and> (ran R \<union> fr s R ` V) \<inter> A = {} \<and> (\<forall>a \<in> A. is_page_aligned a) \<and>
     (\<forall>w \<in> V. grants 0 (pte_at (mem s) R w) \<and> is_page_aligned (fr s R w) \<and>
        C w = page (mem s) (fr s R w) \<and> F w = pte_flags (pte_at (mem s) R w))"

lemma source_frame:
  assumes c: "source s old R C F V A" and lay: "same_layout s s'" and m: "\<And>x. outside A x \<Longrightarrow> mem s' x = mem s x"
  shows "source s' old R C F V A"
proof -
  have rep: "pt_rep s old R" and al: "\<forall>a \<in> A. is_page_aligned a" and d: "(ran R \<union> fr s R ` V) \<inter> A = {}"
    using c by (simp_all add: source_def)
  have t: "mem s' x = mem s x" if "t \<in> ran R" "in_page t x" for t x
  proof (rule m)
    have "is_page_aligned t" "t \<notin> A" using that(1) rep d by (auto simp: pt_rep_def managed_def)
    then show "outside A x" using outside_page al that(2) by blast
  qed
  have at: "pte_at (mem s') R w = pte_at (mem s) R w" for w by (rule pte_at_frame) (rule t)
  then have f: "fr s' R w = fr s R w" for w by (simp add: fr_def)
  have "page (mem s') (fr s R w) = page (mem s) (fr s R w)" if "w \<in> V" for w
    using c that m by (intro page_outside [of _ A]) (auto simp: source_def)
  then show ?thesis using c pt_rep_frame [OF rep lay t] unfolding source_def at f by simp
qed

lemma source_walk:
  assumes "source s old R C F V A" and "w \<in> V" and "w * PGSIZE < MAXVA"
  shows "walk_user_perm old (w * PGSIZE) 0 s = Ok (Some (pte_at (mem s) R w))"
  using walk_user_perm_eq [of s old R "w * PGSIZE" 0] assms by (simp add: source_def Let_def)

lemma grants_flags: "grants 0 e \<Longrightarrow> grants 0 (leaf_pte p (pte_flags e))"
proof -
  assume g: "grants 0 e"
  have "pte_flags e AND PTE_U = e AND PTE_U"
  proof (rule bit_word_eqI)
    fix n show "bit (pte_flags e AND PTE_U) n = bit (e AND PTE_U) n"
      unfolding bit_and_iff bit_pte_flags PTE_U_def bit_push_1 by auto
  qed
  then have "leaf_pte p (pte_flags e) AND PTE_U \<noteq> 0" using g by (simp add: user_leaf_pte grants_def)
  moreover have "is_leaf (leaf_pte p (pte_flags e))" 
    using g unfolding is_leaf_leaf_pte bit_pte_flags by (simp add: grants_def is_leaf_iff)
  ultimately show ?thesis by (simp add: grants_def)
qed

lemma kalloc_zeroed_mem:
  assumes "free_pages s ps" and "kalloc_zeroed s = (Some p, s1)"
  shows "p \<in> set ps" "\<And>x. \<not> in_page p x \<Longrightarrow> mem s1 x = mem s x"
  using assms by (cases rule: kalloc_zeroed_cases; auto)+

text \<open>The copied page is what the model of \<open>grown_step\<close> puts there.\<close>

lemma source_copy:
  assumes c: "source s old R C F V A" and w: "w \<in> V" and k: "free_pages s ps" "kalloc_zeroed s = (Some p, s1)" and A: "set ps \<subseteq> A"
  shows "copy_page (pte_pa (pte_at (mem s) R w)) p s1 = put_page p (C w) s1"
proof -
  note m = kalloc_zeroed_mem [OF k]
  have "page (mem s1) (fr s R w) = page (mem s) (fr s R w)"
  proof (rule page_outside [of _ A])
    fix x assume "outside A x"
    then show "mem s1 x = mem s x" using m A by (auto simp: outside_def)
  qed (use c w in \<open>auto simp: source_def\<close>)
  then have "page (mem s1) (fr s R w) = C w" using c w by (simp add: source_def)
  then show ?thesis by (simp add: copy_page_def put_page_def page_def fr_def)
qed

section \<open>\<open>uvmcopy\<close>\<close>

lemma uvmcopy_loop_spec:
  assumes "aspace s new S ps tf {..<i}" and "source s old R C F {..<i + m} (owned s S {..<i} \<union> set ps)" and "i + m \<le> frame_vpn"
  shows "\<exists>ok s' S' ps'. uvmcopy_loop old new [i..<i + m] s = Ok (ok, s') \<and>
    grown C F s S ps {..<i} new tf s' S' ps' (if ok then {..<i + m} else {})"
  using assms
proof (induction m arbitrary: s S ps i)
  case 0
  then show ?case using grown_refl [OF "0.prems"(1)] by (auto intro!: exI [of _ True])
next
  case (Suc m)
  note a = Suc.prems(1) and c = Suc.prems(2)
  let ?A = "owned s S {..<i} \<union> set ps"
  have i: "i \<in> {..<i + Suc m}" "i \<notin> {..<i}" "i < frame_vpn" using Suc.prems(3) by simp_all
  let ?e = "pte_at (mem s) R i"
  have walk: "walk_user_perm old (i * PGSIZE) 0 s = Ok (Some ?e)"
    using i(3) by (intro source_walk [OF c i(1)]) (simp add: frame_vpn_def MAXVA_def PGSIZE_def)
  have cf: "length (C i) = PGSIZE" "unat (F i) < 2 ^ 10" "\<And>p. grants 0 (leaf_pte p (F i))" "F i = pte_flags ?e"
    using c i(1) pte_flags_small [of ?e] grants_flags [of ?e] by (auto simp: source_def page_def)
  have upt: "[i..<i + Suc m] = i # [Suc i..<Suc i + m]" by (simp add: upt_rec)
  note k = vm_inv_free [OF aspace_inv [OF a]]
  note copy = source_copy [OF c i(1) k]
  have clean: "\<exists>s4 ps4. (if 0 < i then uvmunmap new 0 i True s3 else Ok s3) = Ok s4 \<and> grown C F s S ps {..<i} new tf s4 S' ps4 {}"
    if g: "grown C F s S ps {..<i} new tf s3 S' ps3 {..<i}" for s3 S' ps3
  proof -
    have a3: "aspace s3 new S' ps3 tf {..<i}" using g by (simp add: grown_def)
    have "{0..<0 + i} \<subseteq> {..<i}" by auto
    with a3 obtain s4 ps4 where 4: "(if 0 < i then uvmunmap new (0 * PGSIZE) i True s3 else Ok s3) = Ok s4"
        "grown C F s3 S' ps3 {..<i} new tf s4 S' ps4 ({..<i} - {0..<0 + i})"
      by (rule grown_unmap)
    have e: "{..<i} - {0..<0 + i} = {}" by auto
    have "grown C F s S ps {..<i} new tf s4 S' ps4 {}" using grown_trans [OF g 4(2)] unfolding e by simp
    then show ?thesis using 4(1) by auto
  qed
  from a i(2,3) cf(1-3) show ?case
  proof (cases rule: grown_step)
    case none
    obtain s4 ps4 where "(if 0 < i then uvmunmap new 0 i True s else Ok s) = Ok s4" "grown C F s S ps {..<i} new tf s4 S ps4 {}"
      using clean [OF grown_refl [OF a]] by blast
    then have "uvmcopy_loop old new [i..<i + Suc m] s = Ok (False, s4) \<and> grown C F s S ps {..<i} new tf s4 S ps4 {}"
      unfolding upt using walk none by simp
    then show ?thesis by auto
  next
    case (fail p s1 s2 s3 S')
    have cp: "copy_page (pte_pa ?e) p s1 = put_page p (C i) s1" by (rule copy [OF fail(1)]) simp
    obtain s4 ps4 where 4: "(if 0 < i then uvmunmap new 0 i True s3 else Ok s3) = Ok s4" "grown C F s S ps {..<i} new tf s4 S' ps4 {}"
      using clean [OF fail(5)] by blast
    then have "uvmcopy_loop old new [i..<i + Suc m] s = Ok (False, s4)"
      unfolding upt using walk fail(1,3,4) cp cf(4) by simp
    then show ?thesis using 4(2) by auto
  next
    case (ok p s1 s2 S' ps')
    have cp: "copy_page (pte_pa ?e) p s1 = put_page p (C i) s1" by (rule copy [OF ok(1)]) simp
    have ins: "insert i {..<i} = {..<Suc i}" by auto
    note g = ok(4) [unfolded ins]
    have a2: "aspace s2 new S' ps' tf {..<Suc i}" and lay: "same_layout s s2" and acc: "owned s2 S' {..<Suc i} \<union> set ps' = ?A"
      using g by (simp_all add: grown_def)
    have "source s2 old R C F {..<i + Suc m} ?A"
      by (rule source_frame [OF c lay]) (use g in \<open>simp add: grown_def\<close>)
    then have "source s2 old R C F {..<Suc i + m} (owned s2 S' {..<Suc i} \<union> set ps')" by (simp add: acc)
    from Suc.IH [OF a2 this] Suc.prems(3) obtain b s4 S4 ps4 where
      4: "uvmcopy_loop old new [Suc i..<Suc i + m] s2 = Ok (b, s4)"
        "grown C F s2 S' ps' {..<Suc i} new tf s4 S4 ps4 (if b then {..<Suc i + m} else {})" by auto
    have "uvmcopy_loop old new [i..<i + Suc m] s = Ok (b, s4)"
      unfolding upt using walk ok(1,3) cp cf(4) 4(1) by simp
    moreover have "grown C F s S ps {..<i} new tf s4 S4 ps4 (if b then {..<i + Suc m} else {})"
      using grown_trans [OF g 4(2)] by (cases b) force+
    ultimately show ?thesis by blast
  qed
qed

lemma uvmcopy_spec:
  assumes "aspace s new S ps tf {}" and "source s old R C F {..<n} (ran S \<union> set ps)"
    and n: "n = pages sz" "n \<le> frame_vpn" "sz + PGSIZE < 2 ^ 64"
  shows "\<exists>ok s' S' ps'. uvmcopy old new sz s = Ok (ok, s') \<and> grown C F s S ps {} new tf s' S' ps' (if ok then {..<n} else {})"
proof -
  have "uvmcopy old new sz s = uvmcopy_loop old new [0..<n] s" using n by (simp add: uvmcopy_def page_round_up_eq)
  moreover have "source s old R C F {..<0 + n} (owned s S {..<0} \<union> set ps)" using assms(2) by (simp add: owned_def)
  ultimately show ?thesis
    using uvmcopy_loop_spec [of s new S ps tf 0 old R C F n] assms(1) n(2) unfolding add_0 lessThan_0 by simp
qed

section \<open>\<open>uvmcopy_stack\<close>\<close>

lemma uvmcopy_stack_spec:
  assumes a: "aspace s new S ps tf U" and c: "source s old R C F {stack_vpn} (owned s S U \<union> set ps)" and U: "stack_vpn \<notin> U"
  shows "\<exists>ok s' S' ps'. uvmcopy_stack old new s = Ok (ok, s') \<and>
    grown C (\<lambda>_. PTE_U OR PTE_R OR PTE_W) s S ps U new tf s' S' ps' (if ok then insert stack_vpn U else U)"
proof -
  let ?e = "pte_at (mem s) R stack_vpn"
  have walk: "walk_user_perm old USER_STACK 0 s = Ok (Some ?e)"
    unfolding fixed_pages by (rule source_walk [OF c]) (use fixed_bounds(8) in \<open>simp_all add: fixed_pages\<close>)
  have len: "length (C stack_vpn) = PGSIZE" using c by (simp add: source_def page_def)
  note k = vm_inv_free [OF aspace_inv [OF a]]
  have copy: "copy_page (pte_pa ?e) p s1 = put_page p (C stack_vpn) s1" if "kalloc_zeroed s = (Some p, s1)" for p s1
    by (rule source_copy [OF c _ k that]) simp_all
  from a U fixed_bounds(5) len user_flags show ?thesis
  proof (cases rule: grown_step [where F = "\<lambda>_. PTE_U OR PTE_R OR PTE_W"])
    case none
    then show ?thesis using walk grown_refl [OF a] by (auto simp: uvmcopy_stack_def intro!: exI [of _ False])
  next
    case (fail p s1 s2 s3 S')
    then have "uvmcopy_stack old new s = Ok (False, s3)"
      using walk copy [OF fail(1)] by (simp add: uvmcopy_stack_def fixed_pages)
    then show ?thesis using fail(5) by (intro exI [of _ False]) auto
  next
    case (ok p s1 s2 S' ps')
    then have "uvmcopy_stack old new s = Ok (True, s2)"
      using walk copy [OF ok(1)] by (simp add: uvmcopy_stack_def fixed_pages)
    then show ?thesis using ok(4) by (intro exI [of _ True]) auto
  qed
qed

section \<open>Two address spaces\<close>

text \<open>An address space whose pages are apart from the pages \<open>A\<close> survives what happens to \<open>A\<close>.\<close>

lemma aspace_beside:
  assumes a: "aspace s root R ps tf U" and lay: "same_layout s s'" and f: "free_pages s' ps'"
    and A: "owned s R U \<inter> A = {}" "\<forall>b \<in> A. is_page_aligned b" "set ps' \<subseteq> A" and m: "\<And>x. outside A x \<Longrightarrow> mem s' x = mem s x"
  shows "aspace s' root R ps' tf U" "fr s' R = fr s R" "pte_at (mem s') R = pte_at (mem s) R"
    "\<And>v. v \<in> U \<Longrightarrow> page (mem s') (fr s R v) = page (mem s) (fr s R v)"
proof -
  have o: "outside A x" if "q \<in> owned s R U" "in_page q x" for q x
    using aspace_owned [OF a that(1)] A(1,2) that outside_page [of q A x] by (auto simp: managed_def)
  have t: "mem s' x = mem s x" if "q \<in> ran R" "in_page q x" for q x
    using m [OF o [of q x]] that by (simp add: owned_def)
  have "owned s R U \<inter> set ps' = {}" using A(1,3) by blast
  note fr = aspace_frame [OF a lay f this t]
  show "aspace s' root R ps' tf U" "fr s' R = fr s R" "pte_at (mem s') R = pte_at (mem s) R"
    using fr by simp_all
  show "page (mem s') (fr s R v) = page (mem s) (fr s R v)" if "v \<in> U" for v
    using m o [of "fr s R v"] that by (intro page_cong) (auto simp: owned_def)
qed

lemma aspace_source:
  assumes a: "aspace s old R ps tf U" and V: "V \<subseteq> U" and B: "owned s R U \<inter> B = {}" "\<forall>b \<in> B. is_page_aligned b"
  shows "source s old R (\<lambda>v. page (mem s) (fr s R v)) (\<lambda>v. pte_flags (pte_at (mem s) R v)) V (B \<union> set ps)"
proof -
  have "(ran R \<union> fr s R ` V) \<inter> (B \<union> set ps) = {}"
    using B(1) V aspace_owned [OF a] unfolding owned_def by blast
  moreover have "\<forall>b \<in> B \<union> set ps. is_page_aligned b" using B(2) vm_inv_aligned [OF aspace_inv [OF a]] by blast
  moreover have "grants 0 (pte_at (mem s) R w)" "is_page_aligned (fr s R w)" if "w \<in> V" for w
    using a V that by (auto simp: aspace_def managed_def)
  ultimately show ?thesis using a by (simp add: source_def aspace_def vm_inv_def)
qed

lemma aspace_aligned: "aspace s root R ps tf U \<Longrightarrow> \<forall>b \<in> owned s R U \<union> set ps. is_page_aligned b"
  using vm_inv_aligned [of s root R ps] by (auto simp: aspace_def owned_def managed_def)

text \<open>What an operation on one address space does to another one.\<close>

lemma grown_beside:
  assumes a: "aspace s old R ps tfo V" and g: "grown C F s S ps U new tf s' S' ps' W" and d: "owned s R V \<inter> owned s S U = {}"
    and n: "aspace s new S ps tf U"
  shows "aspace s' old R ps' tfo V" "fr s' R = fr s R" "pte_at (mem s') R = pte_at (mem s) R"
    "\<And>v. v \<in> V \<Longrightarrow> page (mem s') (fr s R v) = page (mem s) (fr s R v)" "owned s' R V \<inter> owned s' S' W = {}"
proof -
  let ?A = "owned s S U \<union> set ps"
  have lay: "same_layout s s'" and acc: "owned s' S' W \<union> set ps' = ?A" and f: "free_pages s' ps'"
    and m: "\<And>x. outside ?A x \<Longrightarrow> mem s' x = mem s x"
    using g by (auto simp: grown_def aspace_def vm_inv_def)
  have A: "owned s R V \<inter> ?A = {}" "\<forall>b \<in> ?A. is_page_aligned b" "set ps' \<subseteq> ?A"
    using d aspace_owned [OF a] aspace_aligned [OF n] acc by blast+
  note b = aspace_beside [OF a lay f A m]
  show "aspace s' old R ps' tfo V" "pte_at (mem s') R = pte_at (mem s) R"
    "\<And>v. v \<in> V \<Longrightarrow> page (mem s') (fr s R v) = page (mem s) (fr s R v)"
    using b by simp_all
  show fr: "fr s' R = fr s R" using b(2) by simp
  have "owned s' S' W \<subseteq> ?A" using acc by blast
  moreover have "owned s' R V = owned s R V" by (simp add: owned_def fr)
  ultimately show "owned s' R V \<inter> owned s' S' W = {}" using A(1) by blast
qed

end
