(* ===== verification/Copyio.thy ===== *)
theory Copyio
  imports Uvm
begin

text \<open>
  \<open>copyin\<close>, \<open>copyinstr\<close> and \<open>copyout\<close> against reference definitions that go byte by byte: every address is
  translated on its own, and the copy stops at the first byte that is not user memory with the permission.
\<close>

section \<open>User addresses\<close>

definition user_at :: "memory \<Rightarrow> tables \<Rightarrow> u64 \<Rightarrow> nat \<Rightarrow> nat option" where
  "user_at m R perm va =
     (let e = pte_at m R (va div PGSIZE) in
      if va < MAXVA \<and> grants perm e then Some (unat (pte_pa e) + va mod PGSIZE) else None)"

lemma page_round_down_div: "page_round_down va div PGSIZE = va div PGSIZE"
  by (simp add: page_round_down_eq PGSIZE_def)

lemma page_round_down_less: "va < MAXVA \<Longrightarrow> page_round_down va < MAXVA"
  by (simp add: page_round_down_eq order_le_less_trans [OF div_times_less_eq_dividend])

lemma user_chunk_eq:
  assumes "pt_rep s root R"
  shows "user_chunk root va left perm s =
    Ok (map_option (\<lambda>a. (a, min (PGSIZE - va mod PGSIZE) left)) (user_at (mem s) R perm va))"
proof (cases "va < MAXVA")
  case True
  then have "va < 2 ^ 64" by (simp add: MAXVA_def)
  with True walk_user_perm_eq [OF assms, of "page_round_down va" perm] page_round_down_less [OF True]
  show ?thesis by (auto simp: user_chunk_def page_offset page_round_down_div user_at_def Let_def not_le)
next
  case False
  then show ?thesis by (simp add: user_chunk_def user_at_def)
qed

text \<open>Within a page the translation goes on.\<close>

lemma user_at_add:
  assumes "i < PGSIZE - va mod PGSIZE"
  shows "user_at m R perm (va + i) = map_option (\<lambda>a. a + i) (user_at m R perm va)"
proof -
  obtain q r where q: "va = q * PGSIZE + r" "r < PGSIZE" "va mod PGSIZE = r" "va div PGSIZE = q"
    using div_mult_mod_eq [of va PGSIZE] by (metis PGSIZE_def mod_less_divisor zero_less_numeral)
  have "r + i < PGSIZE" using assms q(3) by simp
  then have d: "(va + i) div PGSIZE = q" "(va + i) mod PGSIZE = r + i"
    unfolding q(1) add.assoc by simp_all
  have M: "MAXVA = 2 ^ 26 * PGSIZE" by (simp add: MAXVA_def PGSIZE_def)
  have "x < MAXVA \<longleftrightarrow> x div PGSIZE < 2 ^ 26" for x
    unfolding M by (simp add: div_less_iff_less_mult PGSIZE_def)
  then show ?thesis by (simp add: user_at_def d q(3,4) Let_def)
qed

section \<open>Reference definitions\<close>

fun read_bytes :: "(nat \<Rightarrow> byte option) \<Rightarrow> nat \<Rightarrow> nat \<Rightarrow> byte list option" where
  "read_bytes f va 0 = Some []"
| "read_bytes f va (Suc n) =
     (case f va of None \<Rightarrow> None | Some b \<Rightarrow> map_option (Cons b) (read_bytes f (Suc va) n))"

fun read_str :: "(nat \<Rightarrow> byte option) \<Rightarrow> nat \<Rightarrow> nat \<Rightarrow> byte list option" where
  "read_str f va 0 = None"
| "read_str f va (Suc n) =
     (case f va of
        None \<Rightarrow> None
      | Some b \<Rightarrow> if b = 0 then Some [] else map_option (Cons b) (read_str f (Suc va) n))"

fun write_bytes :: "(nat \<Rightarrow> nat option) \<Rightarrow> nat \<Rightarrow> byte list \<Rightarrow> memory \<Rightarrow> bool \<times> memory" where
  "write_bytes f va [] m = (True, m)"
| "write_bytes f va (b # bs) m =
     (case f va of None \<Rightarrow> (False, m) | Some a \<Rightarrow> write_bytes f (Suc va) bs (m(a := b)))"

lemma load_bytes_Suc: "load_bytes m a (Suc n) = m a # load_bytes m (Suc a) n"
  by (simp add: load_bytes_def upt_rec)

lemma read_bytes_chunk:
  assumes "\<And>i. i < n \<Longrightarrow> f (va + i) = Some (m (a + i))"
  shows "read_bytes f va (n + k) = map_option (\<lambda>bs. load_bytes m a n @ bs) (read_bytes f (va + n) k)"
  using assms
proof (induction n arbitrary: va a)
  case 0
  then show ?case by (simp add: load_bytes_def option.map_ident)
next
  case (Suc n)
  have "f va = Some (m a)" using Suc.prems [of 0] by simp
  moreover have "read_bytes f (Suc va) (n + k) = map_option (\<lambda>bs. load_bytes m (Suc a) n @ bs) (read_bytes f (Suc va + n) k)"
    using Suc.prems [of "Suc i" for i] by (intro Suc.IH) simp
  ultimately show ?case by (simp add: load_bytes_Suc option.map_comp comp_def)
qed

lemma read_str_chunk:
  assumes "\<And>i. i < n \<Longrightarrow> f (va + i) = Some (m (a + i))"
  shows "read_str f va (n + k) =
    (case find_slot (\<lambda>b. b = 0) (load_bytes m a n) of
       Some i \<Rightarrow> Some (take i (load_bytes m a n))
     | None \<Rightarrow> map_option (\<lambda>bs. load_bytes m a n @ bs) (read_str f (va + n) k))"
  using assms
proof (induction n arbitrary: va a)
  case 0
  then show ?case by (cases "read_str f va k") (simp_all add: load_bytes_def)
next
  case (Suc n)
  have "f va = Some (m a)" using Suc.prems [of 0] by simp
  moreover have "read_str f (Suc va) (n + k) =
      (case find_slot (\<lambda>b. b = 0) (load_bytes m (Suc a) n) of
         Some i \<Rightarrow> Some (take i (load_bytes m (Suc a) n))
       | None \<Rightarrow> map_option (\<lambda>bs. load_bytes m (Suc a) n @ bs) (read_str f (Suc va + n) k))"
    using Suc.prems [of "Suc i" for i] by (intro Suc.IH) simp
  ultimately show ?case
    by (cases "read_str f (Suc va + n) k") (auto simp: load_bytes_Suc split: option.split)
qed

lemma write_bytes_chunk:
  assumes "\<And>i. i < length xs \<Longrightarrow> f (va + i) = Some (a + i)"
  shows "write_bytes f va (xs @ ys) m = write_bytes f (va + length xs) ys (store_bytes a xs m)"
  using assms
proof (induction xs arbitrary: va a m)
  case Nil
  have "store_bytes a [] m = m" by (auto simp: store_bytes_def fun_eq_iff)
  then show ?case by simp
next
  case (Cons b xs)
  have "f va = Some a" using Cons.prems [of 0] by simp
  moreover have "write_bytes f (Suc va) (xs @ ys) (m(a := b)) = write_bytes f (Suc va + length xs) ys (store_bytes (Suc a) xs (m(a := b)))"
    using Cons.prems [of "Suc i" for i] by (intro Cons.IH) simp
  moreover have "store_bytes (Suc a) xs (m(a := b)) = store_bytes a (b # xs) m"
    by (auto simp: store_bytes_def fun_eq_iff nth_Cons')
  ultimately show ?case by simp
qed

section \<open>Reading\<close>

abbreviation user_byte :: "kmem \<Rightarrow> tables \<Rightarrow> nat \<Rightarrow> byte option" where
  "user_byte s R \<equiv> \<lambda>va. map_option (mem s) (user_at (mem s) R PTE_R va)"

lemma user_byte_chunk:
  assumes "user_at (mem s) R PTE_R va = Some a" and "n \<le> PGSIZE - va mod PGSIZE" and "i < n"
  shows "user_byte s R (va + i) = Some (mem s (a + i))"
  using user_at_add [of i va "mem s" R PTE_R] assms by simp

lemma copyin_loop_spec:
  assumes r: "pt_rep s root R" and "length dst \<le> len"
  shows "copyin_loop root va len dst s =
    Ok (map_option (\<lambda>bs. dst @ bs) (read_bytes (user_byte s R) (va + length dst) (len - length dst)))"
  using assms(2)
proof (induction "len - length dst" arbitrary: dst rule: less_induct)
  case less
  show ?case
  proof (cases "length dst < len")
    case False
    then show ?thesis using less.prems by (simp add: copyin_loop.simps [of root va len dst])
  next
    case True
    then obtain k where k: "len - length dst = Suc k" by (metis Suc_diff_Suc)
    let ?va = "va + length dst"
    show ?thesis
    proof (cases "user_at (mem s) R PTE_R ?va")
      case None
      then show ?thesis using True k
        by (simp add: copyin_loop.simps [of root va len dst] user_chunk_eq [OF r])
    next
      case (Some a)
      define n where n: "n = min (PGSIZE - ?va mod PGSIZE) (len - length dst)"
      have "?va mod PGSIZE < PGSIZE" by (simp add: PGSIZE_def)
      then have n0: "0 < n" "n \<le> PGSIZE - ?va mod PGSIZE" "n \<le> len - length dst" using True by (simp_all add: n)
      have ch: "user_chunk root ?va (len - length dst) PTE_R s = Ok (Some (a, n))" using Some by (simp add: user_chunk_eq [OF r] n)
      let ?dst = "dst @ load_bytes (mem s) a n"
      have "copyin_loop root va len dst s = copyin_loop root va len ?dst s"
        using True ch by (simp add: copyin_loop.simps [of root va len dst])
      also have "\<dots> = Ok (map_option (\<lambda>bs. ?dst @ bs) (read_bytes (user_byte s R) (va + length ?dst) (len - length ?dst)))"
        using n0 True by (intro less.hyps) auto
      also have "map_option (\<lambda>bs. ?dst @ bs) (read_bytes (user_byte s R) (va + length ?dst) (len - length ?dst)) =
          map_option (\<lambda>bs. dst @ bs) (read_bytes (user_byte s R) ?va (n + (len - length dst - n)))"
        using read_bytes_chunk [of n "user_byte s R" ?va "mem s" a "len - length dst - n"] user_byte_chunk [OF Some n0(2)]
        by (simp add: option.map_comp comp_def add.assoc)
      also have "n + (len - length dst - n) = len - length dst" using n0(3) by simp
      finally show ?thesis .
    qed
  qed
qed

lemma copyin_spec: "pt_rep s root R \<Longrightarrow> copyin root len va s = Ok (read_bytes (user_byte s R) va len)"
  using copyin_loop_spec [of s root R "[]" len va] by (simp add: copyin_def option.map_ident)

lemma copyinstr_loop_spec:
  assumes r: "pt_rep s root R" and "length dst \<le> len"
  shows "copyinstr_loop root va len dst s =
    Ok (map_option (\<lambda>bs. dst @ bs) (read_str (user_byte s R) (va + length dst) (len - length dst)))"
  using assms(2)
proof (induction "len - length dst" arbitrary: dst rule: less_induct)
  case less
  show ?case
  proof (cases "length dst < len")
    case False
    then show ?thesis using less.prems by (simp add: copyinstr_loop.simps [of root va len dst])
  next
    case True
    then obtain k where k: "len - length dst = Suc k" by (metis Suc_diff_Suc)
    let ?va = "va + length dst"
    show ?thesis
    proof (cases "user_at (mem s) R PTE_R ?va")
      case None
      then show ?thesis using True k
        by (simp add: copyinstr_loop.simps [of root va len dst] user_chunk_eq [OF r])
    next
      case (Some a)
      define n where n: "n = min (PGSIZE - ?va mod PGSIZE) (len - length dst)"
      have "?va mod PGSIZE < PGSIZE" by (simp add: PGSIZE_def)
      then have n0: "0 < n" "n \<le> PGSIZE - ?va mod PGSIZE" "n \<le> len - length dst" using True by (simp_all add: n)
      have ch: "user_chunk root ?va (len - length dst) PTE_R s = Ok (Some (a, n))" using Some by (simp add: user_chunk_eq [OF r] n)
      let ?bs = "load_bytes (mem s) a n"
      have step: "copyinstr_loop root va len dst s =
          (case find_slot (\<lambda>b. b = 0) ?bs of Some i \<Rightarrow> Ok (Some (dst @ take i ?bs))
           | None \<Rightarrow> copyinstr_loop root va len (dst @ ?bs) s)"
        using True ch by (simp add: copyinstr_loop.simps [of root va len dst] Let_def)
      have "n + (len - length dst - n) = len - length dst" using n0(3) by simp
      then have ref: "read_str (user_byte s R) ?va (len - length dst) =
          (case find_slot (\<lambda>b. b = 0) ?bs of Some i \<Rightarrow> Some (take i ?bs)
           | None \<Rightarrow> map_option (\<lambda>bs. ?bs @ bs) (read_str (user_byte s R) (?va + n) (len - length dst - n)))"
        using read_str_chunk [of n "user_byte s R" ?va "mem s" a "len - length dst - n"] user_byte_chunk [OF Some n0(2)]
        by simp
      have "copyinstr_loop root va len (dst @ ?bs) s =
          Ok (map_option (\<lambda>bs. (dst @ ?bs) @ bs) (read_str (user_byte s R) (va + length (dst @ ?bs)) (len - length (dst @ ?bs))))"
        using n0 True by (intro less.hyps) auto
      then show ?thesis unfolding step ref by (simp add: option.map_comp comp_def add.assoc split: option.split)
    qed
  qed
qed

lemma copyinstr_spec: "pt_rep s root R \<Longrightarrow> copyinstr root len va s = Ok (read_str (user_byte s R) va len)"
  using copyinstr_loop_spec [of s root R "[]" len va] by (simp add: copyinstr_def option.map_ident)

section \<open>Writing\<close>

lemma grants_mono: "grants perm e \<Longrightarrow> grants 0 e"
  by (simp add: grants_def)

lemma aspace_grants:
  assumes a: "aspace s root R ps tf U" and "va < MAXVA" and g: "grants perm (pte_at (mem s) R (va div PGSIZE))"
  shows "va div PGSIZE \<in> U"
proof (rule ccontr)
  let ?v = "va div PGSIZE"
  assume n: "?v \<notin> U"
  have "?v < 2 ^ 26" using assms(2) by (simp add: MAXVA_def PGSIZE_def div_less_iff_less_mult)
  then have "?v < 512 ^ 3" by simp
  moreover have "is_valid (pte_at (mem s) R ?v)" using g by (simp add: grants_def valid_leaf)
  ultimately have "?v = tramp_vpn \<or> ?v = frame_vpn" using a n unfolding aspace_def by blast
  moreover have "leaf_pte p (PTE_R OR PTE_X) AND PTE_U = 0" "leaf_pte p (PTE_R OR PTE_W) AND PTE_U = 0" for p
    unfolding user_leaf_pte by (simp_all add: PTE_R_def PTE_X_def PTE_W_def PTE_U_def)
  ultimately show False using a g by (auto simp: aspace_def grants_def)
qed

text \<open>A store into user memory keeps the address space.\<close>

lemma aspace_store:
  assumes a: "aspace s root R ps tf U" and u: "user_at (mem s) R perm va = Some b"
    and n: "length bs \<le> PGSIZE - va mod PGSIZE"
  defines "s' \<equiv> s\<lparr>mem := store_bytes b bs (mem s)\<rparr>"
  shows "aspace s' root R ps tf U" "pte_at (mem s') R = pte_at (mem s) R"
    "\<And>x. outside (fr s R ` U) x \<Longrightarrow> mem s' x = mem s x"
proof -
  let ?v = "va div PGSIZE"
  have g: "va < MAXVA" "grants perm (pte_at (mem s) R ?v)" and b: "b = unat (fr s R ?v) + va mod PGSIZE"
    using u by (auto simp: user_at_def fr_def Let_def split: if_splits)
  have vU: "?v \<in> U" by (rule aspace_grants [OF a g])
  have in_p: "store_bytes b bs (mem s) x = mem s x" if "\<not> in_page (fr s R ?v) x" for x
    using that n b by (intro store_bytes_other) (auto simp: in_page_def)
  then show "mem s' x = mem s x" if "outside (fr s R ` U) x" for x using that vU by (auto simp: s'_def outside_def)
  have fm: "mem s' x = mem s x" if "t \<in> ran R \<union> set ps" "in_page t x" for t x
  proof -
    have "is_page_aligned t" "t \<noteq> fr s R ?v" using aspace_user [OF a vU] vm_inv_aligned [OF aspace_inv [OF a]] that(1) by auto
    then have "\<not> in_page (fr s R ?v) x" using distinct_pages aspace_user [OF a vU] that(2) by blast
    then show ?thesis using in_p by (simp add: s'_def)
  qed
  have lay: "same_layout s s'" by (simp add: s'_def same_layout_def)
  have "free_pages s' ps"
    unfolding s'_def using fm by (intro free_pages_frame [OF vm_inv_free [OF aspace_inv [OF a]]]) (auto simp: s'_def)
  moreover have "owned s R U \<inter> set ps = {}" using aspace_owned [OF a] by blast
  ultimately show "aspace s' root R ps tf U" "pte_at (mem s') R = pte_at (mem s) R"
    using aspace_frame [OF a lay] fm by blast+
qed

lemma user_at_cong: "pte_at m' R = pte_at m R \<Longrightarrow> user_at m' R perm = user_at m R perm"
  by (simp add: user_at_def fun_eq_iff)

text \<open>The state after a copy out.\<close>

definition written :: "kmem \<Rightarrow> paddr \<Rightarrow> tables \<Rightarrow> paddr list \<Rightarrow> paddr \<Rightarrow> nat set \<Rightarrow> memory \<Rightarrow> bool" where
  "written s root R ps tf U m \<longleftrightarrow>
     aspace (s\<lparr>mem := m\<rparr>) root R ps tf U \<and> pte_at m R = pte_at (mem s) R \<and>
     (\<forall>x. outside (fr s R ` U) x \<longrightarrow> m x = mem s x)"

lemma copyout_loop_spec:
  assumes "aspace s root R ps tf U" and "count \<le> length src"
  shows "\<exists>ok m. copyout_loop root va src count s = Ok (ok, s\<lparr>mem := m\<rparr>) \<and>
    write_bytes (user_at (mem s) R PTE_W) (va + count) (drop count src) (mem s) = (ok, m) \<and> written s root R ps tf U m"
  using assms
proof (induction "length src - count" arbitrary: s count rule: less_induct)
  case less
  note a = less.prems(1)
  have r: "pt_rep s root R" using a by (simp add: aspace_def vm_inv_def)
  show ?case
  proof (cases "count < length src")
    case False
    then have "copyout_loop root va src count s = Ok (True, s)" by (simp add: copyout_loop.simps [of root va src count])
    then show ?thesis using False less.prems by (intro exI [of _ True] exI [of _ "mem s"]) (simp add: written_def)
  next
    case True
    let ?va = "va + count"
    show ?thesis
    proof (cases "user_at (mem s) R PTE_W ?va")
      case None
      obtain b bs where "drop count src = b # bs" using True by (metis Cons_nth_drop_Suc)
      moreover have "copyout_loop root va src count s = Ok (False, s)"
        using True None by (simp add: copyout_loop.simps [of root va src count] user_chunk_eq [OF r])
      ultimately show ?thesis using None a by (intro exI [of _ False] exI [of _ "mem s"]) (simp add: written_def)
    next
      case (Some p)
      define n where n: "n = min (PGSIZE - ?va mod PGSIZE) (length src - count)"
      have "?va mod PGSIZE < PGSIZE" by (simp add: PGSIZE_def)
      then have n0: "0 < n" "n \<le> PGSIZE - ?va mod PGSIZE" "n \<le> length src - count" using True by (simp_all add: n)
      have ch: "user_chunk root ?va (length src - count) PTE_W s = Ok (Some (p, n))" using Some by (simp add: user_chunk_eq [OF r] n)
      let ?xs = "take n (drop count src)"
      let ?s = "s\<lparr>mem := store_bytes p ?xs (mem s)\<rparr>"
      have len: "length ?xs = n" using n0(3) by simp
      note st = aspace_store [OF a Some, of ?xs]
      have a': "aspace ?s root R ps tf U" "pte_at (mem ?s) R = pte_at (mem s) R"
          "\<And>x. outside (fr s R ` U) x \<Longrightarrow> mem ?s x = mem s x"
        using st len n0(2) by simp_all
      have dec: "length src - (count + n) < length src - count" "count + n \<le> length src" using n0(1,3) True by simp_all
      obtain ok m where IH: "copyout_loop root va src (count + n) ?s = Ok (ok, ?s\<lparr>mem := m\<rparr>)"
          "write_bytes (user_at (mem ?s) R PTE_W) (va + (count + n)) (drop (count + n) src) (mem ?s) = (ok, m)"
          "written ?s root R ps tf U m"
        using less.hyps [OF dec(1) a'(1) dec(2)] by blast
      have "copyout_loop root va src count s = Ok (ok, s\<lparr>mem := m\<rparr>)"
        using True ch IH(1) by (simp add: copyout_loop.simps [of root va src count])
      moreover have "write_bytes (user_at (mem s) R PTE_W) ?va (drop count src) (mem s) = (ok, m)"
      proof -
        have "drop count src = ?xs @ drop (count + n) src" by (metis append_take_drop_id drop_drop add.commute)
        moreover have "user_at (mem s) R PTE_W (?va + i) = Some (p + i)" if "i < length ?xs" for i
          using user_at_add [of i ?va "mem s" R PTE_W] that len n0(2) Some by simp
        ultimately show ?thesis
          using write_bytes_chunk [of ?xs "user_at (mem s) R PTE_W" ?va p "drop (count + n) src" "mem s"] IH(2)
            user_at_cong [OF a'(2)] len by (simp add: add.assoc)
      qed
      moreover have "written s root R ps tf U m"
        using IH(3) a' by (auto simp: written_def fr_def)
      ultimately show ?thesis by blast
    qed
  qed
qed

lemma copyout_spec:
  assumes "aspace s root R ps tf U"
  shows "\<exists>ok m. copyout root va src s = Ok (ok, s\<lparr>mem := m\<rparr>) \<and>
    write_bytes (user_at (mem s) R PTE_W) va src (mem s) = (ok, m) \<and> written s root R ps tf U m"
  using copyout_loop_spec [OF assms, of 0 src va] by (simp add: copyout_def)

section \<open>Reading back what was written\<close>

text \<open>The translation of an address space is injective.\<close>

lemma user_at_inj:
  assumes a: "aspace s root R ps tf U" and "user_at (mem s) R p va = Some x" and "user_at (mem s) R q vb = Some x"
  shows "va = vb"
proof -
  have f: "va < MAXVA" "grants p (pte_at (mem s) R (va div PGSIZE))" "x = unat (fr s R (va div PGSIZE)) + va mod PGSIZE"
    using assms(2) by (auto simp: user_at_def fr_def Let_def split: if_splits)
  have g: "vb < MAXVA" "grants q (pte_at (mem s) R (vb div PGSIZE))" "x = unat (fr s R (vb div PGSIZE)) + vb mod PGSIZE"
    using assms(3) by (auto simp: user_at_def fr_def Let_def split: if_splits)
  note U = aspace_grants [OF a f(1,2)] aspace_grants [OF a g(1,2)]
  have "in_page (fr s R (va div PGSIZE)) x" "in_page (fr s R (vb div PGSIZE)) x"
    using f(3) g(3) by (simp_all add: in_page_def PGSIZE_def)
  then have e: "fr s R (va div PGSIZE) = fr s R (vb div PGSIZE)"
    using in_page_unique aspace_user [OF a] U by blast
  then have "va div PGSIZE = vb div PGSIZE" using a U by (auto simp: aspace_def dest: inj_onD)
  moreover have "va mod PGSIZE = vb mod PGSIZE" using f(3) g(3) e by simp
  ultimately show ?thesis by (metis div_mult_mod_eq)
qed

lemma write_bytes_other:
  assumes "write_bytes f va bs m = (True, m')" and "\<And>i. i < length bs \<Longrightarrow> f (va + i) \<noteq> Some x"
  shows "m' x = m x"
  using assms
proof (induction bs arbitrary: va m)
  case (Cons b bs)
  obtain a where a: "f va = Some a" "write_bytes f (Suc va) bs (m(a := b)) = (True, m')"
    using Cons.prems(1) by (auto split: option.splits)
  have "m' x = (m(a := b)) x"
    using Cons.prems(2) [of "Suc i" for i] by (intro Cons.IH [OF a(2)]) auto
  moreover have "a \<noteq> x" using Cons.prems(2) [of 0] a(1) by auto
  ultimately show ?case by simp
qed simp

lemma write_then_read_bytes:
  assumes "write_bytes f va bs m = (True, m')"
    and "\<And>i j x. i < length bs \<Longrightarrow> j < length bs \<Longrightarrow> f (va + i) = Some x \<Longrightarrow> f (va + j) = Some x \<Longrightarrow> i = j"
    and "\<And>i. i < length bs \<Longrightarrow> g (va + i) = f (va + i)"
  shows "read_bytes (\<lambda>a. map_option m' (g a)) va (length bs) = Some bs"
  using assms
proof (induction bs arbitrary: va m)
  case (Cons b bs)
  obtain a where a: "f va = Some a" "write_bytes f (Suc va) bs (m(a := b)) = (True, m')"
    using Cons.prems(1) by (auto split: option.splits)
  have "read_bytes (\<lambda>a. map_option m' (g a)) (Suc va) (length bs) = Some bs"
  proof (rule Cons.IH [OF a(2)])
    show "i = j" if "i < length bs" "j < length bs" "f (Suc va + i) = Some x" "f (Suc va + j) = Some x" for i j x
      using Cons.prems(2) [of "Suc i" "Suc j" x] that by simp
    show "g (Suc va + i) = f (Suc va + i)" if "i < length bs" for i using Cons.prems(3) [of "Suc i"] that by simp
  qed
  moreover have "m' a = (m(a := b)) a"
  proof (rule write_bytes_other [OF a(2)])
    show "f (Suc va + i) \<noteq> Some a" if "i < length bs" for i using Cons.prems(2) [of 0 "Suc i" a] a(1) that by auto
  qed
  moreover have "g va = Some a" using Cons.prems(3) [of 0] a(1) by simp
  ultimately show ?case by simp
qed simp

lemma write_bytes_mapped: "write_bytes f va bs m = (True, m') \<Longrightarrow> i < length bs \<Longrightarrow> f (va + i) \<noteq> None"
proof (induction bs arbitrary: va m i)
  case (Cons b bs)
  obtain a where a: "f va = Some a" "write_bytes f (Suc va) bs (m(a := b)) = (True, m')"
    using Cons.prems(1) by (auto split: option.splits)
  show ?case using a(1) Cons.IH [OF a(2)] Cons.prems(2) by (cases i) auto
qed simp

end
