(* ===== verification/Vm_Demo.thy ===== *)
theory Vm_Demo
  imports Uvm_Copy Copyio
begin

text \<open>
  A concrete machine: sixteen free pages, an address space built by \<open>proc_pagetable\<close>, and two user pages
  added by \<open>uvmalloc\<close>.  The theorems on address spaces are applied to it.
\<close>

definition km_demo :: kmem where
  "km_demo = \<lparr>mem = (\<lambda>_. 0), head = 0, kernel_end = 0x87FF0000, trampoline_start = 0x80200000,
     etext = 0x80210000, erodata = 0x80220000\<rparr>"

definition demo_mem :: kmem where
  "demo_mem = (case kalloc_init km_demo of Inr s \<Rightarrow> s | Inl _ \<Rightarrow> km_demo)"

definition demo_tf :: paddr where
  "demo_tf = 0x87FEF000"

definition demo_space :: "paddr \<times> kmem" where
  "demo_space = (case proc_pagetable demo_tf demo_mem of Inr (Some root, s) \<Rightarrow> (root, s) | _ \<Rightarrow> (0, demo_mem))"

definition demo_user :: kmem where
  "demo_user = (case uvmalloc (fst demo_space) 0 (2 * PGSIZE) (snd demo_space) of Inr (_, s) \<Rightarrow> s | _ \<Rightarrow> demo_mem)"

lemma demo_free:
  "\<exists>ps. free_pages demo_mem ps \<and> 16 \<le> length ps \<and> same_layout km_demo demo_mem"
proof -
  have f: "free_pages km_demo []" by (simp add: free_pages_def km_demo_def)
  have al: "is_page_aligned (kernel_end km_demo)" by (simp add: aligned_iff km_demo_def PGSIZE_def)
  then have "unat (kernel_end km_demo) mod PGSIZE = 0" by (simp add: aligned_iff)
  then obtain s ps where 1: "freerange (unat (kernel_end km_demo)) (unat PHYSTOP) km_demo = Ok s" "free_pages s ps"
      "same_layout km_demo s" "set ps = {a. managed km_demo a \<and> unat (kernel_end km_demo) \<le> unat a}"
    using freerange_spec [OF f, of "unat (kernel_end km_demo)"] by auto
  have e: "demo_mem = s" using 1(1) al by (simp add: demo_mem_def kalloc_init_def)
  let ?g = "\<lambda>k. of_nat (0x87FF0000 + k * PGSIZE) :: paddr"
  have k: "managed km_demo (?g k)" "unat (?g k) = 0x87FF0000 + k * PGSIZE" if "k < 16" for k
    using managed_next [of "0x87FF0000 + k * PGSIZE" km_demo] that
    by (simp_all add: km_demo_def PGSIZE_def PHYSTOP_def)
  have "?g ` {..<16} \<subseteq> set ps" using k 1(4) by (auto simp: km_demo_def)
  moreover have "inj_on ?g {..<16}"
  proof (rule inj_onI)
    fix x y assume "x \<in> {..<16}" "y \<in> {..<16}" "?g x = ?g y"
    then have "0x87FF0000 + x * PGSIZE = 0x87FF0000 + y * PGSIZE" using k(2) [of x] k(2) [of y] by (metis lessThan_iff)
    then show "x = y" by (simp add: PGSIZE_def)
  qed
  ultimately have "16 \<le> card (set ps)" using card_mono [of "set ps" "?g ` {..<16}"] by (simp add: card_image)
  then have "16 \<le> length ps" using card_length [of ps] by linarith
  then show ?thesis using 1 e by auto
qed

lemma demo_aspace:
  "\<exists>R ps. aspace (snd demo_space) (fst demo_space) R ps demo_tf {} \<and> 11 \<le> length ps \<and> same_layout km_demo (snd demo_space)"
proof -
  obtain ps where p: "free_pages demo_mem ps" "16 \<le> length ps" "same_layout km_demo demo_mem" using demo_free by blast
  have tr: "trampoline_start demo_mem = 0x80200000" using p(3) by (simp add: same_layout_def km_demo_def)
  have "is_page_aligned (trampoline_start demo_mem)" "unat (trampoline_start demo_mem) + PGSIZE < 2 ^ 64"
      "is_page_aligned demo_tf" "unat demo_tf + PGSIZE < 2 ^ 64"
    by (simp_all add: tr demo_tf_def aligned_iff PGSIZE_def)
  from proc_pagetable_spec [OF p(1) this] obtain r s' where
    1: "proc_pagetable demo_tf demo_mem = Ok (r, s')" "same_layout demo_mem s'"
      "case r of None \<Rightarrow> length ps < 5 \<and> (\<exists>ps'. free_pages s' ps' \<and> set ps' = set ps)
       | Some root \<Rightarrow> \<exists>R ps'. aspace s' root R ps' demo_tf {} \<and> ran R \<union> set ps' = set ps \<and> length ps \<le> length ps' + 5"
    by blast
  then obtain root R ps' where "r = Some root" "aspace s' root R ps' demo_tf {}" "length ps \<le> length ps' + 5"
    using p(2) by (cases r) auto
  moreover have "same_layout km_demo s'" using 1(2) p(3) by (simp add: same_layout_def)
  ultimately show ?thesis using 1(1) p(2) by (auto simp: demo_space_def intro!: exI [of _ R] exI [of _ ps'])
qed

lemma demo_two:
  "\<exists>R ps. aspace demo_user (fst demo_space) R ps demo_tf {..<2} \<and>
     (\<forall>v < 2. pte_at (mem demo_user) R v = leaf_pte (fr demo_user R v) (PTE_U OR PTE_R OR PTE_W))"
proof -
  obtain R ps where a: "aspace (snd demo_space) (fst demo_space) R ps demo_tf {}" "11 \<le> length ps" using demo_aspace by blast
  obtain ok s' R' ps' W where
    1: "uvmalloc_loop (fst demo_space) (0 * PGSIZE) (0 * PGSIZE) ((0 + 2) * PGSIZE) (snd demo_space) = Ok (ok, s')"
      "grown zeros (\<lambda>_. PTE_U OR PTE_R OR PTE_W) (snd demo_space) R ps {} (fst demo_space) demo_tf s' R' ps' W"
      "if ok then W = {} \<union> {0..<0 + 2} else length ps < 3 * 2 \<and> (W = {} - {0..<0} \<or> (\<exists>k < 2. W = {} \<union> {0..<0 + k}) \<and> ps' = [])"
    using uvmalloc_loop_spec [OF a(1), of 0 0 2] by (auto simp: frame_vpn_def)
  then have W: "W = {..<2}" and ok using a(2) by (auto simp: lessThan_atLeast0 split: if_splits)
  have "pages 0 = 0" "pages (2 * PGSIZE) = 2" using pages_mult [of 2] by (simp_all add: pages_def PGSIZE_def)
  then have "uvmalloc (fst demo_space) 0 (2 * PGSIZE) (snd demo_space) = Ok (ok, s')"
    using 1(1) by (simp add: uvmalloc_def page_round_up_eq PGSIZE_def)
  then have "demo_user = s'" by (simp add: demo_user_def)
  then show ?thesis using 1(2) unfolding W grown_def by auto
qed

text \<open>A second address space beside the first, as \<open>fork\<close> finds them: the parent has two user pages.\<close>

definition demo_tf2 :: paddr where
  "demo_tf2 = 0x87FEE000"

definition demo_child :: "paddr \<times> kmem" where
  "demo_child = (case proc_pagetable demo_tf2 (snd demo_space) of Inr (Some root, s) \<Rightarrow> (root, s) | _ \<Rightarrow> (0, demo_mem))"

definition demo_pair :: kmem where
  "demo_pair = (case uvmalloc (fst demo_space) 0 (2 * PGSIZE) (snd demo_child) of Inr (_, s) \<Rightarrow> s | _ \<Rightarrow> demo_mem)"

lemma demo_child_aspace:
  "\<exists>R S ps. aspace (snd demo_child) (fst demo_space) R ps demo_tf {} \<and> aspace (snd demo_child) (fst demo_child) S ps demo_tf2 {} \<and>
     owned (snd demo_child) S {} \<inter> owned (snd demo_child) R {} = {} \<and> 6 \<le> length ps"
proof -
  let ?s = "snd demo_space"
  obtain R ps where a: "aspace ?s (fst demo_space) R ps demo_tf {}" "11 \<le> length ps" "same_layout km_demo ?s"
    using demo_aspace by blast
  have tr: "trampoline_start ?s = 0x80200000" using a(3) by (simp add: same_layout_def km_demo_def)
  have "is_page_aligned (trampoline_start ?s)" "unat (trampoline_start ?s) + PGSIZE < 2 ^ 64"
      "is_page_aligned demo_tf2" "unat demo_tf2 + PGSIZE < 2 ^ 64"
    by (simp_all add: tr demo_tf2_def aligned_iff PGSIZE_def)
  from proc_pagetable_spec [OF vm_inv_free [OF aspace_inv [OF a(1)]] this]
  obtain r s' where 1: "proc_pagetable demo_tf2 ?s = Ok (r, s')" "same_layout ?s s'" "\<forall>x. outside (set ps) x \<longrightarrow> mem s' x = mem ?s x"
      "case r of None \<Rightarrow> length ps < 5 \<and> (\<exists>ps'. free_pages s' ps' \<and> set ps' = set ps)
       | Some root \<Rightarrow> \<exists>R ps'. aspace s' root R ps' demo_tf2 {} \<and> ran R \<union> set ps' = set ps \<and> length ps \<le> length ps' + 5"
    by blast
  then obtain root S ps' where 2: "r = Some root" "aspace s' root S ps' demo_tf2 {}" "ran S \<union> set ps' = set ps" "length ps \<le> length ps' + 5"
    using a(2) by (cases r) auto
  have d: "owned ?s R {} \<inter> set ps = {}" "\<forall>b \<in> set ps. is_page_aligned b" "set ps' \<subseteq> set ps"
    using aspace_owned [OF a(1)] aspace_aligned [OF a(1)] 2(3) by blast+
  have ao: "aspace s' (fst demo_space) R ps' demo_tf {}" "owned s' S {} \<inter> owned s' R {} = {}"
    using aspace_beside(1) [OF a(1) 1(2) vm_inv_free [OF aspace_inv [OF 2(2)]] d] 1(3) d(1) 2(3) by (auto simp: owned_def)
  have e: "fst demo_child = root" "snd demo_child = s'" using 1(1) 2(1) by (simp_all add: demo_child_def)
  have "6 \<le> length ps'" using 2(4) a(2) by simp
  with ao show ?thesis using 2(2) unfolding e by blast
qed

lemma demo_pair_aspace:
  "\<exists>R S ps. aspace demo_pair (fst demo_space) R ps demo_tf {..<2} \<and> aspace demo_pair (fst demo_child) S ps demo_tf2 {} \<and>
     owned demo_pair R {..<2} \<inter> ran S = {}"
proof -
  let ?s = "snd demo_child" and ?r = "fst demo_space"
  obtain R S ps where a: "aspace ?s ?r R ps demo_tf {}" "aspace ?s (fst demo_child) S ps demo_tf2 {}"
      "owned ?s S {} \<inter> owned ?s R {} = {}" "6 \<le> length ps"
    using demo_child_aspace by blast
  obtain ok s' R' ps' W where
    1: "uvmalloc_loop ?r (0 * PGSIZE) (0 * PGSIZE) ((0 + 2) * PGSIZE) ?s = Ok (ok, s')"
      "grown zeros (\<lambda>_. PTE_U OR PTE_R OR PTE_W) ?s R ps {} ?r demo_tf s' R' ps' W"
      "if ok then W = {} \<union> {0..<0 + 2} else length ps < 3 * 2 \<and> (W = {} - {0..<0} \<or> (\<exists>k < 2. W = {} \<union> {0..<0 + k}) \<and> ps' = [])"
    using uvmalloc_loop_spec [OF a(1), of 0 0 2] by (auto simp: frame_vpn_def)
  then have W: "W = {..<2}" and ok using a(4) by (auto simp: lessThan_atLeast0 split: if_splits)
  have "pages 0 = 0" "pages (2 * PGSIZE) = 2" using pages_mult [of 2] by (simp_all add: pages_def PGSIZE_def)
  then have "uvmalloc ?r 0 (2 * PGSIZE) ?s = Ok (ok, s')"
    using 1(1) by (simp add: uvmalloc_def page_round_up_eq PGSIZE_def)
  then have e: "demo_pair = s'" by (simp add: demo_pair_def)
  note b = grown_beside [OF a(2) 1(2) a(3,1)]
  have "aspace s' ?r R' ps' demo_tf {..<2}" using 1(2) unfolding W grown_def by blast
  moreover have "owned s' R' {..<2} \<inter> ran S = {}" using b(5) unfolding W owned_def by blast
  ultimately show ?thesis using b(1) unfolding e by blast
qed

end
