(* ===== verification/Vm_Theorems.thy ===== *)
theory Vm_Theorems
  imports Vm_Demo
begin

text \<open>
  The guarantees of the virtual memory code of \<open>src/vm.rs\<close>.
\<close>

section \<open>Page-table entries\<close>

text \<open>The entry \<open>new_leaf\<close> builds for an aligned frame below \<open>2 ^ 56\<close> and flags of ten bits is valid,
  gives back the frame, and has the given flags together with V, A and D; it is a leaf when one of R, W
  and X is among the flags.  \<open>new_table\<close> builds an entry that is valid, no leaf, and gives back the table.\<close>

theorem pte_roundtrip:
  assumes "is_page_aligned pa" and "unat pa < 2 ^ 56" and "unat flags < 2 ^ 10"
  shows "\<exists>e t. new_leaf pa flags = Ok e \<and> pte_pa e = pa \<and> pte_flags e = flags OR PTE_V OR PTE_A OR PTE_D \<and>
    is_valid e \<and> (is_leaf e \<longleftrightarrow> bit flags 1 \<or> bit flags 2 \<or> bit flags 3) \<and>
    new_table pa = Ok t \<and> pte_pa t = pa \<and> is_valid t \<and> \<not> is_leaf t"
  using assms by (simp only: new_leaf_Ok new_table_Ok sum.inject pte_pa_leaf pte_pa_table pte_flags_leaf
      valid_leaf_pte is_leaf_leaf_pte valid_table simp_thms ex_simps)

theorem pte_roundtrip_witness:
  "is_page_aligned 0x87654000 \<and> unat (0x87654000 :: paddr) < 2 ^ 56 \<and> unat (PTE_R OR PTE_U) < 2 ^ 10 \<and>
   (\<exists>e t. new_leaf 0x87654000 (PTE_R OR PTE_U) = Ok e \<and> pte_pa e = 0x87654000 \<and>
    pte_flags e = (PTE_R OR PTE_U) OR PTE_V OR PTE_A OR PTE_D \<and> is_valid e \<and>
    (is_leaf e \<longleftrightarrow> bit (PTE_R OR PTE_U) 1 \<or> bit (PTE_R OR PTE_U) 2 \<or> bit (PTE_R OR PTE_U) 3) \<and>
    new_table 0x87654000 = Ok t \<and> pte_pa t = 0x87654000 \<and> is_valid t \<and> \<not> is_leaf t)"
proof -
  have h: "is_page_aligned 0x87654000" "unat (0x87654000 :: paddr) < 2 ^ 56" "unat (PTE_R OR PTE_U) < 2 ^ 10"
    by (simp_all add: aligned_iff PGSIZE_def PTE_R_def PTE_U_def)
  show ?thesis using pte_roundtrip [OF h] h by blast
qed

section \<open>Mapping\<close>

text \<open>C26. \<open>mappages\<close> on tables in good order maps the pages of the range one after the other to the frames
  from \<open>pa\<close> on and changes no other entry.  When it fails, a prefix of the range has been mapped, and
  either the free list ran out, which takes fewer than two free pages per page of the range, or the next
  page was mapped before.  The tables it adds come from the free list; no page is lost and no other memory
  is written.\<close>

theorem mappages_correct:
  assumes "vm_inv s root R ps" and "is_page_aligned pa" and "0 < len"
    and "unat pa + pages len * PGSIZE < 2 ^ 64" and "v + pages len \<le> 512 ^ 3"
  shows "\<exists>ok s' R' ps' k. mappages root (v * PGSIZE) len pa flags s = Ok (ok, s') \<and>
    vm_inv s' root R' ps' \<and> ran R' \<union> set ps' = ran R \<union> set ps \<and>
    (\<forall>x. outside (ran R \<union> set ps) x \<longrightarrow> mem s' x = mem s x) \<and>
    (\<forall>w < 512 ^ 3. pte_at (mem s') R' w =
       (if v \<le> w \<and> w < v + k then leaf_pte (of_nat (unat pa + (w - v) * PGSIZE)) flags else pte_at (mem s) R w)) \<and>
    (if ok then k = pages len
     else k < pages len \<and> (ps' = [] \<and> length ps < 2 * pages len \<or> is_valid (pte_at (mem s) R (v + k))))"
proof -
  obtain ok s' R' ps' where m: "mappages root (v * PGSIZE) len pa flags s = Ok (ok, s')"
      "mapping root s R ps v (pages len) pa flags ok s' R' ps'"
    using mappages_spec [OF assms] by blast
  from m(2) obtain k where "\<forall>w < 512 ^ 3. pte_at (mem s') R' w = mapped (pte_at (mem s) R) v k pa flags w"
      "if ok then k = pages len
       else k < pages len \<and> (ps' = [] \<and> length ps < 2 * pages len \<or> is_valid (pte_at (mem s) R (v + k)))"
      "vm_inv s' root R' ps'" "grows s R ps s' R' ps'" unfolding mapping_def by blast
  with m(1) show ?thesis unfolding mapped_def frame_def grows_def by (intro exI [of _ ok] exI [of _ s'] exI [of _ R'] exI [of _ ps'] exI [of _ k]) simp
qed

theorem mappages_correct_witness:
  "\<exists>R ps. vm_inv (snd demo_space) (fst demo_space) R ps \<and> is_page_aligned 0x87654000 \<and>
    (\<exists>ok s' R' ps' k. mappages (fst demo_space) (7 * PGSIZE) 5000 0x87654000 PTE_R (snd demo_space) = Ok (ok, s') \<and>
      vm_inv s' (fst demo_space) R' ps' \<and> ran R' \<union> set ps' = ran R \<union> set ps \<and>
      (\<forall>x. outside (ran R \<union> set ps) x \<longrightarrow> mem s' x = mem (snd demo_space) x) \<and>
      (\<forall>w < 512 ^ 3. pte_at (mem s') R' w =
         (if 7 \<le> w \<and> w < 7 + k then leaf_pte (of_nat (unat (0x87654000 :: paddr) + (w - 7) * PGSIZE)) PTE_R
          else pte_at (mem (snd demo_space)) R w)) \<and>
      (if ok then k = pages 5000
       else k < pages 5000 \<and>
         (ps' = [] \<and> length ps < 2 * pages 5000 \<or> is_valid (pte_at (mem (snd demo_space)) R (7 + k)))))"
proof -
  obtain R ps where a: "aspace (snd demo_space) (fst demo_space) R ps demo_tf {}" using demo_aspace by blast
  have h: "vm_inv (snd demo_space) (fst demo_space) R ps" "is_page_aligned 0x87654000" "0 < (5000 :: nat)"
      "unat (0x87654000 :: paddr) + pages 5000 * PGSIZE < 2 ^ 64" "7 + pages 5000 \<le> 512 ^ 3"
    using aspace_inv [OF a] by (simp_all add: aligned_iff pages_def PGSIZE_def)
  show ?thesis using mappages_correct [OF h, of PTE_R] h(1,2) by blast
qed

section \<open>Address spaces\<close>

text \<open>C27. \<open>proc_pagetable\<close> either builds an address space that maps the trampoline and the trapframe and no
  user page, from pages of the free list, or gives all its pages back; it fails only with fewer than five
  free pages.  No other memory is written.\<close>

theorem proc_pagetable_correct:
  assumes "free_pages s ps" and "is_page_aligned (trampoline_start s)" and "unat (trampoline_start s) + PGSIZE < 2 ^ 64"
    and "is_page_aligned tf" and "unat tf + PGSIZE < 2 ^ 64"
  shows "\<exists>r s'. proc_pagetable tf s = Ok (r, s') \<and> (\<forall>x. outside (set ps) x \<longrightarrow> mem s' x = mem s x) \<and>
    (case r of
       None \<Rightarrow> length ps < 5 \<and> (\<exists>ps'. free_pages s' ps' \<and> set ps' = set ps)
     | Some root \<Rightarrow> \<exists>R ps'. aspace s' root R ps' tf {} \<and> ran R \<union> set ps' = set ps)"
proof -
  obtain r s' where p: "proc_pagetable tf s = Ok (r, s')" "\<forall>x. outside (set ps) x \<longrightarrow> mem s' x = mem s x"
      "case r of None \<Rightarrow> length ps < 5 \<and> (\<exists>ps'. free_pages s' ps' \<and> set ps' = set ps)
       | Some root \<Rightarrow> \<exists>R ps'. aspace s' root R ps' tf {} \<and> ran R \<union> set ps' = set ps \<and> length ps \<le> length ps' + 5"
    using proc_pagetable_spec [OF assms] by blast
  then show ?thesis by (cases r) auto
qed

theorem proc_pagetable_correct_witness:
  "\<exists>ps. free_pages demo_mem ps \<and> is_page_aligned (trampoline_start demo_mem) \<and>
    (\<exists>r s'. proc_pagetable demo_tf demo_mem = Ok (r, s') \<and> (\<forall>x. outside (set ps) x \<longrightarrow> mem s' x = mem demo_mem x) \<and>
      (case r of
         None \<Rightarrow> length ps < 5 \<and> (\<exists>ps'. free_pages s' ps' \<and> set ps' = set ps)
       | Some root \<Rightarrow> \<exists>R ps'. aspace s' root R ps' demo_tf {} \<and> ran R \<union> set ps' = set ps))"
proof -
  obtain ps where p: "free_pages demo_mem ps" "same_layout km_demo demo_mem" using demo_free by blast
  then have tr: "trampoline_start demo_mem = 0x80200000" by (simp add: same_layout_def km_demo_def)
  have h: "is_page_aligned (trampoline_start demo_mem)" "unat (trampoline_start demo_mem) + PGSIZE < 2 ^ 64"
      "is_page_aligned demo_tf" "unat demo_tf + PGSIZE < 2 ^ 64"
    by (simp_all add: tr demo_tf_def aligned_iff PGSIZE_def)
  show ?thesis using proc_pagetable_correct [OF p(1) h] p(1) h(1) by blast
qed

text \<open>C5. \<open>proc_freepagetable\<close> of an address space with user pages \<open>[0, sz)\<close> and possibly the stack page does
  not panic and puts every page of the address space on the free list: the tables and the frames of the
  user pages, and no others.  No other memory is written.\<close>

theorem proc_freepagetable_correct:
  assumes "aspace s root R ps tf (span (pages sz) stk)" and "pages sz \<le> stack_vpn" and "sz + PGSIZE < 2 ^ 64"
  shows "\<exists>s' ps'. proc_freepagetable root sz s = Ok s' \<and> free_pages s' ps' \<and>
    set ps' = set ps \<union> owned s R (span (pages sz) stk) \<and>
    (\<forall>x. outside (owned s R (span (pages sz) stk)) x \<longrightarrow> mem s' x = mem s x)"
  using proc_freepagetable_spec [OF assms(1) refl assms(2,3)] unfolding freed_def owned_def by blast

theorem proc_freepagetable_correct_witness:
  "\<exists>R ps. aspace demo_user (fst demo_space) R ps demo_tf (span (pages 5000) False) \<and>
    (\<exists>s' ps'. proc_freepagetable (fst demo_space) 5000 demo_user = Ok s' \<and> free_pages s' ps' \<and>
      set ps' = set ps \<union> owned demo_user R (span (pages 5000) False) \<and>
      (\<forall>x. outside (owned demo_user R (span (pages 5000) False)) x \<longrightarrow> mem s' x = mem demo_user x))"
proof -
  obtain R ps where a: "aspace demo_user (fst demo_space) R ps demo_tf {..<2}" using demo_two by blast
  have "pages 5000 = 2" by (simp add: pages_def PGSIZE_def)
  then have h: "aspace demo_user (fst demo_space) R ps demo_tf (span (pages 5000) False)" "pages 5000 \<le> stack_vpn"
      "5000 + PGSIZE < 2 ^ 64"
    using a by (simp_all add: span_def stack_vpn_def PGSIZE_def)
  show ?thesis using proc_freepagetable_correct [OF h] h(1) by blast
qed

text \<open>C28. \<open>uvmalloc\<close> of the pages from \<open>v\<close> to \<open>v + n\<close>, none of which is mapped, adds \<open>n\<close> zeroed user pages
  with frames of their own, readable and writable, and leaves the other user pages and all other memory
  alone.  It succeeds whenever \<open>3 * n\<close> pages are free.  When it fails, the address space is as before, or
  the free list is empty and the first \<open>k\<close> of the new pages have stayed mapped.\<close>

theorem uvmalloc_correct:
  assumes "aspace s root R ps tf U" and "{pages oldsz..<pages newsz} \<inter> U = {}" and "pages newsz \<le> frame_vpn"
    and "oldsz \<le> newsz" and "newsz + PGSIZE < 2 ^ 64"
  shows "\<exists>ok s' R' ps' k. uvmalloc root oldsz newsz s = Ok (ok, s') \<and>
    grown zeros (\<lambda>_. PTE_U OR PTE_R OR PTE_W) s R ps U root tf s' R' ps' (U \<union> {pages oldsz..<pages oldsz + k}) \<and>
    (if ok then k = pages newsz - pages oldsz
     else length ps < 3 * (pages newsz - pages oldsz) \<and>
       (k = 0 \<or> k < pages newsz - pages oldsz \<and> ps' = []))"
proof -
  let ?v = "pages oldsz" and ?n = "pages newsz - pages oldsz"
  have le: "?v \<le> pages newsz" using assms(4) unfolding pages_def by (intro div_le_mono) simp
  then have e: "?v + ?n = pages newsz" by simp
  have u: "uvmalloc root oldsz newsz s = uvmalloc_loop root (?v * PGSIZE) (?v * PGSIZE) ((?v + ?n) * PGSIZE) s"
    using assms(4,5) unfolding e by (simp add: uvmalloc_def page_round_up_eq)
  have "{?v..<?v} \<subseteq> U" by simp
  then obtain ok s' R' ps' W where
    1: "uvmalloc_loop root (?v * PGSIZE) (?v * PGSIZE) ((?v + ?n) * PGSIZE) s = Ok (ok, s')"
      "grown zeros (\<lambda>_. PTE_U OR PTE_R OR PTE_W) s R ps U root tf s' R' ps' W"
      "if ok then W = U \<union> {?v..<?v + ?n} else length ps < 3 * ?n \<and> (W = U - {?v..<?v} \<or> (\<exists>k < ?n. W = U \<union> {?v..<?v + k}) \<and> ps' = [])"
    using uvmalloc_loop_spec [OF assms(1), of ?v ?v ?n] assms(2,3) unfolding e by blast
  show ?thesis
  proof (cases ok)
    case True
    then show ?thesis using 1 u by (intro exI [of _ ok] exI [of _ s'] exI [of _ R'] exI [of _ ps'] exI [of _ ?n]) simp
  next
    case False
    then obtain k where k: "W = U \<union> {?v..<?v + k}" "k = 0 \<or> k < ?n \<and> ps' = []" using 1(3) by (metis Diff_cancel Un_empty_right add.right_neutral atLeastLessThan_empty_iff2 diff_self_eq_0 Diff_empty order_less_irrefl atLeastLessThan_empty order_refl)
    then show ?thesis using 1 u False by (intro exI [of _ ok] exI [of _ s'] exI [of _ R'] exI [of _ ps'] exI [of _ k]) simp
  qed
qed

theorem uvmalloc_correct_witness:
  "\<exists>R ps. aspace demo_user (fst demo_space) R ps demo_tf {..<2} \<and>
    (\<exists>ok s' R' ps' k. uvmalloc (fst demo_space) 5000 10000 demo_user = Ok (ok, s') \<and>
      grown zeros (\<lambda>_. PTE_U OR PTE_R OR PTE_W) demo_user R ps {..<2} (fst demo_space) demo_tf s' R' ps'
        ({..<2} \<union> {pages 5000..<pages 5000 + k}) \<and>
      (if ok then k = pages 10000 - pages 5000
       else length ps < 3 * (pages 10000 - pages 5000) \<and> (k = 0 \<or> k < pages 10000 - pages 5000 \<and> ps' = [])))"
proof -
  obtain R ps where a: "aspace demo_user (fst demo_space) R ps demo_tf {..<2}" using demo_two by blast
  have "pages 5000 = 2" "pages 10000 = 3" by (simp_all add: pages_def PGSIZE_def)
  then have h: "{pages 5000..<pages 10000} \<inter> {..<2} = {}" "pages 10000 \<le> frame_vpn" "(5000 :: nat) \<le> 10000" "10000 + PGSIZE < 2 ^ 64"
    by (auto simp: frame_vpn_def PGSIZE_def)
  show ?thesis using uvmalloc_correct [OF a h] a by blast
qed

section \<open>Copying an address space\<close>

text \<open>C9. \<open>uvmcopy\<close> of the pages \<open>[0, sz)\<close> of one address space into another one with no user pages, apart
  from the first, does not panic; on success the copy has frames of its own with equal contents and equal
  permissions at the same addresses, on failure it has no user pages again.  The source keeps its tables,
  its frames and their contents.\<close>

theorem uvmcopy_correct:
  assumes "aspace s old R ps tfo U" and "aspace s new S ps tf {}" and "owned s R U \<inter> ran S = {}"
    and "{..<pages sz} \<subseteq> U" and "sz + PGSIZE < 2 ^ 64"
  shows "\<exists>ok s' S' ps'. uvmcopy old new sz s = Ok (ok, s') \<and>
    aspace s' new S' ps' tf (if ok then {..<pages sz} else {}) \<and> owned s' R U \<inter> owned s' S' (if ok then {..<pages sz} else {}) = {} \<and>
    (ok \<longrightarrow> (\<forall>v < pages sz. page (mem s') (fr s' S' v) = page (mem s) (fr s R v) \<and>
       pte_at (mem s') S' v = leaf_pte (fr s' S' v) (pte_flags (pte_at (mem s) R v)))) \<and>
    aspace s' old R ps' tfo U \<and> pte_at (mem s') R = pte_at (mem s) R \<and>
    (\<forall>v \<in> U. page (mem s') (fr s R v) = page (mem s) (fr s R v))"
proof -
  let ?C = "\<lambda>v. page (mem s) (fr s R v)" and ?F = "\<lambda>v. pte_flags (pte_at (mem s) R v)"
  have S: "owned s S {} = ran S" by (simp add: owned_def)
  have "\<forall>b \<in> ran S. is_page_aligned b" using aspace_aligned [OF assms(2)] by (simp add: owned_def)
  then have src: "source s old R ?C ?F {..<pages sz} (ran S \<union> set ps)"
    by (rule aspace_source [OF assms(1,4,3)])
  have "U \<subseteq> {..<frame_vpn}" using assms(1) by (simp add: aspace_def)
  then have le: "pages sz \<le> frame_vpn" using assms(4) lessThan_subset_iff [of "pages sz" frame_vpn] by (metis order_trans)
  obtain ok s' S' ps' where u: "uvmcopy old new sz s = Ok (ok, s')"
      and g: "grown ?C ?F s S ps {} new tf s' S' ps' (if ok then {..<pages sz} else {})"
    using uvmcopy_spec [OF assms(2) src refl le assms(5)] by blast
  have d: "owned s R U \<inter> owned s S {} = {}" using assms(3) by (simp add: S)
  note b = grown_beside [OF assms(1) g d assms(2)]
  have "page (mem s') (fr s' S' v) = ?C v \<and> pte_at (mem s') S' v = leaf_pte (fr s' S' v) (?F v)"
    if ok "v < pages sz" for v
    using g that by (simp add: grown_def)
  then show ?thesis using u g b unfolding grown_def
    by (intro exI [of _ ok] exI [of _ s'] exI [of _ S'] exI [of _ ps']) simp
qed

theorem uvmcopy_correct_witness:
  "\<exists>R S ps. aspace demo_pair (fst demo_space) R ps demo_tf {..<2} \<and> aspace demo_pair (fst demo_child) S ps demo_tf2 {} \<and>
    (\<exists>ok s' S' ps'. uvmcopy (fst demo_space) (fst demo_child) 5000 demo_pair = Ok (ok, s') \<and>
      aspace s' (fst demo_child) S' ps' demo_tf2 (if ok then {..<pages 5000} else {}) \<and>
      owned s' R {..<2} \<inter> owned s' S' (if ok then {..<pages 5000} else {}) = {} \<and>
      (ok \<longrightarrow> (\<forall>v < pages 5000. page (mem s') (fr s' S' v) = page (mem demo_pair) (fr demo_pair R v) \<and>
         pte_at (mem s') S' v = leaf_pte (fr s' S' v) (pte_flags (pte_at (mem demo_pair) R v)))) \<and>
      aspace s' (fst demo_space) R ps' demo_tf {..<2} \<and> pte_at (mem s') R = pte_at (mem demo_pair) R \<and>
      (\<forall>v \<in> {..<2}. page (mem s') (fr demo_pair R v) = page (mem demo_pair) (fr demo_pair R v)))"
proof -
  obtain R S ps where a: "aspace demo_pair (fst demo_space) R ps demo_tf {..<2}" "aspace demo_pair (fst demo_child) S ps demo_tf2 {}"
      "owned demo_pair R {..<2} \<inter> ran S = {}"
    using demo_pair_aspace by blast
  have "{..<pages 5000} \<subseteq> {..<2}" "5000 + PGSIZE < 2 ^ 64" by (simp_all add: pages_def PGSIZE_def)
  from uvmcopy_correct [OF a this] show ?thesis using a by blast
qed

section \<open>Copying between the kernel and a process\<close>

text \<open>C11. \<open>copyin\<close> is the copy that translates every byte on its own: it returns the \<open>len\<close> bytes at \<open>va\<close> when
  each of them is a readable user address below \<open>MAXVA\<close>, and fails otherwise.\<close>

theorem copyin_equiv:
  assumes "pt_rep s root R"
  shows "copyin root len va s = Ok (read_bytes (user_byte s R) va len)"
  by (rule copyin_spec [OF assms])

theorem copyin_equiv_witness:
  "\<exists>R. pt_rep demo_user (fst demo_space) R \<and>
     copyin (fst demo_space) 10 4090 demo_user = Ok (read_bytes (user_byte demo_user R) 4090 10)"
proof -
  obtain R ps where "aspace demo_user (fst demo_space) R ps demo_tf {..<2}" using demo_two by blast
  then have "pt_rep demo_user (fst demo_space) R" by (simp add: aspace_def vm_inv_def)
  with copyin_equiv [OF this] show ?thesis by blast
qed

text \<open>C29. \<open>copyinstr\<close> is the copy that translates every byte on its own: it returns the bytes at \<open>va\<close> up to the
  first NUL when one is among the first \<open>len\<close> bytes and every byte up to it is a readable user address, and
  fails otherwise.  Bytes after the NUL are never required to be mapped.\<close>

theorem copyinstr_equiv:
  assumes "pt_rep s root R"
  shows "copyinstr root len va s = Ok (read_str (user_byte s R) va len)"
  by (rule copyinstr_spec [OF assms])

theorem copyinstr_equiv_witness:
  "\<exists>R. pt_rep demo_user (fst demo_space) R \<and>
     copyinstr (fst demo_space) 10 8191 demo_user = Ok (read_str (user_byte demo_user R) 8191 10)"
proof -
  obtain R ps where "aspace demo_user (fst demo_space) R ps demo_tf {..<2}" using demo_two by blast
  then have "pt_rep demo_user (fst demo_space) R" by (simp add: aspace_def vm_inv_def)
  with copyinstr_equiv [OF this] show ?thesis by blast
qed

text \<open>C30. Memory safety of \<open>copyout\<close>: whatever address a process passes, the kernel writes to the frames of its
  user pages only, one byte after the other as far as they are writable, and succeeds exactly when all are;
  the address space stays well-formed and its translation the same.\<close>

theorem copyout_safe:
  assumes "aspace s root R ps tf U"
  shows "\<exists>ok m. copyout root va bs s = Ok (ok, s\<lparr>mem := m\<rparr>) \<and>
    write_bytes (user_at (mem s) R PTE_W) va bs (mem s) = (ok, m) \<and>
    aspace (s\<lparr>mem := m\<rparr>) root R ps tf U \<and> pte_at m R = pte_at (mem s) R \<and>
    (\<forall>x. outside (fr s R ` U) x \<longrightarrow> m x = mem s x)"
  using copyout_spec [OF assms] unfolding written_def by blast

theorem copyout_safe_witness:
  "\<exists>R ps. aspace demo_user (fst demo_space) R ps demo_tf {..<2} \<and>
    (\<exists>ok m. copyout (fst demo_space) 8190 [1, 2, 3] demo_user = Ok (ok, demo_user\<lparr>mem := m\<rparr>) \<and>
      write_bytes (user_at (mem demo_user) R PTE_W) 8190 [1, 2, 3] (mem demo_user) = (ok, m) \<and>
      aspace (demo_user\<lparr>mem := m\<rparr>) (fst demo_space) R ps demo_tf {..<2} \<and> pte_at m R = pte_at (mem demo_user) R \<and>
      (\<forall>x. outside (fr demo_user R ` {..<2}) x \<longrightarrow> m x = mem demo_user x))"
  using demo_two copyout_safe by blast

text \<open>C31. What \<open>copyout\<close> has written to an address space whose writable pages are readable, \<open>copyin\<close> reads back,
  also across page boundaries.\<close>

theorem copyout_then_copyin:
  assumes a: "aspace s root R ps tf U" and w: "\<forall>v \<in> U. grants PTE_W (pte_at (mem s) R v) \<longrightarrow> grants PTE_R (pte_at (mem s) R v)"
    and c: "copyout root va bs s = Ok (True, s')"
  shows "copyin root (length bs) va s' = Ok (Some bs)"
proof -
  let ?f = "user_at (mem s) R PTE_W" and ?g = "user_at (mem s) R PTE_R"
  obtain m where m: "s' = s\<lparr>mem := m\<rparr>" "write_bytes ?f va bs (mem s) = (True, m)" "written s root R ps tf U m"
    using copyout_spec [OF a, of va bs] c by auto
  have at: "pte_at m R = pte_at (mem s) R" using m(3) by (simp add: written_def)
  have "pt_rep s' root R" using m(1,3) by (simp add: written_def aspace_def vm_inv_def)
  then have "copyin root (length bs) va s' = Ok (read_bytes (user_byte s' R) va (length bs))" by (rule copyin_spec)
  moreover have "user_byte s' R = (\<lambda>x. map_option m (?g x))"
    by (simp add: fun_eq_iff m(1) user_at_cong [OF at])
  moreover have "?g (va + i) = ?f (va + i)" if "i < length bs" for i
  proof -
    have "?f (va + i) \<noteq> None" by (rule write_bytes_mapped [OF m(2) that])
    then have "va + i < MAXVA" "grants PTE_W (pte_at (mem s) R ((va + i) div PGSIZE))"
      by (auto simp: user_at_def Let_def split: if_splits)
    with w aspace_grants [OF a this] show ?thesis by (simp add: user_at_def Let_def)
  qed
  moreover have "i = j" if "?f (va + i) = Some x" "?f (va + j) = Some x" for i j x
    using user_at_inj [OF a that] by simp
  ultimately show ?thesis using write_then_read_bytes [OF m(2)] by simp
qed

theorem copyout_then_copyin_witness:
  "\<exists>R ps s'. aspace demo_user (fst demo_space) R ps demo_tf {..<2} \<and> copyout (fst demo_space) 4094 [1, 2, 3] demo_user = Ok (True, s') \<and>
    copyin (fst demo_space) 3 4094 s' = Ok (Some [1, 2, 3])"
proof -
  obtain R ps where a: "aspace demo_user (fst demo_space) R ps demo_tf {..<2}"
      and e: "\<forall>v < 2. pte_at (mem demo_user) R v = leaf_pte (fr demo_user R v) (PTE_U OR PTE_R OR PTE_W)"
    using demo_two by blast
  have u: "user_at (mem demo_user) R PTE_W x \<noteq> None" if "x div PGSIZE < 2" for x
    using that e user_leaf_grants by (simp add: user_at_def Let_def MAXVA_def PGSIZE_def)
  obtain ok m where c: "copyout (fst demo_space) 4094 [1, 2, 3] demo_user = Ok (ok, demo_user\<lparr>mem := m\<rparr>)"
      "write_bytes (user_at (mem demo_user) R PTE_W) 4094 [1, 2, 3] (mem demo_user) = (ok, m)"
    using copyout_spec [OF a] by blast
  have ok using c(2) u [of 4094] u [of 4095] u [of 4096] by (auto simp: PGSIZE_def split: option.splits)
  then have "copyin (fst demo_space) (length [1, 2, 3 :: byte]) 4094 (demo_user\<lparr>mem := m\<rparr>) = Ok (Some [1, 2, 3])"
    using c(1) e user_leaf_grants by (intro copyout_then_copyin [OF a]) simp_all
  then show ?thesis using a c(1) \<open>ok\<close> by (auto simp: numeral_3_eq_3)
qed

end
