(* ===== verification/Shell.thy ===== *)
theory Shell
  imports Prelude
begin

text \<open>
  The shell, \<open>user/src/bin/sh.rs\<close>: from a line of input to the job it describes.  A line is trimmed,
  split into tokens at blanks, and parsed into one command or a pipeline of commands, each with its
  arguments and redirections.  The path of a command that names no directory is taken from \<open>/bin/\<close>.

  The results: printing a job and parsing the line gives the job back, and every job the parser
  returns is well-formed.
\<close>

type_synonym token = "byte list"

record OutputRedirect =
  o_path :: token
  o_append :: bool

record Command =
  argv :: "token list"
  c_input :: "token option"
  c_output :: "OutputRedirect option"

datatype job = Single Command | Pipeline "Command list"

definition LESS :: token where "LESS = [60]"
definition GREATER :: token where "GREATER = [62]"
definition GREATER2 :: token where "GREATER2 = [62, 62]"
definition BAR :: token where "BAR = [124]"

lemmas operator_defs = LESS_def GREATER_def GREATER2_def BAR_def

section \<open>From a line to tokens\<close>

definition is_blank :: "byte \<Rightarrow> bool" where
  "is_blank b \<longleftrightarrow> b = 32 \<or> b = 9"

definition is_trailing :: "byte \<Rightarrow> bool" where
  "is_trailing b \<longleftrightarrow> b = 10 \<or> b = 13 \<or> b = 32 \<or> b = 9"

fun trim_front :: "byte list \<Rightarrow> byte list" where
  "trim_front [] = []"
| "trim_front (b # s) = (if is_blank b then trim_front s else b # s)"

function trim_back :: "byte list \<Rightarrow> byte list" where
  "trim_back s = (if s \<noteq> [] \<and> is_trailing (last s) then trim_back (butlast s) else s)"
  by pat_completeness auto

termination
  by (relation "measure length") auto

declare trim_back.simps [simp del]

definition trim_input :: "byte list \<Rightarrow> byte list" where
  "trim_input s = trim_back (trim_front s)"

text \<open>\<open>slice::split\<close>: the pieces between the separators.\<close>

fun split_slice :: "('a \<Rightarrow> bool) \<Rightarrow> 'a list \<Rightarrow> 'a list list" where
  "split_slice P [] = [[]]"
| "split_slice P (x # xs) =
     (if P x then [] # split_slice P xs
      else (case split_slice P xs of [] \<Rightarrow> [[x]] | p # ps \<Rightarrow> (x # p) # ps))"

definition line_tokens :: "byte list \<Rightarrow> token list" where
  "line_tokens line = filter (\<lambda>arg. arg \<noteq> []) (split_slice is_blank line)"

section \<open>From tokens to a job\<close>

fun parse_command_loop ::
    "token list \<Rightarrow> token list \<Rightarrow> token option \<Rightarrow> OutputRedirect option \<Rightarrow> Command option" where
  "parse_command_loop [] av inp out = Some \<lparr>argv = av, c_input = inp, c_output = out\<rparr>"
| "parse_command_loop (t # ts) av inp out =
     (if t = LESS then
        (case ts of
           [] \<Rightarrow> None
         | p # ts \<Rightarrow> if inp \<noteq> None then None else parse_command_loop ts av (Some p) out)
      else if t = GREATER \<or> t = GREATER2 then
        (case ts of
           [] \<Rightarrow> None
         | p # ts \<Rightarrow>
             if out \<noteq> None then None
             else parse_command_loop ts av inp (Some \<lparr>o_path = p, o_append = (t = GREATER2)\<rparr>))
      else if t = BAR then None
      else parse_command_loop ts (av @ [t]) inp out)"

definition parse_command :: "token list \<Rightarrow> Command option" where
  "parse_command ts = parse_command_loop ts [] None None"

text \<open>
  The loop of \<open>parse_job\<close>; \<open>seg\<close> holds the tokens from \<open>start\<close> to the current one.
\<close>

fun parse_job_loop :: "token list \<Rightarrow> token list \<Rightarrow> Command list \<Rightarrow> Command list option" where
  "parse_job_loop [] seg cmds =
     (if seg = [] then None
      else Option.bind (parse_command seg) (\<lambda>c. Some (cmds @ [c])))"
| "parse_job_loop (t # ts) seg cmds =
     (if t = BAR then
        if seg = [] then None
        else Option.bind (parse_command seg) (\<lambda>c. parse_job_loop ts [] (cmds @ [c]))
      else parse_job_loop ts (seg @ [t]) cmds)"

definition redirects_ok :: "Command list \<Rightarrow> bool" where
  "redirects_ok cmds \<longleftrightarrow>
     (\<forall>i < length cmds. (i \<noteq> 0 \<longrightarrow> c_input (cmds ! i) = None) \<and> (i + 1 \<noteq> length cmds \<longrightarrow> c_output (cmds ! i) = None))"

definition parse_job :: "token list \<Rightarrow> job option" where
  "parse_job ts =
     Option.bind (parse_job_loop ts [] []) (\<lambda>cmds.
     if \<exists>c \<in> set cmds. argv c = [] then None
     else if length cmds = 1 then Some (Single (hd cmds))
     else if redirects_ok cmds then Some (Pipeline cmds)
     else None)"

text \<open>What \<open>_start\<close> does with a line.\<close>

definition parse_line :: "byte list \<Rightarrow> job option" where
  "parse_line line = parse_job (line_tokens (trim_input line))"

definition resolve_command :: "byte list \<Rightarrow> byte list" where
  "resolve_command cmd = (if 47 \<in> set cmd then cmd else [47, 98, 105, 110, 47] @ cmd)"

section \<open>Printing a job\<close>

definition print_command :: "Command \<Rightarrow> token list" where
  "print_command c =
     argv c @ (case c_input c of None \<Rightarrow> [] | Some p \<Rightarrow> [LESS, p]) @
     (case c_output c of None \<Rightarrow> [] | Some r \<Rightarrow> [if o_append r then GREATER2 else GREATER, o_path r])"

fun print_pipeline :: "Command list \<Rightarrow> token list" where
  "print_pipeline [] = []"
| "print_pipeline [c] = print_command c"
| "print_pipeline (c # cs) = print_command c @ BAR # print_pipeline cs"

fun print_job :: "job \<Rightarrow> token list" where
  "print_job (Single c) = print_command c"
| "print_job (Pipeline cs) = print_pipeline cs"

fun join_tokens :: "token list \<Rightarrow> byte list" where
  "join_tokens [] = []"
| "join_tokens [t] = t"
| "join_tokens (t # ts) = t @ 32 # join_tokens ts"

definition print_line :: "job \<Rightarrow> byte list" where
  "print_line j = join_tokens (print_job j) @ [10]"

section \<open>Well-formed jobs\<close>

text \<open>A word contains no blank and no line end.\<close>

definition is_word :: "token \<Rightarrow> bool" where
  "is_word t \<longleftrightarrow> t \<noteq> [] \<and> list_all (\<lambda>b. \<not> is_trailing b) t"

definition command_ok :: "Command \<Rightarrow> bool" where
  "command_ok c \<longleftrightarrow>
     argv c \<noteq> [] \<and> list_all (\<lambda>a. a \<notin> {LESS, GREATER, GREATER2, BAR}) (argv c) \<and>
     c_input c \<noteq> Some BAR \<and> map_option o_path (c_output c) \<noteq> Some BAR"

definition words_ok :: "Command \<Rightarrow> bool" where
  "words_ok c \<longleftrightarrow> list_all is_word (argv c) \<and> pred_option is_word (c_input c) \<and> pred_option (\<lambda>r. is_word (o_path r)) (c_output c)"

fun commands_of :: "job \<Rightarrow> Command list" where
  "commands_of (Single c) = [c]"
| "commands_of (Pipeline cs) = cs"

fun job_ok :: "job \<Rightarrow> bool" where
  "job_ok (Single c) \<longleftrightarrow> command_ok c"
| "job_ok (Pipeline cs) \<longleftrightarrow>
     2 \<le> length cs \<and> list_all command_ok cs \<and>
     list_all (\<lambda>c. c_input c = None) (tl cs) \<and> list_all (\<lambda>c. c_output c = None) (butlast cs)"

text \<open>The test of the code goes over the indices.\<close>

lemma redirects_ok_iff:
  "redirects_ok cs \<longleftrightarrow> list_all (\<lambda>c. c_input c = None) (tl cs) \<and> list_all (\<lambda>c. c_output c = None) (butlast cs)"
proof -
  have "list_all (\<lambda>c. c_input c = None) (tl cs) \<longleftrightarrow> (\<forall>i < length cs. i \<noteq> 0 \<longrightarrow> c_input (cs ! i) = None)"
    by (cases cs) (auto simp: list_all_length nth_Cons less_Suc_eq_0_disj split: nat.splits)
  moreover have "list_all (\<lambda>c. c_output c = None) (butlast cs) \<longleftrightarrow> (\<forall>i < length cs. i + 1 \<noteq> length cs \<longrightarrow> c_output (cs ! i) = None)"
    by (auto simp: list_all_length nth_butlast less_diff_conv)
  ultimately show ?thesis by (auto simp: redirects_ok_def)
qed

section \<open>Tokens\<close>

lemma split_word: "list_all (\<lambda>b. \<not> P b) t \<Longrightarrow> split_slice P t = [t]"
  by (induction t) auto

lemma split_slice_ne: "split_slice P xs \<noteq> []"
  by (induction xs) (auto split: list.splits)

lemma split_word_sep: "list_all (\<lambda>b. \<not> P b) t \<Longrightarrow> P b \<Longrightarrow> split_slice P (t @ b # rest) = t # split_slice P rest"
  by (induction t) auto

lemma word_not_blank: "is_word t \<Longrightarrow> list_all (\<lambda>b. \<not> is_blank b) t"
  by (auto simp: is_word_def is_trailing_def is_blank_def list_all_iff)

lemma line_tokens_join: "list_all is_word ts \<Longrightarrow> line_tokens (join_tokens ts) = ts"
proof (induction ts rule: join_tokens.induct)
  case (2 t)
  then show ?case by (simp add: line_tokens_def split_word word_not_blank is_word_def)
next
  case (3 t u ts)
  have "split_slice is_blank (t @ 32 # join_tokens (u # ts)) = t # split_slice is_blank (join_tokens (u # ts))"
    using 3 by (intro split_word_sep word_not_blank) (simp_all add: is_blank_def)
  then show ?case using 3 by (simp add: line_tokens_def is_word_def)
qed (simp add: line_tokens_def)

lemma trim_front_id: "s = [] \<or> \<not> is_blank (hd s) \<Longrightarrow> trim_front s = s"
  by (cases s) auto

lemma trim_back_snoc: "is_trailing b \<Longrightarrow> trim_back (s @ [b]) = trim_back s"
  by (simp add: trim_back.simps [of "s @ [b]"])

lemma trim_back_id: "s = [] \<or> \<not> is_trailing (last s) \<Longrightarrow> trim_back s = s"
  by (auto simp: trim_back.simps [of s])

lemma join_ends:
  assumes "list_all is_word ts" and "ts \<noteq> []"
  shows "join_tokens ts \<noteq> []" "hd (join_tokens ts) = hd (hd ts)" "last (join_tokens ts) = last (last ts)"
  using assms by (induction ts rule: join_tokens.induct) (auto simp: is_word_def)

lemma trim_join:
  assumes "list_all is_word ts" and "ts \<noteq> []"
  shows "trim_input (join_tokens ts @ [10]) = join_tokens ts"
proof -
  note e = join_ends [OF assms]
  have "is_word (hd ts)" "is_word (last ts)" using assms by (simp_all add: list_all_iff)
  then have "\<not> is_blank (hd (hd ts))" "\<not> is_trailing (last (last ts))"
    by (auto simp: is_word_def list_all_iff is_blank_def is_trailing_def)
  then have "trim_front (join_tokens ts @ [10]) = join_tokens ts @ [10]" "trim_back (join_tokens ts) = join_tokens ts"
    using e by (simp_all add: trim_front_id trim_back_id)
  moreover have "is_trailing 10" by (simp add: is_trailing_def)
  ultimately show ?thesis by (simp add: trim_input_def trim_back_snoc)
qed

section \<open>Parsing what was printed\<close>

abbreviation plain :: "token list \<Rightarrow> bool" where
  "plain as \<equiv> list_all (\<lambda>a. a \<notin> {LESS, GREATER, GREATER2, BAR}) as"

lemma operators_distinct [simp]:
  "LESS \<noteq> GREATER" "LESS \<noteq> GREATER2" "LESS \<noteq> BAR" "GREATER \<noteq> LESS" "GREATER \<noteq> GREATER2" "GREATER \<noteq> BAR"
  "GREATER2 \<noteq> LESS" "GREATER2 \<noteq> GREATER" "GREATER2 \<noteq> BAR" "BAR \<noteq> LESS" "BAR \<noteq> GREATER" "BAR \<noteq> GREATER2"
  by (simp_all add: operator_defs)

lemma parse_plain: "plain as \<Longrightarrow> parse_command_loop (as @ ts) av inp out = parse_command_loop ts (av @ as) inp out"
  by (induction as arbitrary: av) auto

lemma parse_print_command: "command_ok c \<Longrightarrow> parse_command (print_command c) = Some c"
  unfolding parse_command_def print_command_def command_ok_def
  using parse_plain [of "argv c" "[]" "[]" None None]
  by (cases c; cases "c_input c"; cases "c_output c") (auto simp: parse_plain)

lemma print_command_no_bar:
  assumes "command_ok c"
  shows "print_command c \<noteq> []" "BAR \<notin> set (print_command c)"
proof -
  show "print_command c \<noteq> []" using assms by (simp add: print_command_def command_ok_def)
  have "BAR \<notin> set (argv c)" using assms by (auto simp: command_ok_def list_all_iff)
  then show "BAR \<notin> set (print_command c)"
    using assms by (cases "c_input c"; cases "c_output c") (auto simp: print_command_def command_ok_def)
qed

lemma parse_segment: "BAR \<notin> set xs \<Longrightarrow> parse_job_loop (xs @ ts) seg cmds = parse_job_loop ts (seg @ xs) cmds"
  by (induction xs arbitrary: seg) auto

lemma parse_print_pipeline:
  "list_all command_ok cs \<Longrightarrow> cs \<noteq> [] \<Longrightarrow> parse_job_loop (print_pipeline cs) [] cmds = Some (cmds @ cs)"
proof (induction cs arbitrary: cmds rule: print_pipeline.induct)
  case (2 c)
  then show ?case
    using parse_segment [of "print_command c" "[]" "[]" cmds] parse_print_command [of c] print_command_no_bar [of c] by simp
next
  case (3 c d cs)
  then show ?case
    using parse_segment [of "print_command c" "BAR # print_pipeline (d # cs)" "[]" cmds] parse_print_command [of c]
      print_command_no_bar [of c]
    by simp
qed simp

lemma job_ok_commands: "job_ok j \<Longrightarrow> list_all command_ok (commands_of j) \<and> commands_of j \<noteq> []"
  by (cases j) auto

lemma print_job_pipeline: "print_job j = print_pipeline (commands_of j)"
  by (cases j) auto

lemma parse_print_job: "job_ok j \<Longrightarrow> parse_job (print_job j) = Some j"
  using parse_print_pipeline [of "commands_of j" "[]"] job_ok_commands [of j] print_job_pipeline [of j]
  by (cases j) (auto simp: parse_job_def command_ok_def list_all_iff redirects_ok_iff)

lemma operators_words: "is_word LESS" "is_word GREATER" "is_word GREATER2" "is_word BAR"
  by (simp_all add: is_word_def is_trailing_def operator_defs)

lemma print_command_words: "words_ok c \<Longrightarrow> list_all is_word (print_command c)"
  by (auto simp: words_ok_def print_command_def operators_words split: option.splits)

lemma print_pipeline_words: "list_all words_ok cs \<Longrightarrow> list_all is_word (print_pipeline cs)"
  by (induction cs rule: print_pipeline.induct) (auto simp: print_command_words operators_words)

lemma print_pipeline_ne: "list_all command_ok cs \<Longrightarrow> cs \<noteq> [] \<Longrightarrow> print_pipeline cs \<noteq> []"
  by (induction cs rule: print_pipeline.induct) (auto simp: print_command_no_bar)

section \<open>What the parser returns\<close>

lemma parse_command_loop_sound:
  "parse_command_loop ts av inp out = Some c \<Longrightarrow> BAR \<notin> set ts \<Longrightarrow> plain av \<Longrightarrow> inp \<noteq> Some BAR \<Longrightarrow>
   map_option o_path out \<noteq> Some BAR \<Longrightarrow>
   plain (argv c) \<and> c_input c \<noteq> Some BAR \<and> map_option o_path (c_output c) \<noteq> Some BAR"
proof (induction ts av inp out rule: parse_command_loop.induct)
  case (2 t ts av inp out)
  consider "t = LESS" | "t = GREATER \<or> t = GREATER2" | "t \<notin> {LESS, GREATER, GREATER2}" by blast
  then show ?case
  proof cases
    case 1
    then show ?thesis using "2.IH"(1) "2.prems" by (cases ts) (auto split: if_splits)
  next
    case 2
    then show ?thesis using "2.IH"(2) "2.prems" by (cases ts) (auto split: if_splits)
  next
    case 3
    then show ?thesis using "2.IH"(3) "2.prems" by (auto split: if_splits)
  qed
qed auto

lemma parse_command_sound:
  "parse_command ts = Some c \<Longrightarrow> BAR \<notin> set ts \<Longrightarrow> argv c \<noteq> [] \<Longrightarrow> command_ok c"
  using parse_command_loop_sound [of ts "[]" None None c] by (auto simp: parse_command_def command_ok_def)

lemma parse_job_loop_sound:
  "parse_job_loop ts seg cmds = Some cs \<Longrightarrow> BAR \<notin> set seg \<Longrightarrow> (\<forall>c \<in> set cmds. argv c \<noteq> [] \<longrightarrow> command_ok c) \<Longrightarrow>
   cs \<noteq> [] \<and> (\<forall>c \<in> set cs. argv c \<noteq> [] \<longrightarrow> command_ok c)"
proof (induction ts seg cmds rule: parse_job_loop.induct)
  case (1 seg cmds)
  then show ?case using parse_command_sound [of seg] by (auto split: if_splits bind_splits)
next
  case (2 t ts seg cmds)
  show ?case
  proof (cases "t = BAR")
    case True
    then obtain c where "seg \<noteq> []" "parse_command seg = Some c" "parse_job_loop ts [] (cmds @ [c]) = Some cs"
      using 2(3) by (auto split: if_splits bind_splits)
    then show ?thesis using 2(1) [OF True] 2(4,5) parse_command_sound [of seg c] by auto
  next
    case False
    then show ?thesis using 2 by auto
  qed
qed

lemma parse_job_loop_bars:
  "parse_job_loop ts seg cmds = Some cs \<Longrightarrow> length cs = length cmds + Suc (count_list ts BAR)"
  by (induction ts seg cmds rule: parse_job_loop.induct) (auto split: if_splits bind_splits)

section \<open>The properties\<close>

text \<open>C32. Printing a job whose arguments and paths are words and parsing the line gives the job back: the
  tokens, the split at the bars, and every redirection.\<close>

theorem parse_print_line:
  assumes "job_ok j" and "list_all words_ok (commands_of j)"
  shows "parse_line (print_line j) = Some j"
proof -
  note c = job_ok_commands [OF assms(1)]
  have w: "list_all is_word (print_job j)" "print_job j \<noteq> []"
    using print_pipeline_words [OF assms(2)] print_pipeline_ne c by (simp_all add: print_job_pipeline)
  then show ?thesis
    using assms(1) by (simp add: parse_line_def print_line_def trim_join line_tokens_join parse_print_job)
qed

theorem parse_print_line_witness:
  "let c1 = \<lparr>argv = [[99], [97, 98]], c_input = Some [102], c_output = None\<rparr>;
       c2 = \<lparr>argv = [[119]], c_input = None, c_output = Some \<lparr>o_path = [103], o_append = True\<rparr>\<rparr>
   in print_line (Pipeline [c1, c2]) = [99, 32, 97, 98, 32, 60, 32, 102, 32, 124, 32, 119, 32, 62, 62, 32, 103, 10] \<and>
      parse_line (print_line (Pipeline [c1, c2])) = Some (Pipeline [c1, c2])"
proof -
  let ?c1 = "\<lparr>argv = [[99], [97, 98]], c_input = Some [102], c_output = None\<rparr>"
  let ?c2 = "\<lparr>argv = [[119]], c_input = None, c_output = Some \<lparr>o_path = [103], o_append = True\<rparr>\<rparr>"
  have "job_ok (Pipeline [?c1, ?c2])"
    by (auto simp: command_ok_def operator_defs)
  moreover have "list_all words_ok (commands_of (Pipeline [?c1, ?c2]))"
    by (simp add: words_ok_def is_word_def is_trailing_def)
  ultimately have "parse_line (print_line (Pipeline [?c1, ?c2])) = Some (Pipeline [?c1, ?c2])" by (rule parse_print_line)
  then show ?thesis by (simp add: print_line_def print_command_def operator_defs)
qed

text \<open>C33. Every job the parser returns is well-formed: each command has an argument, no operator is an argument
  and no bar a path, a pipeline has two commands or more, and only its first reads from and only its
  last writes to a file; and there is one command more than there are bars.\<close>

theorem parse_job_sound:
  assumes "parse_job ts = Some j"
  shows "job_ok j \<and> length (commands_of j) = Suc (count_list ts BAR)"
proof -
  obtain cs where cs: "parse_job_loop ts [] [] = Some cs" "\<forall>c \<in> set cs. argv c \<noteq> []"
      "j = (if length cs = 1 then Single (hd cs) else Pipeline cs)" "length cs = 1 \<or> redirects_ok cs"
    using assms by (auto simp: parse_job_def split: if_splits bind_splits)
  have "cs \<noteq> []" "\<forall>c \<in> set cs. command_ok c" using parse_job_loop_sound [OF cs(1)] cs(2) by auto
  moreover have "length cs = Suc (count_list ts BAR)" using parse_job_loop_bars [OF cs(1)] by simp
  ultimately show ?thesis using cs(3,4) by (cases cs) (auto simp: redirects_ok_iff list_all_iff neq_Nil_conv)
qed

theorem parse_job_sound_witness:
  "let c = \<lparr>argv = [[119]], c_input = None, c_output = Some \<lparr>o_path = [103], o_append = False\<rparr>\<rparr>
   in parse_job [GREATER, [103], [119]] = Some (Single c) \<and> job_ok (Single c)"
proof -
  let ?c = "\<lparr>argv = [[119]], c_input = None, c_output = Some \<lparr>o_path = [103], o_append = False\<rparr>\<rparr>"
  have p: "parse_job [GREATER, [103], [119]] = Some (Single ?c)"
    by (simp add: parse_job_def parse_command_def operator_defs)
  show ?thesis using p parse_job_sound [OF p] by (simp add: Let_def)
qed

end
