(* ===== verification/Wc.thy ===== *)
theory Wc
  imports Shell
begin

text \<open>
  The word counter, \<open>user/src/bin/wc.rs\<close>.  The successive results of \<open>read\<close> on a descriptor are a list:
  \<open>None\<close> for a negative result, \<open>Some bs\<close> for the bytes returned; after the list the descriptor is at its
  end.  The bytes sent to descriptor 1 are collected.  User programs are built with the release profile,
  so the counters wrap.

  The results: the counts do not depend on how the input is cut into reads and are those of the whole
  input; the decimal output fits the buffer and has the value of the number.
\<close>

record Count =
  lines :: usize
  words :: usize
  bytes :: usize

definition Count_zero :: Count where
  "Count_zero = \<lparr>lines = 0, words = 0, bytes = 0\<rparr>"

definition is_space :: "byte \<Rightarrow> bool" where
  "is_space b \<longleftrightarrow> b = 32 \<or> b = 10 \<or> b = 13 \<or> b = 9 \<or> b = 0x0b \<or> b = 0x0c"

section \<open>Counting\<close>

definition count_byte :: "byte \<Rightarrow> Count \<times> bool \<Rightarrow> Count \<times> bool" where
  "count_byte b = (\<lambda>(count, in_word).
     let count = count\<lparr>bytes := bytes count + 1\<rparr>;
         count = (if b = 10 then count\<lparr>lines := lines count + 1\<rparr> else count)
     in if is_space b then (count, False)
        else if \<not> in_word then (count\<lparr>words := words count + 1\<rparr>, True)
        else (count, in_word))"

fun count_fd_loop :: "byte list option list \<Rightarrow> Count \<times> bool \<Rightarrow> Count option" where
  "count_fd_loop [] c = Some (fst c)"
| "count_fd_loop (None # rs) c = None"
| "count_fd_loop (Some bs # rs) c = (if bs = [] then Some (fst c) else count_fd_loop rs (fold count_byte bs c))"

definition count_fd :: "byte list option list \<Rightarrow> Count option" where
  "count_fd rs = count_fd_loop rs (Count_zero, False)"

section \<open>Printing\<close>

function print_usize_loop :: "usize \<Rightarrow> nat \<Rightarrow> byte list \<Rightarrow> (nat \<times> byte list) res" where
  "print_usize_loop n i buf =
     (if 0 < n then
        if i = 0 then panic ''index out of bounds''
        else print_usize_loop (n div 10) (i - 1) (buf[i - 1 := 48 + ucast (n mod 10)])
      else Ok (i, buf))"
  by pat_completeness auto

termination
  by (relation "measure (\<lambda>(n, i, buf). unat n)") (auto simp: unat_div word_greater_zero_iff unat_gt_0)

declare print_usize_loop.simps [simp del]

definition print_usize :: "usize \<Rightarrow> byte list res" where
  "print_usize n =
     (if n = 0 then Ok [48]
      else bindE (print_usize_loop n 20 (replicate 20 0)) (\<lambda>(i, buf). Ok (drop i buf)))"

definition print_count :: "Count \<Rightarrow> byte list option \<Rightarrow> byte list res" where
  "print_count count name =
     bindE (print_usize (lines count)) (\<lambda>l.
     bindE (print_usize (words count)) (\<lambda>w.
     bindE (print_usize (bytes count)) (\<lambda>b.
     Ok (l @ [32] @ w @ [32] @ b @ (case name of None \<Rightarrow> [] | Some s \<Rightarrow> [32] @ s) @ [10]))))"

text \<open>
  \<open>_start\<close> after its arguments have been read: \<open>file p\<close> is what the reads of the file at \<open>p\<close> return,
  \<open>None\<close> when it cannot be opened.  The result is the output and the exit code.
\<close>

definition add_count :: "Count \<Rightarrow> Count \<Rightarrow> Count" where
  "add_count t c = \<lparr>lines = lines t + lines c, words = words t + words c, bytes = bytes t + bytes c\<rparr>"

definition open_failed :: "byte list" where
  "open_failed = [58, 32, 111, 112, 101, 110, 32, 102, 97, 105, 108, 101, 100, 10]"

definition read_failed :: "byte list" where
  "read_failed = [58, 32, 114, 101, 97, 100, 32, 102, 97, 105, 108, 101, 100, 10]"

fun wc_files ::
    "(byte list \<Rightarrow> byte list option list option) \<Rightarrow> byte list list \<Rightarrow> Count \<Rightarrow> bool \<Rightarrow> (byte list \<times> Count \<times> bool) res" where
  "wc_files file [] tot ok = Ok ([], tot, ok)"
| "wc_files file (path # paths) tot ok =
     (case file path of
        None \<Rightarrow>
          bindE (wc_files file paths tot False) (\<lambda>(out, r). Ok (path @ open_failed @ out, r))
      | Some rs \<Rightarrow>
          (case count_fd rs of
             Some count \<Rightarrow>
               bindE (print_count count (Some path)) (\<lambda>l.
               bindE (wc_files file paths (add_count tot count) ok) (\<lambda>(out, r). Ok (l @ out, r)))
           | None \<Rightarrow>
               bindE (wc_files file paths tot False) (\<lambda>(out, r). Ok (path @ read_failed @ out, r))))"

definition wc :: "(byte list \<Rightarrow> byte list option list option) \<Rightarrow> byte list option list \<Rightarrow> byte list list \<Rightarrow> (byte list \<times> int) res" where
  "wc file stdin args =
     (if length args = 1 then
        (case count_fd stdin of
           Some count \<Rightarrow> bindE (print_count count None) (\<lambda>out. Ok (out, 0))
         | None \<Rightarrow> Ok ([], 1))
      else
        bindE (wc_files file (drop 1 args) Count_zero True) (\<lambda>(out, tot, ok).
        bindE (if 2 < length args then print_count tot (Some [116, 111, 116, 97, 108]) else Ok []) (\<lambda>l.
        Ok (out @ l, if ok then 0 else 1))))"

section \<open>What is counted\<close>

text \<open>The words of a text are the non-empty pieces between white space.\<close>

definition text_words :: "byte list \<Rightarrow> byte list list" where
  "text_words bs = filter (\<lambda>w. w \<noteq> []) (split_slice is_space bs)"

definition text_count :: "byte list \<Rightarrow> Count" where
  "text_count bs = \<lparr>lines = of_nat (count_list bs 10), words = of_nat (length (text_words bs)), bytes = of_nat (length bs)\<rparr>"

text \<open>The number of words when the text is preceded by a character of a word, or not.\<close>

definition more_words :: "bool \<Rightarrow> byte list \<Rightarrow> nat" where
  "more_words in_word bs =
     (if in_word then length (filter (\<lambda>w. w \<noteq> []) (tl (split_slice is_space bs))) else length (text_words bs))"

lemma more_words_simps:
  "more_words iw [] = 0"
  "is_space b \<Longrightarrow> more_words iw (b # bs) = more_words False bs"
  "\<not> is_space b \<Longrightarrow> more_words True (b # bs) = more_words True bs"
  "\<not> is_space b \<Longrightarrow> more_words False (b # bs) = Suc (more_words True bs)"
  using split_slice_ne [of is_space bs] by (auto simp: more_words_def text_words_def split: list.splits)

definition plus_text :: "Count \<Rightarrow> bool \<Rightarrow> byte list \<Rightarrow> Count" where
  "plus_text c iw bs = \<lparr>lines = lines c + of_nat (count_list bs 10), words = words c + of_nat (more_words iw bs),
     bytes = bytes c + of_nat (length bs)\<rparr>"

lemma count_byte_eq: "count_byte b (c, iw) = (plus_text c iw [b], \<not> is_space b)"
proof -
  have "is_space 10" by (simp add: is_space_def)
  then show ?thesis
    by (cases "is_space b"; cases iw; cases "b = 10") (auto simp: count_byte_def plus_text_def more_words_simps Let_def)
qed

lemma plus_text_Cons: "plus_text (plus_text c iw [b]) (\<not> is_space b) bs = plus_text c iw (b # bs)"
  by (cases "is_space b"; cases iw) (simp_all add: plus_text_def more_words_simps)

lemma fold_count: "fst (fold count_byte bs (c, iw)) = plus_text c iw bs"
proof (induction bs arbitrary: c iw)
  case Nil
  then show ?case by (simp add: plus_text_def more_words_simps)
next
  case (Cons b bs)
  then show ?case by (simp add: count_byte_eq plus_text_Cons)
qed

lemma count_fd_loop_concat:
  "\<forall>bs \<in> set cs. bs \<noteq> [] \<Longrightarrow> count_fd_loop (map Some cs @ rs) c = count_fd_loop rs (fold count_byte (concat cs) c)"
  by (induction cs arbitrary: c) auto

section \<open>The decimal output\<close>

fun decimal :: "nat \<Rightarrow> byte list" where
  "decimal n = (if n = 0 then [] else decimal (n div 10) @ [48 + of_nat (n mod 10)])"

declare decimal.simps [simp del]

lemma print_loop_decimal:
  assumes "unat n < 10 ^ i" and "i \<le> length buf"
  shows "\<exists>j buf'. print_usize_loop n i buf = Ok (j, buf') \<and> drop j buf' = decimal (unat n) @ drop i buf"
  using assms
proof (induction n i buf rule: print_usize_loop.induct)
  case (1 n i buf)
  show ?case
  proof (cases "0 < n")
    case False
    then have "n = 0" by (simp add: word_greater_zero_iff)
    then show ?thesis by (simp add: print_usize_loop.simps [of 0] decimal.simps [of 0])
  next
    case True
    then have n: "0 < unat n" by (simp add: word_greater_zero_iff unat_gt_0)
    then have i: "i \<noteq> 0" using "1.prems"(1) by (cases i) auto
    let ?d = "48 + ucast (n mod 10) :: byte"
    have "unat (n div 10) < 10 ^ (i - 1)"
      using "1.prems"(1) i by (cases i) (simp_all add: unat_div div_less_iff_less_mult mult.commute)
    moreover have "i - 1 \<le> length (buf[i - 1 := ?d])" using "1.prems"(2) by simp
    ultimately obtain j buf' where IH: "print_usize_loop (n div 10) (i - 1) (buf[i - 1 := ?d]) = Ok (j, buf')"
        "drop j buf' = decimal (unat (n div 10)) @ drop (i - 1) (buf[i - 1 := ?d])"
      using "1.IH" [OF True i] by blast
    have "drop (i - 1) (buf[i - 1 := ?d]) = ?d # drop i buf"
      using i "1.prems"(2) by (simp add: drop_update_swap Cons_nth_drop_Suc [symmetric] del: Cons_nth_drop_Suc) 
    moreover have "ucast (n mod 10) = (of_nat (unat (n mod 10)) :: byte)" by (rule of_nat_unat [symmetric])
    then have "?d = 48 + of_nat (unat n mod 10)" by (simp add: unat_mod)
    ultimately show ?thesis
      using IH True i n by (simp add: print_usize_loop.simps [of n] decimal.simps [of "unat n"] unat_div)
  qed
qed

definition decimal_value :: "byte list \<Rightarrow> nat" where
  "decimal_value ds = foldl (\<lambda>v d. 10 * v + (unat d - 48)) 0 ds"

lemma digit: "k < 10 \<Longrightarrow> unat (48 + of_nat k :: byte) = 48 + k"
  using unsigned_of_nat [of "48 + k", where ?'b = 8 and ?'a = nat] by (simp add: take_bit_eq_mod)

lemma decimal_props:
  "decimal_value (decimal n) = n \<and> list_all (\<lambda>d. 48 \<le> d \<and> d \<le> 57) (decimal n) \<and> (0 < n \<longrightarrow> decimal n \<noteq> [] \<and> hd (decimal n) \<noteq> 48)"
proof (induction n rule: decimal.induct)
  case (1 n)
  show ?case
  proof (cases "n = 0")
    case True
    then show ?thesis by (simp add: decimal.simps [of 0] decimal_value_def)
  next
    case False
    let ?d = "48 + of_nat (n mod 10) :: byte"
    have d: "unat ?d = 48 + n mod 10" by (rule digit) simp
    have u: "n mod 10 < 10" by simp
    have "48 \<le> ?d" "?d \<le> 57" using d u by (simp_all add: word_le_nat_alt)
    moreover have "?d \<noteq> 48" if "n div 10 = 0"
    proof
      assume "?d = 48"
      then have "n mod 10 = 0" using d by simp
      then show False using that False by (metis div_mult_mod_eq add_0 mult_0)
    qed
    ultimately show ?thesis
      using 1 [OF False] False d by (auto simp: decimal.simps [of n] decimal_value_def hd_append decimal.simps [of 0])
  qed
qed

section \<open>The properties\<close>

text \<open>C34. However the input is cut into reads, \<open>count_fd\<close> returns the number of lines, words and bytes of the
  whole input, each modulo \<open>2 ^ 64\<close>; a failing read makes it return \<open>None\<close>.\<close>

theorem count_fd_correct:
  assumes "\<forall>bs \<in> set cs. bs \<noteq> []"
  shows "count_fd (map Some cs) = Some (text_count (concat cs)) \<and> count_fd (map Some cs @ None # rs) = None"
proof -
  have "fst (fold count_byte (concat cs) (Count_zero, False)) = text_count (concat cs)"
    by (simp add: fold_count plus_text_def text_count_def more_words_def Count_zero_def)
  then show ?thesis
    using count_fd_loop_concat [OF assms, of "[]"] count_fd_loop_concat [OF assms, of "None # rs"]
    by (simp add: count_fd_def)
qed

theorem count_fd_correct_witness:
  "count_fd (map Some [[97, 98], [99, 32, 10], [100]]) = Some \<lparr>lines = 1, words = 2, bytes = 6\<rparr>"
  using count_fd_correct [of "[[97, 98], [99, 32, 10], [100]]"]
  by (simp add: text_count_def text_words_def is_space_def)

text \<open>C35. \<open>print_usize\<close> never runs out of its twenty-byte buffer, and prints decimal digits whose value is the
  number, without leading zeros.\<close>

theorem print_usize_correct:
  "\<exists>ds. print_usize n = Ok ds \<and> decimal_value ds = unat n \<and> list_all (\<lambda>d. 48 \<le> d \<and> d \<le> 57) ds \<and> ds \<noteq> [] \<and>
     (hd ds = 48 \<longleftrightarrow> n = 0)"
proof (cases "n = 0")
  case True
  then show ?thesis by (simp add: print_usize_def decimal_value_def)
next
  case False
  have "unat n < 2 ^ 64" using unsigned_less [of n] by simp
  then have "unat n < 10 ^ 20" by simp
  from print_loop_decimal [OF this, of "replicate 20 0"] False
  have "print_usize n = Ok (decimal (unat n))" by (auto simp: print_usize_def)
  moreover have "0 < unat n" using False by (simp add: unat_gt_0)
  ultimately show ?thesis using decimal_props [of "unat n"] by auto
qed

end
