(* ===== verification/Ftable.thy ===== *)
theory Ftable
  imports Fs_Ops Pipe Console
begin

text \<open>
  The file table, \<open>src/file.rs\<close>.  The state \<open>kst\<close> adds the table of pipes, the console and the table of
  open files to the file system; a \<open>*mut File\<close> is the index of its entry.  Each function is what the
  code does between two sleeps, under the locks it takes: a call that has to wait returns \<open>Sleep\<close> with
  the channel and what it has delivered so far, and is resumed by \<open>file_read_resume\<close> or
  \<open>file_write_resume\<close>.  A function that calls \<open>proc::wakeup\<close> returns the channels.
\<close>

definition NFILE :: nat where "NFILE = 100"
definition NOFILE :: nat where "NOFILE = 16"
definition CONSOLE_MAJOR :: u16 where "CONSOLE_MAJOR = 1"

datatype FileKind =
    KNone
  | KDevice u16
  | KInode inode_ref usize bool
  | KPipe pipe_ref

record openfile =
  refcnt :: nat
  readable :: bool
  writable :: bool
  kind :: FileKind

type_synonym file_ref = nat

definition File_unused :: openfile where
  "File_unused = \<lparr>refcnt = 0, readable = False, writable = False, kind = KNone\<rparr>"

record kst = fs +
  pipes :: "pipe list"
  cons :: console
  ftable :: "openfile list"

section \<open>The table\<close>

definition set_file :: "file_ref \<Rightarrow> openfile \<Rightarrow> 'z kst_scheme \<Rightarrow> 'z kst_scheme" where
  "set_file f fl s = s\<lparr>ftable := (ftable s)[f := fl]\<rparr>"

definition file_alloc :: "'z kst_scheme \<Rightarrow> file_ref option \<times> 'z kst_scheme" where
  "file_alloc s =
     (case find_slot (\<lambda>fl. refcnt fl = 0) (ftable s) of
        Some f \<Rightarrow> (Some f, set_file f (File_unused\<lparr>refcnt := 1\<rparr>) s)
      | None \<Rightarrow> (None, s))"

definition file_dup :: "file_ref \<Rightarrow> 'z kst_scheme \<Rightarrow> 'z kst_scheme res" where
  "file_dup f s =
     (let fl = ftable s ! f in
      if refcnt fl = 0 then panic ''dup: invalid refcnt''
      else bindE (usize_add (refcnt fl) 1) (\<lambda>n. Ok (set_file f (fl\<lparr>refcnt := n\<rparr>) s)))"

definition close_kind :: "FileKind \<Rightarrow> bool \<Rightarrow> 'z kst_scheme \<Rightarrow> (chan list \<times> 'z kst_scheme) res" where
  "close_kind k wr s =
     (case k of
        KInode inode _ _ \<Rightarrow> bindE (iput inode s) (\<lambda>s. Ok ([], s))
      | KPipe p \<Rightarrow>
          (let (ws, pi) = pipe_close p wr (pipes s ! p) in Ok (ws, s\<lparr>pipes := (pipes s)[p := pi]\<rparr>))
      | _ \<Rightarrow> Ok ([], s))"

definition file_close :: "file_ref \<Rightarrow> 'z kst_scheme \<Rightarrow> (chan list \<times> 'z kst_scheme) res" where
  "file_close f s =
     (let fl = ftable s ! f in
      if refcnt fl = 0 then panic ''close: invalid refcnt''
      else if refcnt fl = 1 then
        close_kind (kind fl) (writable fl)
          (set_file f (fl\<lparr>refcnt := 0, kind := KNone, readable := False, writable := False\<rparr>) s)
      else Ok ([], set_file f (fl\<lparr>refcnt := refcnt fl - 1\<rparr>) s))"

section \<open>Reading and writing\<close>

fun map_outcome :: "('a \<Rightarrow> 'b) \<Rightarrow> ('k \<Rightarrow> 'l) \<Rightarrow> ('a, 'k) outcome \<Rightarrow> ('b, 'l) outcome" where
  "map_outcome f g (Done x) = Done (f x)"
| "map_outcome f g (Sleep c k) = Sleep c (g k)"

definition advance :: "usize \<Rightarrow> int \<Rightarrow> usize res" where
  "advance off n = bindE (usize_add (unat off) (nat n)) (\<lambda>m. Ok (of_nat m))"

text \<open>The result of a read is its return value and the bytes; a read that sleeps has delivered \<open>acc\<close>.\<close>

type_synonym read_result = "(int \<times> byte list, byte list) outcome"

definition read_done :: "byte list \<Rightarrow> int \<times> byte list" where
  "read_done bs = (int (length bs), bs)"

definition console_part :: "(byte list, byte list) outcome \<times> console \<Rightarrow> 'z kst_scheme \<Rightarrow> (read_result \<times> chan list \<times> 'z kst_scheme) res" where
  "console_part r s = (let (out, c) = r in Ok (map_outcome read_done (\<lambda>acc. acc) out, [], s\<lparr>cons := c\<rparr>))"

definition pipe_part :: "pipe_ref \<Rightarrow> nat \<Rightarrow> 'z kst_scheme \<Rightarrow> (read_result \<times> chan list \<times> 'z kst_scheme) res" where
  "pipe_part p len s =
     bindE (pipe_read p len (pipes s ! p)) (\<lambda>(out, ws, pi).
     Ok (map_outcome read_done (\<lambda>_. []) out, ws, s\<lparr>pipes := (pipes s)[p := pi]\<rparr>))"

definition file_read :: "file_ref \<Rightarrow> nat \<Rightarrow> 'z kst_scheme \<Rightarrow> (read_result \<times> chan list \<times> 'z kst_scheme) res" where
  "file_read f len s =
     (let fl = ftable s ! f in
      if \<not> readable fl then Ok (Done (-1, []), [], s)
      else
        (case kind fl of
           KDevice major \<Rightarrow>
             if major = CONSOLE_MAJOR then bindE (console_read len (cons s)) (\<lambda>r. console_part r s)
             else Ok (Done (-1, []), [], s)
         | KInode inode off app \<Rightarrow>
             bindE (readi inode off (replicate len 0) s) (\<lambda>(n, dst, s).
             bindE (if 0 < n then advance off n else Ok off) (\<lambda>off.
             Ok (Done (n, take (nat n) dst), [], set_file f (fl\<lparr>kind := KInode inode off app\<rparr>) s)))
         | KPipe p \<Rightarrow> pipe_part p len s
         | KNone \<Rightarrow> Ok (Done (-1, []), [], s)))"

definition file_read_resume :: "file_ref \<Rightarrow> nat \<Rightarrow> byte list \<Rightarrow> 'z kst_scheme \<Rightarrow> (read_result \<times> chan list \<times> 'z kst_scheme) res" where
  "file_read_resume f len acc s =
     (case kind (ftable s ! f) of
        KPipe p \<Rightarrow> pipe_part p len s
      | _ \<Rightarrow> bindE (console_read_loop len acc (cons s)) (\<lambda>r. console_part r s))"

text \<open>Of a write that sleeps the model keeps how many bytes have been stored.\<close>

type_synonym write_result = "(int, nat) outcome"

definition pipe_write_part :: "pipe_ref \<Rightarrow> byte list \<Rightarrow> nat \<Rightarrow> 'z kst_scheme \<Rightarrow> (write_result \<times> chan list \<times> 'z kst_scheme) res" where
  "pipe_write_part p src n s =
     bindE (pipe_write p src n (pipes s ! p)) (\<lambda>(out, n, ws, pi).
     Ok (map_outcome (\<lambda>r. r) (\<lambda>_. n) out, ws, s\<lparr>pipes := (pipes s)[p := pi]\<rparr>))"

definition file_write :: "file_ref \<Rightarrow> byte list \<Rightarrow> 'z kst_scheme \<Rightarrow> (write_result \<times> chan list \<times> 'z kst_scheme) res" where
  "file_write f src s =
     (let fl = ftable s ! f in
      if \<not> writable fl then Ok (Done (-1), [], s)
      else
        (case kind fl of
           KDevice major \<Rightarrow>
             if major = CONSOLE_MAJOR then
               Ok (Done (int (length src)), [], s\<lparr>cons := console_write_bytes src (cons s)\<rparr>)
             else Ok (Done (-1), [], s)
         | KInode inode off app \<Rightarrow>
             if app then
               bindE (appendi inode src s) (\<lambda>((n, new_off), s).
               Ok (Done n, [], set_file f (fl\<lparr>kind := KInode inode (if 0 < n then of_nat new_off else off) app\<rparr>) s))
             else
               bindE (writei inode off src s) (\<lambda>(n, s).
               bindE (if 0 < n then advance off n else Ok off) (\<lambda>off.
               Ok (Done n, [], set_file f (fl\<lparr>kind := KInode inode off app\<rparr>) s)))
         | KPipe p \<Rightarrow> pipe_write_part p src 0 s
         | KNone \<Rightarrow> Ok (Done (-1), [], s)))"

definition file_write_resume :: "file_ref \<Rightarrow> byte list \<Rightarrow> nat \<Rightarrow> 'z kst_scheme \<Rightarrow> (write_result \<times> chan list \<times> 'z kst_scheme) res" where
  "file_write_resume f src n s =
     (case kind (ftable s ! f) of KPipe p \<Rightarrow> pipe_write_part p src n s | _ \<Rightarrow> Ok (Done (-1), [], s))"

definition file_stat :: "file_ref \<Rightarrow> 'z kst_scheme \<Rightarrow> (stat option \<times> 'z kst_scheme) res" where
  "file_stat f s =
     (case kind (ftable s ! f) of
        KInode inode _ _ \<Rightarrow> bindE (stati inode s) (\<lambda>(st, s). Ok (Some st, s))
      | _ \<Rightarrow> Ok (None, s))"

end
