(* ===== verification/Lock.thy ===== *)
theory Lock
  imports Ring
begin

text \<open>
  Critical sections, \<open>src/cpu.rs\<close> and \<open>src/spinlock.rs\<close>: the nesting of \<open>push_off\<close> and \<open>pop_off\<close> on the one
  hart there is, and the raw spinlock.  The interrupt-enable bit of \<open>sstatus\<close> is a field of the hart.

  The results: whatever the order in which locks are taken and released, interrupts are off while a
  lock is held and are as before when none is; taking a free lock never spins.
\<close>

section \<open>The hart\<close>

record cpu =
  noff :: nat
  intena :: bool
  sie :: bool

definition intr_get :: "'z cpu_scheme \<Rightarrow> bool" where
  "intr_get c = sie c"

definition intr_off :: "'z cpu_scheme \<Rightarrow> 'z cpu_scheme" where
  "intr_off c = c\<lparr>sie := False\<rparr>"

definition intr_on :: "'z cpu_scheme \<Rightarrow> 'z cpu_scheme" where
  "intr_on c = c\<lparr>sie := True\<rparr>"

definition push_off :: "'z cpu_scheme \<Rightarrow> 'z cpu_scheme res" where
  "push_off c =
     (let old = intr_get c;
          c = intr_off c;
          c = (if noff c = 0 then c\<lparr>intena := old\<rparr> else c)
      in bindE (usize_add (noff c) 1) (\<lambda>n. Ok (c\<lparr>noff := n\<rparr>)))"

definition pop_off :: "'z cpu_scheme \<Rightarrow> 'z cpu_scheme res" where
  "pop_off c =
     (if intr_get c then panic ''pop_off: interrupts enabled''
      else if noff c < 1 then panic ''pop_off: not pushed''
      else
        (let c = c\<lparr>noff := noff c - 1\<rparr>
         in Ok (if noff c = 0 \<and> intena c then intr_on c else c)))"

definition cpuid :: nat where "cpuid = 0"

section \<open>The raw spinlock\<close>

definition NO_CPU :: nat where "NO_CPU = 2 ^ 64 - 1"

record raw_spinlock =
  locked :: bool
  owner :: nat

definition RawSpinlock_new :: raw_spinlock where
  "RawSpinlock_new = \<lparr>locked = False, owner = NO_CPU\<rparr>"

definition holding :: "raw_spinlock \<Rightarrow> bool" where
  "holding l \<longleftrightarrow> locked l \<and> owner l = cpuid"

text \<open>\<open>while self.locked.swap(true)\<close>: with no other hart to release the lock, the value \<open>None\<close> is a spin
  that never ends.\<close>

partial_function (option) spin :: "raw_spinlock \<Rightarrow> raw_spinlock option" where
  "spin l = (if locked l then spin (l\<lparr>locked := True\<rparr>) else Some (l\<lparr>locked := True\<rparr>))"

declare spin.simps [code]

definition acquire :: "raw_spinlock \<Rightarrow> 'z cpu_scheme \<Rightarrow> (raw_spinlock \<times> 'z cpu_scheme) option res" where
  "acquire l c =
     bindE (push_off c) (\<lambda>c.
     if holding l then panic ''RawSpinlock::acquire: already holding''
     else Ok (map_option (\<lambda>l. (l\<lparr>owner := cpuid\<rparr>, c)) (spin l)))"

definition release :: "raw_spinlock \<Rightarrow> 'z cpu_scheme \<Rightarrow> (raw_spinlock \<times> 'z cpu_scheme) res" where
  "release l c =
     (if \<not> holding l then panic ''RawSpinlock::release: not holding''
      else bindE (pop_off c) (\<lambda>c. Ok (l\<lparr>owner := NO_CPU, locked := False\<rparr>, c)))"

section \<open>Taking and releasing\<close>

text \<open>On one hart a lock that is taken is held by it.\<close>

definition lock_ok :: "raw_spinlock \<Rightarrow> bool" where
  "lock_ok l \<longleftrightarrow> (locked l \<longrightarrow> owner l = cpuid)"

lemma lock_ok_holding: "lock_ok l \<Longrightarrow> holding l = locked l"
  by (auto simp: lock_ok_def holding_def)

lemma spin_free: "\<not> locked l \<Longrightarrow> spin l = Some (l\<lparr>locked := True\<rparr>)"
  by (simp add: spin.simps [of l])

text \<open>\<open>b\<close> is the interrupt state outside of critical sections, \<open>n\<close> the depth.\<close>

definition cpu_ok :: "bool \<Rightarrow> nat \<Rightarrow> 'z cpu_scheme \<Rightarrow> bool" where
  "cpu_ok b n c \<longleftrightarrow> noff c = n \<and> (if n = 0 then sie c = b else \<not> sie c \<and> intena c = b)"

lemma push_off_ok:
  assumes "cpu_ok b n c" and "n + 1 < 2 ^ 64"
  shows "\<exists>c'. push_off c = Ok c' \<and> cpu_ok b (Suc n) c' \<and> cpu.more c' = cpu.more c"
  using assms by (auto simp: cpu_ok_def push_off_def Let_def intr_get_def intr_off_def)

lemma pop_off_ok:
  assumes "cpu_ok b (Suc n) c"
  shows "\<exists>c'. pop_off c = Ok c' \<and> cpu_ok b n c' \<and> cpu.more c' = cpu.more c"
  using assms by (auto simp: cpu_ok_def pop_off_def Let_def intr_get_def intr_on_def)

definition taken :: raw_spinlock where
  "taken = \<lparr>locked = True, owner = cpuid\<rparr>"

lemma lock_ok_consts [simp]: "lock_ok taken" "lock_ok RawSpinlock_new" "locked taken" "\<not> locked RawSpinlock_new"
  "holding taken" "\<not> holding RawSpinlock_new"
  by (simp_all add: lock_ok_def taken_def RawSpinlock_new_def holding_def)

lemma acquire_ok:
  assumes "cpu_ok b n c" and "n + 1 < 2 ^ 64" and "lock_ok l" and "\<not> locked l"
  shows "\<exists>c'. acquire l c = Ok (Some (taken, c')) \<and> cpu_ok b (Suc n) c' \<and> cpu.more c' = cpu.more c"
  using push_off_ok [OF assms(1,2)] assms(3,4)
  by (auto simp: acquire_def lock_ok_holding spin_free taken_def)

lemma acquire_held:
  assumes "cpu_ok b n c" and "n + 1 < 2 ^ 64" and "lock_ok l" and "locked l"
  shows "acquire l c = panic ''RawSpinlock::acquire: already holding''"
  using push_off_ok [OF assms(1,2)] assms(3,4) by (auto simp: acquire_def lock_ok_holding)

lemma release_ok:
  assumes "cpu_ok b (Suc n) c" and "lock_ok l" and "locked l"
  shows "\<exists>c'. release l c = Ok (RawSpinlock_new, c') \<and> cpu_ok b n c' \<and> cpu.more c' = cpu.more c"
  using pop_off_ok [OF assms(1)] assms(2,3)
  by (auto simp: release_def lock_ok_holding RawSpinlock_new_def)

section \<open>Sequences of lock operations\<close>

datatype lock_op = Acquire nat | Release nat

text \<open>What a sequence of operations does to a table of locks; \<open>None\<close> when one of them spins for ever.\<close>

fun run_locks :: "lock_op list \<Rightarrow> raw_spinlock list \<times> cpu \<Rightarrow> (raw_spinlock list \<times> cpu) option res" where
  "run_locks [] s = Ok (Some s)"
| "run_locks (Acquire i # ops) (ls, c) =
     bindE (acquire (ls ! i) c) (\<lambda>r.
     case r of None \<Rightarrow> Ok None | Some (l, c) \<Rightarrow> run_locks ops (ls[i := l], c))"
| "run_locks (Release i # ops) (ls, c) =
     bindE (release (ls ! i) c) (\<lambda>(l, c). run_locks ops (ls[i := l], c))"

fun op_lock :: "lock_op \<Rightarrow> nat" where
  "op_lock (Acquire i) = i"
| "op_lock (Release i) = i"

text \<open>A sequence is disciplined when it takes a lock only while the lock is free and releases it only while
  it is held; \<open>h\<close> is the set of locks held.\<close>

fun disciplined :: "nat set \<Rightarrow> lock_op list \<Rightarrow> bool" where
  "disciplined h [] \<longleftrightarrow> True"
| "disciplined h (Acquire i # ops) \<longleftrightarrow> i \<notin> h \<and> disciplined (insert i h) ops"
| "disciplined h (Release i # ops) \<longleftrightarrow> i \<in> h \<and> disciplined (h - {i}) ops"

fun held_after :: "nat set \<Rightarrow> lock_op list \<Rightarrow> nat set" where
  "held_after h [] = h"
| "held_after h (Acquire i # ops) = held_after (insert i h) ops"
| "held_after h (Release i # ops) = held_after (h - {i}) ops"

definition locks_ok :: "bool \<Rightarrow> nat set \<Rightarrow> raw_spinlock list \<times> cpu \<Rightarrow> bool" where
  "locks_ok b h s \<longleftrightarrow>
     list_all lock_ok (fst s) \<and> h = {i. i < length (fst s) \<and> locked (fst s ! i)} \<and> cpu_ok b (card h) (snd s)"

lemma locks_ok_finite: "locks_ok b h s \<Longrightarrow> finite h \<and> h \<subseteq> {..<length (fst s)} \<and> card h \<le> length (fst s)"
proof -
  assume "locks_ok b h s"
  then have "h \<subseteq> {..<length (fst s)}" by (auto simp: locks_ok_def)
  then show ?thesis using card_mono [of "{..<length (fst s)}" h] finite_subset by auto
qed

lemma list_all_update: "list_all P xs \<Longrightarrow> P x \<Longrightarrow> list_all P (xs[i := x])"
  using set_update_subset_insert [of xs i x] by (auto simp: list_all_iff)

lemma acquire_step:
  assumes "locks_ok b h (ls, c)" and "i < length ls" and "i \<notin> h" and "length ls < 2 ^ 63"
  shows "\<exists>c'. acquire (ls ! i) c = Ok (Some (taken, c')) \<and> locks_ok b (insert i h) (ls[i := taken], c')"
proof -
  note f = locks_ok_finite [OF assms(1)]
  have "lock_ok (ls ! i)" "\<not> locked (ls ! i)" "cpu_ok b (card h) c"
    using assms(1-3) by (auto simp: locks_ok_def list_all_length)
  moreover have "card h + 1 < 2 ^ 64" using f assms(4) by simp
  ultimately obtain c' where "acquire (ls ! i) c = Ok (Some (taken, c'))" "cpu_ok b (Suc (card h)) c'"
    using acquire_ok by blast
  moreover have "insert i h = {j. j < length ls \<and> locked (ls[i := taken] ! j)}"
    using assms(1,2) by (auto simp: locks_ok_def nth_list_update)
  moreover have "card (insert i h) = Suc (card h)" using f assms(3) by simp
  moreover have "list_all lock_ok (ls[i := taken])" using assms(1) by (intro list_all_update) (simp_all add: locks_ok_def)
  ultimately show ?thesis by (simp add: locks_ok_def)
qed

lemma release_step:
  assumes "locks_ok b h (ls, c)" and "i \<in> h"
  shows "\<exists>c'. release (ls ! i) c = Ok (RawSpinlock_new, c') \<and> locks_ok b (h - {i}) (ls[i := RawSpinlock_new], c')"
proof -
  note f = locks_ok_finite [OF assms(1)]
  have i: "i < length ls" "lock_ok (ls ! i)" "locked (ls ! i)" and c: "cpu_ok b (card h) c"
    using assms by (auto simp: locks_ok_def list_all_length)
  have card: "card h = Suc (card (h - {i}))" using f assms(2) card_Suc_Diff1 [of h i] by simp
  obtain c' where "release (ls ! i) c = Ok (RawSpinlock_new, c')" "cpu_ok b (card (h - {i})) c'"
    using release_ok [OF c [unfolded card] i(2,3)] by blast
  moreover have "h - {i} = {j. j < length ls \<and> locked (ls[i := RawSpinlock_new] ! j)}"
    using assms(1) i(1) by (auto simp: locks_ok_def nth_list_update)
  moreover have "list_all lock_ok (ls[i := RawSpinlock_new])"
    using assms(1) by (intro list_all_update) (simp_all add: locks_ok_def)
  ultimately show ?thesis by (simp add: locks_ok_def)
qed

lemma run_locks_ok:
  assumes "locks_ok b h s" and "disciplined h ops" and "\<forall>op \<in> set ops. op_lock op < length (fst s)" and "length (fst s) < 2 ^ 63"
  shows "\<exists>s'. run_locks ops s = Ok (Some s') \<and> locks_ok b (held_after h ops) s' \<and> length (fst s') = length (fst s)"
  using assms
proof (induction ops s arbitrary: h rule: run_locks.induct)
  case (1 s)
  then show ?case by auto
next
  case (2 i ops ls c)
  then obtain c' where "acquire (ls ! i) c = Ok (Some (taken, c'))" "locks_ok b (insert i h) (ls[i := taken], c')"
    using acquire_step [of b h ls c i] by auto
  then show ?case using "2.IH" [of "Some (taken, c')" "(taken, c')" taken c' "insert i h"] "2.prems" by auto
next
  case (3 i ops ls c)
  then obtain c' where "release (ls ! i) c = Ok (RawSpinlock_new, c')" "locks_ok b (h - {i}) (ls[i := RawSpinlock_new], c')"
    using release_step [of b h ls c i] by auto
  then show ?case using "3.IH" [of "(RawSpinlock_new, c')" RawSpinlock_new c' "h - {i}"] "3.prems" by auto
qed

text \<open>C12. From a state with no lock held and interrupts enabled or not, every disciplined sequence of lock
  operations returns: it neither panics nor spins.  Afterwards exactly the locks it has taken and not
  released are held; interrupts are off if there is one, and otherwise as they were at the start.\<close>

theorem locks_correct:
  assumes "disciplined {} ops" and "\<forall>op \<in> set ops. op_lock op < n" and "n < 2 ^ 63" and "noff c = 0"
  shows "\<exists>ls c'. run_locks ops (replicate n RawSpinlock_new, c) = Ok (Some (ls, c')) \<and> length ls = n \<and>
    {i. i < n \<and> holding (ls ! i)} = held_after {} ops \<and> noff c' = card (held_after {} ops) \<and>
    sie c' = (held_after {} ops = {} \<and> sie c)"
proof -
  have "locks_ok (sie c) {} (replicate n RawSpinlock_new, c)"
    using assms(4) by (auto simp: locks_ok_def cpu_ok_def list_all_length)
  from run_locks_ok [OF this assms(1)] assms(2,3) obtain ls c' where
    1: "run_locks ops (replicate n RawSpinlock_new, c) = Ok (Some (ls, c'))" "locks_ok (sie c) (held_after {} ops) (ls, c')"
      "length ls = n"
    by auto
  have "finite (held_after {} ops)" using locks_ok_finite [OF 1(2)] by blast
  moreover have "{i. i < n \<and> holding (ls ! i)} = held_after {} ops"
    using 1(2,3) lock_ok_holding by (auto simp: locks_ok_def list_all_length)
  ultimately show ?thesis using 1 by (auto simp: locks_ok_def cpu_ok_def split: if_splits)
qed

theorem locks_correct_witness:
  "disciplined {} [Acquire 0, Acquire 1, Release 0, Release 1] \<and>
   (\<exists>ls c'. run_locks [Acquire 0, Acquire 1, Release 0, Release 1]
      (replicate 2 RawSpinlock_new, \<lparr>noff = 0, intena = False, sie = True\<rparr>) = Ok (Some (ls, c')) \<and>
      length ls = 2 \<and> {i. i < 2 \<and> holding (ls ! i)} = {} \<and> noff c' = 0 \<and> sie c')"
proof -
  let ?ops = "[Acquire 0, Acquire 1, Release 0, Release 1]" and ?c = "\<lparr>noff = 0, intena = False, sie = True\<rparr>"
  have h: "disciplined {} ?ops" "\<forall>op \<in> set ?ops. op_lock op < 2" "(2 :: nat) < 2 ^ 63" "noff ?c = 0" by auto
  have "held_after {} ?ops = {}" "card ({} :: nat set) = 0" "sie ?c" by auto
  with locks_correct [OF h] h(1) show ?thesis by (metis (no_types, lifting))
qed

end
