(* ===== verification/Proc.thy ===== *)
theory Proc
  imports Ftable Lock Vm
begin

text \<open>
  Processes, \<open>src/proc.rs\<close>.  The state of the kernel adds physical memory, the hart and the table of
  processes to the file system, the pipes, the console and the open files.  A \<open>*mut Process\<close> is the index
  of its slot, a null pointer is \<open>None\<close>, or \<open>0\<close> for an address.  The locks of the processes and
  \<open>WAIT_LOCK\<close> are part of the state and are taken and released where the code does.

  \<open>swtch\<close> is cut at the switch: \<open>sched\<close> is what happens up to the point where the scheduler has the hart
  again, \<open>scheduler_pick\<close> what the scheduler does to hand it to a process, and the \<open>_resume\<close> functions are
  what the process does when it continues.
\<close>

definition NPROC :: nat where "NPROC = 16"

datatype ProcessState = Unused | Used | Runnable | Running | Zombie | Sleeping

text \<open>The values of \<open>ra\<close> the kernel stores.  \<open>swtch.S\<close> saves and loads the registers; the kernel itself only clears
  them and sets \<open>ra\<close> and \<open>sp\<close>.\<close>

datatype code_ptr = Code_null | Code_forkret

record Context =
  c_ra :: code_ptr
  c_sp :: u64
  c_s0 :: u64
  c_s1 :: u64
  c_s2 :: u64
  c_s3 :: u64
  c_s4 :: u64
  c_s5 :: u64
  c_s6 :: u64
  c_s7 :: u64
  c_s8 :: u64
  c_s9 :: u64
  c_s10 :: u64
  c_s11 :: u64

definition Context_zero :: Context where
  "Context_zero = \<lparr>c_ra = Code_null, c_sp = 0, c_s0 = 0, c_s1 = 0, c_s2 = 0, c_s3 = 0, c_s4 = 0, c_s5 = 0,
     c_s6 = 0, c_s7 = 0, c_s8 = 0, c_s9 = 0, c_s10 = 0, c_s11 = 0\<rparr>"

record Process =
  plock :: raw_spinlock
  pstate :: ProcessState
  pid :: nat
  pcontext :: Context
  parent :: "nat option"
  xstate :: u32
  chan :: "chan option"
  pagetable :: paddr
  trapframe :: paddr
  sz :: nat
  kstack :: paddr
  ofile :: "file_ref option list"
  cwd :: inode_ref

definition root_placeholder :: inode_ref where "root_placeholder = 0"

definition Process_unused :: Process where
  "Process_unused = \<lparr>plock = RawSpinlock_new, pstate = Unused, pid = 0, pcontext = Context_zero, parent = None,
     xstate = 0, chan = None, pagetable = 0, trapframe = 0, sz = 0, kstack = 0,
     ofile = replicate NOFILE None, cwd = root_placeholder\<rparr>"

record kernel = kst +
  km :: kmem
  hart :: cpu
  cur :: "nat option"
  procs :: "Process list"
  next_pid :: nat
  wait_lock :: raw_spinlock
  initproc :: "nat option"

section \<open>The trapframe\<close>

text \<open>The offsets of the fields of \<open>Trapframe\<close> the kernel uses, and its size.\<close>

definition tf_kernel_satp :: nat where "tf_kernel_satp = 0"
definition tf_kernel_sp :: nat where "tf_kernel_sp = 8"
definition tf_kernel_trap :: nat where "tf_kernel_trap = 16"
definition tf_epc :: nat where "tf_epc = 24"
definition tf_kernel_hartid :: nat where "tf_kernel_hartid = 32"
definition tf_sp :: nat where "tf_sp = 48"
definition tf_a0 :: nat where "tf_a0 = 112"
definition tf_a1 :: nat where "tf_a1 = 120"
definition tf_a2 :: nat where "tf_a2 = 128"
definition tf_a7 :: nat where "tf_a7 = 168"
definition size_Trapframe :: nat where "size_Trapframe = 288"

definition tf_get :: "paddr \<Rightarrow> nat \<Rightarrow> kmem \<Rightarrow> u64" where
  "tf_get tf off m = load_u64 (mem m) (unat tf + off)"

definition tf_set :: "paddr \<Rightarrow> nat \<Rightarrow> u64 \<Rightarrow> kmem \<Rightarrow> kmem" where
  "tf_set tf off v m = m\<lparr>mem := store_u64 (unat tf + off) v (mem m)\<rparr>"

definition set_a0 :: "nat \<Rightarrow> int \<Rightarrow> kernel \<Rightarrow> kernel" where
  "set_a0 i v s = s\<lparr>km := tf_set (trapframe (procs s ! i)) tf_a0 (word_of_int v) (km s)\<rparr>"

section \<open>Locks\<close>

text \<open>A lock that would be waited for for ever is the panic \<open>deadlock\<close>.\<close>

definition lock_acquire :: "raw_spinlock \<Rightarrow> cpu \<Rightarrow> (raw_spinlock \<times> cpu) res" where
  "lock_acquire l c = bindE (acquire l c) (\<lambda>r. case r of None \<Rightarrow> panic ''deadlock'' | Some x \<Rightarrow> Ok x)"

definition set_proc :: "nat \<Rightarrow> Process \<Rightarrow> kernel \<Rightarrow> kernel" where
  "set_proc i p s = s\<lparr>procs := (procs s)[i := p]\<rparr>"

definition upd_proc :: "nat \<Rightarrow> (Process \<Rightarrow> Process) \<Rightarrow> kernel \<Rightarrow> kernel" where
  "upd_proc i f s = set_proc i (f (procs s ! i)) s"

definition plock_acquire :: "nat \<Rightarrow> kernel \<Rightarrow> kernel res" where
  "plock_acquire i s =
     bindE (lock_acquire (plock (procs s ! i)) (hart s)) (\<lambda>(l, c).
     Ok (upd_proc i (\<lambda>p. p\<lparr>plock := l\<rparr>) (s\<lparr>hart := c\<rparr>)))"

definition plock_release :: "nat \<Rightarrow> kernel \<Rightarrow> kernel res" where
  "plock_release i s =
     bindE (release (plock (procs s ! i)) (hart s)) (\<lambda>(l, c).
     Ok (upd_proc i (\<lambda>p. p\<lparr>plock := l\<rparr>) (s\<lparr>hart := c\<rparr>)))"

definition wait_acquire :: "kernel \<Rightarrow> kernel res" where
  "wait_acquire s =
     bindE (lock_acquire (wait_lock s) (hart s)) (\<lambda>(l, c). Ok (s\<lparr>wait_lock := l, hart := c\<rparr>))"

definition wait_release :: "kernel \<Rightarrow> kernel res" where
  "wait_release s =
     bindE (release (wait_lock s) (hart s)) (\<lambda>(l, c). Ok (s\<lparr>wait_lock := l, hart := c\<rparr>))"

definition myproc :: "string \<Rightarrow> kernel \<Rightarrow> nat res" where
  "myproc msg s = (case cur s of None \<Rightarrow> panic msg | Some i \<Rightarrow> Ok i)"

section \<open>Wake-ups and closing files\<close>

definition wakeup_one :: "chan option \<Rightarrow> nat \<Rightarrow> kernel \<Rightarrow> kernel res" where
  "wakeup_one c i s =
     bindE (plock_acquire i s) (\<lambda>s.
     let p = procs s ! i;
         s = (if pstate p = Sleeping \<and> chan p = c then set_proc i (p\<lparr>pstate := Runnable\<rparr>) s else s)
     in plock_release i s)"

definition wakeup :: "chan option \<Rightarrow> kernel \<Rightarrow> kernel res" where
  "wakeup c s = foldE (wakeup_one c) [0..<NPROC] s"

definition wakeup_all :: "chan list \<Rightarrow> kernel \<Rightarrow> kernel res" where
  "wakeup_all ws s = foldE (\<lambda>c. wakeup (Some c)) ws s"

definition kclose :: "file_ref \<Rightarrow> kernel \<Rightarrow> kernel res" where
  "kclose f s = bindE (file_close f s) (\<lambda>(ws, s). wakeup_all ws s)"

definition set_ofile :: "nat \<Rightarrow> file_ref option \<Rightarrow> Process \<Rightarrow> Process" where
  "set_ofile fd f p = p\<lparr>ofile := (ofile p)[fd := f]\<rparr>"

section \<open>Allocating and freeing a slot\<close>

text \<open>In \<open>freeproc\<close> a file is closed first and its slot cleared then.\<close>

definition freeproc_fd :: "nat \<Rightarrow> nat \<Rightarrow> kernel \<Rightarrow> kernel res" where
  "freeproc_fd i fd s =
     (case ofile (procs s ! i) ! fd of
        None \<Rightarrow> Ok s
      | Some f \<Rightarrow> bindE (kclose f s) (\<lambda>s. Ok (upd_proc i (set_ofile fd None) s)))"

definition with_km :: "kmem res \<Rightarrow> kernel \<Rightarrow> kernel res" where
  "with_km r s = bindE r (\<lambda>m. Ok (s\<lparr>km := m\<rparr>))"

definition freeproc :: "nat \<Rightarrow> kernel \<Rightarrow> kernel res" where
  "freeproc i s =
     (let p = procs s ! i in
      if \<not> holding (plock p) then panic ''freeproc: p.lock not held''
      else
        bindE (if trapframe p \<noteq> 0 then with_km (kfree (trapframe p) (km s)) s else Ok s) (\<lambda>s.
        bindE (if pagetable p \<noteq> 0 then with_km (proc_freepagetable (pagetable p) (sz p) (km s)) s else Ok s) (\<lambda>s.
        bindE (if kstack p \<noteq> 0 then with_km (kfree (kstack p) (km s)) s else Ok s) (\<lambda>s.
        bindE (foldE (freeproc_fd i) [0..<NOFILE] s) (\<lambda>s.
        bindE (iput (cwd p) s) (\<lambda>s.
        Ok (upd_proc i (\<lambda>p. p\<lparr>cwd := root_placeholder, trapframe := 0, pagetable := 0, sz := 0, kstack := 0, pid := 0,
          pcontext := Context_zero, pstate := Unused, parent := None, xstate := 0, chan := None\<rparr>) s)))))))"

text \<open>\<open>fetch_add\<close> on \<open>NEXT_PID\<close> wraps around.\<close>

definition allocproc_init :: "nat \<Rightarrow> kernel \<Rightarrow> kernel res" where
  "allocproc_init i s =
     (let s = upd_proc i (\<lambda>p. p\<lparr>pid := next_pid s, pstate := Used, pcontext := Context_zero, parent := None, xstate := 0,
            chan := None, pagetable := 0, trapframe := 0, sz := 0, kstack := 0, ofile := replicate NOFILE None\<rparr>)
            (s\<lparr>next_pid := (next_pid s + 1) mod 2 ^ 64\<rparr>)
      in bindE (root s) (\<lambda>(r, s). Ok (upd_proc i (\<lambda>p. p\<lparr>cwd := r\<rparr>) s)))"

text \<open>The three failing branches: the slot is freed and its lock released.\<close>

definition alloc_failed :: "nat \<Rightarrow> kernel \<Rightarrow> (nat option \<times> kernel) res" where
  "alloc_failed i s = bindE (freeproc i s) (\<lambda>s. bindE (plock_release i s) (\<lambda>s. Ok (None, s)))"

definition allocproc_slot :: "nat \<Rightarrow> kernel \<Rightarrow> (nat option \<times> kernel) res" where
  "allocproc_slot i s =
     bindE (allocproc_init i s) (\<lambda>s.
     case kalloc_zeroed (km s) of
       (None, m) \<Rightarrow> alloc_failed i (s\<lparr>km := m\<rparr>)
     | (Some tf, m) \<Rightarrow>
         bindE (proc_pagetable tf m) (\<lambda>(r, m).
         let s = upd_proc i (\<lambda>p. p\<lparr>trapframe := tf\<rparr>) (s\<lparr>km := m\<rparr>) in
         case r of
           None \<Rightarrow> alloc_failed i s
         | Some pt \<Rightarrow>
             let s = upd_proc i (\<lambda>p. p\<lparr>pagetable := pt\<rparr>) s in
             (case kalloc (km s) of
                (None, m) \<Rightarrow> alloc_failed i (s\<lparr>km := m\<rparr>)
              | (Some ks, m) \<Rightarrow> Ok (Some i, upd_proc i (\<lambda>p. p\<lparr>kstack := ks\<rparr>) (s\<lparr>km := m\<rparr>)))))"

fun allocproc_loop :: "nat list \<Rightarrow> kernel \<Rightarrow> (nat option \<times> kernel) res" where
  "allocproc_loop [] s = Ok (None, s)"
| "allocproc_loop (i # is) s =
     bindE (plock_acquire i s) (\<lambda>s.
     if pstate (procs s ! i) \<noteq> Unused then bindE (plock_release i s) (allocproc_loop is)
     else allocproc_slot i s)"

definition allocproc :: "kernel \<Rightarrow> (nat option \<times> kernel) res" where
  "allocproc s = allocproc_loop [0..<NPROC] s"

section \<open>Fork\<close>

definition fork_failed :: "nat \<Rightarrow> kernel \<Rightarrow> (nat option \<times> kernel) res" where
  "fork_failed c s = bindE (freeproc c s) (\<lambda>s. bindE (plock_release c s) (\<lambda>s. Ok (None, s)))"

definition copy_trapframe :: "paddr \<Rightarrow> paddr \<Rightarrow> kmem \<Rightarrow> kmem" where
  "copy_trapframe src dst m = m\<lparr>mem := store_bytes (unat dst) (load_bytes (mem m) (unat src) size_Trapframe) (mem m)\<rparr>"

definition fork_fd :: "nat \<Rightarrow> nat \<Rightarrow> nat \<Rightarrow> kernel \<Rightarrow> kernel res" where
  "fork_fd par c fd s =
     (case ofile (procs s ! par) ! fd of
        None \<Rightarrow> Ok s
      | Some f \<Rightarrow> bindE (file_dup f s) (\<lambda>s. Ok (upd_proc c (set_ofile fd (Some f)) s)))"

definition fork :: "kernel \<Rightarrow> (nat option \<times> kernel) res" where
  "fork s =
     bindE (myproc ''null pointer'' s) (\<lambda>par.
     bindE (allocproc s) (\<lambda>(r, s).
     case r of
       None \<Rightarrow> Ok (None, s)
     | Some c \<Rightarrow>
         let s = upd_proc c (\<lambda>p. p\<lparr>parent := Some par\<rparr>) s; p = procs s ! par in
         bindE (uvmcopy (pagetable p) (pagetable (procs s ! c)) (sz p) (km s)) (\<lambda>(ok, m).
         if \<not> ok then fork_failed c (s\<lparr>km := m\<rparr>)
         else
           let tf = trapframe (procs s ! c);
               m = tf_set tf tf_a0 0 (copy_trapframe (trapframe p) tf m);
               s = upd_proc c (\<lambda>q. q\<lparr>sz := sz p\<rparr>) s in
           bindE (uvmcopy_stack (pagetable p) (pagetable (procs s ! c)) m) (\<lambda>(ok, m).
           let s = s\<lparr>km := m\<rparr> in
           if \<not> ok then fork_failed c s
           else
             let s = upd_proc c (\<lambda>q. q\<lparr>pcontext := (pcontext q)\<lparr>c_ra := Code_forkret, c_sp := kstack q + of_nat PGSIZE\<rparr>\<rparr>) s in
             bindE (foldE (fork_fd par c) [0..<NOFILE] s) (\<lambda>s.
             bindE (idup (cwd p) s) (\<lambda>(r, s).
             let s = upd_proc c (\<lambda>q. q\<lparr>cwd := r, pstate := Runnable\<rparr>) s in
             bindE (plock_release c s) (\<lambda>s.
             Ok (Some (pid (procs s ! c)), s))))))))"

section \<open>Giving up the hart\<close>

text \<open>\<open>sched\<close> up to the switch, and the scheduler from there until it has released the process: the result
  is the saved \<open>intena\<close>.\<close>

definition sched :: "kernel \<Rightarrow> (bool \<times> kernel) res" where
  "sched s =
     bindE (myproc ''sched: no proc'' s) (\<lambda>i.
     let p = procs s ! i in
     if \<not> holding (plock p) then panic ''sched: p.lock not held''
     else if pstate p = Running then panic ''sched: running''
     else if intr_get (hart s) then panic ''sched: interrupts enabled''
     else if noff (hart s) \<noteq> 1 then panic ''sched: unexpected noff''
     else bindE (plock_release i (s\<lparr>cur := None\<rparr>)) (\<lambda>s'. Ok (intena (hart s), s')))"

text \<open>One turn of the loop of \<open>scheduler\<close>, from \<open>acquire\<close> to the switch into process \<open>i\<close>, or to \<open>release\<close>
  when it is not runnable.\<close>

definition scheduler_pick :: "nat \<Rightarrow> kernel \<Rightarrow> kernel res" where
  "scheduler_pick i s =
     bindE (plock_acquire i s) (\<lambda>s.
     if pstate (procs s ! i) = Runnable then
       Ok ((upd_proc i (\<lambda>p. p\<lparr>pstate := Running\<rparr>) s)\<lparr>cur := Some i\<rparr>)
     else plock_release i s)"

text \<open>
  The return to user mode, \<open>usertrapret\<close> of \<open>src/trap.rs\<close>.  The values the hardware and the linker give, the
  registers \<open>satp\<close> and \<open>tp\<close> and the addresses of \<open>usertrap\<close>, \<open>uservec\<close> and \<open>userret\<close>, are parameters; the
  result is what the processor is left with for \<open>sret\<close>: \<open>stvec\<close>, \<open>sepc\<close>, the bits \<open>SPP\<close> and \<open>SPIE\<close>, and the
  code at \<open>userret\<close> with its two arguments.
\<close>

record trap_env =
  te_satp :: u64
  te_tp :: u64
  te_usertrap :: u64
  te_uservec :: u64
  te_userret :: u64

record user_entry =
  ue_stvec :: u64
  ue_sepc :: u64
  ue_spp :: bool
  ue_spie :: bool
  ue_pc :: u64
  ue_a0 :: u64
  ue_a1 :: u64

definition usertrapret :: "trap_env \<Rightarrow> kernel \<Rightarrow> (user_entry \<times> kernel) res" where
  "usertrapret te s =
     (if noff (hart s) \<noteq> 0 then panic ''usertrapret: in critical section''
      else
        bindE (myproc ''null pointer'' s) (\<lambda>i.
        let p = procs s ! i; tf = trapframe p; start = trampoline_start (km s);
            m = tf_set tf tf_kernel_hartid (te_tp te)
                  (tf_set tf tf_kernel_trap (te_usertrap te)
                  (tf_set tf tf_kernel_sp (kstack p + of_nat PGSIZE)
                  (tf_set tf tf_kernel_satp (te_satp te) (km s))))
        in Ok (\<lparr>ue_stvec = of_nat TRAMPOLINE + (te_uservec te - start), ue_sepc = tf_get tf tf_epc m, ue_spp = False,
                 ue_spie = True, ue_pc = of_nat TRAMPOLINE + (te_userret te - start), ue_a0 = of_nat TRAPFRAME,
                 ue_a1 = make_satp (pagetable p)\<rparr>,
               s\<lparr>hart := intr_off (hart s), km := m\<rparr>)))"

definition forkret :: "trap_env \<Rightarrow> kernel \<Rightarrow> (user_entry \<times> kernel) res" where
  "forkret te s = bindE (myproc ''forkret: no proc'' s) (\<lambda>i. bindE (plock_release i s) (usertrapret te))"

definition sched_resume :: "bool \<Rightarrow> kernel \<Rightarrow> kernel" where
  "sched_resume ie s = s\<lparr>hart := (hart s)\<lparr>intena := ie\<rparr>\<rparr>"

definition yield_cpu :: "kernel \<Rightarrow> (bool \<times> kernel) res" where
  "yield_cpu s =
     bindE (myproc ''yield_cpu: no proc'' s) (\<lambda>i.
     bindE (plock_acquire i s) (\<lambda>s.
     sched (upd_proc i (\<lambda>p. p\<lparr>pstate := Runnable\<rparr>) s)))"

definition yield_resume :: "bool \<Rightarrow> kernel \<Rightarrow> kernel res" where
  "yield_resume ie s = bindE (myproc ''yield_cpu: no proc'' s) (\<lambda>i. plock_release i (sched_resume ie s))"

text \<open>\<open>rel\<close> and \<open>acq\<close> release and take the lock that is passed to \<open>sleep\<close>.\<close>

definition sleep :: "chan \<Rightarrow> (kernel \<Rightarrow> kernel res) \<Rightarrow> kernel \<Rightarrow> (bool \<times> kernel) res" where
  "sleep c rel s =
     bindE (myproc ''sleep: no proc'' s) (\<lambda>i.
     bindE (plock_acquire i s) (\<lambda>s.
     bindE (rel s) (\<lambda>s.
     sched (upd_proc i (\<lambda>p. p\<lparr>chan := Some c, pstate := Sleeping\<rparr>) s))))"

definition sleep_resume :: "(kernel \<Rightarrow> kernel res) \<Rightarrow> bool \<Rightarrow> kernel \<Rightarrow> kernel res" where
  "sleep_resume acq ie s =
     bindE (myproc ''sleep: no proc'' s) (\<lambda>i.
     bindE (plock_release i (upd_proc i (\<lambda>p. p\<lparr>chan := None\<rparr>) (sched_resume ie s))) acq)"

section \<open>Exit and wait\<close>

definition close_fd :: "nat \<Rightarrow> nat \<Rightarrow> kernel \<Rightarrow> kernel res" where
  "close_fd i fd s =
     (case ofile (procs s ! i) ! fd of
        None \<Rightarrow> Ok s
      | Some f \<Rightarrow> kclose f (upd_proc i (set_ofile fd None) s))"

definition close_open_files :: "nat \<Rightarrow> kernel \<Rightarrow> kernel res" where
  "close_open_files i s = foldE (close_fd i) [0..<NOFILE] s"

fun reparent_loop :: "nat \<Rightarrow> nat \<Rightarrow> nat list \<Rightarrow> bool \<Rightarrow> kernel \<Rightarrow> (bool \<times> kernel) res" where
  "reparent_loop par ini [] need s = Ok (need, s)"
| "reparent_loop par ini (c # cs) need s =
     bindE (plock_acquire c s) (\<lambda>s.
     let hit = (parent (procs s ! c) = Some par);
         s = (if hit then upd_proc c (\<lambda>p. p\<lparr>parent := Some ini\<rparr>) s else s) in
     bindE (plock_release c s) (\<lambda>s.
     reparent_loop par ini cs (need \<or> hit) s))"

definition reparent :: "nat \<Rightarrow> kernel \<Rightarrow> kernel res" where
  "reparent par s =
     (case initproc s of
        None \<Rightarrow> Ok s
      | Some ini \<Rightarrow>
          if par = ini then Ok s
          else
            bindE (reparent_loop par ini [0..<NPROC] False s) (\<lambda>(need, s).
            if need then wakeup (Some (ProcChan ini)) s else Ok s))"

definition exit :: "u32 \<Rightarrow> kernel \<Rightarrow> kernel res" where
  "exit code s =
     bindE (myproc ''exit: no proc'' s) (\<lambda>i.
     bindE (close_open_files i s) (\<lambda>s.
     bindE (wait_acquire s) (\<lambda>s.
     bindE (reparent i s) (\<lambda>s.
     bindE (wakeup (map_option ProcChan (parent (procs s ! i))) s) (\<lambda>s.
     bindE (plock_acquire i s) (\<lambda>s.
     bindE (wait_release (upd_proc i (\<lambda>p. p\<lparr>xstate := code, pstate := Zombie\<rparr>) s)) (\<lambda>s.
     bindE (sched s) (\<lambda>(_, s). Ok s))))))))"

datatype wait_scan = Reaped int | Scanned bool

fun wait_loop :: "nat \<Rightarrow> nat \<Rightarrow> nat list \<Rightarrow> bool \<Rightarrow> kernel \<Rightarrow> (wait_scan \<times> kernel) res" where
  "wait_loop par va [] have_child s = Ok (Scanned have_child, s)"
| "wait_loop par va (c # cs) have_child s =
     bindE (plock_acquire c s) (\<lambda>s.
     let p = procs s ! c in
     if parent p = Some par \<and> pstate p = Zombie then
       bindE (if va \<noteq> 0 then copyout (pagetable (procs s ! par)) va (le_of_word (xstate p)) (km s) else Ok (True, km s)) (\<lambda>(ok, m).
       let s = s\<lparr>km := m\<rparr> in
       if \<not> ok then bindE (plock_release c s) (\<lambda>s. Ok (Reaped (-1), s))
       else
         bindE (freeproc c s) (\<lambda>s.
         bindE (plock_release c s) (\<lambda>s.
         bindE (wait_release s) (\<lambda>s.
         Ok (Reaped (int (pid p)), s)))))
     else
       bindE (plock_release c s) (\<lambda>s.
       wait_loop par va cs (have_child \<or> parent p = Some par) s))"

text \<open>One turn of the outer loop of \<open>wait\<close>, with \<open>WAIT_LOCK\<close> held; a sleep keeps the saved \<open>intena\<close>.\<close>

definition wait_turn :: "nat \<Rightarrow> kernel \<Rightarrow> ((int, bool) outcome \<times> kernel) res" where
  "wait_turn va s =
     bindE (myproc ''wait: no proc'' s) (\<lambda>par.
     bindE (wait_loop par va [0..<NPROC] False s) (\<lambda>(r, s).
     case r of
       Reaped v \<Rightarrow> Ok (Done v, s)
     | Scanned have_child \<Rightarrow>
         if \<not> have_child then bindE (wait_release s) (\<lambda>s. Ok (Done (-1), s))
         else bindE (sleep (ProcChan par) wait_release s) (\<lambda>(ie, s). Ok (Sleep (ProcChan par) ie, s))))"

definition wait :: "nat \<Rightarrow> kernel \<Rightarrow> ((int, bool) outcome \<times> kernel) res" where
  "wait va s =
     bindE (myproc ''wait: no proc'' s) (\<lambda>_. bindE (wait_acquire s) (wait_turn va))"

definition wait_resume :: "nat \<Rightarrow> bool \<Rightarrow> kernel \<Rightarrow> ((int, bool) outcome \<times> kernel) res" where
  "wait_resume va ie s = bindE (sleep_resume wait_acquire ie s) (wait_turn va)"

end
