(* ===== verification/Loader.thy ===== *)
theory Loader
  imports Fs_Ops Vm
begin

text \<open>
  Loading programs, \<open>src/loader.rs\<close>: ELF images in memory (\<open>load_elf\<close>, for the first process) and in
  files (\<open>load_elf_from_inode\<close>, for \<open>exec\<close>).  The two loops over the program headers and the two loops
  over the pages of a segment differ in where the bytes come from; here they are one loop each, with the
  reads as a parameter on a state \<open>'f\<close>: nothing for an image in memory, the file system for a file.
\<close>

record LoadedImage =
  im_entry :: nat
  im_sp :: nat
  im_sz :: nat

record Ehdr =
  e_ident :: "byte list"
  e_type :: u16
  e_machine :: u16
  e_entry :: u64
  e_phoff :: u64
  e_phentsize :: u16
  e_phnum :: u16

record Phdr =
  p_type :: u32
  p_flags :: u32
  p_offset :: u64
  p_vaddr :: u64
  p_filesz :: u64
  p_memsz :: u64

definition size_Ehdr :: nat where "size_Ehdr = 64"
definition size_Phdr :: nat where "size_Phdr = 56"

definition ELF_MAGIC :: "byte list" where "ELF_MAGIC = [0x7f, 0x45, 0x4c, 0x46]"
definition ELFCLASS64 :: byte where "ELFCLASS64 = 2"
definition ELFDATA2LSB :: byte where "ELFDATA2LSB = 1"
definition ET_EXEC :: u16 where "ET_EXEC = 2"
definition EM_RISCV :: u16 where "EM_RISCV = 243"
definition PT_LOAD :: u32 where "PT_LOAD = 1"
definition PF_X :: u32 where "PF_X = 1"
definition PF_W :: u32 where "PF_W = 2"
definition PF_R :: u32 where "PF_R = 4"

text \<open>\<open>read_unaligned\<close> of the two headers.\<close>

definition Ehdr_of_bytes :: "byte list \<Rightarrow> Ehdr" where
  "Ehdr_of_bytes bs = \<lparr>e_ident = get_slice bs 0 16, e_type = word_of_le (get_slice bs 16 2),
     e_machine = word_of_le (get_slice bs 18 2), e_entry = word_of_le (get_slice bs 24 8),
     e_phoff = word_of_le (get_slice bs 32 8), e_phentsize = word_of_le (get_slice bs 54 2),
     e_phnum = word_of_le (get_slice bs 56 2)\<rparr>"

definition Phdr_of_bytes :: "byte list \<Rightarrow> Phdr" where
  "Phdr_of_bytes bs = \<lparr>p_type = word_of_le (get_slice bs 0 4), p_flags = word_of_le (get_slice bs 4 4),
     p_offset = word_of_le (get_slice bs 8 8), p_vaddr = word_of_le (get_slice bs 16 8),
     p_filesz = word_of_le (get_slice bs 32 8), p_memsz = word_of_le (get_slice bs 40 8)\<rparr>"

definition ehdr_valid :: "Ehdr \<Rightarrow> bool" where
  "ehdr_valid eh \<longleftrightarrow>
     take 4 (e_ident eh) = ELF_MAGIC \<and> e_ident eh ! 4 = ELFCLASS64 \<and> e_ident eh ! 5 = ELFDATA2LSB \<and>
     e_machine eh = EM_RISCV \<and> e_type eh = ET_EXEC \<and> unat (e_phentsize eh) = size_Phdr"

section \<open>Segments\<close>

definition seg_perm :: "Phdr \<Rightarrow> u64" where
  "seg_perm ph = PTE_U OR (if p_flags ph AND PF_R \<noteq> 0 then PTE_R else 0)
     OR (if p_flags ph AND PF_W \<noteq> 0 then PTE_W else 0) OR (if p_flags ph AND PF_X \<noteq> 0 then PTE_X else 0)"

definition seg_unmap :: "paddr \<Rightarrow> Phdr \<Rightarrow> nat \<Rightarrow> kmem \<Rightarrow> kmem res" where
  "seg_unmap pt ph mapped_pages m =
     (if 0 < mapped_pages then uvmunmap pt (unat (p_vaddr ph)) mapped_pages True m else Ok m)"

text \<open>Filling the page at \<open>pa\<close> with what the file has for it; \<open>None\<close> when it cannot be read.\<close>

definition seg_fill ::
    "(nat \<Rightarrow> nat \<Rightarrow> 'f \<Rightarrow> (byte list option \<times> 'f) res) \<Rightarrow> Phdr \<Rightarrow> nat \<Rightarrow> paddr \<Rightarrow> kmem \<Rightarrow> 'f \<Rightarrow> (kmem option \<times> 'f) res" where
  "seg_fill fetch ph off pa m f =
     (if off < unat (p_filesz ph) then
        bindE (usize_add (unat (p_offset ph)) off) (\<lambda>pos.
        bindE (fetch pos (min PGSIZE (unat (p_filesz ph) - off)) f) (\<lambda>(r, f).
        Ok (map_option (\<lambda>bs. m\<lparr>mem := store_bytes (unat pa) bs (mem m)\<rparr>) r, f)))
      else Ok (Some m, f))"

function load_pages ::
    "(nat \<Rightarrow> nat \<Rightarrow> 'f \<Rightarrow> (byte list option \<times> 'f) res) \<Rightarrow> paddr \<Rightarrow> Phdr \<Rightarrow> nat \<Rightarrow> nat \<Rightarrow> kmem \<Rightarrow> 'f \<Rightarrow> (bool \<times> kmem \<times> 'f) res" where
  "load_pages fetch pt ph mapped_pages off m f =
     (if off < unat (p_memsz ph) then
        (case kalloc_zeroed m of
           (None, m) \<Rightarrow> bindE (seg_unmap pt ph mapped_pages m) (\<lambda>m. Ok (False, m, f))
         | (Some pa, m) \<Rightarrow>
             bindE (seg_fill fetch ph off pa m f) (\<lambda>(r, f).
             case r of
               None \<Rightarrow> bindE (kfree pa m) (\<lambda>m. bindE (seg_unmap pt ph mapped_pages m) (\<lambda>m. Ok (False, m, f)))
             | Some m \<Rightarrow>
                 bindE (usize_add (unat (p_vaddr ph)) off) (\<lambda>va.
                 bindE (mappages pt va PGSIZE pa (seg_perm ph) m) (\<lambda>(ok, m).
                 if \<not> ok then bindE (kfree pa m) (\<lambda>m. bindE (seg_unmap pt ph mapped_pages m) (\<lambda>m. Ok (False, m, f)))
                 else bindE (usize_add off PGSIZE) (\<lambda>off. load_pages fetch pt ph (mapped_pages + 1) off m f)))))
      else Ok (True, m, f))"
  by pat_completeness auto

termination
  by (relation "measure (\<lambda>(fetch, pt, ph, mp, off, m, f). unat (p_memsz ph) - off)")
    (auto simp: PGSIZE_def dest!: usize_add_OkD)

declare load_pages.simps [simp del]

text \<open>The bytes of an image in memory.\<close>

definition fetch_slice :: "byte list \<Rightarrow> nat \<Rightarrow> nat \<Rightarrow> unit \<Rightarrow> (byte list option \<times> unit) res" where
  "fetch_slice elf pos n f = Ok (Some (get_slice elf pos n), f)"

definition load_segment :: "paddr \<Rightarrow> Phdr \<Rightarrow> byte list \<Rightarrow> kmem \<Rightarrow> (bool \<times> kmem \<times> unit) res" where
  "load_segment pt ph elf m =
     (if unat (p_vaddr ph) mod PGSIZE \<noteq> 0 then Ok (False, m, ())
      else if p_memsz ph < p_filesz ph then Ok (False, m, ())
      else
        bindE (usize_add (unat (p_offset ph)) (unat (p_filesz ph))) (\<lambda>stop.
        if length elf < stop then Ok (False, m, ())
        else load_pages (fetch_slice elf) pt ph 0 0 m ()))"

definition read_exact_inode :: "inode_ref \<Rightarrow> nat \<Rightarrow> nat \<Rightarrow> 'z fs_scheme \<Rightarrow> (byte list option \<times> 'z fs_scheme) res" where
  "read_exact_inode r off n s =
     bindE (readi r (of_nat off) (replicate n 0) s) (\<lambda>(k, dst, s).
     Ok (if k = int n then Some dst else None, s))"

definition load_segment_from_inode :: "paddr \<Rightarrow> Phdr \<Rightarrow> inode_ref \<Rightarrow> kmem \<Rightarrow> 'z fs_scheme \<Rightarrow> (bool \<times> kmem \<times> 'z fs_scheme) res" where
  "load_segment_from_inode pt ph r m s =
     (if unat (p_vaddr ph) mod PGSIZE \<noteq> 0 then Ok (False, m, s)
      else if p_memsz ph < p_filesz ph then Ok (False, m, s)
      else load_pages (read_exact_inode r) pt ph 0 0 m s)"

section \<open>Images\<close>

definition cleanup_user :: "paddr \<Rightarrow> nat \<Rightarrow> kmem \<Rightarrow> kmem res" where
  "cleanup_user pt sz m =
     bindE (page_round_up sz) (\<lambda>lim.
     let npages = lim div PGSIZE in
     if 0 < npages then uvmunmap pt 0 npages True m else Ok m)"

text \<open>The loop over the program headers; \<open>read_ph i\<close> reads header \<open>i\<close>, and \<open>None\<close> is a file too short.\<close>

fun load_phdrs ::
    "(nat \<Rightarrow> 'f \<Rightarrow> (Phdr option \<times> 'f) res) \<Rightarrow> (Phdr \<Rightarrow> kmem \<Rightarrow> 'f \<Rightarrow> (bool \<times> kmem \<times> 'f) res) \<Rightarrow> paddr \<Rightarrow>
     nat list \<Rightarrow> nat \<Rightarrow> kmem \<Rightarrow> 'f \<Rightarrow> (nat option \<times> kmem \<times> 'f) res" where
  "load_phdrs read_ph load_seg pt [] sz m f = Ok (Some sz, m, f)"
| "load_phdrs read_ph load_seg pt (i # is) sz m f =
     bindE (read_ph i f) (\<lambda>(r, f).
     case r of
       None \<Rightarrow> Ok (None, m, f)
     | Some ph \<Rightarrow>
         if p_type ph \<noteq> PT_LOAD then load_phdrs read_ph load_seg pt is sz m f
         else
           bindE (load_seg ph m f) (\<lambda>(ok, m, f).
           if \<not> ok then bindE (cleanup_user pt sz m) (\<lambda>m. Ok (None, m, f))
           else
             bindE (usize_add (unat (p_vaddr ph)) (unat (p_memsz ph))) (\<lambda>stop.
             load_phdrs read_ph load_seg pt is (if sz < stop then stop else sz) m f)))"

definition load_stack :: "paddr \<Rightarrow> Ehdr \<Rightarrow> nat \<Rightarrow> kmem \<Rightarrow> (LoadedImage option \<times> kmem) res" where
  "load_stack pt eh sz m =
     bindE (page_round_up sz) (\<lambda>sz.
     case kalloc_zeroed m of
       (None, m) \<Rightarrow> bindE (cleanup_user pt sz m) (\<lambda>m. Ok (None, m))
     | (Some pa, m) \<Rightarrow>
         bindE (mappages pt USER_STACK PGSIZE pa (PTE_U OR PTE_R OR PTE_W) m) (\<lambda>(ok, m).
         if \<not> ok then bindE (kfree pa m) (\<lambda>m. bindE (cleanup_user pt sz m) (\<lambda>m. Ok (None, m)))
         else Ok (Some \<lparr>im_entry = unat (e_entry eh), im_sp = USER_STACK + PGSIZE, im_sz = sz\<rparr>, m)))"

definition load_elf :: "paddr \<Rightarrow> byte list \<Rightarrow> kmem \<Rightarrow> (LoadedImage option \<times> kmem) res" where
  "load_elf pt elf m =
     (if length elf < size_Ehdr then Ok (None, m)
      else
        (let eh = Ehdr_of_bytes (take size_Ehdr elf);
             phoff = (\<lambda>i. unat (e_phoff eh) + i * unat (e_phentsize eh)) in
         if \<not> ehdr_valid eh then Ok (None, m)
         else
           bindE (usize_add (unat (e_phoff eh)) (unat (e_phnum eh) * unat (e_phentsize eh))) (\<lambda>ph_table_end.
           if length elf < ph_table_end then Ok (None, m)
           else
             bindE (load_phdrs (\<lambda>i f. Ok (Some (Phdr_of_bytes (get_slice elf (phoff i) size_Phdr)), f))
               (\<lambda>ph m f. load_segment pt ph elf m) pt [0..<unat (e_phnum eh)] 0 m ()) (\<lambda>(r, m, f).
             case r of None \<Rightarrow> Ok (None, m) | Some sz \<Rightarrow> load_stack pt eh sz m))))"

definition load_elf_from_inode :: "paddr \<Rightarrow> inode_ref \<Rightarrow> kmem \<Rightarrow> 'z fs_scheme \<Rightarrow> (LoadedImage option \<times> kmem \<times> 'z fs_scheme) res" where
  "load_elf_from_inode pt r m s =
     bindE (read_exact_inode r 0 size_Ehdr s) (\<lambda>(buf, s).
     case buf of
       None \<Rightarrow> Ok (None, m, s)
     | Some bs \<Rightarrow>
         (let eh = Ehdr_of_bytes bs;
              phoff = (\<lambda>i. unat (e_phoff eh) + i * unat (e_phentsize eh)) in
          if \<not> ehdr_valid eh then Ok (None, m, s)
          else if 2 ^ 64 \<le> unat (e_phoff eh) + unat (e_phnum eh) * unat (e_phentsize eh) then Ok (None, m, s)
          else
            bindE (load_phdrs
                (\<lambda>i s. bindE (read_exact_inode r (phoff i) size_Phdr s) (\<lambda>(b, s). Ok (map_option Phdr_of_bytes b, s)))
                (\<lambda>ph m s. load_segment_from_inode pt ph r m s) pt [0..<unat (e_phnum eh)] 0 m s) (\<lambda>(z, m, s).
            case z of
              None \<Rightarrow> Ok (None, m, s)
            | Some sz \<Rightarrow> bindE (load_stack pt eh sz m) (\<lambda>(im, m). Ok (im, m, s)))))"

end
