(* ===== verification/Exec.thy ===== *)
theory Exec
  imports Proc Loader
begin

text \<open>
  \<open>exec\<close>: copying the arguments of the old program into the kernel (\<open>copy_argv\<close> of \<open>src/syscall.rs\<close>),
  onto the stack of the new one (\<open>push_argv\<close> of \<open>src/proc.rs\<close>), and replacing the image of the process; and
  the first process, \<open>userinit\<close>.  \<open>KernelArgs\<close> is the list of its arguments, each without the terminating
  NUL; the page that holds it is taken and returned.
\<close>

definition MAXARG :: nat where "MAXARG = 16"
definition MAXARGLEN :: nat where "MAXARGLEN = 128"
definition USIZE_BYTES :: nat where "USIZE_BYTES = 8"

type_synonym KernelArgs = "byte list list"

section \<open>Arguments\<close>

function copy_argv_loop :: "paddr \<Rightarrow> nat \<Rightarrow> KernelArgs \<Rightarrow> kmem \<Rightarrow> KernelArgs option res" where
  "copy_argv_loop pt argv_va kargs m =
     (let ptr_va = argv_va + length kargs * USIZE_BYTES in
      if 2 ^ 64 \<le> ptr_va then Ok None
      else
        bindE (copyin pt USIZE_BYTES ptr_va m) (\<lambda>r.
        case r of
          None \<Rightarrow> Ok None
        | Some ptr_bytes \<Rightarrow>
            let arg_va = unat (word_of_le ptr_bytes :: u64) in
            if arg_va = 0 then Ok (if kargs = [] then None else Some kargs)
            else if MAXARG \<le> length kargs then Ok None
            else
              bindE (copyinstr pt MAXARGLEN arg_va m) (\<lambda>r.
              case r of None \<Rightarrow> Ok None | Some bs \<Rightarrow> copy_argv_loop pt argv_va (kargs @ [bs]) m)))"
  by pat_completeness auto

termination
  by (relation "measure (\<lambda>(pt, va, kargs, m). MAXARG - length kargs)") auto

declare copy_argv_loop.simps [simp del]

definition copy_argv :: "paddr \<Rightarrow> nat \<Rightarrow> kmem \<Rightarrow> KernelArgs option res" where
  "copy_argv pt argv_va m = (if argv_va = 0 then Ok None else copy_argv_loop pt argv_va [] m)"

definition align_down :: "nat \<Rightarrow> nat \<Rightarrow> nat" where
  "align_down x align = unat ((of_nat x :: u64) AND NOT (of_nat (align - 1)))"

text \<open>\<open>for i in (0..argc).rev()\<close>: the strings are pushed from the last to the first; the result is the stack
  pointer and the addresses, first argument first.\<close>

fun push_strings :: "paddr \<Rightarrow> nat \<Rightarrow> KernelArgs \<Rightarrow> nat \<Rightarrow> nat list \<Rightarrow> kmem \<Rightarrow> ((nat \<times> nat list) option \<times> kmem) res" where
  "push_strings pt bottom [] sp ptrs m = Ok (Some (sp, ptrs), m)"
| "push_strings pt bottom (arg # args) sp ptrs m =
     (let len = length arg + 1 in
      if sp < len then Ok (None, m)
      else if sp - len < bottom then Ok (None, m)
      else
        bindE (copyout pt (sp - len) (arg @ [0]) m) (\<lambda>(ok, m).
        if \<not> ok then Ok (None, m)
        else push_strings pt bottom args (sp - len) ((sp - len) # ptrs) m))"

fun push_pointers :: "paddr \<Rightarrow> nat \<Rightarrow> nat list \<Rightarrow> kmem \<Rightarrow> (bool \<times> kmem) res" where
  "push_pointers pt va [] m = Ok (True, m)"
| "push_pointers pt va (p # ps) m =
     bindE (copyout pt va (le_of_word (of_nat p :: u64)) m) (\<lambda>(ok, m).
     if \<not> ok then Ok (False, m) else push_pointers pt (va + USIZE_BYTES) ps m)"

definition push_argv :: "paddr \<Rightarrow> nat \<Rightarrow> KernelArgs \<Rightarrow> kmem \<Rightarrow> ((nat \<times> nat) option \<times> kmem) res" where
  "push_argv pt stack_top kargs m =
     bindE (usize_sub stack_top PGSIZE) (\<lambda>stack_bottom.
     bindE (push_strings pt stack_bottom (rev kargs) stack_top [] m) (\<lambda>(r, m).
     case r of
       None \<Rightarrow> Ok (None, m)
     | Some (sp, arg_ptrs) \<Rightarrow>
         let argv_bytes = (length kargs + 1) * USIZE_BYTES in
         if sp < argv_bytes then Ok (None, m)
         else
           let sp = align_down (sp - argv_bytes) 16 in
           if sp < stack_bottom then Ok (None, m)
           else
             bindE (push_pointers pt sp (arg_ptrs @ [0]) m) (\<lambda>(ok, m).
             Ok (if ok then Some (sp, sp) else None, m))))"

section \<open>Replacing the image of a process\<close>

definition exec_from_inode :: "inode_ref \<Rightarrow> KernelArgs \<Rightarrow> kernel \<Rightarrow> (bool \<times> kernel) res" where
  "exec_from_inode r kargs s =
     bindE (myproc ''null pointer'' s) (\<lambda>i.
     let p = procs s ! i in
     bindE (proc_pagetable (trapframe p) (km s)) (\<lambda>(n, m).
     case n of
       None \<Rightarrow> Ok (False, s\<lparr>km := m\<rparr>)
     | Some new_pt \<Rightarrow>
         bindE (load_elf_from_inode new_pt r m s) (\<lambda>(im, m, s).
         case im of
           None \<Rightarrow> bindE (with_km (proc_freepagetable new_pt 0 m) s) (\<lambda>s. Ok (False, s))
         | Some img \<Rightarrow>
             bindE (push_argv new_pt (im_sp img) kargs m) (\<lambda>(v, m).
             case v of
               None \<Rightarrow> bindE (with_km (proc_freepagetable new_pt (im_sz img) m) s) (\<lambda>s. Ok (False, s))
             | Some (sp, argv_va) \<Rightarrow>
                 let s = upd_proc i (\<lambda>p. p\<lparr>pagetable := new_pt, sz := im_sz img\<rparr>) s;
                     tf = trapframe p;
                     m = tf_set tf tf_a0 (of_nat (length kargs)) m;
                     m = tf_set tf tf_a1 (of_nat argv_va) m;
                     m = tf_set tf tf_epc (of_nat (im_entry img)) m;
                     m = tf_set tf tf_sp (of_nat sp) m
                 in bindE (with_km (proc_freepagetable (pagetable p) (sz p) m) s) (\<lambda>s. Ok (True, s))))))"

section \<open>The first process\<close>

definition open_console :: "bool \<Rightarrow> bool \<Rightarrow> kernel \<Rightarrow> file_ref option \<times> kernel" where
  "open_console rd wr s =
     (case file_alloc s of
        (None, s) \<Rightarrow> (None, s)
      | (Some f, s) \<Rightarrow>
          (Some f, set_file f ((ftable s ! f)\<lparr>readable := rd, writable := wr, kind := KDevice CONSOLE_MAJOR\<rparr>) s))"

definition userinit :: "byte list \<Rightarrow> kernel \<Rightarrow> (nat \<times> kernel) res" where
  "userinit init_elf s =
     bindE (allocproc s) (\<lambda>r.
     bindE (expect ''userinit: allocproc'' r) (\<lambda>(i, s).
     let s = (if initproc s = None then s\<lparr>initproc := Some i\<rparr> else s) in
     bindE (load_elf (pagetable (procs s ! i)) init_elf (km s)) (\<lambda>r.
     bindE (expect ''exec init'' r) (\<lambda>(img, m).
     let tf = trapframe (procs s ! i);
         m = tf_set tf tf_epc (of_nat (im_entry img)) m;
         m = tf_set tf tf_sp (of_nat (im_sp img)) m;
         s = upd_proc i (\<lambda>p. p\<lparr>sz := im_sz img,
           pcontext := (pcontext p)\<lparr>c_ra := Code_forkret, c_sp := kstack p + of_nat PGSIZE\<rparr>, pstate := Runnable\<rparr>) (s\<lparr>km := m\<rparr>) in
     bindE (expect ''userinit: stdin'' (open_console True False s)) (\<lambda>(f0, s).
     let s = upd_proc i (set_ofile 0 (Some f0)) s in
     bindE (expect ''userinit: stdout'' (open_console False True s)) (\<lambda>(f1, s).
     let s = upd_proc i (set_ofile 1 (Some f1)) s in
     bindE (expect ''userinit: stderr'' (open_console False True s)) (\<lambda>(f2, s).
     let s = upd_proc i (set_ofile 2 (Some f2)) s in
     bindE (plock_release i s) (\<lambda>s. Ok (i, s)))))))))"

end
