(* ===== verification/Proc_Inv.thy ===== *)
theory Proc_Inv
  imports Proc
begin

text \<open>
  The process table: the locks of the processes and \<open>WAIT_LOCK\<close> between and during the operations of
  \<open>src/proc.rs\<close>, and what each operation does to the states, parents, channels and identifiers of the
  processes.
\<close>

section \<open>The locks\<close>

text \<open>\<open>H\<close> are the processes whose lock is held, \<open>w\<close> whether \<open>WAIT_LOCK\<close> is; \<open>b\<close> is the interrupt state outside
  of critical sections.\<close>

definition held :: "bool \<Rightarrow> nat set \<Rightarrow> bool \<Rightarrow> kernel \<Rightarrow> bool" where
  "held b H w s \<longleftrightarrow> length (procs s) = NPROC \<and> H \<subseteq> {..<NPROC} \<and>
     (\<forall>i < NPROC. plock (procs s ! i) = (if i \<in> H then taken else RawSpinlock_new)) \<and>
     wait_lock s = (if w then taken else RawSpinlock_new) \<and> cpu_ok b (card H + (if w then 1 else 0)) (hart s)"

lemma heldD:
  assumes "held b H w s"
  shows "length (procs s) = NPROC" "finite H" "card H \<le> NPROC" "i < NPROC \<Longrightarrow> plock (procs s ! i) = (if i \<in> H then taken else RawSpinlock_new)"
    "i \<in> H \<Longrightarrow> i < NPROC"
proof -
  have H: "H \<subseteq> {..<NPROC}" using assms by (simp add: held_def)
  then show "finite H" "card H \<le> NPROC" using finite_subset [OF H] card_mono [OF _ H] by auto
  show "i < NPROC" if "i \<in> H" using H that by blast
qed (use assms in \<open>simp_all add: held_def\<close>)

section \<open>What the operations change\<close>

text \<open>\<open>R\<close> relates every process before and after; \<open>cur\<close>, \<open>INITPROC\<close> and \<open>NEXT_PID\<close> are the same.\<close>

definition table :: "(nat \<Rightarrow> Process \<Rightarrow> Process \<Rightarrow> bool) \<Rightarrow> kernel \<Rightarrow> kernel \<Rightarrow> bool" where
  "table R s s' \<longleftrightarrow> length (procs s') = length (procs s) \<and> (\<forall>i < length (procs s). R i (procs s ! i) (procs s' ! i)) \<and>
     cur s' = cur s \<and> initproc s' = initproc s"

definition same_info :: "Process \<Rightarrow> Process \<Rightarrow> bool" where
  "same_info p q \<longleftrightarrow> pstate q = pstate p \<and> parent q = parent p \<and> chan q = chan p \<and> pid q = pid p"

abbreviation frame :: "kernel \<Rightarrow> kernel \<Rightarrow> bool" where
  "frame s s' \<equiv> table (\<lambda>_. same_info) s s' \<and> next_pid s' = next_pid s"

lemma same_info_refl [simp]: "same_info p p"
  by (simp add: same_info_def)

lemma table_trans:
  assumes "table R s s1" and "table Q s1 s2" and "\<And>i p q r. R i p q \<Longrightarrow> Q i q r \<Longrightarrow> S i p r"
  shows "table S s s2"
  using assms by (fastforce simp: table_def)

lemma table_trans_same:
  assumes "\<And>p q r. R p q \<Longrightarrow> R q r \<Longrightarrow> R p r" and "table (\<lambda>_. R) s s1" and "table (\<lambda>_. R) s1 s2"
  shows "table (\<lambda>_. R) s s2"
  using assms(2,3) by (rule table_trans) (rule assms(1))

lemma table_mono: "table R s s' \<Longrightarrow> (\<And>i p q. R i p q \<Longrightarrow> S i p q) \<Longrightarrow> table S s s'"
  by (auto simp: table_def)

lemma same_info_trans: "same_info p q \<Longrightarrow> same_info q r \<Longrightarrow> same_info p r"
  by (simp add: same_info_def)

lemma frame_refl: "frame s s"
  by (simp add: table_def)

lemma frame_trans:
  assumes "frame s s1" and "frame s1 s2"
  shows "frame s s2"
  using assms by (auto intro: table_trans_same [OF same_info_trans])

lemma frame_then:
  assumes "frame s s1" and "table R s1 s2" and "\<And>i p q r. same_info p q \<Longrightarrow> R i q r \<Longrightarrow> R i p r"
  shows "table R s s2"
  by (rule table_trans [of "\<lambda>_. same_info" s s1 R s2]) (use assms in blast)+

lemma upd_proc_fields [simp]:
  "length (procs (upd_proc i f s)) = length (procs s)" "cur (upd_proc i f s) = cur s" "hart (upd_proc i f s) = hart s"
  "wait_lock (upd_proc i f s) = wait_lock s" "initproc (upd_proc i f s) = initproc s" "next_pid (upd_proc i f s) = next_pid s"
  "km (upd_proc i f s) = km s"
  by (simp_all add: upd_proc_def set_proc_def)

lemma nth_upd_proc: "i < length (procs s) \<Longrightarrow> procs (upd_proc i f s) ! j = (if j = i then f (procs s ! i) else procs s ! j)"
  by (simp add: upd_proc_def set_proc_def nth_list_update)

lemma lock_acquire_free:
  assumes "cpu_ok b n c" and "n + 1 < 2 ^ 64"
  shows "\<exists>c'. lock_acquire RawSpinlock_new c = Ok (taken, c') \<and> cpu_ok b (Suc n) c'"
  using acquire_ok [OF assms, of RawSpinlock_new] by (auto simp: lock_acquire_def)

lemma lock_acquire_taken:
  assumes "cpu_ok b n c" and "n + 1 < 2 ^ 64"
  shows "lock_acquire taken c = panic ''RawSpinlock::acquire: already holding''"
  using acquire_held [OF assms, of taken] by (simp add: lock_acquire_def)

lemma plock_acquire_ok:
  assumes h: "held b H w s" and i: "i < NPROC" "i \<notin> H"
  shows "\<exists>s'. plock_acquire i s = Ok s' \<and> held b (insert i H) w s' \<and> frame s s'"
proof -
  note d = heldD [OF h]
  let ?n = "card H + (if w then 1 else 0)"
  have n: "cpu_ok b ?n (hart s)" "?n + 1 < 2 ^ 64" using h d(3) by (simp_all add: held_def NPROC_def)
  obtain c where c: "lock_acquire RawSpinlock_new (hart s) = Ok (taken, c)" "cpu_ok b (Suc ?n) c"
    using lock_acquire_free [OF n] by blast
  have l: "plock (procs s ! i) = RawSpinlock_new" using d(4) i by simp
  let ?s = "upd_proc i (\<lambda>p. p\<lparr>plock := taken\<rparr>) (s\<lparr>hart := c\<rparr>)"
  have "plock_acquire i s = Ok ?s" unfolding plock_acquire_def l c(1) by simp
  moreover have "held b (insert i H) w ?s"
    using h i c(2) d(1,2) by (auto simp: held_def nth_upd_proc)
  moreover have "frame s ?s" using i d(1) by (auto simp: table_def nth_upd_proc same_info_def)
  ultimately show ?thesis by blast
qed

lemma plock_acquire_held:
  assumes h: "held b H w s" and i: "i \<in> H"
  shows "plock_acquire i s = panic ''RawSpinlock::acquire: already holding''"
proof -
  note d = heldD [OF h]
  let ?n = "card H + (if w then 1 else 0)"
  have n: "cpu_ok b ?n (hart s)" "?n + 1 < 2 ^ 64" using h d(3) by (simp_all add: held_def NPROC_def)
  have "plock (procs s ! i) = taken" using d(4,5) i by simp
  then show ?thesis using lock_acquire_taken [OF n] by (simp add: plock_acquire_def)
qed

lemma plock_release_ok:
  assumes h: "held b H w s" and i: "i \<in> H"
  shows "\<exists>s'. plock_release i s = Ok s' \<and> held b (H - {i}) w s' \<and> frame s s'"
proof -
  note d = heldD [OF h]
  let ?n = "card (H - {i}) + (if w then 1 else 0)"
  have n: "cpu_ok b (Suc ?n) (hart s)" using h d(2) i card_Suc_Diff1 [of H i] by (simp add: held_def)
  have l: "plock (procs s ! i) = taken" using d(4,5) i by simp
  obtain c where c: "release taken (hart s) = Ok (RawSpinlock_new, c)" "cpu_ok b ?n c"
    using release_ok [OF n, of taken] by auto
  let ?s = "upd_proc i (\<lambda>p. p\<lparr>plock := RawSpinlock_new\<rparr>) (s\<lparr>hart := c\<rparr>)"
  have "plock_release i s = Ok ?s" unfolding plock_release_def l c(1) by simp
  moreover have "held b (H - {i}) w ?s" using h i c(2) d(1,2,5) by (auto simp: held_def nth_upd_proc)
  moreover have "frame s ?s" using i d(1,5) by (auto simp: table_def nth_upd_proc same_info_def)
  ultimately show ?thesis by blast
qed

lemma wait_acquire_ok:
  assumes h: "held b H False s"
  shows "\<exists>s'. wait_acquire s = Ok s' \<and> held b H True s' \<and> frame s s'"
proof -
  have n: "cpu_ok b (card H) (hart s)" "card H + 1 < 2 ^ 64" and w: "wait_lock s = RawSpinlock_new"
    using h heldD(3) [OF h] by (simp_all add: held_def NPROC_def)
  from lock_acquire_free [OF n] w h show ?thesis by (auto simp: wait_acquire_def held_def table_def)
qed

lemma wait_release_ok:
  assumes h: "held b H True s"
  shows "\<exists>s'. wait_release s = Ok s' \<and> held b H False s' \<and> frame s s'"
proof -
  have n: "cpu_ok b (Suc (card H)) (hart s)" and w: "wait_lock s = taken" using h by (simp_all add: held_def)
  from release_ok [OF n, of taken] w h show ?thesis by (auto simp: wait_release_def held_def table_def)
qed

section \<open>Wake-ups\<close>

definition woken :: "chan option \<Rightarrow> Process \<Rightarrow> Process \<Rightarrow> bool" where
  "woken c p q \<longleftrightarrow> parent q = parent p \<and> chan q = chan p \<and> pid q = pid p \<and>
     pstate q = (if pstate p = Sleeping \<and> chan p = c then Runnable else pstate p)"

lemma wakeup_one_ok:
  assumes h: "held b H w s" and i: "i < NPROC" "i \<notin> H"
  shows "\<exists>s'. wakeup_one c i s = Ok s' \<and> held b H w s' \<and> next_pid s' = next_pid s \<and>
    table (\<lambda>j p q. if j = i then woken c p q else same_info p q) s s'"
proof -
  obtain s1 where 1: "plock_acquire i s = Ok s1" "held b (insert i H) w s1" "frame s s1"
    using plock_acquire_ok [OF h i] by blast
  let ?p = "procs s1 ! i"
  let ?s2 = "if pstate ?p = Sleeping \<and> chan ?p = c then set_proc i (?p\<lparr>pstate := Runnable\<rparr>) s1 else s1"
  note d = heldD [OF 1(2)]
  have s2: "?s2 = upd_proc i (\<lambda>p. if pstate p = Sleeping \<and> chan p = c then p\<lparr>pstate := Runnable\<rparr> else p) s1"
    using i(1) d(1) by (simp add: upd_proc_def set_proc_def)
  have h2: "held b (insert i H) w ?s2"
    unfolding s2 using 1(2) i(1) by (auto simp: held_def nth_upd_proc)
  have t2: "table (\<lambda>j p q. if j = i then woken c p q else same_info p q) s1 ?s2" "next_pid ?s2 = next_pid s1"
    unfolding s2 using i(1) d(1) by (auto simp: table_def nth_upd_proc woken_def)
  obtain s3 where 3: "plock_release i ?s2 = Ok s3" "held b (insert i H - {i}) w s3" "frame ?s2 s3"
    using plock_release_ok [OF h2, of i] by blast
  have "table (\<lambda>j p q. if j = i then woken c p q else same_info p q) s ?s2"
    by (rule frame_then [OF 1(3) t2(1)]) (auto simp: woken_def same_info_def split: if_splits)
  then have "table (\<lambda>j p q. if j = i then woken c p q else same_info p q) s s3"
    by (rule table_trans [OF _ conjunct1 [OF 3(3)]]) (auto simp: woken_def same_info_def split: if_splits)
  moreover have "wakeup_one c i s = Ok s3" unfolding wakeup_one_def 1(1) Let_def using 3(1) by simp
  moreover have "insert i H - {i} = H" using i(2) by blast
  ultimately show ?thesis using 3(2,3) 1(3) t2(2) by auto
qed

lemma wakeup_fold:
  assumes "held b {} w s" and "distinct xs" and "set xs \<subseteq> {..<NPROC}"
  shows "\<exists>s'. foldE (wakeup_one c) xs s = Ok s' \<and> held b {} w s' \<and> next_pid s' = next_pid s \<and>
    table (\<lambda>j p q. if j \<in> set xs then woken c p q else same_info p q) s s'"
  using assms
proof (induction xs arbitrary: s)
  case Nil
  then show ?case by (simp add: table_def)
next
  case (Cons i xs)
  obtain s1 where 1: "wakeup_one c i s = Ok s1" "held b {} w s1" "next_pid s1 = next_pid s"
      "table (\<lambda>j p q. if j = i then woken c p q else same_info p q) s s1"
    using wakeup_one_ok [OF Cons.prems(1), of i c] Cons.prems(3) by auto
  obtain s2 where 2: "foldE (wakeup_one c) xs s1 = Ok s2" "held b {} w s2" "next_pid s2 = next_pid s1"
      "table (\<lambda>j p q. if j \<in> set xs then woken c p q else same_info p q) s1 s2"
    using Cons.IH [OF 1(2)] Cons.prems(2,3) by auto
  have "table (\<lambda>j p q. if j \<in> set (i # xs) then woken c p q else same_info p q) s s2"
    using Cons.prems(2) by (intro table_trans [OF 1(4) 2(4)]) (auto simp: woken_def same_info_def split: if_splits)
  with 1 2 show ?case by auto
qed

lemma wakeup_ok:
  assumes "held b {} w s"
  shows "\<exists>s'. wakeup c s = Ok s' \<and> held b {} w s' \<and> next_pid s' = next_pid s \<and> table (\<lambda>_. woken c) s s'"
proof -
  have "table (\<lambda>j p q. if j \<in> set [0..<NPROC] then woken c p q else same_info p q) s s' \<longleftrightarrow> table (\<lambda>_. woken c) s s'" for s'
    using heldD(1) [OF assms] by (auto simp: table_def)
  moreover have "set [0..<NPROC] \<subseteq> {..<NPROC}" by auto
  from wakeup_fold [OF assms distinct_upt this, of c] obtain s' where
    "foldE (wakeup_one c) [0..<NPROC] s = Ok s'" "held b {} w s'" "next_pid s' = next_pid s"
    "table (\<lambda>j p q. if j \<in> set [0..<NPROC] then woken c p q else same_info p q) s s'" by blast
  ultimately show ?thesis by (auto simp: wakeup_def)
qed

text \<open>A wake-up while the lock of a process is held runs into that lock.\<close>

lemma wakeup_stuck:
  assumes "held b H w s" and "H \<noteq> {}"
  shows "wakeup c s \<noteq> Ok s'"
proof -
  have f: "foldE (wakeup_one c) xs s \<noteq> Ok s'" if "held b H w s" "set xs \<subseteq> {..<NPROC}" "i \<in> H" "i \<in> set xs" for xs s i
    using that
  proof (induction xs arbitrary: s)
    case (Cons x xs)
    show ?case
    proof (cases "x \<in> H")
      case True
      then show ?thesis using plock_acquire_held [OF Cons.prems(1)] by (simp add: wakeup_one_def)
    next
      case False
      obtain s1 where "wakeup_one c x s = Ok s1" "held b H w s1"
        using wakeup_one_ok [OF Cons.prems(1) _ False] Cons.prems(2) by auto
      then show ?thesis using Cons.IH [of s1] Cons.prems False by auto
    qed
  qed simp
  obtain i where i: "i \<in> H" using assms(2) by blast
  then have "i \<in> set [0..<NPROC]" using heldD(5) [OF assms(1)] by simp
  moreover have "set [0..<NPROC] \<subseteq> {..<NPROC}" by auto
  ultimately show ?thesis unfolding wakeup_def using f [OF assms(1) _ i] by blast
qed

section \<open>Closing files\<close>

text \<open>The operations on files and inodes leave the rest of the kernel's state alone.\<close>

lemma kst_more:
  fixes s s' :: kernel
  assumes "kst.more s' = kst.more s"
  shows "procs s' = procs s" "hart s' = hart s" "wait_lock s' = wait_lock s" "cur s' = cur s" "initproc s' = initproc s"
    "next_pid s' = next_pid s" "km s' = km s"
  using assms by (cases s; cases s'; simp)+

lemma kst_more_frame: "kst.more s' = kst.more s \<Longrightarrow> frame s s'"
  using kst_more [of s' s] by (simp add: table_def)

lemma kst_more_held: "kst.more s' = kst.more s \<Longrightarrow> held b H w s' = held b H w s"
  using kst_more [of s' s] by (simp add: held_def)

definition io_chan :: "chan \<Rightarrow> bool" where
  "io_chan c \<longleftrightarrow> (\<forall>i. c \<noteq> ProcChan i)"

lemma iput_more: "iput r s = Ok s' \<Longrightarrow> fs.more s' = fs.more s"
  by (auto simp: iput_def set_inode_def Let_def split: if_splits)

lemma idup_more: "idup r s = Ok (r', s') \<Longrightarrow> fs.more s' = fs.more s"
  by (auto simp: idup_def set_inode_def Let_def split: if_splits)

lemma root_more: "root s = Ok (r, s') \<Longrightarrow> fs.more s' = fs.more s"
  by (auto simp: root_def iget_def expect_def split: prod.splits option.splits)

lemma fs_more_kst: "fs.more s' = fs.more s \<Longrightarrow> kst.more s' = kst.more (s :: 'z kst_scheme)"
  by (cases s; cases s') simp

lemma file_dup_more: "file_dup f s = Ok s' \<Longrightarrow> kst.more s' = kst.more s"
  by (auto simp: file_dup_def set_file_def Let_def bindE_Ok_iff split: if_splits)

lemma file_close_more:
  assumes "file_close f s = Ok (ws, s')"
  shows "kst.more s' = kst.more s" "\<forall>c \<in> set ws. io_chan c"
proof -
  have k: "kst.more s2 = kst.more s1 \<and> (\<forall>c \<in> set ws. io_chan c)" if "close_kind k wr s1 = Ok (ws, s2)" for k wr s1 s2 ws
    using that fs_more_kst [OF iput_more]
    by (auto simp: close_kind_def bindE_Ok_iff pipe_close_def Let_def io_chan_def split: FileKind.splits if_splits prod.splits)
  show "kst.more s' = kst.more s" "\<forall>c \<in> set ws. io_chan c"
    using assms by (auto simp: file_close_def set_file_def Let_def dest!: k split: if_splits)
qed

text \<open>Nothing but wake-ups of sleepers that do not wait for a child.\<close>

definition io_woken :: "Process \<Rightarrow> Process \<Rightarrow> bool" where
  "io_woken p q \<longleftrightarrow> parent q = parent p \<and> chan q = chan p \<and> pid q = pid p \<and>
     (pstate q = pstate p \<or> pstate p = Sleeping \<and> pstate q = Runnable \<and> (\<exists>c. chan p = Some c \<and> io_chan c))"

abbreviation quiet :: "kernel \<Rightarrow> kernel \<Rightarrow> bool" where
  "quiet s s' \<equiv> table (\<lambda>_. io_woken) s s' \<and> next_pid s' = next_pid s"

lemma frame_quiet: "frame s s' \<Longrightarrow> quiet s s'"
  by (auto elim!: table_mono simp: same_info_def io_woken_def)

lemma io_woken_trans: "io_woken p q \<Longrightarrow> io_woken q r \<Longrightarrow> io_woken p r"
  by (auto simp: io_woken_def)

lemma quiet_trans:
  assumes "quiet s s1" and "quiet s1 s2"
  shows "quiet s s2"
  using assms by (auto intro: table_trans_same [OF io_woken_trans])

lemma wakeup_all_ok:
  assumes "held b {} w s" and "\<forall>c \<in> set ws. io_chan c"
  shows "\<exists>s'. wakeup_all ws s = Ok s' \<and> held b {} w s' \<and> quiet s s'"
  using assms
proof (induction ws arbitrary: s)
  case Nil
  have "table (\<lambda>_. io_woken) s s" by (simp add: table_def io_woken_def)
  with Nil show ?case by (simp add: wakeup_all_def)
next
  case (Cons c ws)
  obtain s1 where 1: "wakeup (Some c) s = Ok s1" "held b {} w s1" "next_pid s1 = next_pid s" "table (\<lambda>_. woken (Some c)) s s1"
    using wakeup_ok [OF Cons.prems(1)] by blast
  have "table (\<lambda>_. io_woken) s s1"
    using Cons.prems(2) by (intro table_mono [OF 1(4)]) (auto simp: woken_def io_woken_def)
  with 1(3) have q: "quiet s s1" by simp
  obtain s2 where "wakeup_all ws s1 = Ok s2" "held b {} w s2" "quiet s1 s2"
    using Cons.IH [OF 1(2)] Cons.prems(2) by auto
  with 1(1) quiet_trans [OF q] show ?case by (auto simp: wakeup_all_def)
qed

lemma kclose_ok:
  assumes "held b {} w s" and "kclose f s = Ok s'"
  shows "held b {} w s'" "quiet s s'"
proof -
  from assms(2) obtain ws s1 where 1: "file_close f s = Ok (ws, s1)" "wakeup_all ws s1 = Ok s'"
    by (auto simp: kclose_def bindE_Ok_iff)
  note m = file_close_more [OF 1(1)]
  have "held b {} w s1" using assms(1) kst_more_held [OF m(1)] by blast
  from wakeup_all_ok [OF this m(2)] 1(2) have "held b {} w s' \<and> quiet s1 s'" by auto
  with quiet_trans [OF frame_quiet [OF kst_more_frame [OF m(1)]]] show "held b {} w s'" "quiet s s'" by auto
qed

lemma kclose_locked:
  assumes "held b H w s" and "H \<noteq> {}" and "kclose f s = Ok s'"
  shows "held b H w s'" "frame s s'"
proof -
  from assms(3) obtain ws s1 where 1: "file_close f s = Ok (ws, s1)" "wakeup_all ws s1 = Ok s'"
    by (auto simp: kclose_def bindE_Ok_iff)
  note m = file_close_more [OF 1(1)]
  have h: "held b H w s1" using assms(1) kst_more_held [OF m(1)] by blast
  have "ws = []"
  proof (cases ws)
    case (Cons c cs)
    then show ?thesis using 1(2) wakeup_stuck [OF h assms(2)] by (auto simp: wakeup_all_def bindE_Ok_iff)
  qed
  then have "s' = s1" using 1(2) by (simp add: wakeup_all_def)
  then show "held b H w s'" "frame s s'" using h kst_more_frame [OF m(1)] by simp_all
qed

lemma foldE_invariant:
  assumes step: "\<And>x s s'. P s \<Longrightarrow> f x s = Ok s' \<Longrightarrow> P s' \<and> Q s s'"
    and refl: "\<And>s. Q s s" and trans: "\<And>s s1 s2. Q s s1 \<Longrightarrow> Q s1 s2 \<Longrightarrow> Q s s2"
  shows "P s \<Longrightarrow> foldE f xs s = Ok s' \<Longrightarrow> P s' \<and> Q s s'"
proof (induction xs arbitrary: s)
  case (Cons x xs)
  from Cons.prems(2) obtain s1 where 1: "f x s = Ok s1" "foldE f xs s1 = Ok s'" by (auto simp: bindE_Ok_iff)
  from step [OF Cons.prems(1) 1(1)] Cons.IH [OF _ 1(2)] show ?case using trans by blast
qed (simp add: refl)

lemma foldE_frame:
  assumes "\<And>x s s'. held b H w s \<Longrightarrow> f x s = Ok s' \<Longrightarrow> held b H w s' \<and> frame s s'" and "held b H w s" and "foldE f xs s = Ok s'"
  shows "held b H w s' \<and> frame s s'"
  by (rule foldE_invariant [of "held b H w" f frame, OF assms(1) frame_refl _ assms(2,3)]) (assumption | rule frame_trans)+

lemma foldE_quiet:
  assumes "\<And>x s s'. held b H w s \<Longrightarrow> f x s = Ok s' \<Longrightarrow> held b H w s' \<and> quiet s s'" and "held b H w s" and "foldE f xs s = Ok s'"
  shows "held b H w s' \<and> quiet s s'"
  by (rule foldE_invariant [of "held b H w" f quiet, OF assms(1) frame_quiet [OF frame_refl] _ assms(2,3)])
    (assumption | rule quiet_trans)+

lemma upd_held:
  assumes "held b H w s" and "i < NPROC" and "plock (f (procs s ! i)) = plock (procs s ! i)"
  shows "held b H w (upd_proc i f s)"
  using assms by (auto simp: held_def nth_upd_proc)

lemma upd_table:
  assumes "i < length (procs s)" and "R i (procs s ! i) (f (procs s ! i))" and "\<And>j p. j \<noteq> i \<Longrightarrow> R j p p"
  shows "table R s (upd_proc i f s)"
  using assms by (auto simp: table_def nth_upd_proc)

lemma held_km [simp]: "held b H w (s\<lparr>km := m\<rparr>) = held b H w s"
  by (simp add: held_def)

lemma table_km [simp]: "table R s (s'\<lparr>km := m\<rparr>) = table R s s'"
  by (simp add: table_def)

lemma with_km_ok: "with_km r s = Ok s' \<Longrightarrow> held b H w s \<Longrightarrow> held b H w s' \<and> frame s s' \<and> kst.truncate s' = kst.truncate s \<and> procs s' = procs s"
  by (auto simp: with_km_def bindE_Ok_iff table_def kst.defs)

text \<open>The slot of a process that has been freed.\<close>

definition freed_slot :: "Process \<Rightarrow> bool" where
  "freed_slot q \<longleftrightarrow> pstate q = Unused \<and> parent q = None \<and> chan q = None"

lemma freeproc_fd_ok:
  assumes h: "held b H w s" and i: "i \<in> H" and r: "freeproc_fd i fd s = Ok s'"
  shows "held b H w s' \<and> frame s s'"
proof (cases "ofile (procs s ! i) ! fd")
  case None
  then show ?thesis using h r frame_refl by (simp add: freeproc_fd_def)
next
  case (Some f)
  with r obtain s1 where 1: "kclose f s = Ok s1" "s' = upd_proc i (set_ofile fd None) s1"
    by (auto simp: freeproc_fd_def bindE_Ok_iff)
  have H: "H \<noteq> {}" using i by blast
  note c = kclose_locked [OF h H 1(1)]
  have l: "i < NPROC" "length (procs s1) = NPROC" using heldD [OF c(1)] i by auto
  have "held b H w s'" unfolding 1(2) using c(1) l by (intro upd_held) (simp_all add: set_ofile_def)
  moreover have "frame s1 s'" unfolding 1(2) using l by (auto intro!: upd_table simp: set_ofile_def same_info_def)
  ultimately show ?thesis using frame_trans [OF c(2)] by blast
qed

lemma freeproc_ok:
  assumes h: "held b H w s" and i: "i \<in> H" and r: "freeproc i s = Ok s'"
  shows "held b H w s'" "next_pid s' = next_pid s" "table (\<lambda>j p q. if j = i then freed_slot q else same_info p q) s s'"
proof -
  let ?p = "procs s ! i"
  have hd: "holding (plock ?p)" using heldD(4,5) [OF h] i by simp
  obtain s1 s2 s3 s4 s5 where
    1: "(if trapframe ?p \<noteq> 0 then with_km (kfree (trapframe ?p) (km s)) s else Ok s) = Ok s1" and
    2: "(if pagetable ?p \<noteq> 0 then with_km (proc_freepagetable (pagetable ?p) (sz ?p) (km s1)) s1 else Ok s1) = Ok s2" and
    3: "(if kstack ?p \<noteq> 0 then with_km (kfree (kstack ?p) (km s2)) s2 else Ok s2) = Ok s3" and
    4: "foldE (freeproc_fd i) [0..<NOFILE] s3 = Ok s4" and 5: "iput (cwd ?p) s4 = Ok s5" and
    6: "s' = upd_proc i (\<lambda>p. p\<lparr>cwd := root_placeholder, trapframe := 0, pagetable := 0, sz := 0, kstack := 0, pid := 0,
          pcontext := Context_zero, pstate := Unused, parent := None, xstate := 0, chan := None\<rparr>) s5"
    using r hd by (simp only: freeproc_def Let_def not_True_eq_False if_False bindE_Ok_iff sum.inject) blast
  have h1: "held b H w s1 \<and> frame s s1" using 1 h with_km_ok frame_refl by (auto split: if_splits)
  have h2: "held b H w s2 \<and> frame s1 s2" using 2 h1 with_km_ok frame_refl by (auto split: if_splits)
  have h3: "held b H w s3 \<and> frame s2 s3" using 3 h2 with_km_ok frame_refl by (auto split: if_splits)
  have h4: "held b H w s4 \<and> frame s3 s4"
    by (rule foldE_frame [OF freeproc_fd_ok [OF _ i] conjunct1 [OF h3] 4])
  have m: "kst.more s5 = kst.more s4" using 5 by (intro fs_more_kst iput_more)
  have h5: "held b H w s5" "frame s4 s5" using h4 kst_more_held [OF m] kst_more_frame [OF m] by blast+
  have fr: "frame s s5" using frame_trans h1 h2 h3 h4 h5(2) by metis
  have l: "i < NPROC" "length (procs s5) = NPROC" using heldD [OF h5(1)] i by auto
  show "held b H w s'" unfolding 6 using h5(1) l by (intro upd_held) simp_all
  have "table (\<lambda>j p q. if j = i then freed_slot q else same_info p q) s5 s'"
    unfolding 6 using l by (intro upd_table) (simp_all add: freed_slot_def)
  then show "table (\<lambda>j p q. if j = i then freed_slot q else same_info p q) s s'"
    by (rule frame_then [OF fr]) (auto simp: same_info_def split: if_splits)
  show "next_pid s' = next_pid s" unfolding 6 using fr by simp
qed

section \<open>Allocating a process\<close>

abbreviation idle :: "kernel \<Rightarrow> kernel \<Rightarrow> bool" where
  "idle s s' \<equiv> table (\<lambda>_ p q. same_info p q \<or> pstate p = Unused \<and> freed_slot q) s s' \<and> (next_pid s' = next_pid s \<or> next_pid s' = (next_pid s + 1) mod 2 ^ 64)"

abbreviation fresh :: "nat \<Rightarrow> ProcessState \<Rightarrow> nat option \<Rightarrow> kernel \<Rightarrow> kernel \<Rightarrow> bool" where
  "fresh c st par s s' \<equiv> table (\<lambda>j p q. if j = c then pstate p = Unused \<and> pstate q = st \<and> parent q = par \<and> chan q = None \<and> pid q = next_pid s
      else same_info p q) s s' \<and> next_pid s' = (next_pid s + 1) mod 2 ^ 64"

lemma fresh_upd:
  assumes "fresh c st par s s1" and "c < length (procs s1)" and "pid (f (procs s1 ! c)) = pid (procs s1 ! c)"
    "chan (f (procs s1 ! c)) = chan (procs s1 ! c)"
    "pstate (f (procs s1 ! c)) = st'" "parent (f (procs s1 ! c)) = par'"
  shows "fresh c st' par' s (upd_proc c f s1)"
  using assms by (auto simp: table_def nth_upd_proc)

lemma fresh_frame:
  assumes "fresh c st par s s1" and "frame s1 s2"
  shows "fresh c st par s s2"
  using assms by (fastforce simp: table_def same_info_def)

lemma fresh_freed:
  assumes "fresh c st par s s1" and "table (\<lambda>j p q. if j = c then freed_slot q else same_info p q) s1 s2" "next_pid s2 = next_pid s1"
  shows "idle s s2"
proof -
  have "table (\<lambda>_ p q. same_info p q \<or> pstate p = Unused \<and> freed_slot q) s s2"
    by (rule table_trans [OF conjunct1 [OF assms(1)] assms(2)]) (auto simp: same_info_def split: if_splits)
  with assms(1,3) show ?thesis by simp
qed

lemma idle_frame:
  assumes "idle s s1" and "frame s1 s2"
  shows "idle s s2"
proof -
  have "table (\<lambda>_ p q. same_info p q \<or> pstate p = Unused \<and> freed_slot q) s s2"
    by (rule table_trans [OF conjunct1 [OF assms(1)] conjunct1 [OF assms(2)]]) (auto simp: same_info_def freed_slot_def)
  with assms show ?thesis by simp
qed

lemma give_up:
  assumes h: "held b {c} w s1" and f: "fresh c st par s s1"
    and r: "bindE (freeproc c s1) (\<lambda>s. bindE (plock_release c s) (\<lambda>s. Ok (None, s))) = Ok (r, s')"
  shows "r = None \<and> held b {} w s' \<and> idle s s'"
proof -
  from r obtain s2 where 2: "freeproc c s1 = Ok s2" "plock_release c s2 = Ok s'" "r = None"
    by (auto simp: bindE_Ok_iff)
  note fp = freeproc_ok [OF h _ 2(1), simplified]
  have i: "idle s s2" by (rule fresh_freed [OF f fp(3,2)])
  obtain s3 where "plock_release c s2 = Ok s3" "held b ({c} - {c}) w s3" "frame s2 s3"
    using plock_release_ok [OF fp(1), of c] by blast
  with 2 idle_frame [OF i] show ?thesis by simp
qed

lemma allocproc_init_ok:
  assumes h: "held b {i} w s" and "pstate (procs s ! i) = Unused" and r: "allocproc_init i s = Ok s'"
  shows "held b {i} w s'" "fresh i Used None s s'"
proof -
  let ?f = "\<lambda>p. p\<lparr>pid := next_pid s, pstate := Used, pcontext := Context_zero, parent := None, xstate := 0,
            chan := None, pagetable := 0, trapframe := 0, sz := 0, kstack := 0, ofile := replicate NOFILE None\<rparr>"
  let ?s1 = "upd_proc i ?f (s\<lparr>next_pid := (next_pid s + 1) mod 2 ^ 64\<rparr>)"
  from r obtain rt s2 where 2: "root ?s1 = Ok (rt, s2)" "s' = upd_proc i (\<lambda>p. p\<lparr>cwd := rt\<rparr>) s2"
    by (auto simp: allocproc_init_def Let_def bindE_Ok_iff)
  have l: "i < NPROC" "length (procs s) = NPROC" using heldD [OF h] by auto
  have h0: "held b {i} w (s\<lparr>next_pid := (next_pid s + 1) mod 2 ^ 64\<rparr>)" using h by (simp add: held_def)
  have h1: "held b {i} w ?s1" by (rule upd_held [OF h0 l(1)]) simp
  have f1: "fresh i Used None s ?s1" using l assms(2) by (auto simp: table_def nth_upd_proc)
  have m: "kst.more s2 = kst.more ?s1" using 2(1) by (intro fs_more_kst root_more)
  have h2: "held b {i} w s2" using h1 kst_more_held [OF m] by blast
  have f2: "fresh i Used None s s2" by (rule fresh_frame [OF f1 kst_more_frame [OF m]])
  have l2: "i < length (procs s2)" using heldD(1) [OF h2] l by simp
  show "held b {i} w s'" unfolding 2(2) using h2 l(1) by (intro upd_held) simp_all
  have "pstate (procs s2 ! i) = Used" "parent (procs s2 ! i) = None" using f2 l by (auto simp: table_def)
  then show "fresh i Used None s s'" unfolding 2(2) by (intro fresh_upd [OF f2 l2]) simp_all
qed

text \<open>A slot with its lock held, between its allocation and its release.\<close>

definition grabbed :: "bool \<Rightarrow> nat \<Rightarrow> nat option \<Rightarrow> bool \<Rightarrow> kernel \<Rightarrow> kernel \<Rightarrow> bool" where
  "grabbed b c par w s s' \<longleftrightarrow> c < NPROC \<and> held b {c} w s' \<and> fresh c Used par s s'"

lemma grabbed_upd:
  assumes "grabbed b c par w s s1" and "\<And>p. plock (f p) = plock p \<and> pid (f p) = pid p \<and> chan (f p) = chan p \<and> pstate (f p) = pstate p"
    and "\<And>p. parent (f p) = (case q of None \<Rightarrow> parent p | Some r \<Rightarrow> r)"
  shows "grabbed b c (case q of None \<Rightarrow> par | Some r \<Rightarrow> r) w s (upd_proc c f s1)"
proof -
  have g: "c < NPROC" "held b {c} w s1" "fresh c Used par s s1" using assms(1) by (simp_all add: grabbed_def)
  have l: "c < length (procs s1)" "length (procs s) = length (procs s1)"
    using g heldD(1) [OF g(2)] by (auto simp: table_def)
  have "pstate (procs s1 ! c) = Used" "parent (procs s1 ! c) = par" using g(3) l by (auto simp: table_def)
  then have "fresh c Used (case q of None \<Rightarrow> par | Some r \<Rightarrow> r) s (upd_proc c f s1)"
    using assms(2,3) by (intro fresh_upd [OF g(3) l(1)]) (simp_all split: option.splits)
  moreover have "held b {c} w (upd_proc c f s1)" using assms(2) by (intro upd_held [OF g(2,1)]) simp
  ultimately show ?thesis using g(1) by (simp add: grabbed_def)
qed

lemma grabbed_km: "grabbed b c par w s s1 \<Longrightarrow> grabbed b c par w s (s1\<lparr>km := m\<rparr>)"
  by (simp add: grabbed_def)

lemma grabbed_frame:
  assumes "grabbed b c par w s s1" and "held b {c} w s2" and "frame s1 s2"
  shows "grabbed b c par w s s2"
proof -
  have "fresh c Used par s s1" using assms(1) by (simp add: grabbed_def)
  from fresh_frame [OF this assms(3)] assms(1,2) show ?thesis by (simp add: grabbed_def)
qed

lemma grabbed_more:
  assumes "grabbed b c par w s s1" and m: "kst.more s2 = kst.more s1"
  shows "grabbed b c par w s s2"
  using assms(1) kst_more_held [OF m] by (intro grabbed_frame [OF assms(1) _ kst_more_frame [OF m]]) (simp add: grabbed_def)

lemma grabbed_give_up:
  assumes "grabbed b c par w s s1" and "bindE (freeproc c s1) (\<lambda>s. bindE (plock_release c s) (\<lambda>s. Ok (None, s))) = Ok (r, s')"
  shows "r = None \<and> held b {} w s' \<and> idle s s'"
proof -
  have "held b {c} w s1" "fresh c Used par s s1" using assms(1) by (simp_all add: grabbed_def)
  from give_up [OF this assms(2)] show ?thesis .
qed

definition alloc_result :: "bool \<Rightarrow> bool \<Rightarrow> kernel \<Rightarrow> nat option \<Rightarrow> kernel \<Rightarrow> bool" where
  "alloc_result b w s r s' \<longleftrightarrow> (case r of None \<Rightarrow> held b {} w s' \<and> idle s s' | Some c \<Rightarrow> grabbed b c None w s s')"

lemma allocproc_slot_ok:
  assumes "held b {i} w s" and "i < NPROC" and "pstate (procs s ! i) = Unused" and r: "allocproc_slot i s = Ok (r, s')"
  shows "alloc_result b w s r s'"
proof -
  from r obtain s1 where 1: "allocproc_init i s = Ok s1" by (auto simp: allocproc_slot_def bindE_Ok_iff)
  have g1: "grabbed b i None w s s1" using allocproc_init_ok [OF assms(1,3) 1] assms(2) by (simp add: grabbed_def)
  have up: "grabbed b i None w s (upd_proc i f s2)" if "grabbed b i None w s s2"
      "\<And>p. plock (f p) = plock p \<and> pid (f p) = pid p \<and> chan (f p) = chan p \<and> pstate (f p) = pstate p \<and> parent (f p) = parent p" for f s2
    using grabbed_upd [OF that(1), of f None] that(2) by simp
  have fail: "alloc_result b w s r s'" if "grabbed b i None w s s2" "alloc_failed i s2 = Ok (r, s')" for s2
    using grabbed_give_up [OF that(1) that(2) [unfolded alloc_failed_def]] by (simp add: alloc_result_def)
  obtain t m where k1: "kalloc_zeroed (km s1) = (t, m)" by fastforce
  show ?thesis
  proof (cases t)
    case None
    then show ?thesis using r 1 k1 by (intro fail [OF grabbed_km [OF g1]]) (simp add: allocproc_slot_def)
  next
    case (Some tf)
    with r 1 k1 obtain pt m2 where 2: "proc_pagetable tf m = Ok (pt, m2)" by (auto simp: allocproc_slot_def bindE_Ok_iff)
    let ?s2 = "upd_proc i (\<lambda>p. p\<lparr>trapframe := tf\<rparr>) (s1\<lparr>km := m2\<rparr>)"
    have g2: "grabbed b i None w s ?s2" by (rule up [OF grabbed_km [OF g1]]) simp
    show ?thesis
    proof (cases pt)
      case None
      then show ?thesis using r 1 k1 Some 2 by (intro fail [OF g2]) (simp add: allocproc_slot_def Let_def)
    next
      case pt: (Some pa)
      let ?s3 = "upd_proc i (\<lambda>p. p\<lparr>pagetable := pa\<rparr>) ?s2"
      have g3: "grabbed b i None w s ?s3" by (rule up [OF g2]) simp
      obtain ks m3 where k3: "kalloc (km ?s3) = (ks, m3)" by fastforce
      show ?thesis
      proof (cases ks)
        case None
        then show ?thesis using r 1 k1 Some 2 pt k3 by (intro fail [OF grabbed_km [OF g3]]) (simp add: allocproc_slot_def Let_def)
      next
        case ks: (Some st)
        let ?s4 = "upd_proc i (\<lambda>p. p\<lparr>kstack := st\<rparr>) (?s3\<lparr>km := m3\<rparr>)"
        have "grabbed b i None w s ?s4" by (rule up [OF grabbed_km [OF g3]]) simp
        moreover have "r = Some i" "s' = ?s4" using r 1 k1 Some 2 pt k3 ks by (simp_all add: allocproc_slot_def Let_def)
        ultimately show ?thesis by (simp add: alloc_result_def)
      qed
    qed
  qed
qed

lemma allocproc_loop_ok:
  assumes "held b {} w s" and "set xs \<subseteq> {..<NPROC}" and "allocproc_loop xs s = Ok (r, s')"
  shows "alloc_result b w s r s'"
  using assms
proof (induction xs arbitrary: s)
  case Nil
  then show ?case by (auto simp: alloc_result_def table_def)
next
  case (Cons i xs)
  have i: "i < NPROC" using Cons.prems(2) by simp
  obtain s1 where 1: "plock_acquire i s = Ok s1" "held b {i} w s1" "frame s s1"
    using plock_acquire_ok [OF Cons.prems(1) i] by auto
  have shift: "alloc_result b w s r s'" if a: "alloc_result b w s2 r s'" and f: "frame s s2" for s2
  proof (cases r)
    case None
    have "table (\<lambda>_ p q. same_info p q \<or> pstate p = Unused \<and> freed_slot q) s2 s'" using a None by (simp add: alloc_result_def)
    from frame_then [OF f this] a f None show ?thesis by (auto simp: alloc_result_def same_info_def)
  next
    case (Some c)
    have "fresh c Used None s2 s'" using a Some by (simp add: alloc_result_def grabbed_def)
    then have "fresh c Used None s s'" using f by (auto simp: table_def same_info_def split: if_splits)
    with a Some show ?thesis by (simp add: alloc_result_def grabbed_def)
  qed
  show ?case
  proof (cases "pstate (procs s1 ! i) = Unused")
    case True
    have "allocproc_slot i s1 = Ok (r, s')" using Cons.prems(3) 1(1) True by simp
    from shift [OF allocproc_slot_ok [OF 1(2) i True this] 1(3)] show ?thesis .
  next
    case False
    obtain s2 where 2: "plock_release i s1 = Ok s2" "held b ({i} - {i}) w s2" "frame s1 s2"
      using plock_release_ok [OF 1(2), of i] by blast
    have "allocproc_loop xs s2 = Ok (r, s')" using Cons.prems(3) 1(1) False 2(1) by simp
    then have "alloc_result b w s2 r s'" using 2(2) Cons.prems(2) by (intro Cons.IH) auto
    from shift [OF this frame_trans [OF 1(3) 2(3)]] show ?thesis .
  qed
qed

end
