(* ===== verification/Proc_Protocol.thy ===== *)
theory Proc_Protocol
  imports Proc_Inv
begin

text \<open>
  The life of processes: what \<open>fork\<close>, \<open>exit\<close>, \<open>wait\<close>, sleeping and scheduling do to the process table, the
  step relation of a machine that runs them in any order, and its invariant.  A process that sleeps in
  \<open>wait\<close> never has a child to reap: no wake-up is lost.
\<close>

section \<open>Fork\<close>

lemma fork_fd_ok:
  assumes h: "held b {c} w s" and c: "c < NPROC" and r: "fork_fd par c fd s = Ok s'"
  shows "held b {c} w s' \<and> frame s s'"
proof (cases "ofile (procs s ! par) ! fd")
  case None
  then show ?thesis using h r frame_refl by (simp add: fork_fd_def)
next
  case (Some f)
  with r obtain s1 where 1: "file_dup f s = Ok s1" "s' = upd_proc c (set_ofile fd (Some f)) s1"
    by (auto simp: fork_fd_def bindE_Ok_iff)
  note m = file_dup_more [OF 1(1)]
  have h1: "held b {c} w s1" using h kst_more_held [OF m] by blast
  have l: "c < length (procs s1)" using heldD(1) [OF h1] c by simp
  have "held b {c} w s'" unfolding 1(2) by (rule upd_held [OF h1 c]) (simp add: set_ofile_def)
  moreover have "frame s1 s'" unfolding 1(2) using l by (auto intro!: upd_table simp: set_ofile_def same_info_def)
  ultimately show ?thesis using frame_trans [OF kst_more_frame [OF m]] by blast
qed

lemma fork_publish:
  assumes g4: "grabbed b c (Some par) False s s4" and 5: "foldE (fork_fd par c) [0..<NOFILE] s4 = Ok s5"
    and 6: "idup r s5 = Ok (ci, s6)" and 7: "plock_release c (upd_proc c (\<lambda>q. q\<lparr>cwd := ci, pstate := Runnable\<rparr>) s6) = Ok s'"
  shows "held b {} False s' \<and> fresh c Runnable (Some par) s s'"
proof -
  have c: "c < NPROC" and h4: "held b {c} False s4" using g4 by (simp_all add: grabbed_def)
  note f5 = foldE_frame [OF fork_fd_ok [OF _ c] h4 5]
  have g5: "grabbed b c (Some par) False s s5" by (rule grabbed_frame [OF g4 conjunct1 [OF f5] conjunct2 [OF f5]])
  have g6: "grabbed b c (Some par) False s s6" by (rule grabbed_more [OF g5 fs_more_kst [OF idup_more [OF 6]]])
  let ?s6 = "upd_proc c (\<lambda>q. q\<lparr>cwd := ci, pstate := Runnable\<rparr>) s6"
  have h6: "held b {c} False s6" and fr6: "fresh c Used (Some par) s s6" using g6 by (simp_all add: grabbed_def)
  have l: "c < length (procs s6)" "length (procs s) = length (procs s6)" using heldD(1) [OF h6] c fr6 by (auto simp: table_def)
  have "parent (procs s6 ! c) = Some par" using fr6 l by (auto simp: table_def)
  then have fr: "fresh c Runnable (Some par) s ?s6" by (intro fresh_upd [OF fr6 l(1)]) simp_all
  have h6': "held b {c} False ?s6" by (rule upd_held [OF h6 c]) simp
  obtain s8 where 8: "plock_release c ?s6 = Ok s8" "held b ({c} - {c}) False s8" "frame ?s6 s8"
    using plock_release_ok [OF h6', of c] by blast
  from fresh_frame [OF fr 8(3)] 7 8(1,2) show ?thesis by simp
qed

lemma fork_ok:
  assumes h: "held b {} False s" and cu: "cur s = Some par" and r: "fork s = Ok (r, s')"
  shows "held b {} False s'" "idle s s' \<or> (\<exists>c < NPROC. fresh c Runnable (Some par) s s')"
proof -
  from r cu obtain rc s1 where 1: "allocproc s = Ok (rc, s1)" by (auto simp: fork_def myproc_def bindE_Ok_iff)
  have "set [0..<NPROC] \<subseteq> {..<NPROC}" by auto
  from allocproc_loop_ok [OF h this] 1 have a: "alloc_result b False s rc s1" by (simp add: allocproc_def)
  have "held b {} False s' \<and> (idle s s' \<or> (\<exists>c < NPROC. fresh c Runnable (Some par) s s'))"
  proof (cases rc)
    case None
    then show ?thesis using a r 1 cu by (simp add: fork_def myproc_def alloc_result_def)
  next
    case (Some c)
    let ?s2 = "upd_proc c (\<lambda>p. p\<lparr>parent := Some par\<rparr>) s1" and ?p = "procs (upd_proc c (\<lambda>p. p\<lparr>parent := Some par\<rparr>) s1) ! par"
    have g1: "grabbed b c None False s s1" using a Some by (simp add: alloc_result_def)
    then have c: "c < NPROC" by (simp add: grabbed_def)
    have g2: "grabbed b c (Some par) False s ?s2" using grabbed_upd [OF g1, of _ "Some (Some par)"] by simp
    have up: "grabbed b c (Some par) False s (upd_proc c f t)" if "grabbed b c (Some par) False s t"
        "\<And>p. plock (f p) = plock p \<and> pid (f p) = pid p \<and> chan (f p) = chan p \<and> pstate (f p) = pstate p \<and> parent (f p) = parent p" for f t
      using grabbed_upd [OF that(1), of f None] that(2) by simp
    have fail: "held b {} False s' \<and> idle s s'" if "grabbed b c (Some par) False s t" "fork_failed c t = Ok (r, s')" for t
      using grabbed_give_up [OF that(1) that(2) [unfolded fork_failed_def]] by blast
    from r 1 cu Some obtain ok m where 2: "uvmcopy (pagetable ?p) (pagetable (procs ?s2 ! c)) (sz ?p) (km ?s2) = Ok (ok, m)"
      by (auto simp: fork_def myproc_def Let_def bindE_Ok_iff)
    show ?thesis
    proof (cases ok)
      case False
      then show ?thesis using r 1 cu Some 2 fail [OF grabbed_km [OF g2]] by (auto simp: fork_def myproc_def Let_def)
    next
      case True
      let ?tf = "trapframe (procs ?s2 ! c)"
      let ?m = "tf_set ?tf tf_a0 0 (copy_trapframe (trapframe ?p) ?tf m)" and ?s3 = "upd_proc c (\<lambda>q. q\<lparr>sz := sz ?p\<rparr>) ?s2"
      have g3: "grabbed b c (Some par) False s ?s3" by (rule up [OF g2]) simp
      from r 1 cu Some 2 True obtain ok2 m2 where 3: "uvmcopy_stack (pagetable ?p) (pagetable (procs ?s3 ! c)) ?m = Ok (ok2, m2)"
        by (auto simp: fork_def myproc_def Let_def bindE_Ok_iff)
      show ?thesis
      proof (cases ok2)
        case False
        then show ?thesis using r 1 cu Some 2 True 3 fail [OF grabbed_km [OF g3]] by (auto simp: fork_def myproc_def Let_def)
      next
        case ok2: True
        let ?s4 = "upd_proc c (\<lambda>q. q\<lparr>pcontext := (pcontext q)\<lparr>c_ra := Code_forkret, c_sp := kstack q + of_nat PGSIZE\<rparr>\<rparr>) (?s3\<lparr>km := m2\<rparr>)"
        have g4: "grabbed b c (Some par) False s ?s4" by (rule up [OF grabbed_km [OF g3]]) simp
        from r 1 cu Some 2 True 3 ok2 obtain s5 ci s6 s7 where
          5: "foldE (fork_fd par c) [0..<NOFILE] ?s4 = Ok s5" and 6: "idup (cwd ?p) s5 = Ok (ci, s6)" and
          7: "plock_release c (upd_proc c (\<lambda>q. q\<lparr>cwd := ci, pstate := Runnable\<rparr>) s6) = Ok s7" and s': "s' = s7"
          by (auto simp: fork_def myproc_def Let_def bindE_Ok_iff)
        from fork_publish [OF g4 5 6 7] s' c show ?thesis by blast
      qed
    qed
  qed
  then show "held b {} False s'" "idle s s' \<or> (\<exists>c < NPROC. fresh c Runnable (Some par) s s')" by blast+
qed

section \<open>Giving up the hart and getting it back\<close>

definition in_state :: "ProcessState \<Rightarrow> Process \<Rightarrow> Process \<Rightarrow> bool" where
  "in_state st p q \<longleftrightarrow> parent q = parent p \<and> chan q = chan p \<and> pid q = pid p \<and> pstate q = st"

text \<open>Process \<open>i\<close> changes as \<open>R\<close> says, and the others do not.\<close>

abbreviation only :: "nat \<Rightarrow> (Process \<Rightarrow> Process \<Rightarrow> bool) \<Rightarrow> kernel \<Rightarrow> kernel \<Rightarrow> bool" where
  "only i R s s' \<equiv> table (\<lambda>j p q. if j = i then R p q else same_info p q) s s' \<and> next_pid s' = next_pid s"

lemma held_cur [simp]: "held b H w (s\<lparr>cur := c\<rparr>) = held b H w s"
  by (simp add: held_def)

lemma only_upd:
  assumes "frame s s1" and "i < length (procs s1)" and "\<And>p. same_info p (procs s1 ! i) \<Longrightarrow> R p (f (procs s1 ! i))"
  shows "only i R s (upd_proc i f s1)"
  using assms by (auto simp: table_def nth_upd_proc)

lemma only_frame:
  assumes "only i R s s1" and "frame s1 s2" and "\<And>p q r. R p q \<Longrightarrow> same_info q r \<Longrightarrow> R p r"
  shows "only i R s s2"
proof -
  have "table (\<lambda>j p q. if j = i then R p q else same_info p q) s s2"
    by (rule table_trans [OF conjunct1 [OF assms(1)] conjunct1 [OF assms(2)]])
      (use assms(3) same_info_trans in \<open>auto split: if_splits\<close>)
  with assms(1,2) show ?thesis by simp
qed

lemma frame_cur: "frame s s' \<Longrightarrow> frame (s\<lparr>cur := c\<rparr>) (s'\<lparr>cur := c\<rparr>)"
  by (simp add: table_def)

lemma only_cur: "only i R s s' \<Longrightarrow> only i R (s\<lparr>cur := c\<rparr>) (s'\<lparr>cur := c\<rparr>)"
  by (simp add: table_def)

lemma sched_ok:
  assumes h: "held b {i} False s" and c: "cur s = Some i" and st: "pstate (procs s ! i) \<noteq> Running"
  shows "\<exists>s'. sched s = Ok (b, s') \<and> held b {} False s' \<and> frame (s\<lparr>cur := None\<rparr>) s'"
proof -
  have "holding (plock (procs s ! i))" using heldD(4,5) [OF h, of i] by simp
  moreover have "\<not> intr_get (hart s)" "noff (hart s) = 1" "intena (hart s) = b" using h by (simp_all add: held_def cpu_ok_def intr_get_def)
  moreover have "held b {i} False (s\<lparr>cur := None\<rparr>)" using h by simp
  from plock_release_ok [OF this, of i] obtain s' where "plock_release i (s\<lparr>cur := None\<rparr>) = Ok s'"
      "held b ({i} - {i}) False s'" "frame (s\<lparr>cur := None\<rparr>) s'"
    by blast
  ultimately show ?thesis using c st by (simp add: sched_def myproc_def Let_def)
qed

text \<open>A process takes its lock, changes itself, and switches to the scheduler.\<close>

lemma switch_out:
  assumes h1: "held b {i} False s1" and f: "frame s s1" and c: "cur s = Some i"
    and st: "pstate (f (procs s1 ! i)) \<noteq> Running" and pl: "plock (f (procs s1 ! i)) = plock (procs s1 ! i)"
    and R: "\<And>p. same_info p (procs s1 ! i) \<Longrightarrow> R p (f (procs s1 ! i))" and R': "\<And>p q r. R p q \<Longrightarrow> same_info q r \<Longrightarrow> R p r"
  shows "\<exists>s'. sched (upd_proc i f s1) = Ok (b, s') \<and> held b {} False s' \<and> only i R (s\<lparr>cur := None\<rparr>) s'"
proof -
  let ?s2 = "upd_proc i f s1"
  have i: "i < NPROC" "i < length (procs s1)" using heldD(1,5) [OF h1] by auto
  have h2: "held b {i} False ?s2" using pl by (intro upd_held [OF h1 i(1)])
  have "cur ?s2 = Some i" using f c by (simp add: table_def)
  moreover have "pstate (procs ?s2 ! i) \<noteq> Running" using st i(2) by (simp add: nth_upd_proc)
  ultimately obtain s' where s': "sched ?s2 = Ok (b, s')" "held b {} False s'" "frame (?s2\<lparr>cur := None\<rparr>) s'"
    using sched_ok [OF h2] by blast
  have "only i R (s\<lparr>cur := None\<rparr>) (?s2\<lparr>cur := None\<rparr>)" using R by (intro only_cur only_upd [OF f i(2)])
  then have "only i R (s\<lparr>cur := None\<rparr>) s'" using s'(3) R' by (rule only_frame)
  with s'(1,2) show ?thesis by blast
qed

lemma in_state_info:
  "same_info p q \<Longrightarrow> in_state st p (q\<lparr>pstate := st\<rparr>)" "in_state st p q \<Longrightarrow> same_info q r \<Longrightarrow> in_state st p r"
  by (simp_all add: in_state_def same_info_def)

lemma yield_ok:
  assumes h: "held b {} False s" and c: "cur s = Some i" and i: "i < NPROC"
  shows "\<exists>s'. yield_cpu s = Ok (b, s') \<and> held b {} False s' \<and> only i (in_state Runnable) (s\<lparr>cur := None\<rparr>) s'"
proof -
  obtain s1 where 1: "plock_acquire i s = Ok s1" "held b {i} False s1" "frame s s1" using plock_acquire_ok [OF h i] by auto
  have "\<exists>s'. sched (upd_proc i (\<lambda>p. p\<lparr>pstate := Runnable\<rparr>) s1) = Ok (b, s') \<and> held b {} False s' \<and>
      only i (in_state Runnable) (s\<lparr>cur := None\<rparr>) s'"
    by (rule switch_out [OF 1(2,3) c]) (auto intro: in_state_info)
  with 1(1) c show ?thesis by (simp add: yield_cpu_def myproc_def)
qed

definition asleep :: "chan \<Rightarrow> Process \<Rightarrow> Process \<Rightarrow> bool" where
  "asleep ch p q \<longleftrightarrow> parent q = parent p \<and> pid q = pid p \<and> pstate q = Sleeping \<and> chan q = Some ch"

lemma sleep_ok:
  assumes h: "held b {} w s" and c: "cur s = Some i" and i: "i < NPROC"
    and rel: "\<And>s1. held b {i} w s1 \<Longrightarrow> \<exists>s2. rel s1 = Ok s2 \<and> held b {i} False s2 \<and> frame s1 s2"
  shows "\<exists>s'. sleep ch rel s = Ok (b, s') \<and> held b {} False s' \<and> only i (asleep ch) (s\<lparr>cur := None\<rparr>) s'"
proof -
  obtain s1 where 1: "plock_acquire i s = Ok s1" "held b {i} w s1" "frame s s1" using plock_acquire_ok [OF h i] by auto
  from rel [OF 1(2)] obtain s2 where 2: "rel s1 = Ok s2" "held b {i} False s2" "frame s1 s2" by blast
  have "\<exists>s'. sched (upd_proc i (\<lambda>p. p\<lparr>chan := Some ch, pstate := Sleeping\<rparr>) s2) = Ok (b, s') \<and> held b {} False s' \<and>
      only i (asleep ch) (s\<lparr>cur := None\<rparr>) s'"
    by (rule switch_out [OF 2(2) frame_trans [OF 1(3) 2(3)] c]) (auto simp: asleep_def same_info_def)
  with 1(1) 2(1) c show ?thesis by (simp add: sleep_def myproc_def)
qed

lemma pick_ok:
  assumes h: "held b {} False s" and c: "cur s = None" and i: "i < NPROC"
  shows "\<exists>s'. scheduler_pick i s = Ok s' \<and>
    (if pstate (procs s ! i) = Runnable then held b {i} False s' \<and> only i (in_state Running) (s\<lparr>cur := Some i\<rparr>) s'
     else held b {} False s' \<and> frame s s')"
proof -
  obtain s1 where 1: "plock_acquire i s = Ok s1" "held b {i} False s1" "frame s s1" using plock_acquire_ok [OF h i] by auto
  have l: "i < length (procs s1)" "pstate (procs s1 ! i) = pstate (procs s ! i)"
    using heldD(1) [OF 1(2)] i 1(3) by (auto simp: table_def same_info_def)
  show ?thesis
  proof (cases "pstate (procs s ! i) = Runnable")
    case True
    let ?s = "upd_proc i (\<lambda>p. p\<lparr>pstate := Running\<rparr>) s1"
    have "only i (in_state Running) (s\<lparr>cur := Some i\<rparr>) (?s\<lparr>cur := Some i\<rparr>)"
      using in_state_info(1) by (intro only_cur only_upd [OF 1(3) l(1)])
    moreover have "held b {i} False ?s" by (rule upd_held [OF 1(2) i]) simp
    ultimately show ?thesis using True 1(1) l(2) by (simp add: scheduler_pick_def)
  next
    case False
    obtain s2 where "plock_release i s1 = Ok s2" "held b ({i} - {i}) False s2" "frame s1 s2"
      using plock_release_ok [OF 1(2), of i] by blast
    with False 1 l(2) frame_trans [OF 1(3)] show ?thesis by (auto simp: scheduler_pick_def)
  qed
qed

text \<open>The return to user mode needs every lock to be free.\<close>

lemma usertrapret_ok:
  assumes "held b {} False s" and "cur s = Some i"
  shows "\<exists>u s'. usertrapret te s = Ok (u, s') \<and> held False {} False s' \<and> frame s s'"
  using assms by (simp add: usertrapret_def myproc_def Let_def held_def cpu_ok_def intr_off_def table_def same_info_def)

lemma usertrapret_locked:
  assumes "held b {} True s"
  shows "usertrapret te s = panic ''usertrapret: in critical section''"
  using assms by (simp add: usertrapret_def held_def cpu_ok_def)

lemma set_a0_ok [simp]: "held b H w (set_a0 i v s) = held b H w s" "cur (set_a0 i v s) = cur s" "frame s (set_a0 i v s)"
  by (simp_all add: set_a0_def held_def table_def same_info_def)

lemma forkret_ok:
  assumes "held b {i} False s" and "cur s = Some i"
  shows "\<exists>u s'. forkret te s = Ok (u, s') \<and> held False {} False s' \<and> frame s s'"
proof -
  obtain s1 where 1: "plock_release i s = Ok s1" "held b {} False s1" "frame s s1"
    using plock_release_ok [OF assms(1), of i] by auto
  then have "cur s1 = Some i" using assms(2) by (simp add: table_def)
  from usertrapret_ok [OF 1(2) this, of te] obtain u s' where "usertrapret te s1 = Ok (u, s')" "held False {} False s'" "frame s1 s'"
    by blast
  with 1 assms(2) frame_trans [OF 1(3)] show ?thesis by (auto simp: forkret_def myproc_def)
qed

lemma sched_resume_ok:
  assumes "held b {i} False s"
  shows "held ie {i} False (sched_resume ie s)" "frame s (sched_resume ie s)"
  using assms by (simp_all add: held_def cpu_ok_def sched_resume_def table_def)

lemma yield_resume_ok:
  assumes h: "held b {i} False s" and c: "cur s = Some i"
  shows "\<exists>s'. yield_resume ie s = Ok s' \<and> held ie {} False s' \<and> frame s s'"
proof -
  note r = sched_resume_ok [OF h, of ie]
  obtain s' where "plock_release i (sched_resume ie s) = Ok s'" "held ie ({i} - {i}) False s'" "frame (sched_resume ie s) s'"
    using plock_release_ok [OF r(1), of i] by blast
  with c frame_trans [OF r(2)] show ?thesis by (auto simp: yield_resume_def myproc_def)
qed

definition off_chan :: "Process \<Rightarrow> Process \<Rightarrow> bool" where
  "off_chan p q \<longleftrightarrow> parent q = parent p \<and> pid q = pid p \<and> pstate q = pstate p \<and> chan q = None"

lemma sleep_resume_ok:
  assumes h: "held b {i} False s" and c: "cur s = Some i"
  shows "\<exists>s'. sleep_resume acq ie s = acq s' \<and> held ie {} False s' \<and> only i off_chan s s'"
proof -
  note r = sched_resume_ok [OF h, of ie]
  have i: "i < NPROC" "i < length (procs (sched_resume ie s))" using heldD(1,5) [OF r(1)] by auto
  let ?s1 = "upd_proc i (\<lambda>p. p\<lparr>chan := None\<rparr>) (sched_resume ie s)"
  have h1: "held ie {i} False ?s1" by (rule upd_held [OF r(1) i(1)]) simp
  have o1: "only i off_chan s ?s1" by (rule only_upd [OF r(2) i(2)]) (simp add: off_chan_def same_info_def)
  obtain s' where s': "plock_release i ?s1 = Ok s'" "held ie ({i} - {i}) False s'" "frame ?s1 s'"
    using plock_release_ok [OF h1, of i] by blast
  have "only i off_chan s s'" by (rule only_frame [OF o1 s'(3)]) (simp add: off_chan_def same_info_def)
  moreover have "sleep_resume acq ie s = acq s'" using s'(1) c by (simp add: sleep_resume_def myproc_def)
  moreover have "held ie {} False s'" using s'(2) by simp
  ultimately show ?thesis by blast
qed

section \<open>Exit\<close>

lemma close_fd_ok:
  assumes h: "held b {} w s" and i: "i < NPROC" and r: "close_fd i fd s = Ok s'"
  shows "held b {} w s' \<and> quiet s s'"
proof (cases "ofile (procs s ! i) ! fd")
  case None
  then show ?thesis using h r frame_quiet [OF frame_refl] by (simp add: close_fd_def)
next
  case (Some f)
  let ?s1 = "upd_proc i (set_ofile fd None) s"
  have "i < length (procs s)" using heldD(1) [OF h] i by simp
  then have "frame s ?s1" by (auto intro!: upd_table simp: set_ofile_def same_info_def)
  moreover have h1: "held b {} w ?s1" by (rule upd_held [OF h i]) (simp add: set_ofile_def)
  moreover have "kclose f ?s1 = Ok s'" using r Some by (simp add: close_fd_def)
  ultimately show ?thesis using kclose_ok [OF h1] quiet_trans [OF frame_quiet] by blast
qed

text \<open>The parent of a process after its parent \<open>i\<close> has exited.\<close>

definition adopt :: "nat option \<Rightarrow> nat \<Rightarrow> nat option \<Rightarrow> nat option" where
  "adopt ini i pa = (case ini of Some k \<Rightarrow> if i \<noteq> k \<and> pa = Some i then Some k else pa | None \<Rightarrow> pa)"

lemma reparent_loop_ok:
  assumes "held b {} w s" and "distinct cs" and "set cs \<subseteq> {..<NPROC}"
  shows "\<exists>s'. reparent_loop i ini cs need s = Ok (need \<or> (\<exists>c \<in> set cs. parent (procs s ! c) = Some i), s') \<and> held b {} w s' \<and>
    next_pid s' = next_pid s \<and>
    table (\<lambda>j p q. pstate q = pstate p \<and> chan q = chan p \<and> pid q = pid p \<and>
      parent q = (if j \<in> set cs \<and> parent p = Some i then Some ini else parent p)) s s'"
  using assms
proof (induction cs arbitrary: s need)
  case Nil
  then show ?case by (simp add: table_def)
next
  case (Cons c cs)
  have c: "c < NPROC" using Cons.prems(3) by simp
  obtain s1 where 1: "plock_acquire c s = Ok s1" "held b {c} w s1" "frame s s1" using plock_acquire_ok [OF Cons.prems(1) c] by auto
  let ?hit = "parent (procs s1 ! c) = Some i"
  let ?s2 = "if ?hit then upd_proc c (\<lambda>p. p\<lparr>parent := Some ini\<rparr>) s1 else s1"
  let ?R = "\<lambda>p q. pstate q = pstate p \<and> chan q = chan p \<and> pid q = pid p \<and> parent q = (if parent p = Some i then Some ini else parent p)"
  have l: "c < length (procs s1)" "length (procs s) = NPROC" using heldD(1) [OF 1(2)] heldD(1) [OF Cons.prems(1)] c by auto
  have e: "?s2 = upd_proc c (\<lambda>p. if parent p = Some i then p\<lparr>parent := Some ini\<rparr> else p) s1"
    by (simp add: upd_proc_def set_proc_def)
  have hit: "?hit \<longleftrightarrow> parent (procs s ! c) = Some i" using 1(3) l(2) c by (simp add: table_def same_info_def)
  have h2: "held b {c} w ?s2" unfolding e by (rule upd_held [OF 1(2) c]) simp
  have o2: "only c ?R s ?s2" unfolding e by (rule only_upd [OF 1(3) l(1)]) (auto simp: same_info_def)
  obtain s3 where 3: "plock_release c ?s2 = Ok s3" "held b ({c} - {c}) w s3" "frame ?s2 s3"
    using plock_release_ok [OF h2, of c] by blast
  have o3: "only c ?R s s3" by (rule only_frame [OF o2 3(3)]) (simp add: same_info_def)
  have h3: "held b {} w s3" using 3(2) by simp
  have cs: "distinct cs" "set cs \<subseteq> {..<NPROC}" using Cons.prems(2,3) by simp_all
  obtain s4 where 4: "reparent_loop i ini cs (need \<or> ?hit) s3 = Ok ((need \<or> ?hit) \<or> (\<exists>c \<in> set cs. parent (procs s3 ! c) = Some i), s4)"
      "held b {} w s4" "next_pid s4 = next_pid s3"
      "table (\<lambda>j p q. pstate q = pstate p \<and> chan q = chan p \<and> pid q = pid p \<and>
        parent q = (if j \<in> set cs \<and> parent p = Some i then Some ini else parent p)) s3 s4"
    using Cons.IH [OF h3 cs, of "need \<or> ?hit"] by blast
  have "parent (procs s3 ! d) = parent (procs s ! d)" if "d \<in> set cs" for d
  proof -
    have "d < NPROC" "d \<noteq> c" using that Cons.prems(2,3) by auto
    then show ?thesis using o3 l(2) by (auto simp: table_def same_info_def)
  qed
  then have n: "((need \<or> ?hit) \<or> (\<exists>c \<in> set cs. parent (procs s3 ! c) = Some i)) = (need \<or> (\<exists>c \<in> set (c # cs). parent (procs s ! c) = Some i))"
    using hit by auto
  have "table (\<lambda>j p q. pstate q = pstate p \<and> chan q = chan p \<and> pid q = pid p \<and>
      parent q = (if j \<in> set (c # cs) \<and> parent p = Some i then Some ini else parent p)) s s4"
    by (rule table_trans [OF conjunct1 [OF o3] 4(4)]) (use Cons.prems(2) in \<open>auto simp: same_info_def split: if_splits\<close>)
  moreover have "reparent_loop i ini (c # cs) need s = Ok (need \<or> (\<exists>c \<in> set (c # cs). parent (procs s ! c) = Some i), s4)"
    unfolding reparent_loop.simps 1(1) bindE_simps Let_def 3(1) 4(1) n ..
  ultimately show ?case using 4(2,3) o3 by simp
qed

text \<open>\<open>i\<close> leaves children to the initial process \<open>k\<close>.\<close>

definition orphans :: "kernel \<Rightarrow> nat \<Rightarrow> nat \<Rightarrow> bool" where
  "orphans s i k \<longleftrightarrow> initproc s = Some k \<and> i \<noteq> k \<and> (\<exists>c < NPROC. parent (procs s ! c) = Some i)"

definition may_wake :: "Process \<Rightarrow> Process \<Rightarrow> bool" where
  "may_wake p q \<longleftrightarrow> pid q = pid p \<and> chan q = chan p \<and> (pstate q = pstate p \<or> pstate p = Sleeping \<and> pstate q = Runnable)"

lemma reparent_ok:
  assumes h: "held b {} w s"
  shows "\<exists>s'. reparent i s = Ok s' \<and> held b {} w s' \<and> next_pid s' = next_pid s \<and>
    table (\<lambda>_ p q. may_wake p q \<and> parent q = adopt (initproc s) i (parent p) \<and>
      (\<forall>k. orphans s i k \<and> pstate q = Sleeping \<longrightarrow> chan p \<noteq> Some (ProcChan k))) s s'"
proof (cases "\<exists>k. initproc s = Some k \<and> i \<noteq> k")
  case False
  then have "reparent i s = Ok s" "\<And>pa. adopt (initproc s) i pa = pa" "\<And>k. \<not> orphans s i k"
    by (auto simp: reparent_def adopt_def orphans_def split: option.splits)
  then show ?thesis using h by (simp add: table_def may_wake_def)
next
  case True
  then obtain k where k: "initproc s = Some k" "i \<noteq> k" by blast
  have a: "adopt (initproc s) i pa = (if pa = Some i then Some k else pa)" for pa using k by (simp add: adopt_def)
  let ?need = "\<exists>c \<in> set [0..<NPROC]. parent (procs s ! c) = Some i"
  have o: "orphans s i k' \<longleftrightarrow> k' = k \<and> ?need" for k' using k by (auto simp: orphans_def)
  have "set [0..<NPROC] \<subseteq> {..<NPROC}" by auto
  from reparent_loop_ok [OF h distinct_upt this, of i k False] obtain s1 where
    1: "reparent_loop i k [0..<NPROC] False s = Ok (?need, s1)" "held b {} w s1" "next_pid s1 = next_pid s"
      "table (\<lambda>j p q. pstate q = pstate p \<and> chan q = chan p \<and> pid q = pid p \<and>
        parent q = (if j \<in> set [0..<NPROC] \<and> parent p = Some i then Some k else parent p)) s s1"
    by auto
  have t1: "table (\<lambda>_ p q. pstate q = pstate p \<and> chan q = chan p \<and> pid q = pid p \<and> parent q = adopt (initproc s) i (parent p)) s s1"
    using 1(4) heldD(1) [OF h] unfolding a by (auto simp: table_def)
  have rep: "reparent i s = (if ?need then wakeup (Some (ProcChan k)) s1 else Ok s1)"
    using 1(1) k by (simp add: reparent_def)
  show ?thesis
  proof (cases ?need)
    case False
    then have "table (\<lambda>_ p q. may_wake p q \<and> parent q = adopt (initproc s) i (parent p) \<and>
        (\<forall>k. orphans s i k \<and> pstate q = Sleeping \<longrightarrow> chan p \<noteq> Some (ProcChan k))) s s1"
      by (intro table_mono [OF t1]) (simp add: may_wake_def o)
    with False rep 1(2,3) show ?thesis by auto
  next
    case True
    obtain s2 where 2: "wakeup (Some (ProcChan k)) s1 = Ok s2" "held b {} w s2" "next_pid s2 = next_pid s1"
        "table (\<lambda>_. woken (Some (ProcChan k))) s1 s2"
      using wakeup_ok [OF 1(2)] by blast
    have "table (\<lambda>_ p q. may_wake p q \<and> parent q = adopt (initproc s) i (parent p) \<and>
        (\<forall>k. orphans s i k \<and> pstate q = Sleeping \<longrightarrow> chan p \<noteq> Some (ProcChan k))) s s2"
      by (rule table_trans [OF t1 2(4)]) (auto simp: may_wake_def woken_def o split: if_splits)
    with 2 rep 1(3) True show ?thesis by auto
  qed
qed

definition exited :: "nat \<Rightarrow> kernel \<Rightarrow> kernel \<Rightarrow> bool" where
  "exited i s s' \<longleftrightarrow> next_pid s' = next_pid s \<and>
     table (\<lambda>j p q. parent q = adopt (initproc s) i (parent p) \<and>
       (if j = i then pid q = pid p \<and> pstate q = Zombie
        else may_wake p q \<and>
          (pstate q = Sleeping \<longrightarrow> chan p \<noteq> map_option ProcChan (adopt (initproc s) i (parent (procs s ! i))) \<and>
             (\<forall>k. orphans s i k \<longrightarrow> chan p \<noteq> Some (ProcChan k))))) (s\<lparr>cur := None\<rparr>) s'"

text \<open>From taking \<open>WAIT_LOCK\<close> to waking the parent.\<close>

lemma exit_wakes:
  assumes h: "held b {} False s" and c: "cur s = Some i" and i: "i < NPROC" and 1: "close_open_files i s = Ok s1"
  shows "\<exists>s2 s3 s4. wait_acquire s1 = Ok s2 \<and> reparent i s2 = Ok s3 \<and> wakeup (map_option ProcChan (parent (procs s3 ! i))) s3 = Ok s4 \<and>
    held b {} True s4 \<and> next_pid s4 = next_pid s \<and>
    table (\<lambda>_ p q. may_wake p q \<and> parent q = adopt (initproc s) i (parent p) \<and>
      (pstate q = Sleeping \<longrightarrow> chan p \<noteq> map_option ProcChan (adopt (initproc s) i (parent (procs s ! i))) \<and>
         (\<forall>k. orphans s i k \<longrightarrow> chan p \<noteq> Some (ProcChan k)))) s s4"
proof -
  have q: "held b {} False s1 \<and> quiet s s1"
    by (rule foldE_quiet [OF close_fd_ok [OF _ i] h 1 [unfolded close_open_files_def]])
  then obtain s2 where 2: "wait_acquire s1 = Ok s2" "held b {} True s2" "frame s1 s2" using wait_acquire_ok by blast
  have q2: "quiet s s2" using quiet_trans q frame_quiet [OF 2(3)] by blast
  obtain s3 where 3: "reparent i s2 = Ok s3" "held b {} True s3" "next_pid s3 = next_pid s2"
      "table (\<lambda>_ p q. may_wake p q \<and> parent q = adopt (initproc s2) i (parent p) \<and>
        (\<forall>k. orphans s2 i k \<and> pstate q = Sleeping \<longrightarrow> chan p \<noteq> Some (ProcChan k))) s2 s3"
    using reparent_ok [OF 2(2)] by blast
  let ?c = "map_option ProcChan (parent (procs s3 ! i))"
  obtain s4 where 4: "wakeup ?c s3 = Ok s4" "held b {} True s4" "next_pid s4 = next_pid s3" "table (\<lambda>_. woken ?c) s3 s4"
    using wakeup_ok [OF 3(2)] by blast
  have len: "length (procs s) = NPROC" "length (procs s2) = NPROC" using heldD(1) h 2(2) by blast+
  have par: "parent (procs s2 ! j) = parent (procs s ! j)" if "j < NPROC" for j
    using q2 that len by (auto simp: table_def io_woken_def)
  have ini: "initproc s2 = initproc s" using q2 by (auto simp: table_def)
  have o: "orphans s2 i k = orphans s i k" for k using par by (auto simp: orphans_def ini)
  have pc: "parent (procs s3 ! i) = adopt (initproc s) i (parent (procs s ! i))"
    using 3(4) i len(2) par [OF i] by (simp add: table_def ini)
  have "table (\<lambda>_ p q. may_wake p q \<and> parent q = adopt (initproc s) i (parent p) \<and>
      (\<forall>k. orphans s i k \<and> pstate q = Sleeping \<longrightarrow> chan p \<noteq> Some (ProcChan k))) s s3"
    by (rule table_trans [OF conjunct1 [OF q2] 3(4)]) (auto simp: io_woken_def may_wake_def o ini)
  then have "table (\<lambda>_ p q. may_wake p q \<and> parent q = adopt (initproc s) i (parent p) \<and>
      (pstate q = Sleeping \<longrightarrow> chan p \<noteq> ?c \<and> (\<forall>k. orphans s i k \<longrightarrow> chan p \<noteq> Some (ProcChan k)))) s s4"
    by (rule table_trans [OF _ 4(4)]) (auto simp: may_wake_def woken_def split: if_splits)
  moreover have "next_pid s4 = next_pid s" using 4(3) 3(3) q2 by simp
  ultimately show ?thesis using 2(1) 3(1) 4(1,2) unfolding pc [symmetric]
    by (intro exI [of _ s2] exI [of _ s3] exI [of _ s4] conjI)
qed

text \<open>From taking its own lock to giving up the hart.\<close>

lemma exit_leaves:
  assumes h: "held b {} True s" and c: "cur s = Some i" and i: "i < NPROC"
  shows "\<exists>s5 s7 s'. plock_acquire i s = Ok s5 \<and> wait_release (upd_proc i (\<lambda>p. p\<lparr>xstate := code, pstate := Zombie\<rparr>) s5) = Ok s7 \<and>
    sched s7 = Ok (b, s') \<and> held b {} False s' \<and> xstate (procs s' ! i) = code \<and> only i (in_state Zombie) (s\<lparr>cur := None\<rparr>) s'"
proof -
  obtain s5 where 5: "plock_acquire i s = Ok s5" "held b {i} True s5" "frame s s5" using plock_acquire_ok [OF h i] by auto
  let ?s6 = "upd_proc i (\<lambda>p. p\<lparr>xstate := code, pstate := Zombie\<rparr>) s5"
  have l5: "i < length (procs s5)" using heldD(1) [OF 5(2)] i by simp
  have h6: "held b {i} True ?s6" by (rule upd_held [OF 5(2) i]) simp
  have o6: "only i (in_state Zombie) s ?s6" by (rule only_upd [OF 5(3) l5]) (simp add: in_state_def same_info_def)
  obtain s7 where 7: "wait_release ?s6 = Ok s7" "held b {i} False s7" "frame ?s6 s7" using wait_release_ok [OF h6] by blast
  have o7: "only i (in_state Zombie) s s7" by (rule only_frame [OF o6 7(3)]) (simp add: in_state_def same_info_def)
  have cz: "cur s7 = Some i" "pstate (procs s7 ! i) = Zombie"
    using o7 c i heldD(1) [OF h] by (auto simp: table_def in_state_def)
  then obtain s8 where 8: "sched s7 = Ok (b, s8)" "held b {} False s8" "frame (s7\<lparr>cur := None\<rparr>) s8"
    using sched_ok [OF 7(2)] by auto
  have "procs s7 = procs ?s6" using 7(1) by (auto simp: wait_release_def bindE_Ok_iff)
  then have "xstate (procs s7 ! i) = code" using l5 by (simp add: upd_proc_def set_proc_def)
  moreover have "xstate (procs s8 ! i) = xstate (procs s7 ! i)"
    using 8(1) cz(1) i heldD(1) [OF 7(2)]
    by (auto simp: sched_def myproc_def plock_release_def upd_proc_def set_proc_def bindE_Ok_iff Let_def split: if_splits)
  moreover have "only i (in_state Zombie) (s\<lparr>cur := None\<rparr>) s8"
    by (rule only_frame [OF only_cur [OF o7] 8(3)]) (simp add: in_state_def same_info_def)
  ultimately show ?thesis using 5(1) 7(1) 8(1,2) by auto
qed

lemma exit_total:
  assumes h: "held b {} False s" and c: "cur s = Some i" and i: "i < NPROC" and 1: "close_open_files i s = Ok s1"
  shows "\<exists>s'. exit code s = Ok s' \<and> held b {} False s' \<and> exited i s s' \<and> xstate (procs s' ! i) = code"
proof -
  let ?P = "\<lambda>p q. may_wake p q \<and> parent q = adopt (initproc s) i (parent p) \<and>
      (pstate q = Sleeping \<longrightarrow> chan p \<noteq> map_option ProcChan (adopt (initproc s) i (parent (procs s ! i))) \<and>
         (\<forall>k. orphans s i k \<longrightarrow> chan p \<noteq> Some (ProcChan k)))"
  obtain s2 s3 s4 where 4: "wait_acquire s1 = Ok s2" "reparent i s2 = Ok s3" "wakeup (map_option ProcChan (parent (procs s3 ! i))) s3 = Ok s4"
      "held b {} True s4" "next_pid s4 = next_pid s" "table (\<lambda>_. ?P) s s4"
    using exit_wakes [OF assms] by blast
  have c4: "cur s4 = Some i" using 4(6) c by (simp add: table_def)
  obtain s5 s7 s' where 8: "plock_acquire i s4 = Ok s5" "wait_release (upd_proc i (\<lambda>p. p\<lparr>xstate := code, pstate := Zombie\<rparr>) s5) = Ok s7"
      "sched s7 = Ok (b, s')" "held b {} False s'" "xstate (procs s' ! i) = code" "only i (in_state Zombie) (s4\<lparr>cur := None\<rparr>) s'"
    using exit_leaves [OF 4(4) c4 i] by blast
  have t4: "table (\<lambda>_. ?P) (s\<lparr>cur := None\<rparr>) (s4\<lparr>cur := None\<rparr>)" using 4(6) by (simp add: table_def)
  have "next_pid s' = next_pid s" using 8(6) 4(5) by simp
  then have "exited i s s'"
    unfolding exited_def
    by (intro conjI table_trans [OF t4 conjunct1 [OF 8(6)]])
      (auto simp: may_wake_def in_state_def same_info_def split: if_splits)
  moreover have "exit code s = Ok s'" using c 1 4(1-3) 8(1-3) by (simp add: exit_def myproc_def)
  ultimately show ?thesis using 8(4,5) by blast
qed

lemma exit_ok:
  assumes "held b {} False s" and c: "cur s = Some i" and "i < NPROC" and r: "exit code s = Ok s'"
  shows "held b {} False s'" "exited i s s'"
proof -
  from r c obtain s1 where "close_open_files i s = Ok s1" by (auto simp: exit_def myproc_def bindE_Ok_iff)
  from exit_total [OF assms(1-3) this, of code] r show "held b {} False s'" "exited i s s'" by auto
qed

section \<open>Wait\<close>

definition zombie_child :: "nat \<Rightarrow> Process \<Rightarrow> bool" where
  "zombie_child i p \<longleftrightarrow> parent p = Some i \<and> pstate p = Zombie"

definition reaped :: "nat \<Rightarrow> kernel \<Rightarrow> kernel \<Rightarrow> bool" where
  "reaped i s s' \<longleftrightarrow> (\<exists>c < NPROC. zombie_child i (procs s ! c) \<and> only c (\<lambda>_. freed_slot) s s')"

text \<open>The end of a scan: a child was reaped and \<open>WAIT_LOCK\<close> released, the exit status could not be copied and
  \<open>WAIT_LOCK\<close> is still held, or there is no zombie among the children.\<close>

definition scan_result :: "bool \<Rightarrow> nat \<Rightarrow> nat list \<Rightarrow> bool \<Rightarrow> kernel \<Rightarrow> wait_scan \<Rightarrow> kernel \<Rightarrow> bool" where
  "scan_result b i cs hc s r s' \<longleftrightarrow> (case r of
     Reaped v \<Rightarrow> held b {} False s' \<and> reaped i s s' \<or> held b {} True s' \<and> frame s s' \<and> v = -1 \<and> (\<exists>c < NPROC. zombie_child i (procs s ! c))
   | Scanned hc' \<Rightarrow> held b {} True s' \<and> frame s s' \<and> (hc' \<longleftrightarrow> hc \<or> (\<exists>c \<in> set cs. parent (procs s ! c) = Some i)) \<and>
       (\<forall>c \<in> set cs. \<not> zombie_child i (procs s ! c)))"

lemma frame_nth: "frame s s' \<Longrightarrow> j < length (procs s) \<Longrightarrow> same_info (procs s ! j) (procs s' ! j)"
  by (simp add: table_def)

lemma zombie_child_info: "same_info p q \<Longrightarrow> zombie_child i q = zombie_child i p"
  by (simp add: zombie_child_def same_info_def)

lemma reap_ok:
  assumes h: "held b {c} True s" and f: "freeproc c s = Ok s2" and "plock_release c s2 = Ok s3" and "wait_release s3 = Ok s'"
  shows "held b {} False s' \<and> only c (\<lambda>_. freed_slot) s s'"
proof -
  note fp = freeproc_ok [OF h _ f, simplified]
  have o2: "only c (\<lambda>_. freed_slot) s s2" using fp(2,3) by simp
  have h3: "held b {} True s3" "frame s2 s3" using plock_release_ok [OF fp(1), of c] assms(3) by auto
  then have h4: "held b {} False s'" "frame s3 s'" using wait_release_ok [OF h3(1)] assms(4) by auto
  have "only c (\<lambda>_. freed_slot) s s'"
    by (rule only_frame [OF o2 frame_trans [OF h3(2) h4(2)]]) (simp add: freed_slot_def same_info_def)
  with h4(1) show ?thesis by blast
qed

lemma wait_zombie_ok:
  assumes 1: "plock_acquire c s = Ok s1" "held b {c} True s1" "frame s s1" and c: "c < NPROC" and len: "length (procs s) = NPROC"
    and zom: "zombie_child i (procs s1 ! c)" and r: "wait_loop i va (c # cs) hc s = Ok (r, s')"
  shows "scan_result b i (c # cs) hc s r s'"
proof -
  let ?p = "procs s1 ! c"
  from r zom 1(1) obtain ok m where
    2: "(if va \<noteq> 0 then copyout (pagetable (procs s1 ! i)) va (le_of_word (xstate ?p)) (km s1) else Ok (True, km s1)) = Ok (ok, m)"
    by (auto simp: zombie_child_def Let_def bindE_Ok_iff)
  have h2: "held b {c} True (s1\<lparr>km := m\<rparr>)" "frame s (s1\<lparr>km := m\<rparr>)" using 1(2,3) by simp_all
  have "same_info (procs s ! c) ?p" using frame_nth [OF 1(3)] c len by simp
  then have z: "zombie_child i (procs s ! c)" using zom zombie_child_info by blast
  show ?thesis
  proof (cases ok)
    case False
    obtain s3 where "plock_release c (s1\<lparr>km := m\<rparr>) = Ok s3" "held b ({c} - {c}) True s3" "frame (s1\<lparr>km := m\<rparr>) s3"
      using plock_release_ok [OF h2(1), of c] by blast
    moreover from this have "r = Reaped (-1)" "s' = s3"
      using r zom 1(1) 2 False by (auto simp: zombie_child_def Let_def bindE_Ok_iff)
    ultimately show ?thesis using frame_trans [OF h2(2)] z c by (auto simp: scan_result_def)
  next
    case True
    with r zom 1(1) 2 obtain s3 s4 v where
      3: "freeproc c (s1\<lparr>km := m\<rparr>) = Ok s3" "plock_release c s3 = Ok s4" "wait_release s4 = Ok s'" "r = Reaped v"
      by (auto simp: zombie_child_def Let_def bindE_Ok_iff)
    note o = reap_ok [OF h2(1) 3(1-3)]
    have "table (\<lambda>j p q. if j = c then freed_slot q else same_info p q) s s'"
      by (rule frame_then [OF h2(2) conjunct1 [OF conjunct2 [OF o]]]) (auto simp: same_info_def split: if_splits)
    moreover have "next_pid s' = next_pid s" using o h2(2) by simp
    ultimately have "reaped i s s'" unfolding reaped_def using z c by blast
    then show ?thesis using o by (simp add: scan_result_def 3(4))
  qed
qed

lemma wait_loop_ok:
  assumes "held b {} True s" and "set cs \<subseteq> {..<NPROC}" and "wait_loop i va cs hc s = Ok (r, s')"
  shows "scan_result b i cs hc s r s'"
  using assms
proof (induction cs arbitrary: s hc)
  case Nil
  then show ?case using frame_refl by (auto simp: scan_result_def)
next
  case (Cons c cs)
  have c: "c < NPROC" using Cons.prems(2) by simp
  obtain s1 where 1: "plock_acquire c s = Ok s1" "held b {c} True s1" "frame s s1" using plock_acquire_ok [OF Cons.prems(1) c] by auto
  have len: "length (procs s) = NPROC" by (rule heldD(1) [OF Cons.prems(1)])
  let ?p = "procs s1 ! c"
  have p: "same_info (procs s ! c) ?p" using frame_nth [OF 1(3)] c len by simp
  show ?case
  proof (cases "zombie_child i ?p")
    case False
    obtain s2 where 2: "plock_release c s1 = Ok s2" "held b ({c} - {c}) True s2" "frame s1 s2" using plock_release_ok [OF 1(2), of c] by blast
    have fr: "frame s s2" by (rule frame_trans [OF 1(3) 2(3)])
    have "wait_loop i va cs (hc \<or> parent ?p = Some i) s2 = Ok (r, s')"
      using Cons.prems(3) False 1(1) 2(1) by (auto simp: zombie_child_def)
    then have ih: "scan_result b i cs (hc \<or> parent ?p = Some i) s2 r s'" using 2(2) Cons.prems(2) by (intro Cons.IH) auto
    have si: "same_info (procs s ! d) (procs s2 ! d)" if "d < NPROC" for d using frame_nth [OF fr] that len by simp
    have z: "zombie_child i (procs s2 ! d) = zombie_child i (procs s ! d)" "parent (procs s2 ! d) = parent (procs s ! d)" if "d < NPROC" for d
      using zombie_child_info [OF si [OF that]] si [OF that] by (simp_all add: same_info_def)
    have cs: "d < NPROC" if "d \<in> set cs" for d using that Cons.prems(2) by auto
    show ?thesis
    proof (cases r)
      case (Reaped v)
      have "reaped i s s'" if rp: "reaped i s2 s'"
      proof -
        obtain d where d: "d < NPROC" "zombie_child i (procs s2 ! d)" "only d (\<lambda>_. freed_slot) s2 s'" using rp by (auto simp: reaped_def)
        have "table (\<lambda>j p q. if j = d then freed_slot q else same_info p q) s s'"
          by (rule frame_then [OF fr conjunct1 [OF d(3)]]) (auto simp: same_info_def split: if_splits)
        moreover have "next_pid s' = next_pid s" using d(3) fr by simp
        ultimately show ?thesis unfolding reaped_def using d(1,2) z(1) [OF d(1)] by blast
      qed
      moreover have "\<exists>c < NPROC. zombie_child i (procs s ! c)" if "\<exists>c < NPROC. zombie_child i (procs s2 ! c)" using that z(1) by blast
      ultimately show ?thesis using ih frame_trans [OF fr] unfolding scan_result_def Reaped wait_scan.case by blast
    next
      case (Scanned hc')
      have "\<not> zombie_child i (procs s ! c)" using False zombie_child_info [OF p] by simp
      moreover have "parent ?p = parent (procs s ! c)" using p by (simp add: same_info_def)
      ultimately show ?thesis using ih z cs frame_trans [OF fr] unfolding scan_result_def Scanned by auto
    qed
  next
    case True
    from wait_zombie_ok [OF 1(1-3) c len True Cons.prems(3)] show ?thesis .
  qed
qed

definition wait_result :: "bool \<Rightarrow> nat \<Rightarrow> kernel \<Rightarrow> (int, bool) outcome \<Rightarrow> kernel \<Rightarrow> bool" where
  "wait_result b i s out s' \<longleftrightarrow> (case out of
     Done v \<Rightarrow> held b {} False s' \<and> (frame s s' \<or> reaped i s s') \<or> held b {} True s' \<and> frame s s' \<and> v = -1
   | Sleep ch ie \<Rightarrow> held b {} False s' \<and> only i (asleep (ProcChan i)) (s\<lparr>cur := None\<rparr>) s' \<and>
       (\<exists>c < NPROC. parent (procs s ! c) = Some i) \<and> (\<forall>c < NPROC. \<not> zombie_child i (procs s ! c)))"

lemma wait_turn_ok:
  assumes h: "held b {} True s" and c: "cur s = Some i" and i: "i < NPROC" and r: "wait_turn va s = Ok (out, s')"
  shows "wait_result b i s out s'"
proof -
  from r c obtain sc s1 where 1: "wait_loop i va [0..<NPROC] False s = Ok (sc, s1)"
    by (auto simp: wait_turn_def myproc_def bindE_Ok_iff)
  have "set [0..<NPROC] \<subseteq> {..<NPROC}" by auto
  note sr = wait_loop_ok [OF h this 1]
  show ?thesis
  proof (cases sc)
    case (Reaped v)
    then have "out = Done v" "s' = s1" using r c 1 by (simp_all add: wait_turn_def myproc_def)
    then show ?thesis using sr Reaped by (auto simp: scan_result_def wait_result_def)
  next
    case (Scanned hc)
    then have s1: "held b {} True s1" "frame s s1" "hc \<longleftrightarrow> (\<exists>c < NPROC. parent (procs s ! c) = Some i)"
        "\<forall>c < NPROC. \<not> zombie_child i (procs s ! c)"
      using sr by (auto simp: scan_result_def)
    show ?thesis
    proof (cases hc)
      case False
      obtain s2 where 2: "wait_release s1 = Ok s2" "held b {} False s2" "frame s1 s2" using wait_release_ok [OF s1(1)] by blast
      have "out = Done (-1)" "s' = s2" using r c 1 Scanned False 2(1) by (simp_all add: wait_turn_def myproc_def)
      then show ?thesis using 2(2) frame_trans [OF s1(2) 2(3)] by (simp add: wait_result_def)
    next
      case True
      have "cur s1 = Some i" using c s1(2) by (simp add: table_def)
      from sleep_ok [OF s1(1) this i wait_release_ok, of "ProcChan i"] obtain s2 where
        2: "sleep (ProcChan i) wait_release s1 = Ok (b, s2)" "held b {} False s2" "only i (asleep (ProcChan i)) (s1\<lparr>cur := None\<rparr>) s2"
        by blast
      have "table (\<lambda>j p q. if j = i then asleep (ProcChan i) p q else same_info p q) (s\<lparr>cur := None\<rparr>) s2"
        by (rule frame_then [OF frame_cur [OF s1(2)] conjunct1 [OF 2(3)]]) (auto simp: asleep_def same_info_def split: if_splits)
      moreover have "next_pid s2 = next_pid s" using 2(3) s1(2) by simp
      moreover have "out = Sleep (ProcChan i) b" "s' = s2" using r c 1 Scanned True 2(1) by (simp_all add: wait_turn_def myproc_def)
      ultimately show ?thesis using 2(2) s1(3,4) True by (simp add: wait_result_def)
    qed
  qed
qed

lemma wait_ok:
  assumes h: "held b {} False s" and c: "cur s = Some i" and i: "i < NPROC" and r: "wait va s = Ok (out, s')"
  shows "\<exists>s1. frame s s1 \<and> wait_result b i s1 out s'"
proof -
  obtain s1 where 1: "wait_acquire s = Ok s1" "held b {} True s1" "frame s s1" using wait_acquire_ok [OF h] by blast
  have "cur s1 = Some i" "wait_turn va s1 = Ok (out, s')" using r c 1(1,3) by (auto simp: wait_def myproc_def table_def)
  from wait_turn_ok [OF 1(2) this(1) i this(2)] 1(3) show ?thesis by blast
qed

lemma wait_resume_ok:
  assumes h: "held b {i} False s" and c: "cur s = Some i" and i: "i < NPROC" and r: "wait_resume va ie s = Ok (out, s')"
  shows "\<exists>s1. only i off_chan s s1 \<and> wait_result ie i s1 out s'"
proof -
  obtain s1 where 1: "sleep_resume wait_acquire ie s = wait_acquire s1" "held ie {} False s1" "only i off_chan s s1"
    using sleep_resume_ok [OF h c] by blast
  obtain s2 where 2: "wait_acquire s1 = Ok s2" "held ie {} True s2" "frame s1 s2" using wait_acquire_ok [OF 1(2)] by blast
  have o: "only i off_chan s s2" by (rule only_frame [OF 1(3) 2(3)]) (simp add: off_chan_def same_info_def)
  then have "cur s2 = Some i" using c by (simp add: table_def)
  moreover have "wait_turn va s2 = Ok (out, s')" using r 1(1) 2(1) by (simp add: wait_resume_def)
  ultimately show ?thesis using wait_turn_ok [OF 2(2) _ i] o by blast
qed

section \<open>The machine\<close>

text \<open>
  The end of a part of \<open>wait\<close>: the process sleeps, or the system call returns with its result in \<open>a0\<close> and
  the process goes back to user mode, which panics unless every lock is free.
\<close>

inductive wait_end :: "nat \<Rightarrow> (int, bool) outcome \<Rightarrow> kernel \<Rightarrow> kernel \<Rightarrow> bool" for i where
  asleep: "wait_end i (Sleep ch ie) s s"
| back_to_user: "usertrapret te (set_a0 i v s) = Ok (u, s') \<Longrightarrow> wait_end i (Done v) s s'"

inductive_cases wait_endE: "wait_end i out s s'"

text \<open>What a process does when it has got the hart.\<close>

inductive resume :: "kernel \<Rightarrow> kernel \<Rightarrow> bool" where
  forkret: "forkret te s = Ok (u, s') \<Longrightarrow> resume s s'"
| yield_resume: "yield_resume ie s = Ok s' \<Longrightarrow> resume s s'"
| sleep_resume: "sleep_resume Ok ie s = Ok s' \<Longrightarrow> resume s s'"
| wait_resume: "cur s = Some i \<Longrightarrow> wait_resume va ie s = Ok (out, s1) \<Longrightarrow> wait_end i out s1 s' \<Longrightarrow> resume s s'"

text \<open>
  The running process forks, exits, waits, yields, sleeps on a pipe or the console, works on files,
  memory and its address space, or goes back to user mode; sleepers on pipes and the console are woken; the
  scheduler gives the hart to a process, which continues where it gave the hart up.  A part of the code
  that panics is not a step: the kernel stops there.  The first argument is the number of calls of
  \<open>fork\<close> in the step.
\<close>

inductive pstep :: "nat \<Rightarrow> kernel \<Rightarrow> kernel \<Rightarrow> bool" where
  fork: "cur s \<noteq> None \<Longrightarrow> fork s = Ok (r, s') \<Longrightarrow> pstep 1 s s'"
| exit: "cur s \<noteq> None \<Longrightarrow> exit code s = Ok s' \<Longrightarrow> pstep 0 s s'"
| wait: "cur s = Some i \<Longrightarrow> wait va s = Ok (out, s1) \<Longrightarrow> wait_end i out s1 s' \<Longrightarrow> pstep 0 s s'"
| yield: "cur s \<noteq> None \<Longrightarrow> yield_cpu s = Ok (ie, s') \<Longrightarrow> pstep 0 s s'"
| io_sleep: "cur s \<noteq> None \<Longrightarrow> io_chan ch \<Longrightarrow> sleep ch Ok s = Ok (ie, s') \<Longrightarrow> pstep 0 s s'"
| io_wake: "io_chan ch \<Longrightarrow> wakeup (Some ch) s = Ok s' \<Longrightarrow> pstep 0 s s'"
| io_work: "frame s s' \<Longrightarrow> map plock (procs s') = map plock (procs s) \<Longrightarrow> hart s' = hart s \<Longrightarrow> wait_lock s' = wait_lock s \<Longrightarrow> pstep 0 s s'"
| user_return: "cur s \<noteq> None \<Longrightarrow> usertrapret te s = Ok (u, s') \<Longrightarrow> pstep 0 s s'"
| run: "cur s = None \<Longrightarrow> i < NPROC \<Longrightarrow> scheduler_pick i s = Ok s1 \<Longrightarrow> cur s1 = Some i \<Longrightarrow> resume s1 s' \<Longrightarrow> pstep 0 s s'"
| pass: "cur s = None \<Longrightarrow> i < NPROC \<Longrightarrow> scheduler_pick i s = Ok s' \<Longrightarrow> cur s' = None \<Longrightarrow> pstep 0 s s'"

text \<open>After \<open>userinit\<close>: process 1, runnable and without a parent, and unused slots; \<open>NEXT_PID\<close>, which started
  at 1, is 2.\<close>

definition booted :: "kernel \<Rightarrow> bool" where
  "booted s \<longleftrightarrow> (\<exists>b. held b {} False s) \<and> cur s = None \<and> next_pid s = 2 \<and>
     (\<exists>k < NPROC. initproc s = Some k \<and> pid (procs s ! k) = 1 \<and>
       (\<forall>i < NPROC. pstate (procs s ! i) = (if i = k then Runnable else Unused) \<and> parent (procs s ! i) = None))"

text \<open>The states that are reached with \<open>n\<close> calls of \<open>fork\<close>.\<close>

inductive preach :: "nat \<Rightarrow> kernel \<Rightarrow> bool" where
  boot: "booted s \<Longrightarrow> preach 0 s"
| step: "preach n s \<Longrightarrow> pstep k s s' \<Longrightarrow> preach (n + k) s'"

end
