(* ===== verification/Proc_Boot.thy ===== *)
theory Proc_Boot
  imports Exec Proc_Protocol
begin

text \<open>
  The machine of \<open>Proc_Protocol\<close> starts where the kernel does: when \<open>userinit\<close> of \<open>src/proc.rs\<close> returns on the
  initial values of the statics, the state is \<open>booted\<close>.
\<close>

definition power_on :: "kernel \<Rightarrow> bool" where
  "power_on s \<longleftrightarrow> procs s = replicate NPROC Process_unused \<and> next_pid s = 1 \<and> wait_lock s = RawSpinlock_new \<and>
     initproc s = None \<and> cur s = None \<and> noff (hart s) = 0"

lemma power_on_held:
  assumes "power_on s"
  shows "held (sie (hart s)) {} False s"
  using assms by (simp add: power_on_def held_def cpu_ok_def Process_unused_def)

lemma expect_Ok_iff: "expect msg r = Ok x \<longleftrightarrow> r = (Some (fst x), snd x)"
  by (cases x; cases r; cases "fst r") (auto simp: expect_def)

text \<open>The slot of the first process, with its lock held.\<close>

definition taken_slot :: "bool \<Rightarrow> nat \<Rightarrow> ProcessState \<Rightarrow> kernel \<Rightarrow> kernel \<Rightarrow> bool" where
  "taken_slot b i st s s' \<longleftrightarrow> i < NPROC \<and> held b {i} False s' \<and> fresh i st None s s'"

lemma taken_upd:
  assumes "taken_slot b i st s s1" and "\<And>p. plock (f p) = plock p \<and> pid (f p) = pid p \<and> chan (f p) = chan p \<and> parent (f p) = parent p"
    and "pstate (f (procs s1 ! i)) = st'"
  shows "taken_slot b i st' s (upd_proc i f s1)"
proof -
  have t: "i < NPROC" "held b {i} False s1" "fresh i st None s s1" using assms(1) by (simp_all add: taken_slot_def)
  have l: "i < length (procs s1)" using heldD(1) [OF t(2)] t(1) by simp
  have "parent (procs s1 ! i) = None" using t(3) l by (auto simp: table_def)
  then have "fresh i st' None s (upd_proc i f s1)" using assms(2,3) by (intro fresh_upd [OF t(3) l]) simp_all
  moreover have "held b {i} False (upd_proc i f s1)" using assms(2) by (intro upd_held [OF t(2,1)]) simp
  ultimately show ?thesis using t(1) by (simp add: taken_slot_def)
qed

lemma taken_more:
  assumes "taken_slot b i st s s1" and "kst.more s2 = kst.more s1"
  shows "taken_slot b i st s s2"
  using assms(1) kst_more_held [OF assms(2)] fresh_frame [OF _ kst_more_frame [OF assms(2)]]
  unfolding taken_slot_def by blast

lemma open_console_more: "open_console rd wr s = (f, s') \<Longrightarrow> kst.more s' = kst.more s"
  by (auto simp: open_console_def file_alloc_def set_file_def split: prod.splits option.splits)

lemma taken_fd:
  assumes "taken_slot b i st s s1" and "expect msg (open_console rd wr s1) = Ok (f, s2)"
  shows "taken_slot b i st s (upd_proc i (set_ofile k (Some f)) s2)"
proof -
  have m: "kst.more s2 = kst.more s1" using assms(2) by (intro open_console_more) (simp add: expect_Ok_iff)
  from taken_more [OF assms(1) m] have t: "taken_slot b i st s s2" .
  have "pstate (procs s2 ! i) = st" using t heldD(1) by (auto simp: taken_slot_def table_def)
  then show ?thesis by (intro taken_upd [OF t]) (simp_all add: set_ofile_def)
qed

lemma userinit_booted:
  assumes p: "power_on s" and r: "userinit elf s = Ok (i, s')"
  shows "booted s'"
proof -
  let ?b = "sie (hart s)" and ?s0 = "s\<lparr>initproc := Some i\<rparr>"
  have h: "held ?b {} False s" by (rule power_on_held [OF p])
  from r obtain s1 where 1: "allocproc s = Ok (Some i, s1)" by (auto simp: userinit_def Let_def bindE_Ok_iff expect_Ok_iff)
  have "set [0..<NPROC] \<subseteq> {..<NPROC}" by auto
  from allocproc_loop_ok [OF h this] 1 have g: "grabbed ?b i None False s s1" by (simp add: allocproc_def alloc_result_def)
  have ini: "initproc s1 = None" using g p by (auto simp: grabbed_def table_def power_on_def)
  let ?s2 = "s1\<lparr>initproc := Some i\<rparr>"
  have t2: "taken_slot ?b i Used ?s0 ?s2" using g by (simp add: grabbed_def taken_slot_def held_def table_def)
  let ?f = "\<lambda>(img :: LoadedImage) p. p\<lparr>sz := im_sz img, pcontext := (pcontext p)\<lparr>c_ra := Code_forkret, c_sp := kstack p + of_nat PGSIZE\<rparr>, pstate := Runnable\<rparr>"
  from r 1 ini obtain img m f0 s4 f1 s5 f2 s6 where
    4: "expect ''userinit: stdin'' (open_console True False (upd_proc i (?f img) (?s2\<lparr>km := m\<rparr>))) = Ok (f0, s4)"
      "expect ''userinit: stdout'' (open_console False True (upd_proc i (set_ofile 0 (Some f0)) s4)) = Ok (f1, s5)"
      "expect ''userinit: stderr'' (open_console False True (upd_proc i (set_ofile (Suc 0) (Some f1)) s5)) = Ok (f2, s6)"
      "plock_release i (upd_proc i (set_ofile 2 (Some f2)) s6) = Ok s'"
    by (auto simp: userinit_def Let_def bindE_Ok_iff)
  have "taken_slot ?b i Used ?s0 (?s2\<lparr>km := m\<rparr>)" using t2 by (simp add: taken_slot_def)
  then have "taken_slot ?b i Runnable ?s0 (upd_proc i (?f img) (?s2\<lparr>km := m\<rparr>))" by (rule taken_upd) simp_all
  from taken_fd [OF taken_fd [OF taken_fd [OF this 4(1)] 4(2)] 4(3)]
  have t: "taken_slot ?b i Runnable ?s0 (upd_proc i (set_ofile 2 (Some f2)) s6)" .
  then have i: "i < NPROC" and h6: "held ?b {i} False (upd_proc i (set_ofile 2 (Some f2)) s6)"
    and f6: "fresh i Runnable None ?s0 (upd_proc i (set_ofile 2 (Some f2)) s6)" by (simp_all add: taken_slot_def)
  from plock_release_ok [OF h6, of i] 4(4) have h': "held ?b {} False s'" "frame (upd_proc i (set_ofile 2 (Some f2)) s6) s'" by auto
  note f = fresh_frame [OF f6 h'(2)]
  have row: "pstate (procs s' ! j) = (if j = i then Runnable else Unused) \<and> parent (procs s' ! j) = None \<and> (j = i \<longrightarrow> pid (procs s' ! j) = 1)"
    if "j < NPROC" for j
    using conjunct1 [OF f] p that by (auto simp: table_def power_on_def same_info_def Process_unused_def split: if_splits)
  show ?thesis
    unfolding booted_def
  proof (intro conjI exI [of _ i])
    show "next_pid s' = 2" using f p by (simp add: power_on_def)
    show "cur s' = None" "initproc s' = Some i" using f p by (simp_all add: table_def power_on_def)
  qed (use h'(1) i row in auto)
qed

end
