(* ===== verification/Syscall.thy ===== *)
theory Syscall
  imports Exec
begin

text \<open>
  System calls, \<open>src/syscall.rs\<close>: the handlers and their dispatch on \<open>a7\<close>.  A handler takes its arguments
  from the trapframe of the running process and returns what goes into \<open>a0\<close>, or \<open>Replaced\<close>.  A handler
  that sleeps leaves what it needs to go on, and \<open>syscall_resume\<close> continues it.  The message
  that is printed for an unknown number is left out.
\<close>

datatype SyscallResult = Return int | Replaced

text \<open>A sleeping call: the file, the buffer and the progress of a read or write, or the status address of a
  wait; and the \<open>intena\<close> that \<open>sched\<close> saves.\<close>

datatype blocked =
    In_read file_ref nat nat "byte list" bool
  | In_write file_ref "byte list" nat bool
  | In_wait nat bool

type_synonym sysout = "((SyscallResult, blocked) outcome \<times> kernel) res"

definition SYSERR :: int where "SYSERR = -1"

definition SYS_FORK :: nat where "SYS_FORK = 1"
definition SYS_EXIT :: nat where "SYS_EXIT = 2"
definition SYS_WAIT :: nat where "SYS_WAIT = 3"
definition SYS_PIPE :: nat where "SYS_PIPE = 4"
definition SYS_READ :: nat where "SYS_READ = 5"
definition SYS_EXEC :: nat where "SYS_EXEC = 7"
definition SYS_FSTAT :: nat where "SYS_FSTAT = 8"
definition SYS_CHDIR :: nat where "SYS_CHDIR = 9"
definition SYS_DUP :: nat where "SYS_DUP = 10"
definition SYS_GETPID :: nat where "SYS_GETPID = 11"
definition SYS_SBRK :: nat where "SYS_SBRK = 12"
definition SYS_OPEN :: nat where "SYS_OPEN = 15"
definition SYS_WRITE :: nat where "SYS_WRITE = 16"
definition SYS_MKDIR :: nat where "SYS_MKDIR = 20"
definition SYS_CLOSE :: nat where "SYS_CLOSE = 21"

definition O_WRONLY :: u64 where "O_WRONLY = 0x001"
definition O_RDWR :: u64 where "O_RDWR = 0x002"
definition O_CREATE :: u64 where "O_CREATE = 0x200"
definition O_TRUNC :: u64 where "O_TRUNC = 0x400"
definition O_APPEND :: u64 where "O_APPEND = 0x800"

definition ret :: "int \<Rightarrow> kernel \<Rightarrow> sysout" where
  "ret v s = Ok (Done (Return v), s)"

definition arg :: "nat \<Rightarrow> nat \<Rightarrow> kernel \<Rightarrow> u64" where
  "arg i off s = tf_get (trapframe (procs s ! i)) off (km s)"

section \<open>Descriptors\<close>

definition fdalloc :: "nat \<Rightarrow> file_ref \<Rightarrow> kernel \<Rightarrow> nat option \<times> kernel" where
  "fdalloc i f s =
     (case find_slot (\<lambda>x. x = None) (ofile (procs s ! i)) of
        Some fd \<Rightarrow> (Some fd, upd_proc i (set_ofile fd (Some f)) s)
      | None \<Rightarrow> (None, s))"

text \<open>The open file of a descriptor the user passes.\<close>

definition fd_file :: "nat \<Rightarrow> nat \<Rightarrow> kernel \<Rightarrow> file_ref option" where
  "fd_file i fd s = (if NOFILE \<le> fd then None else ofile (procs s ! i) ! fd)"

definition sys_dup :: "nat \<Rightarrow> kernel \<Rightarrow> sysout" where
  "sys_dup i s =
     (case fd_file i (unat (arg i tf_a0 s)) s of
        None \<Rightarrow> ret SYSERR s
      | Some f \<Rightarrow>
          (case fdalloc i f s of
             (None, s) \<Rightarrow> ret SYSERR s
           | (Some fd, s) \<Rightarrow> bindE (file_dup f s) (\<lambda>s. ret (int fd) s)))"

definition sys_close :: "nat \<Rightarrow> kernel \<Rightarrow> sysout" where
  "sys_close i s =
     (let fd = unat (arg i tf_a0 s) in
      case fd_file i fd s of
        None \<Rightarrow> ret SYSERR s
      | Some f \<Rightarrow> bindE (kclose f (upd_proc i (set_ofile fd None) s)) (\<lambda>s. ret 0 s))"

section \<open>Reading and writing\<close>

text \<open>The checks both calls make on the buffer.\<close>

definition bad_buffer :: "nat \<Rightarrow> nat \<Rightarrow> bool" where
  "bad_buffer buf len \<longleftrightarrow> 2 ^ 63 - 1 < len \<or> 2 ^ 64 \<le> buf + len \<or> MAXVA < buf + len"

definition write_part :: "nat \<Rightarrow> file_ref \<Rightarrow> byte list \<Rightarrow> write_result \<times> chan list \<times> kernel \<Rightarrow> sysout" where
  "write_part i f chunk r =
     (let (out, ws, s) = r in
      bindE (wakeup_all ws s) (\<lambda>s.
      case out of
        Done nw \<Rightarrow> if nw < 0 then ret SYSERR s else if nw = 0 then ret SYSERR s else ret nw s
      | Sleep c n \<Rightarrow> bindE (sleep c Ok s) (\<lambda>(ie, s). Ok (Sleep c (In_write f chunk n ie), s))))"

definition sys_write :: "nat \<Rightarrow> kernel \<Rightarrow> sysout" where
  "sys_write i s =
     (let buf = unat (arg i tf_a1 s); len = unat (arg i tf_a2 s) in
      case fd_file i (unat (arg i tf_a0 s)) s of
        None \<Rightarrow> ret SYSERR s
      | Some f \<Rightarrow>
          if \<not> writable (ftable s ! f) then ret SYSERR s
          else if len = 0 then ret 0 s
          else if bad_buffer buf len then ret SYSERR s
          else
            bindE (copyin (pagetable (procs s ! i)) (min 128 len) buf (km s)) (\<lambda>r.
            case r of
              None \<Rightarrow> ret SYSERR s
            | Some chunk \<Rightarrow> bindE (file_write f chunk s) (write_part i f chunk)))"

definition read_part :: "nat \<Rightarrow> file_ref \<Rightarrow> nat \<Rightarrow> nat \<Rightarrow> read_result \<times> chan list \<times> kernel \<Rightarrow> sysout" where
  "read_part i f cap buf r =
     (let (out, ws, s) = r in
      bindE (wakeup_all ws s) (\<lambda>s.
      case out of
        Done (nr, bs) \<Rightarrow>
          if nr < 0 then ret SYSERR s
          else
            bindE (copyout (pagetable (procs s ! i)) buf bs (km s)) (\<lambda>(ok, m).
            let s = s\<lparr>km := m\<rparr> in
            if \<not> ok then ret SYSERR s else ret nr s)
      | Sleep c acc \<Rightarrow> bindE (sleep c Ok s) (\<lambda>(ie, s). Ok (Sleep c (In_read f cap buf acc ie), s))))"

definition sys_read :: "nat \<Rightarrow> kernel \<Rightarrow> sysout" where
  "sys_read i s =
     (let buf = unat (arg i tf_a1 s); len = unat (arg i tf_a2 s) in
      case fd_file i (unat (arg i tf_a0 s)) s of
        None \<Rightarrow> ret SYSERR s
      | Some f \<Rightarrow>
          if \<not> readable (ftable s ! f) then ret SYSERR s
          else if len = 0 then ret 0 s
          else if bad_buffer buf len then ret SYSERR s
          else
            (let cap = min 128 len in
             bindE (file_read f cap s) (read_part i f cap buf)))"

text \<open>The bytes of \<open>Stat\<close>, with the two holes of the layout; what they hold is not determined by the code.\<close>

definition stat_bytes :: "byte list \<Rightarrow> byte list \<Rightarrow> stat \<Rightarrow> byte list" where
  "stat_bytes pad1 pad2 st =
     le_of_word (st_typ st) @ pad1 @ le_of_word (st_ino st) @ le_of_word (st_nlink st) @ pad2 @ le_of_word (st_size st)"

definition sys_fstat :: "byte list \<Rightarrow> byte list \<Rightarrow> nat \<Rightarrow> kernel \<Rightarrow> sysout" where
  "sys_fstat pad1 pad2 i s =
     (case fd_file i (unat (arg i tf_a0 s)) s of
        None \<Rightarrow> ret SYSERR s
      | Some f \<Rightarrow>
          bindE (file_stat f s) (\<lambda>(r, s).
          case r of
            None \<Rightarrow> ret SYSERR s
          | Some st \<Rightarrow>
              bindE (copyout (pagetable (procs s ! i)) (unat (arg i tf_a1 s)) (stat_bytes pad1 pad2 st) (km s)) (\<lambda>(ok, m).
              ret (if ok then 0 else SYSERR) (s\<lparr>km := m\<rparr>))))"

section \<open>Pipes\<close>

definition pipe_file :: "bool \<Rightarrow> pipe_ref \<Rightarrow> file_ref \<Rightarrow> kernel \<Rightarrow> kernel" where
  "pipe_file wr p f s = set_file f ((ftable s ! f)\<lparr>readable := \<not> wr, writable := wr, kind := KPipe p\<rparr>) s"

definition close_both :: "file_ref \<Rightarrow> file_ref \<Rightarrow> kernel \<Rightarrow> sysout" where
  "close_both rdf wrf s = bindE (kclose rdf s) (\<lambda>s. bindE (kclose wrf s) (\<lambda>s. ret SYSERR s))"

definition sys_pipe :: "nat \<Rightarrow> kernel \<Rightarrow> sysout" where
  "sys_pipe i s =
     (case pipe_alloc (pipes s) of
        (None, ps) \<Rightarrow> ret SYSERR (s\<lparr>pipes := ps\<rparr>)
      | (Some p, ps) \<Rightarrow>
          (case file_alloc (s\<lparr>pipes := ps\<rparr>) of
             (None, s) \<Rightarrow> ret SYSERR (s\<lparr>pipes := pipe_free_allocated p (pipes s)\<rparr>)
           | (Some rdf, s) \<Rightarrow>
               (case file_alloc s of
                  (None, s) \<Rightarrow>
                    bindE (kclose rdf s) (\<lambda>s. ret SYSERR (s\<lparr>pipes := pipe_free_allocated p (pipes s)\<rparr>))
                | (Some wrf, s) \<Rightarrow>
                    (case fdalloc i rdf (pipe_file True p wrf (pipe_file False p rdf s)) of
                       (None, s) \<Rightarrow> close_both rdf wrf s
                     | (Some rfd, s) \<Rightarrow>
                         (case fdalloc i wrf s of
                            (None, s) \<Rightarrow> close_both rdf wrf (upd_proc i (set_ofile rfd None) s)
                          | (Some wfd, s) \<Rightarrow>
                              bindE (copyout (pagetable (procs s ! i)) (unat (arg i tf_a0 s))
                                (le_of_word (of_nat rfd :: u32) @ le_of_word (of_nat wfd :: u32)) (km s)) (\<lambda>(ok, m).
                              let s = s\<lparr>km := m\<rparr> in
                              if \<not> ok then
                                close_both rdf wrf (upd_proc i (set_ofile wfd None) (upd_proc i (set_ofile rfd None) s))
                              else ret 0 s))))))"

section \<open>Files\<close>

text \<open>The path a call is given; the buffer has 128 bytes.\<close>

definition user_path :: "nat \<Rightarrow> kernel \<Rightarrow> byte list option res" where
  "user_path i s = copyinstr (pagetable (procs s ! i)) 128 (unat (arg i tf_a0 s)) (km s)"

definition open_kind :: "InodeType \<Rightarrow> inode_ref \<Rightarrow> bool \<Rightarrow> file_ref \<Rightarrow> openfile \<Rightarrow> kernel \<Rightarrow> kernel res" where
  "open_kind typ inode app f fl s =
     (case typ of
        InodeType.File \<Rightarrow> Ok (set_file f (fl\<lparr>kind := KInode inode 0 app\<rparr>) s)
      | Device major \<Rightarrow> iput inode (set_file f (fl\<lparr>kind := KDevice major\<rparr>) s)
      | Dir \<Rightarrow> Ok (set_file f (fl\<lparr>kind := KInode inode 0 False\<rparr>) s))"

definition sys_open :: "nat \<Rightarrow> kernel \<Rightarrow> sysout" where
  "sys_open i s =
     bindE (user_path i s) (\<lambda>r.
     case r of
       None \<Rightarrow> ret SYSERR s
     | Some path \<Rightarrow>
         let flags = arg i tf_a1 s; dir = cwd (procs s ! i) in
         bindE (if flags AND O_CREATE \<noteq> 0 then create dir path s else namei dir path s) (\<lambda>(r, s).
         case r of
           None \<Rightarrow> ret SYSERR s
         | Some inode \<Rightarrow>
             bindE (inode_type inode s) (\<lambda>(typ, s).
             let rd = (flags AND O_WRONLY = 0);
                 wr = (flags AND (O_WRONLY OR O_RDWR) \<noteq> 0);
                 truncate = (flags AND O_TRUNC \<noteq> 0) in
             if typ = Dir \<and> wr then bindE (iput inode s) (\<lambda>s. ret SYSERR s)
             else if truncate \<and> (typ \<noteq> InodeType.File \<or> \<not> wr) then bindE (iput inode s) (\<lambda>s. ret SYSERR s)
             else
               (case file_alloc s of
                  (None, s) \<Rightarrow> bindE (iput inode s) (\<lambda>s. ret SYSERR s)
                | (Some f, s) \<Rightarrow>
                    bindE (open_kind typ inode (flags AND O_APPEND \<noteq> 0) f
                      ((ftable s ! f)\<lparr>readable := rd, writable := wr\<rparr>) s) (\<lambda>s.
                    case fdalloc i f s of
                      (None, s) \<Rightarrow> bindE (kclose f s) (\<lambda>s. ret SYSERR s)
                    | (Some fd, s) \<Rightarrow>
                        bindE (if truncate then trunc inode s else Ok s) (\<lambda>s. ret (int fd) s))))))"

definition sys_mkdir :: "nat \<Rightarrow> kernel \<Rightarrow> sysout" where
  "sys_mkdir i s =
     bindE (user_path i s) (\<lambda>r.
     case r of
       None \<Rightarrow> ret SYSERR s
     | Some path \<Rightarrow>
         bindE (mkdir (cwd (procs s ! i)) path s) (\<lambda>(r, s).
         case r of
           None \<Rightarrow> ret SYSERR s
         | Some inode \<Rightarrow> bindE (iput inode s) (\<lambda>s. ret 0 s)))"

definition sys_chdir :: "nat \<Rightarrow> kernel \<Rightarrow> sysout" where
  "sys_chdir i s =
     bindE (user_path i s) (\<lambda>r.
     case r of
       None \<Rightarrow> ret SYSERR s
     | Some path \<Rightarrow>
         bindE (namei (cwd (procs s ! i)) path s) (\<lambda>(r, s).
         case r of
           None \<Rightarrow> ret SYSERR s
         | Some inode \<Rightarrow>
             bindE (inode_type inode s) (\<lambda>(typ, s).
             if typ = Dir then
               bindE (iput (cwd (procs s ! i)) s) (\<lambda>s. ret 0 (upd_proc i (\<lambda>p. p\<lparr>cwd := inode\<rparr>) s))
             else bindE (iput inode s) (\<lambda>s. ret SYSERR s))))"

section \<open>Processes and memory\<close>

definition sys_fork :: "kernel \<Rightarrow> sysout" where
  "sys_fork s = bindE (fork s) (\<lambda>(r, s). ret (case r of Some n \<Rightarrow> int n | None \<Rightarrow> SYSERR) s)"

definition wait_part :: "nat \<Rightarrow> (int, bool) outcome \<times> kernel \<Rightarrow> sysout" where
  "wait_part va r = (let (out, s) = r in Ok (map_outcome Return (In_wait va) out, s))"

definition sys_wait :: "nat \<Rightarrow> kernel \<Rightarrow> sysout" where
  "sys_wait i s = (let va = unat (arg i tf_a0 s) in bindE (wait va s) (wait_part va))"

definition sys_getpid :: "nat \<Rightarrow> kernel \<Rightarrow> sysout" where
  "sys_getpid i s = ret (int (pid (procs s ! i))) s"

definition sys_sbrk :: "nat \<Rightarrow> kernel \<Rightarrow> sysout" where
  "sys_sbrk i s =
     (let n = sint (arg i tf_a0 s); oldsz = sz (procs s ! i) in
      if n < 0 then ret (-1) s
      else
        (let newsz = oldsz + nat n in
         if 2 ^ 64 \<le> newsz then ret (-1) s
         else if 2 ^ 64 \<le> newsz + (PGSIZE - 1) then ret (-1) s
         else if USER_STACK < page_round_down (newsz + (PGSIZE - 1)) then ret (-1) s
         else
           bindE (uvmalloc (pagetable (procs s ! i)) oldsz newsz (km s)) (\<lambda>(ok, m).
           let s = s\<lparr>km := m\<rparr> in
           if \<not> ok then ret (-1) s
           else ret (int oldsz) (upd_proc i (\<lambda>p. p\<lparr>sz := newsz\<rparr>) s))))"

definition sys_exec :: "nat \<Rightarrow> kernel \<Rightarrow> sysout" where
  "sys_exec i s =
     bindE (user_path i s) (\<lambda>r.
     case r of
       None \<Rightarrow> ret SYSERR s
     | Some path \<Rightarrow>
         bindE (namei (cwd (procs s ! i)) path s) (\<lambda>(r, s).
         case r of
           None \<Rightarrow> ret SYSERR s
         | Some inode \<Rightarrow>
             let argv_va = unat (arg i tf_a1 s) in
             (case kalloc_zeroed (km s) of
                (None, m) \<Rightarrow> bindE (iput inode (s\<lparr>km := m\<rparr>)) (\<lambda>s. ret SYSERR s)
              | (Some kargs_pa, m) \<Rightarrow>
                  bindE (copy_argv (pagetable (procs s ! i)) argv_va m) (\<lambda>r.
                  case r of
                    None \<Rightarrow>
                      bindE (with_km (kfree kargs_pa m) s) (\<lambda>s. bindE (iput inode s) (\<lambda>s. ret SYSERR s))
                  | Some kargs \<Rightarrow>
                      bindE (exec_from_inode inode kargs (s\<lparr>km := m\<rparr>)) (\<lambda>(ok, s).
                      bindE (iput inode s) (\<lambda>s.
                      bindE (with_km (kfree kargs_pa (km s)) s) (\<lambda>s.
                      Ok (Done (if ok then Replaced else Return SYSERR), s))))))))"

section \<open>Dispatch\<close>

text \<open>The result of a call, stored into \<open>a0\<close> of the process \<open>i\<close>; a call that exits has no process to return to.\<close>

definition set_result :: "nat \<Rightarrow> (SyscallResult, blocked) outcome \<times> kernel \<Rightarrow> (blocked option \<times> kernel) res" where
  "set_result i r =
     (case r of
        (Done (Return v), s) \<Rightarrow> Ok (None, set_a0 i v s)
      | (Done Replaced, s) \<Rightarrow> Ok (None, s)
      | (Sleep c b, s) \<Rightarrow> Ok (Some b, s))"

definition syscall :: "byte list \<Rightarrow> byte list \<Rightarrow> kernel \<Rightarrow> (blocked option \<times> kernel) res" where
  "syscall pad1 pad2 s =
     bindE (myproc ''null pointer'' s) (\<lambda>i.
     let num = unat (arg i tf_a7 s) in
     if num = SYS_EXIT then bindE (exit (ucast (arg i tf_a0 s)) s) (\<lambda>s. Ok (None, s))
     else
       bindE
         (if num = SYS_FORK then sys_fork s
          else if num = SYS_PIPE then sys_pipe i s
          else if num = SYS_WRITE then sys_write i s
          else if num = SYS_WAIT then sys_wait i s
          else if num = SYS_GETPID then sys_getpid i s
          else if num = SYS_READ then sys_read i s
          else if num = SYS_EXEC then sys_exec i s
          else if num = SYS_FSTAT then sys_fstat pad1 pad2 i s
          else if num = SYS_CHDIR then sys_chdir i s
          else if num = SYS_DUP then sys_dup i s
          else if num = SYS_OPEN then sys_open i s
          else if num = SYS_MKDIR then sys_mkdir i s
          else if num = SYS_CLOSE then sys_close i s
          else if num = SYS_SBRK then sys_sbrk i s
          else ret SYSERR s) (set_result i))"

text \<open>What the running process does when it continues inside a call.\<close>

definition syscall_resume :: "blocked \<Rightarrow> kernel \<Rightarrow> (blocked option \<times> kernel) res" where
  "syscall_resume b s =
     bindE (myproc ''null pointer'' s) (\<lambda>i.
     bindE
       (case b of
          In_read f cap buf acc ie \<Rightarrow>
            bindE (sleep_resume Ok ie s) (\<lambda>s. bindE (file_read_resume f cap acc s) (read_part i f cap buf))
        | In_write f chunk n ie \<Rightarrow>
            bindE (sleep_resume Ok ie s) (\<lambda>s. bindE (file_write_resume f chunk n s) (write_part i f chunk))
        | In_wait va ie \<Rightarrow> bindE (wait_resume va ie s) (wait_part va)) (set_result i))"

end
