(* ===== verification/Proc_Theorems.thy ===== *)
theory Proc_Theorems
  imports Proc_Protocol
begin

text \<open>
  The properties of processes: the invariant of the machine of \<open>Proc_Protocol\<close>, what \<open>exit\<close> does, and that a
  \<open>wait\<close> that cannot store the exit status keeps \<open>WAIT_LOCK\<close>.
\<close>

section \<open>The invariant\<close>

text \<open>At most one process is running, the current one; identifiers of processes are unique as long as
  \<open>NEXT_PID\<close>, after \<open>n\<close> calls of \<open>fork\<close>, has not wrapped around; a process that sleeps in \<open>wait\<close> has a child, and none to reap.\<close>

definition inv_run :: "kernel \<Rightarrow> bool" where
  "inv_run s \<longleftrightarrow> (\<forall>i. cur s = Some i \<longrightarrow> i < NPROC) \<and> (\<forall>i < NPROC. pstate (procs s ! i) = Running \<longleftrightarrow> cur s = Some i)"

definition inv_pid :: "nat \<Rightarrow> kernel \<Rightarrow> bool" where
  "inv_pid n s \<longleftrightarrow> (n + 2 < 2 ^ 64 \<longrightarrow> next_pid s \<le> n + 2 \<and>
     (\<forall>i < NPROC. pstate (procs s ! i) \<noteq> Unused \<longrightarrow> pid (procs s ! i) < next_pid s) \<and>
     (\<forall>i < NPROC. \<forall>j < NPROC. pstate (procs s ! i) \<noteq> Unused \<longrightarrow> pstate (procs s ! j) \<noteq> Unused \<longrightarrow>
        pid (procs s ! i) = pid (procs s ! j) \<longrightarrow> i = j))"

definition inv_wait :: "kernel \<Rightarrow> bool" where
  "inv_wait s \<longleftrightarrow> (\<forall>i < NPROC. pstate (procs s ! i) = Unused \<longrightarrow> parent (procs s ! i) = None) \<and>
     (\<forall>i < NPROC. \<forall>k. pstate (procs s ! i) = Sleeping \<longrightarrow> chan (procs s ! i) = Some (ProcChan k) \<longrightarrow>
        k = i \<and> (\<exists>c < NPROC. parent (procs s ! c) = Some i) \<and> (\<forall>c < NPROC. \<not> zombie_child i (procs s ! c)))"

definition pinv :: "nat \<Rightarrow> kernel \<Rightarrow> bool" where
  "pinv n s \<longleftrightarrow> length (procs s) = NPROC \<and> inv_run s \<and> inv_pid n s \<and> inv_wait s"

lemma table_nth: "table R s s' \<Longrightarrow> length (procs s) = NPROC \<Longrightarrow> j < NPROC \<Longrightarrow> R j (procs s ! j) (procs s' ! j)"
  by (simp add: table_def)

lemma table_length: "table R s s' \<Longrightarrow> length (procs s') = length (procs s)"
  by (simp add: table_def)

text \<open>How a step keeps the parts of the invariant.\<close>

lemma pid_kept:
  assumes "inv_pid n s" and "n \<le> m"
    and "m + 2 < 2 ^ 64 \<Longrightarrow> next_pid s \<le> n + 2 \<Longrightarrow> next_pid s \<le> next_pid s' \<and> next_pid s' \<le> m + 2"
    and "\<And>j. j < NPROC \<Longrightarrow> pstate (procs s' ! j) \<noteq> Unused \<Longrightarrow> pstate (procs s ! j) \<noteq> Unused \<and> pid (procs s' ! j) = pid (procs s ! j)"
  shows "inv_pid m s'"
  unfolding inv_pid_def
proof (intro conjI allI impI)
  assume m: "m + 2 < 2 ^ 64"
  then have inv: "next_pid s \<le> n + 2" "\<And>i. i < NPROC \<Longrightarrow> pstate (procs s ! i) \<noteq> Unused \<Longrightarrow> pid (procs s ! i) < next_pid s"
      "\<And>i j. i < NPROC \<Longrightarrow> j < NPROC \<Longrightarrow> pstate (procs s ! i) \<noteq> Unused \<Longrightarrow> pstate (procs s ! j) \<noteq> Unused \<Longrightarrow>
        pid (procs s ! i) = pid (procs s ! j) \<Longrightarrow> i = j"
    using assms(1,2) by (auto simp: inv_pid_def)
  note n = assms(3) [OF m inv(1)]
  show "next_pid s' \<le> m + 2" using n by simp
  fix i assume i: "i < NPROC" "pstate (procs s' ! i) \<noteq> Unused"
  show "pid (procs s' ! i) < next_pid s'" using assms(4) [OF i] inv(2) [OF i(1)] n by simp
  fix j assume j: "j < NPROC" "pstate (procs s' ! j) \<noteq> Unused" "pid (procs s' ! i) = pid (procs s' ! j)"
  from assms(4) [OF i] assms(4) [OF j(1,2)] j(3) show "i = j" by (intro inv(3) [OF i(1) j(1)]) auto
qed

lemma pid_fresh:
  assumes "inv_pid n s" and "length (procs s) = NPROC" and f: "fresh c st par s s'"
  shows "inv_pid (Suc n) s'"
proof (cases "Suc n + 2 < 2 ^ 64")
  case False
  then show ?thesis by (simp add: inv_pid_def)
next
  case True
  then have inv: "next_pid s \<le> n + 2" "\<And>i. i < NPROC \<Longrightarrow> pstate (procs s ! i) \<noteq> Unused \<Longrightarrow> pid (procs s ! i) < next_pid s"
      "\<And>i j. i < NPROC \<Longrightarrow> j < NPROC \<Longrightarrow> pstate (procs s ! i) \<noteq> Unused \<Longrightarrow> pstate (procs s ! j) \<noteq> Unused \<Longrightarrow>
        pid (procs s ! i) = pid (procs s ! j) \<Longrightarrow> i = j"
    using assms(1) by (auto simp: inv_pid_def)
  have n: "next_pid s' = next_pid s + 1" using f True inv(1) by simp
  have c: "pid (procs s' ! j) = next_pid s" if "j < NPROC" "j = c" for j
    using table_nth [OF conjunct1 [OF f] assms(2) that(1)] that(2) by simp
  have o: "pid (procs s' ! j) = pid (procs s ! j) \<and> pstate (procs s' ! j) = pstate (procs s ! j)" if "j < NPROC" "j \<noteq> c" for j
    using table_nth [OF conjunct1 [OF f] assms(2) that(1)] that(2) by (simp add: same_info_def)
  show ?thesis
    unfolding inv_pid_def
  proof (intro conjI allI impI)
    show "next_pid s' \<le> Suc n + 2" using n inv(1) by simp
    fix i assume i: "i < NPROC" "pstate (procs s' ! i) \<noteq> Unused"
    show "pid (procs s' ! i) < next_pid s'"
      using i c [of i] o [of i] n inv(2) [of i] by (cases "i = c") auto
    fix j assume j: "j < NPROC" "pstate (procs s' ! j) \<noteq> Unused" "pid (procs s' ! i) = pid (procs s' ! j)"
    have "i \<noteq> c \<Longrightarrow> pid (procs s' ! i) < next_pid s" "j \<noteq> c \<Longrightarrow> pid (procs s' ! j) < next_pid s"
      using i j o [of i] o [of j] inv(2) [of i] inv(2) [of j] by auto
    then have "i = c \<longleftrightarrow> j = c" using c [OF i(1)] c [OF j(1)] j(3) by fastforce
    then show "i = j" using i j o [of i] o [of j] by (cases "i = c") (auto intro!: inv(3) [OF i(1) j(1)])
  qed
qed

lemma wait_kept:
  assumes "inv_wait s"
    and "\<And>j. j < NPROC \<Longrightarrow> pstate (procs s' ! j) = Unused \<Longrightarrow> parent (procs s' ! j) = None"
    and "\<And>j k. j < NPROC \<Longrightarrow> pstate (procs s' ! j) = Sleeping \<Longrightarrow> chan (procs s' ! j) = Some (ProcChan k) \<Longrightarrow>
      pstate (procs s ! j) = Sleeping \<and> chan (procs s ! j) = Some (ProcChan k)"
    and "\<And>j c. j < NPROC \<Longrightarrow> c < NPROC \<Longrightarrow> pstate (procs s' ! j) = Sleeping \<Longrightarrow> chan (procs s' ! j) = Some (ProcChan j) \<Longrightarrow>
      parent (procs s ! c) = Some j \<Longrightarrow> parent (procs s' ! c) = Some j"
    and "\<And>j c. j < NPROC \<Longrightarrow> c < NPROC \<Longrightarrow> pstate (procs s' ! j) = Sleeping \<Longrightarrow> chan (procs s' ! j) = Some (ProcChan j) \<Longrightarrow>
      zombie_child j (procs s' ! c) \<Longrightarrow> zombie_child j (procs s ! c)"
  shows "inv_wait s'"
  unfolding inv_wait_def
proof (intro conjI allI impI)
  fix i assume "i < NPROC" "pstate (procs s' ! i) = Unused"
  then show "parent (procs s' ! i) = None" by (rule assms(2))
next
  fix i k assume i: "i < NPROC" "pstate (procs s' ! i) = Sleeping" "chan (procs s' ! i) = Some (ProcChan k)"
  then have "k = i \<and> (\<exists>c < NPROC. parent (procs s ! c) = Some i) \<and> (\<forall>c < NPROC. \<not> zombie_child i (procs s ! c))"
    using assms(3) [OF i] assms(1) i(1) by (auto simp: inv_wait_def)
  then show "k = i" "\<exists>c < NPROC. parent (procs s' ! c) = Some i" using assms(4) i by blast+
  fix c assume "c < NPROC"
  then show "\<not> zombie_child i (procs s' ! c)"
    using assms(5) [of i c] i \<open>k = i \<and> _\<close> by blast
qed

section \<open>The steps\<close>

lemma pinv_calm:
  assumes p: "pinv n s" and t: "table (\<lambda>_ p q. may_wake p q \<and> parent q = parent p) s s'" and n: "next_pid s' = next_pid s"
  shows "pinv n s'"
proof -
  have len: "length (procs s) = NPROC" using p by (simp add: pinv_def)
  have a: "may_wake (procs s ! j) (procs s' ! j)" "parent (procs s' ! j) = parent (procs s ! j)" if "j < NPROC" for j
    using table_nth [OF t len that] by simp_all
  have "inv_run s'" using p t a by (fastforce simp: pinv_def inv_run_def may_wake_def table_def)
  moreover have "inv_pid n s'"
  proof (rule pid_kept [of n s n])
    fix j assume "j < NPROC" "pstate (procs s' ! j) \<noteq> Unused"
    then show "pstate (procs s ! j) \<noteq> Unused \<and> pid (procs s' ! j) = pid (procs s ! j)" using a(1) [of j] by (auto simp: may_wake_def)
  qed (use p n in \<open>simp_all add: pinv_def\<close>)
  moreover have "inv_wait s'"
  proof (rule wait_kept [of s])
    fix j assume "j < NPROC" "pstate (procs s' ! j) = Unused"
    then show "parent (procs s' ! j) = None" using a [of j] p by (auto simp: may_wake_def pinv_def inv_wait_def)
  next
    fix j k assume "j < NPROC" "pstate (procs s' ! j) = Sleeping" "chan (procs s' ! j) = Some (ProcChan k)"
    then show "pstate (procs s ! j) = Sleeping \<and> chan (procs s ! j) = Some (ProcChan k)" using a(1) [of j] by (auto simp: may_wake_def)
  next
    fix j c assume "c < NPROC" "zombie_child j (procs s' ! c)"
    then show "zombie_child j (procs s ! c)" using a [of c] by (auto simp: may_wake_def zombie_child_def)
  qed (use p a(2) in \<open>simp_all add: pinv_def\<close>)
  ultimately show ?thesis using len table_length [OF t] by (simp add: pinv_def)
qed

lemma pinv_frame: "pinv n s \<Longrightarrow> frame s s' \<Longrightarrow> pinv n s'"
  by (rule pinv_calm [of n s s']) (auto elim!: table_mono simp: same_info_def may_wake_def)

lemma pinv_idle:
  assumes p: "pinv n s" and i: "idle s s'"
  shows "pinv (Suc n) s'"
proof -
  have len: "length (procs s) = NPROC" using p by (simp add: pinv_def)
  have a: "same_info (procs s ! j) (procs s' ! j) \<or> pstate (procs s ! j) = Unused \<and> freed_slot (procs s' ! j)" if "j < NPROC" for j
    using table_nth [OF conjunct1 [OF i] len that] .
  have u: "parent (procs s ! j) = None" if "j < NPROC" "pstate (procs s ! j) = Unused" for j
    using p that by (simp add: pinv_def inv_wait_def)
  have st: "pstate (procs s' ! j) = pstate (procs s ! j) \<and> parent (procs s' ! j) = parent (procs s ! j)" if "j < NPROC" for j
    using a [OF that] u [OF that] by (auto simp: same_info_def freed_slot_def)
  have "inv_run s'" using p i st by (simp add: pinv_def inv_run_def table_def)
  moreover have "inv_pid (Suc n) s'"
  proof (rule pid_kept [of n s])
    fix j assume "j < NPROC" "pstate (procs s' ! j) \<noteq> Unused"
    then show "pstate (procs s ! j) \<noteq> Unused \<and> pid (procs s' ! j) = pid (procs s ! j)"
      using a [of j] by (auto simp: same_info_def freed_slot_def)
  qed (use p i in \<open>auto simp: pinv_def\<close>)
  moreover have "inv_wait s'"
  proof (rule wait_kept [of s])
    fix j k assume "j < NPROC" "pstate (procs s' ! j) = Sleeping" "chan (procs s' ! j) = Some (ProcChan k)"
    then show "pstate (procs s ! j) = Sleeping \<and> chan (procs s ! j) = Some (ProcChan k)"
      using a [of j] by (auto simp: same_info_def freed_slot_def)
  qed (use p st u in \<open>simp_all add: pinv_def zombie_child_def\<close>)
  ultimately show ?thesis using len i by (simp add: pinv_def table_def)
qed

lemma pinv_fresh:
  assumes p: "pinv n s" and c: "c < NPROC" and f: "fresh c Runnable (Some par) s s'"
  shows "pinv (Suc n) s'"
proof -
  have len: "length (procs s) = NPROC" using p by (simp add: pinv_def)
  have a: "same_info (procs s ! j) (procs s' ! j)" if "j < NPROC" "j \<noteq> c" for j
    using table_nth [OF conjunct1 [OF f] len that(1)] that(2) by simp
  have b: "pstate (procs s ! c) = Unused" "pstate (procs s' ! c) = Runnable"
    using table_nth [OF conjunct1 [OF f] len c] by simp_all
  have par: "parent (procs s ! c) = None" using p b c by (simp add: pinv_def inv_wait_def)
  have st: "pstate (procs s' ! j) = (if j = c then Runnable else pstate (procs s ! j))" if "j < NPROC" for j
    using a [OF that] b by (simp add: same_info_def)
  have "inv_run s'" using p f st b c by (auto simp: pinv_def inv_run_def table_def)
  moreover have "inv_pid (Suc n) s'" using p by (intro pid_fresh [OF _ len f]) (simp add: pinv_def)
  moreover have "inv_wait s'"
  proof (rule wait_kept [of s])
    fix j assume "j < NPROC" "pstate (procs s' ! j) = Unused"
    then show "parent (procs s' ! j) = None"
      using p a [of j] st [of j] by (auto simp: pinv_def inv_wait_def same_info_def split: if_splits)
  next
    fix j k assume "j < NPROC" "pstate (procs s' ! j) = Sleeping" "chan (procs s' ! j) = Some (ProcChan k)"
    then show "pstate (procs s ! j) = Sleeping \<and> chan (procs s ! j) = Some (ProcChan k)"
      using a [of j] st [of j] by (auto simp: same_info_def split: if_splits)
  next
    fix j d assume "d < NPROC" "parent (procs s ! d) = Some j"
    then show "parent (procs s' ! d) = Some j" using a [of d] par by (cases "d = c") (auto simp: same_info_def)
  next
    fix j d assume "d < NPROC" "zombie_child j (procs s' ! d)"
    then show "zombie_child j (procs s ! d)" using a [of d] b by (cases "d = c") (auto simp: same_info_def zombie_child_def)
  qed (use p in \<open>simp add: pinv_def\<close>)
  ultimately show ?thesis using len f by (simp add: pinv_def table_def)
qed

text \<open>The hart changes hands, or the process that has it changes itself.\<close>

lemma pinv_only:
  assumes p: "pinv n s" and i: "i < NPROC" and o: "only i R (s\<lparr>cur := cu\<rparr>) s'"
    and R: "\<And>q. R (procs s ! i) q \<Longrightarrow> parent q = parent (procs s ! i) \<and> pid q = pid (procs s ! i) \<and>
        pstate q \<notin> {Unused, Zombie} \<and> (pstate q = Running \<longleftrightarrow> cu = Some i) \<and>
        (\<forall>k. pstate q = Sleeping \<longrightarrow> chan q = Some (ProcChan k) \<longrightarrow>
           k = i \<and> (\<exists>c < NPROC. parent (procs s ! c) = Some i) \<and> (\<forall>c < NPROC. \<not> zombie_child i (procs s ! c)))"
    and used: "pstate (procs s ! i) \<notin> {Unused, Zombie}" and cu: "cu = Some i \<or> cu = None" "cur s = Some i \<or> cur s = None"
  shows "pinv n s'"
proof -
  have len: "length (procs s) = NPROC" using p by (simp add: pinv_def)
  then have len': "length (procs (s\<lparr>cur := cu\<rparr>)) = NPROC" by simp
  have a: "same_info (procs s ! j) (procs s' ! j)" if "j < NPROC" "j \<noteq> i" for j
    using table_nth [OF conjunct1 [OF o] len' that(1)] that(2) by simp
  have "R (procs s ! i) (procs s' ! i)" using table_nth [OF conjunct1 [OF o] len' i] by simp
  note b = R [OF this]
  have par: "parent (procs s' ! j) = parent (procs s ! j)" "pid (procs s' ! j) = pid (procs s ! j)" if "j < NPROC" for j
    using a [OF that] b by (cases "j = i"; simp add: same_info_def)+
  have z: "zombie_child k (procs s' ! j) = zombie_child k (procs s ! j)" if "j < NPROC" for j k
    using a [OF that] b used by (cases "j = i") (auto simp: same_info_def zombie_child_def)
  have cur: "cur s' = cu" using o by (simp add: table_def)
  have "inv_run s'"
    unfolding inv_run_def cur
  proof (intro conjI allI impI)
    fix j assume j: "j < NPROC"
    show "pstate (procs s' ! j) = Running \<longleftrightarrow> cu = Some j"
      using a [OF j] b p j cu by (cases "j = i") (auto simp: pinv_def inv_run_def same_info_def)
  qed (use cu i in auto)
  moreover have "inv_pid n s'"
  proof (rule pid_kept [of n s n])
    fix j assume "j < NPROC" "pstate (procs s' ! j) \<noteq> Unused"
    then show "pstate (procs s ! j) \<noteq> Unused \<and> pid (procs s' ! j) = pid (procs s ! j)"
      using a [of j] par [of j] used by (cases "j = i") (auto simp: same_info_def)
  qed (use p o in \<open>simp_all add: pinv_def\<close>)
  moreover have "inv_wait s'"
    unfolding inv_wait_def
  proof (intro conjI allI impI)
    fix j assume j: "j < NPROC" "pstate (procs s' ! j) = Unused"
    then show "parent (procs s' ! j) = None"
      using a [of j] par [of j] b p by (cases "j = i") (auto simp: same_info_def pinv_def inv_wait_def)
  next
    fix j k assume j: "j < NPROC" "pstate (procs s' ! j) = Sleeping" "chan (procs s' ! j) = Some (ProcChan k)"
    have "k = j \<and> (\<exists>c < NPROC. parent (procs s ! c) = Some j) \<and> (\<forall>c < NPROC. \<not> zombie_child j (procs s ! c))"
    proof (cases "j = i")
      case True
      then show ?thesis using b j(2,3) by blast
    next
      case False
      then have "pstate (procs s ! j) = Sleeping" "chan (procs s ! j) = Some (ProcChan k)"
        using a [OF j(1)] j(2,3) by (simp_all add: same_info_def)
      moreover have "inv_wait s" using p by (simp add: pinv_def)
      ultimately show ?thesis using j(1) unfolding inv_wait_def by blast
    qed
    then show "k = j" "\<exists>c < NPROC. parent (procs s' ! c) = Some j" "\<And>c. c < NPROC \<Longrightarrow> \<not> zombie_child j (procs s' ! c)"
      using par(1) z by auto
  qed
  ultimately show ?thesis using len o by (simp add: pinv_def table_def)
qed

lemma pinv_exited:
  assumes p: "pinv n s" and cu: "cur s = Some i" and e: "exited i s s'"
  shows "pinv n s'"
proof -
  have i: "i < NPROC" and len: "length (procs s) = NPROC" and run: "\<And>j. j < NPROC \<Longrightarrow> pstate (procs s ! j) = Running \<longleftrightarrow> j = i"
    and w: "inv_wait s"
    using p cu by (auto simp: pinv_def inv_run_def)
  then have len': "length (procs (s\<lparr>cur := None\<rparr>)) = NPROC" by simp
  note t = conjunct2 [OF e [unfolded exited_def]]
  have par: "parent (procs s' ! j) = adopt (initproc s) i (parent (procs s ! j))" if "j < NPROC" for j
    using table_nth [OF t len' that] by simp
  have zi: "pid (procs s' ! i) = pid (procs s ! i) \<and> pstate (procs s' ! i) = Zombie" using table_nth [OF t len' i] by simp
  have o: "may_wake (procs s ! j) (procs s' ! j)" "pstate (procs s' ! j) = Sleeping \<Longrightarrow>
      chan (procs s ! j) \<noteq> map_option ProcChan (adopt (initproc s) i (parent (procs s ! i))) \<and>
      (\<forall>k. orphans s i k \<longrightarrow> chan (procs s ! j) \<noteq> Some (ProcChan k))" if "j < NPROC" "j \<noteq> i" for j
    using table_nth [OF t len' that(1)] that(2) by simp_all
  have cn: "cur s' = None" "next_pid s' = next_pid s" using e by (simp_all add: exited_def table_def)
  have "inv_run s'"
    unfolding inv_run_def cn(1)
  proof (intro conjI allI impI)
    fix j assume j: "j < NPROC"
    show "pstate (procs s' ! j) = Running \<longleftrightarrow> None = Some j"
      using run [OF j] zi o(1) [OF j] by (cases "j = i") (auto simp: may_wake_def)
  qed simp
  moreover have "inv_pid n s'"
  proof (rule pid_kept [of n s n])
    fix j assume j: "j < NPROC" "pstate (procs s' ! j) \<noteq> Unused"
    show "pstate (procs s ! j) \<noteq> Unused \<and> pid (procs s' ! j) = pid (procs s ! j)"
    proof (cases "j = i")
      case True
      then show ?thesis using run [OF i] zi by simp
    next
      case False
      then show ?thesis using o(1) [OF j(1)] j(2) by (auto simp: may_wake_def)
    qed
  qed (use p cn in \<open>simp_all add: pinv_def\<close>)
  moreover have "inv_wait s'"
  proof (rule wait_kept [OF w])
    fix j assume j: "j < NPROC" "pstate (procs s' ! j) = Unused"
    then have "j \<noteq> i" using zi by auto
    then have "pstate (procs s ! j) = Unused" using o(1) [OF j(1)] j(2) by (auto simp: may_wake_def)
    then show "parent (procs s' ! j) = None" using par [OF j(1)] w j(1) by (simp add: inv_wait_def adopt_def split: option.splits)
  next
    fix j k assume j: "j < NPROC" "pstate (procs s' ! j) = Sleeping" "chan (procs s' ! j) = Some (ProcChan k)"
    then have "j \<noteq> i" using zi by auto
    then show "pstate (procs s ! j) = Sleeping \<and> chan (procs s ! j) = Some (ProcChan k)"
      using o(1) [OF j(1)] j(2,3) by (auto simp: may_wake_def)
  next
    fix j c assume j: "j < NPROC" "c < NPROC" "pstate (procs s' ! j) = Sleeping" "parent (procs s ! c) = Some j"
    then have "j \<noteq> i" using zi by auto
    then show "parent (procs s' ! c) = Some j" using par [OF j(2)] j(4) by (simp add: adopt_def split: option.splits)
  next
    fix j c assume j: "j < NPROC" "c < NPROC" "pstate (procs s' ! j) = Sleeping" "chan (procs s' ! j) = Some (ProcChan j)"
      and z: "zombie_child j (procs s' ! c)"
    have ji: "j \<noteq> i" using zi j(3) by auto
    have ch: "chan (procs s ! j) = Some (ProcChan j)" using o(1) [OF j(1) ji] j(4) by (simp add: may_wake_def)
    have pc: "adopt (initproc s) i (parent (procs s ! c)) = Some j" using z par [OF j(2)] by (simp add: zombie_child_def)
    have "c \<noteq> i" using pc o(2) [OF j(1) ji j(3)] ch by auto
    then have "pstate (procs s ! c) = Zombie" using o(1) [OF j(2)] z by (auto simp: may_wake_def zombie_child_def)
    moreover have "parent (procs s ! c) = Some j"
      using pc o(2) [OF j(1) ji j(3)] ch j(2) by (auto simp: adopt_def orphans_def split: option.splits if_splits)
    ultimately show "zombie_child j (procs s ! c)" by (simp add: zombie_child_def)
  qed
  ultimately show ?thesis using len table_length [OF t] by (simp add: pinv_def)
qed

lemma pinv_reaped:
  assumes p: "pinv n s" and cu: "cur s = Some i" and r: "reaped i s s'"
  shows "pinv n s'"
proof -
  have i: "i < NPROC" and len: "length (procs s) = NPROC" and run: "pstate (procs s ! i) = Running" and w: "inv_wait s"
    using p cu by (auto simp: pinv_def inv_run_def)
  obtain c where c: "c < NPROC" "zombie_child i (procs s ! c)" "only c (\<lambda>_. freed_slot) s s'" using r by (auto simp: reaped_def)
  have a: "same_info (procs s ! j) (procs s' ! j)" if "j < NPROC" "j \<noteq> c" for j
    using table_nth [OF conjunct1 [OF c(3)] len that(1)] that(2) by simp
  have f: "freed_slot (procs s' ! c)" using table_nth [OF conjunct1 [OF c(3)] len c(1)] by simp
  have cn: "cur s' = cur s" "next_pid s' = next_pid s" using c(3) by (simp_all add: table_def)
  have "inv_run s'"
    unfolding inv_run_def cn(1)
  proof (intro conjI allI impI)
    fix j assume j: "j < NPROC"
    show "pstate (procs s' ! j) = Running \<longleftrightarrow> cur s = Some j"
      using p j a [OF j] f c(2) by (cases "j = c") (auto simp: pinv_def inv_run_def same_info_def freed_slot_def zombie_child_def)
  qed (use cu i in simp)
  moreover have "inv_pid n s'"
  proof (rule pid_kept [of n s n])
    fix j assume "j < NPROC" "pstate (procs s' ! j) \<noteq> Unused"
    then show "pstate (procs s ! j) \<noteq> Unused \<and> pid (procs s' ! j) = pid (procs s ! j)"
      using a [of j] f by (cases "j = c") (auto simp: same_info_def freed_slot_def)
  qed (use p cn in \<open>simp_all add: pinv_def\<close>)
  moreover have "inv_wait s'"
  proof (rule wait_kept [OF w])
    fix j assume "j < NPROC" "pstate (procs s' ! j) = Unused"
    then show "parent (procs s' ! j) = None"
      using a [of j] f w by (cases "j = c") (auto simp: same_info_def freed_slot_def inv_wait_def)
  next
    fix j k assume "j < NPROC" "pstate (procs s' ! j) = Sleeping" "chan (procs s' ! j) = Some (ProcChan k)"
    then show "pstate (procs s ! j) = Sleeping \<and> chan (procs s ! j) = Some (ProcChan k)"
      using a [of j] f by (cases "j = c") (auto simp: same_info_def freed_slot_def)
  next
    fix j d assume d: "j < NPROC" "d < NPROC" "pstate (procs s' ! j) = Sleeping" "parent (procs s ! d) = Some j"
    have "j \<noteq> i" using d(1,3) a [of j] f run by (cases "j = c") (auto simp: same_info_def freed_slot_def)
    then have "d \<noteq> c" using d(4) c(2) by (auto simp: zombie_child_def)
    then show "parent (procs s' ! d) = Some j" using a [OF d(2)] d(4) by (simp add: same_info_def)
  next
    fix j d assume "d < NPROC" "zombie_child j (procs s' ! d)"
    then show "zombie_child j (procs s ! d)"
      using a [of d] f by (cases "d = c") (auto simp: same_info_def freed_slot_def zombie_child_def)
  qed
  ultimately show ?thesis using len c(3) by (simp add: pinv_def table_def)
qed

lemma pinv_wait_result:
  assumes p: "pinv n s" and cu: "cur s = Some i" and r: "wait_result b i s out s'"
  shows "pinv n s'"
proof (cases out)
  case (Done v)
  then show ?thesis using r pinv_frame [OF p] pinv_reaped [OF p cu] by (auto simp: wait_result_def)
next
  case (Sleep ch ie)
  have i: "i < NPROC" and run: "pstate (procs s ! i) = Running" using p cu by (auto simp: pinv_def inv_run_def)
  from r Sleep have o: "only i (asleep (ProcChan i)) (s\<lparr>cur := None\<rparr>) s'" and
      ch: "\<exists>c < NPROC. parent (procs s ! c) = Some i" "\<forall>c < NPROC. \<not> zombie_child i (procs s ! c)"
    by (simp_all add: wait_result_def)
  show ?thesis by (rule pinv_only [OF p i o]) (use ch run cu in \<open>auto simp: asleep_def\<close>)
qed

lemma wait_end_ok:
  assumes p: "pinv n s" and cu: "cur s = Some i" and r: "wait_result b i s out s1" and w: "wait_end i out s1 s'"
  shows "(\<exists>b. held b {} False s') \<and> pinv n s'"
  using w
proof cases
  case (asleep ch ie)
  then show ?thesis using r pinv_wait_result [OF p cu r] by (auto simp: wait_result_def)
next
  case (back_to_user te v u)
  have h: "held b {} False s1"
    using r back_to_user usertrapret_locked [of b "set_a0 i v s1" te] by (auto simp: wait_result_def)
  have "cur (set_a0 i v s1) = Some i" using r cu back_to_user(1) by (auto simp: wait_result_def table_def reaped_def)
  with h usertrapret_ok [of b "set_a0 i v s1" i te] back_to_user(2) have "held False {} False s'" "frame (set_a0 i v s1) s'" by auto
  moreover have "pinv n (set_a0 i v s1)" by (rule pinv_frame [OF pinv_wait_result [OF p cu r] set_a0_ok(3)])
  ultimately show ?thesis using pinv_frame by blast
qed

lemma resume_ok:
  assumes h: "held b {i} False s" and cu: "cur s = Some i" and p: "pinv n s" and r: "resume s s'"
  shows "(\<exists>b. held b {} False s') \<and> pinv n s'"
proof -
  have i: "i < NPROC" and run: "pstate (procs s ! i) = Running" using p cu by (auto simp: pinv_def inv_run_def)
  have off: "pinv n s1" if o: "only i off_chan s s1" for s1
  proof -
    have "only i off_chan (s\<lparr>cur := cur s\<rparr>) s1" using o by simp
    then show ?thesis by (rule pinv_only [OF p i]) (use run cu in \<open>auto simp: off_chan_def\<close>)
  qed
  from r show ?thesis
  proof cases
    case (forkret te u)
    then show ?thesis using forkret_ok [OF h cu, of te] pinv_frame [OF p] by auto
  next
    case (yield_resume ie)
    then show ?thesis using yield_resume_ok [OF h cu, of ie] pinv_frame [OF p] by auto
  next
    case (sleep_resume ie)
    then show ?thesis using sleep_resume_ok [OF h cu, of Ok ie] off by auto
  next
    case (wait_resume k va ie out s2)
    have k: "k = i" using wait_resume(1) cu by simp
    obtain s1 where 1: "only i off_chan s s1" "wait_result ie i s1 out s2" using wait_resume_ok [OF h cu i wait_resume(2)] by blast
    then have "cur s1 = Some i" using cu by (simp add: table_def)
    from wait_end_ok [OF off [OF 1(1)] this 1(2)] wait_resume(3) k show ?thesis by simp
  qed
qed

lemma pstep_ok:
  assumes h: "held b {} False s" and p: "pinv n s" and st: "pstep k s s'"
  shows "(\<exists>b. held b {} False s') \<and> pinv (n + k) s'"
proof -
  have run: "pstate (procs s ! i) = Running \<and> i < NPROC" if "cur s = Some i" for i
    using p that by (auto simp: pinv_def inv_run_def)
  from st show ?thesis
  proof cases
    case (fork r)
    then obtain i where i: "cur s = Some i" by auto
    from fork_ok [OF h i fork(3)] pinv_idle [OF p] pinv_fresh [OF p] fork(1) show ?thesis by auto
  next
    case (exit code)
    then obtain i where i: "cur s = Some i" by auto
    from exit_ok [OF h i _ exit(3)] run [OF i] pinv_exited [OF p i] exit(1) show ?thesis by auto
  next
    case (wait i va out s2)
    from wait_ok [OF h wait(2) _ wait(3)] run [OF wait(2)] obtain s1 where 1: "frame s s1" "wait_result b i s1 out s2" by blast
    then have "cur s1 = Some i" using wait(2) by (simp add: table_def)
    from wait_end_ok [OF pinv_frame [OF p 1(1)] this 1(2) wait(4)] wait(1) show ?thesis by simp
  next
    case (yield ie)
    then obtain i where i: "cur s = Some i" by auto
    obtain s2 where 2: "yield_cpu s = Ok (b, s2)" "held b {} False s2" "only i (in_state Runnable) (s\<lparr>cur := None\<rparr>) s2"
      using yield_ok [OF h i] run [OF i] by blast
    have "pinv n s2" by (rule pinv_only [OF p _ 2(3)]) (use run [OF i] i in \<open>auto simp: in_state_def\<close>)
    with 2 yield(1,3) show ?thesis by auto
  next
    case (io_sleep ch ie)
    then obtain i where i: "cur s = Some i" by auto
    obtain s2 where 2: "sleep ch Ok s = Ok (b, s2)" "held b {} False s2" "only i (asleep ch) (s\<lparr>cur := None\<rparr>) s2"
      using sleep_ok [OF h i, of Ok ch] run [OF i] frame_refl by blast
    have "pinv n s2" by (rule pinv_only [OF p _ 2(3)]) (use run [OF i] i io_sleep(3) in \<open>auto simp: asleep_def io_chan_def\<close>)
    with 2 io_sleep(1,4) show ?thesis by auto
  next
    case (io_wake ch)
    obtain s2 where 2: "wakeup (Some ch) s = Ok s2" "held b {} False s2" "next_pid s2 = next_pid s" "table (\<lambda>_. woken (Some ch)) s s2"
      using wakeup_ok [OF h] by blast
    have "table (\<lambda>_ p q. may_wake p q \<and> parent q = parent p) s s2"
      by (rule table_mono [OF 2(4)]) (simp add: woken_def may_wake_def)
    with 2 io_wake(1,3) pinv_calm [OF p] show ?thesis by auto
  next
    case io_work
    have "plock (procs s' ! j) = plock (procs s ! j)" if "j < length (procs s)" for j
      using io_work(3) that by (metis length_map nth_map)
    then have "held b {} False s'" using h io_work by (simp add: held_def table_def)
    with pinv_frame [OF p] io_work(1,2) show ?thesis by auto
  next
    case (user_return te u)
    then obtain i where i: "cur s = Some i" by auto
    from usertrapret_ok [OF h i, of te] user_return(1,3) pinv_frame [OF p] show ?thesis by auto
  next
    case (run i s1)
    from pick_ok [OF h run(2,3)] run(4,5) have s1: "held b {i} False s1" "only i (in_state Running) (s\<lparr>cur := Some i\<rparr>) s1"
        "pstate (procs s ! i) = Runnable"
      using run(2) by (auto simp: table_def split: if_splits)
    have "pinv n s1" by (rule pinv_only [OF p run(3) s1(2)]) (use s1(3) run(2) in \<open>auto simp: in_state_def\<close>)
    from resume_ok [OF s1(1) run(5) this run(6)] run(1) show ?thesis by simp
  next
    case (pass i)
    from pick_ok [OF h pass(2,3)] pass(4,5) have "held b {} False s'" "frame s s'"
      by (auto simp: table_def split: if_splits)
    with pinv_frame [OF p] pass(1) show ?thesis by auto
  qed
qed

lemma preach_ok: "preach n s \<Longrightarrow> (\<exists>b. held b {} False s) \<and> pinv n s"
proof (induction rule: preach.induct)
  case (boot s)
  then obtain b k where h: "held b {} False s" and c: "cur s = None" "k < NPROC" "pid (procs s ! k) = 1" "next_pid s = 2"
      and st: "\<And>i. i < NPROC \<Longrightarrow> pstate (procs s ! i) = (if i = k then Runnable else Unused) \<and> parent (procs s ! i) = None"
    unfolding booted_def by blast
  have "pinv 0 s"
    using c st heldD(1) [OF h] by (auto simp: pinv_def inv_run_def inv_pid_def inv_wait_def split: if_splits)
  with h show ?case by blast
next
  case (step n s k s')
  then show ?case using pstep_ok by blast
qed

section \<open>A status that cannot be stored\<close>

lemma copyout_beyond: "MAXVA \<le> va \<Longrightarrow> bs \<noteq> [] \<Longrightarrow> copyout pt va bs m = Ok (False, m)"
  by (simp add: copyout_def copyout_loop.simps [of pt va bs 0] user_chunk_def)

lemma wait_loop_bad_status:
  assumes "held b {} True s" and "set cs \<subseteq> {..<NPROC}" and "c \<in> set cs" and "zombie_child i (procs s ! c)" and "MAXVA \<le> va"
  shows "\<exists>s'. wait_loop i va cs hc s = Ok (Reaped (-1), s') \<and> held b {} True s' \<and> frame s s'"
  using assms(1-4)
proof (induction cs arbitrary: s hc)
  case (Cons d cs)
  have d: "d < NPROC" using Cons.prems(2) by simp
  have len: "length (procs s) = NPROC" by (rule heldD(1) [OF Cons.prems(1)])
  obtain s1 where 1: "plock_acquire d s = Ok s1" "held b {d} True s1" "frame s s1" using plock_acquire_ok [OF Cons.prems(1) d] by auto
  obtain s2 where 2: "plock_release d s1 = Ok s2" "held b ({d} - {d}) True s2" "frame s1 s2" using plock_release_ok [OF 1(2), of d] by blast
  note fr = frame_trans [OF 1(3) 2(3)]
  show ?case
  proof (cases "zombie_child i (procs s1 ! d)")
    case True
    have "va \<noteq> 0" "le_of_word (xstate (procs s1 ! d)) \<noteq> []" using assms(5) by (auto simp: MAXVA_def le_of_word_def)
    then have "(if va \<noteq> 0 then copyout (pagetable (procs s1 ! i)) va (le_of_word (xstate (procs s1 ! d))) (km s1) else Ok (True, km s1)) = Ok (False, km s1)"
      using copyout_beyond [OF assms(5)] by simp
    then have "wait_loop i va (d # cs) hc s = Ok (Reaped (-1), s2)"
      using True 1(1) 2(1) by (simp add: zombie_child_def Let_def)
    with 2(2) fr show ?thesis by simp
  next
    case False
    have "same_info (procs s ! d) (procs s1 ! d)" using frame_nth [OF 1(3)] d len by simp
    then have "c \<noteq> d" using False zombie_child_info Cons.prems(4) by blast
    then have c: "c \<in> set cs" "c < NPROC" using Cons.prems(2,3) by auto
    have "zombie_child i (procs s2 ! c)" using zombie_child_info [OF frame_nth [OF fr]] Cons.prems(4) c len by simp
    from Cons.IH [OF _ _ c(1) this] 2(2) Cons.prems(2) obtain s' where
      "wait_loop i va cs (hc \<or> parent (procs s1 ! d) = Some i) s2 = Ok (Reaped (-1), s')" "held b {} True s'" "frame s2 s'"
      by fastforce
    moreover have "wait_loop i va (d # cs) hc s = wait_loop i va cs (hc \<or> parent (procs s1 ! d) = Some i) s2"
      using False 1(1) 2(1) by (auto simp: zombie_child_def Let_def)
    ultimately show ?thesis using frame_trans [OF fr] by auto
  qed
qed simp

lemma wait_bad:
  assumes "held b {} False s" and "cur s = Some i" and "c < NPROC" and "zombie_child i (procs s ! c)" and "MAXVA \<le> va"
  shows "\<exists>s'. wait va s = Ok (Done (-1), s') \<and> held b {} True s'"
proof -
  obtain s1 where 1: "wait_acquire s = Ok s1" "held b {} True s1" "frame s s1" using wait_acquire_ok [OF assms(1)] by blast
  have "zombie_child i (procs s1 ! c)"
    using zombie_child_info [OF frame_nth [OF 1(3)]] assms(3,4) heldD(1) [OF assms(1)] by simp
  moreover have "c \<in> set [0..<NPROC]" "set [0..<NPROC] \<subseteq> {..<NPROC}" using assms(3) by auto
  ultimately obtain s2 where 2: "wait_loop i va [0..<NPROC] False s1 = Ok (Reaped (-1), s2)" "held b {} True s2" "frame s1 s2"
    using wait_loop_bad_status [OF 1(2) _ _ _ assms(5)] by blast
  have "cur s1 = Some i" using assms(2) 1(3) by (simp add: table_def)
  then show ?thesis using assms(2) 1(1) 2(1,2) by (simp add: wait_def wait_turn_def myproc_def)
qed

section \<open>The properties\<close>

text \<open>C1. In every state the machine can reach: no lock is held between two steps, at most one process is
  running and it is the current one, and a process that sleeps in \<open>wait\<close> has a child and no child that has
  exited, so no exit goes unnoticed.  As long as \<open>fork\<close> was called fewer than \<open>2 ^ 64 - 2\<close> times, identifiers of
  processes are unique.  Waking processes, giving up the hart and going back to user mode do not panic.  The
  steps are those of \<^term>\<open>pstep\<close>; a call that panics, such as the \<open>wait\<close> that returns to user mode with
  \<open>WAIT_LOCK\<close> held, has no next state.\<close>

theorem proc_protocol:
  assumes "preach n s"
  shows "(\<forall>i < NPROC. \<not> locked (plock (procs s ! i))) \<and> \<not> locked (wait_lock s) \<and> noff (hart s) = 0 \<and>
    (\<forall>i < NPROC. pstate (procs s ! i) = Running \<longleftrightarrow> cur s = Some i) \<and>
    (n < 2 ^ 64 - 2 \<longrightarrow> (\<forall>i < NPROC. \<forall>j < NPROC. pstate (procs s ! i) \<noteq> Unused \<longrightarrow> pstate (procs s ! j) \<noteq> Unused \<longrightarrow>
       pid (procs s ! i) = pid (procs s ! j) \<longrightarrow> i = j)) \<and>
    (\<forall>i < NPROC. pstate (procs s ! i) = Sleeping \<longrightarrow> chan (procs s ! i) = Some (ProcChan i) \<longrightarrow>
       (\<exists>c < NPROC. parent (procs s ! c) = Some i) \<and>
       (\<forall>c < NPROC. parent (procs s ! c) = Some i \<longrightarrow> pstate (procs s ! c) \<noteq> Zombie)) \<and>
    (\<forall>c. \<exists>s'. wakeup c s = Ok s') \<and>
    (cur s \<noteq> None \<longrightarrow> (\<exists>r. yield_cpu s = Ok r) \<and> (\<forall>te. \<exists>r. usertrapret te s = Ok r))"
proof -
  obtain b where h: "held b {} False s" and p: "inv_run s" "inv_pid n s" "inv_wait s"
    using preach_ok [OF assms] by (auto simp: pinv_def)
  have "(\<forall>i < NPROC. \<not> locked (plock (procs s ! i))) \<and> \<not> locked (wait_lock s) \<and> noff (hart s) = 0"
    using h by (simp add: held_def cpu_ok_def)
  moreover have "cur s \<noteq> None \<longrightarrow> (\<exists>r. yield_cpu s = Ok r) \<and> (\<forall>te. \<exists>r. usertrapret te s = Ok r)"
    using yield_ok [OF h] usertrapret_ok [OF h] p(1) by (fastforce simp: inv_run_def)
  moreover have "\<forall>c. \<exists>s'. wakeup c s = Ok s'" using wakeup_ok [OF h] by blast
  moreover have "\<forall>i < NPROC. pstate (procs s ! i) = Sleeping \<longrightarrow> chan (procs s ! i) = Some (ProcChan i) \<longrightarrow>
       (\<exists>c < NPROC. parent (procs s ! c) = Some i) \<and> (\<forall>c < NPROC. parent (procs s ! c) = Some i \<longrightarrow> pstate (procs s ! c) \<noteq> Zombie)"
    using p(3) by (simp add: inv_wait_def zombie_child_def)
  moreover have "n < 2 ^ 64 - 2 \<longrightarrow> (\<forall>i < NPROC. \<forall>j < NPROC. pstate (procs s ! i) \<noteq> Unused \<longrightarrow> pstate (procs s ! j) \<noteq> Unused \<longrightarrow>
       pid (procs s ! i) = pid (procs s ! j) \<longrightarrow> i = j)"
    using p(2) unfolding inv_pid_def less_diff_conv by blast
  moreover note conjunct2 [OF p(1) [unfolded inv_run_def]]
  ultimately show ?thesis by (elim conjE) (intro conjI; assumption)
qed

definition demo_kernel :: "nat option \<Rightarrow> Process list \<Rightarrow> kernel" where
  "demo_kernel c ps = \<lparr>disk = (\<lambda>_. replicate BSIZE 0), bcache = [], icache = [], pipes = [], cons = Console_new, ftable = [],
     km = \<lparr>mem = (\<lambda>_. 0), head = 0, kernel_end = KERNBASE, trampoline_start = 0, etext = 0, erodata = 0\<rparr>,
     hart = \<lparr>noff = 0, intena = False, sie = True\<rparr>, cur = c, procs = ps, next_pid = 2, wait_lock = RawSpinlock_new,
     initproc = Some 0\<rparr>"

lemma demo_held:
  assumes "length ps = NPROC" and "\<forall>p \<in> set ps. plock p = RawSpinlock_new"
  shows "held True {} False (demo_kernel c ps)"
  using assms by (simp add: held_def demo_kernel_def cpu_ok_def)

theorem proc_protocol_witness:
  "preach 0 (demo_kernel None (Process_unused\<lparr>pstate := Runnable, pid := 1\<rparr> # replicate 15 Process_unused)) \<and>
   (\<forall>c. \<exists>s'. wakeup c (demo_kernel None (Process_unused\<lparr>pstate := Runnable, pid := 1\<rparr> # replicate 15 Process_unused)) = Ok s')"
proof -
  let ?ps = "Process_unused\<lparr>pstate := Runnable, pid := 1\<rparr> # replicate 15 Process_unused"
  have "held True {} False (demo_kernel None ?ps)" by (rule demo_held) (auto simp: NPROC_def Process_unused_def)
  then have "booted (demo_kernel None ?ps)"
    unfolding booted_def
    by (intro conjI exI [of _ True] exI [of _ "0 :: nat"])
      (auto simp: demo_kernel_def NPROC_def Process_unused_def nth_Cons split: nat.splits)
  then have "preach 0 (demo_kernel None ?ps)" by (rule preach.boot)
  then show ?thesis using conjunct1 [OF conjunct2 [OF conjunct2 [OF conjunct2 [OF conjunct2 [OF conjunct2 [OF conjunct2 [OF proc_protocol]]]]]]]
    by (simp only: simp_thms)
qed

text \<open>C13. When no lock is held and the open files of the running process can be closed, \<open>exit\<close> returns: the
  process is a zombie with the exit status, every child of it belongs to init, a parent asleep in \<open>wait\<close> is
  runnable, and the hart is free.\<close>

theorem exit_correct:
  assumes "held b {} False s" and "cur s = Some i" and "i < NPROC" and "close_open_files i s = Ok s1"
  shows "\<exists>s'. exit code s = Ok s' \<and> cur s' = None \<and> pstate (procs s' ! i) = Zombie \<and> xstate (procs s' ! i) = code \<and>
    (\<forall>j < NPROC. pid (procs s' ! j) = pid (procs s ! j) \<and> parent (procs s' ! j) =
       (if parent (procs s ! j) = Some i \<and> initproc s \<noteq> None \<and> initproc s \<noteq> Some i then initproc s else parent (procs s ! j))) \<and>
    (\<forall>k < NPROC. k \<noteq> i \<longrightarrow> parent (procs s ! i) = Some k \<longrightarrow> pstate (procs s ! k) = Sleeping \<longrightarrow>
       chan (procs s ! k) = Some (ProcChan k) \<longrightarrow> pstate (procs s' ! k) = Runnable)"
proof -
  obtain s' where e: "exit code s = Ok s'" "exited i s s'" "xstate (procs s' ! i) = code" using exit_total [OF assms] by blast
  have len: "length (procs s) = NPROC" by (rule heldD(1) [OF assms(1)])
  have row: "parent (procs s' ! j) = adopt (initproc s) i (parent (procs s ! j))" "pid (procs s' ! j) = pid (procs s ! j)" if "j < NPROC" for j
    using e(2) that len by (auto simp: exited_def table_def may_wake_def split: if_splits)
  have "adopt (initproc s) i pa = (if pa = Some i \<and> initproc s \<noteq> None \<and> initproc s \<noteq> Some i then initproc s else pa)" for pa
    by (auto simp: adopt_def split: option.splits)
  moreover have "pstate (procs s' ! k) = Runnable"
    if "k < NPROC" "k \<noteq> i" "parent (procs s ! i) = Some k" "pstate (procs s ! k) = Sleeping" "chan (procs s ! k) = Some (ProcChan k)" for k
  proof -
    have "adopt (initproc s) i (parent (procs s ! i)) = Some k" using that(2,3) by (simp add: adopt_def split: option.splits)
    then show ?thesis using e(2) that len by (auto simp: exited_def table_def may_wake_def)
  qed
  moreover have "cur s' = None" "pstate (procs s' ! i) = Zombie" using e(2) assms(3) len by (auto simp: exited_def table_def)
  ultimately show ?thesis using e(1,3) row by (intro exI [of _ s']) simp
qed

lemma close_open_files_none:
  assumes "ofile (procs s ! i) = replicate NOFILE None"
  shows "close_open_files i s = Ok s"
proof -
  have "foldE (close_fd i) xs s = Ok s" if "set xs \<subseteq> {..<NOFILE}" for xs
    using that by (induction xs) (auto simp: close_fd_def assms)
  then show ?thesis by (simp add: close_open_files_def subset_iff)
qed

theorem exit_correct_witness:
  "\<exists>s'. exit 7 (demo_kernel (Some 1) (Process_unused\<lparr>pstate := Sleeping, pid := 1, chan := Some (ProcChan 0)\<rparr> #
      Process_unused\<lparr>pstate := Running, pid := 2, parent := Some 0\<rparr> # replicate 14 Process_unused)) = Ok s' \<and>
    pstate (procs s' ! 0) = Runnable \<and> pstate (procs s' ! 1) = Zombie \<and> xstate (procs s' ! 1) = 7"
proof -
  let ?ps = "Process_unused\<lparr>pstate := Sleeping, pid := 1, chan := Some (ProcChan 0)\<rparr> #
      Process_unused\<lparr>pstate := Running, pid := 2, parent := Some 0\<rparr> # replicate 14 Process_unused"
  have h: "held True {} False (demo_kernel (Some 1) ?ps)" by (rule demo_held) (auto simp: NPROC_def Process_unused_def)
  have "ofile (procs (demo_kernel (Some 1) ?ps) ! 1) = replicate NOFILE None" by (simp add: demo_kernel_def Process_unused_def)
  from close_open_files_none [OF this] have "close_open_files 1 (demo_kernel (Some 1) ?ps) = Ok (demo_kernel (Some 1) ?ps)" .
  from exit_correct [OF h _ _ this, of 7] show ?thesis
    by (auto simp: demo_kernel_def NPROC_def)
qed

end
