(* ===== verification/Trap.thy ===== *)
theory Trap
  imports Syscall Proc_Theorems
begin

text \<open>
  Traps, \<open>src/trap.rs\<close>, with the handlers of \<open>src/timer.rs\<close> and \<open>src/plic.rs\<close> they call: interrupts, system
  calls and the exceptions that end a process.  The values of the control registers, the interrupt the
  \<open>PLIC\<close> reports and the bytes that wait in the UART are parameters.  Programming the timer, the write that
  completes an interrupt at the \<open>PLIC\<close> and the messages are left out.
\<close>

record trap_in =
  ti_spp :: bool
  ti_sepc :: u64
  ti_scause :: u64
  ti_irq :: u32
  ti_rx :: "byte list"

section \<open>Interrupts\<close>

definition UART_IRQ :: u32 where "UART_IRQ = 10"

definition plic_claim :: "trap_in \<Rightarrow> u32 option" where
  "plic_claim ti = (if ti_irq ti = 0 then None else Some (ti_irq ti))"

definition uart_rx :: "byte list \<Rightarrow> kernel \<Rightarrow> kernel res" where
  "uart_rx rx s = bindE (console_intr rx (cons s)) (\<lambda>(ws, c). wakeup_all ws (s\<lparr>cons := c\<rparr>))"

definition handle_external :: "trap_in \<Rightarrow> kernel \<Rightarrow> kernel res" where
  "handle_external ti s =
     (case plic_claim ti of
        None \<Rightarrow> Ok s
      | Some irq \<Rightarrow> if irq = UART_IRQ then uart_rx (ti_rx ti) s else panic ''plic: unexpected irq'')"

text \<open>The timer gives up the hart when a process is running: the result is the \<open>intena\<close> that \<open>sched\<close> saves.\<close>

definition timer_handle :: "kernel \<Rightarrow> (bool option \<times> kernel) res" where
  "timer_handle s =
     (if cur s = None then Ok (None, s) else bindE (yield_cpu s) (\<lambda>(ie, s). Ok (Some ie, s)))"

definition is_interrupt :: "u64 \<Rightarrow> bool" where
  "is_interrupt scause = (drop_bit 63 scause AND 1 = 1)"

definition trap_code :: "u64 \<Rightarrow> u64" where
  "trap_code scause = scause AND 0xff"

definition handle_interrupt :: "string \<Rightarrow> trap_in \<Rightarrow> kernel \<Rightarrow> (bool option \<times> kernel) res" where
  "handle_interrupt msg ti s =
     (let code = trap_code (ti_scause ti) in
      if code = 5 then timer_handle s
      else if code = 9 then bindE (handle_external ti s) (\<lambda>s. Ok (None, s))
      else panic msg)"

definition kerneltrap :: "trap_in \<Rightarrow> kernel \<Rightarrow> (bool option \<times> kernel) res" where
  "kerneltrap ti s =
     (if is_interrupt (ti_scause ti) then handle_interrupt ''kerneltrap: unexpected interrupt'' ti s
      else panic ''kerneltrap'')"

section \<open>Traps from user mode\<close>

text \<open>How a trap ends: in user mode again, or with the hart given up by a process that sleeps in a system
  call, was interrupted by the timer, or is gone.\<close>

datatype trap_end = To_user user_entry | Sleeps blocked | Yields bool | Exits

definition to_user :: "trap_env \<Rightarrow> kernel \<Rightarrow> (trap_end \<times> kernel) res" where
  "to_user te s = bindE (usertrapret te s) (\<lambda>(u, s). Ok (To_user u, s))"

definition set_epc :: "nat \<Rightarrow> u64 \<Rightarrow> kernel \<Rightarrow> kernel" where
  "set_epc i v s = s\<lparr>km := tf_set (trapframe (procs s ! i)) tf_epc v (km s)\<rparr>"

text \<open>\<open>p1\<close> and \<open>p2\<close> are the padding bytes that \<open>fstat\<close> copies.\<close>

definition usertrap :: "trap_env \<Rightarrow> byte list \<Rightarrow> byte list \<Rightarrow> trap_in \<Rightarrow> kernel \<Rightarrow> (trap_end \<times> kernel) res" where
  "usertrap te p1 p2 ti s =
     (if ti_spp ti then panic ''usertrap: not from user mode''
      else
        bindE (myproc ''null pointer'' s) (\<lambda>i.
        let s = set_epc i (ti_sepc ti) s in
        if is_interrupt (ti_scause ti) then
          bindE (handle_interrupt ''usertrap: unexpected interrupt'' ti s) (\<lambda>(y, s).
          case y of None \<Rightarrow> to_user te s | Some ie \<Rightarrow> Ok (Yields ie, s))
        else if trap_code (ti_scause ti) = 8 then
          let epc = arg i tf_epc s in
          if 2 ^ 64 \<le> unat epc + 4 then panic ''attempt to add with overflow''
          else
            let s = set_epc i (epc + 4) s; num = unat (arg i tf_a7 s) in
            bindE (syscall p1 p2 s) (\<lambda>(b, s).
            case b of
              Some b \<Rightarrow> Ok (Sleeps b, s)
            | None \<Rightarrow> if num = SYS_EXIT then Ok (Exits, s) else to_user te s)
        else bindE (exit (-1) s) (\<lambda>s. Ok (Exits, s))))"

text \<open>What a process does when it continues inside of a trap.\<close>

fun usertrap_resume :: "trap_env \<Rightarrow> trap_end \<Rightarrow> kernel \<Rightarrow> (trap_end \<times> kernel) res" where
  "usertrap_resume te (Sleeps b) s =
     bindE (syscall_resume b s) (\<lambda>(b, s). case b of Some b \<Rightarrow> Ok (Sleeps b, s) | None \<Rightarrow> to_user te s)"
| "usertrap_resume te (Yields ie) s = bindE (yield_resume ie s) (to_user te)"
| "usertrap_resume te (To_user u) s = Ok (To_user u, s)"
| "usertrap_resume te Exits s = Ok (Exits, s)"

section \<open>System calls\<close>

lemma set_epc_ok [simp]:
  "held b H w (set_epc i v s) = held b H w s" "cur (set_epc i v s) = cur s" "procs (set_epc i v s) = procs s"
  by (simp_all add: set_epc_def held_def)

lemma arg_set_epc [simp]:
  "arg i tf_epc (set_epc i v s) = v" "tf_epc + 8 \<le> off \<Longrightarrow> arg i off (set_epc i v s) = arg i off s"
  by (simp_all add: arg_def set_epc_def tf_get_def tf_set_def load_u64_store_other)

lemma usertrap_ecall:
  assumes "cur s = Some i" and "\<not> ti_spp ti" and "ti_scause ti = 8" and "unat (ti_sepc ti) + 4 < 2 ^ 64"
    and "unat (arg i tf_a7 s) \<noteq> SYS_EXIT"
  shows "usertrap te p1 p2 ti s =
    bindE (syscall p1 p2 (set_epc i (ti_sepc ti + 4) (set_epc i (ti_sepc ti) s))) (\<lambda>(b, s).
      case b of Some b \<Rightarrow> Ok (Sleeps b, s) | None \<Rightarrow> to_user te s)"
proof -
  have "\<not> is_interrupt (ti_scause ti)" "trap_code (ti_scause ti) = 8" unfolding assms(3) is_interrupt_def trap_code_def by code_simp+
  moreover have "arg i tf_a7 (set_epc i v (set_epc i w s)) = arg i tf_a7 s" for v w by (simp add: tf_epc_def tf_a7_def)
  ultimately show ?thesis using assms by (simp add: usertrap_def myproc_def Let_def not_le cong: option.case_cong)
qed

text \<open>C20. A process with a child that has exited makes the system call \<open>wait\<close> with a status address of \<open>MAXVA\<close> or
  more: the status cannot be stored, the call returns with \<open>WAIT_LOCK\<close> held, and the kernel panics when it
  goes back to user mode.\<close>

theorem wait_bad_status:
  assumes "held b {} False s" and "cur s = Some i" and "c < NPROC" and "parent (procs s ! c) = Some i" and "pstate (procs s ! c) = Zombie"
    and "\<not> ti_spp ti" and "ti_scause ti = 8" and "unat (ti_sepc ti) + 4 < 2 ^ 64"
    and "unat (arg i tf_a7 s) = SYS_WAIT" and "MAXVA \<le> unat (arg i tf_a0 s)"
  shows "usertrap te p1 p2 ti s = panic ''usertrapret: in critical section''"
proof -
  let ?s = "set_epc i (ti_sepc ti + 4) (set_epc i (ti_sepc ti) s)"
  have arg: "arg i tf_a7 ?s = arg i tf_a7 s" "arg i tf_a0 ?s = arg i tf_a0 s" by (simp_all add: tf_epc_def tf_a7_def tf_a0_def)
  have "held b {} False ?s" "cur ?s = Some i" "zombie_child i (procs ?s ! c)" using assms(1,2,4,5) by (simp_all add: zombie_child_def)
  from wait_bad [OF this(1,2) assms(3) this(3) assms(10)] obtain s' where
    w: "wait (unat (arg i tf_a0 s)) ?s = Ok (Done (-1), s')" "held b {} True s'" by blast
  have num: "SYS_WAIT \<noteq> SYS_EXIT" "SYS_WAIT \<noteq> SYS_FORK" "SYS_WAIT \<noteq> SYS_PIPE" "SYS_WAIT \<noteq> SYS_WRITE"
    by (simp_all add: SYS_WAIT_def SYS_EXIT_def SYS_FORK_def SYS_PIPE_def SYS_WRITE_def)
  have "syscall p1 p2 ?s = Ok (None, set_a0 i (-1) s')"
    using assms(2,9) arg num w(1) by (simp add: syscall_def myproc_def Let_def sys_wait_def wait_part_def set_result_def)
  moreover have "usertrapret te (set_a0 i (-1) s') = panic ''usertrapret: in critical section''"
    by (rule usertrapret_locked) (use w(2) in simp)
  ultimately show ?thesis using usertrap_ecall [OF assms(2,6-8)] assms(9) num(1) by (simp add: to_user_def)
qed

text \<open>The trapframe page of the process at address 4096, with \<open>a7\<close> and \<open>a0\<close>.\<close>

definition demo_wait :: kernel where
  "demo_wait = (let s = demo_kernel (Some 0) (Process_unused\<lparr>pstate := Running, pid := 1, trapframe := 4096\<rparr> #
       Process_unused\<lparr>pstate := Zombie, pid := 2, parent := Some 0\<rparr> # replicate 14 Process_unused)
     in s\<lparr>km := tf_set 4096 tf_a0 (2 ^ 40) (tf_set 4096 tf_a7 3 (km s))\<rparr>)"

theorem wait_bad_status_witness:
  "\<forall>te. usertrap te [] [] \<lparr>ti_spp = False, ti_sepc = 0, ti_scause = 8, ti_irq = 0, ti_rx = []\<rparr> demo_wait =
     panic ''usertrapret: in critical section''"
proof (rule allI, rule wait_bad_status [of True _ 0 1])
  have "held True {} False (demo_kernel (Some 0) (Process_unused\<lparr>pstate := Running, pid := 1, trapframe := 4096\<rparr> #
       Process_unused\<lparr>pstate := Zombie, pid := 2, parent := Some 0\<rparr> # replicate 14 Process_unused))"
    by (rule demo_held) (auto simp: NPROC_def Process_unused_def)
  then show "held True {} False demo_wait" by (simp add: demo_wait_def Let_def held_def)
  have "arg 0 tf_a7 demo_wait = 3" "arg 0 tf_a0 demo_wait = 2 ^ 40"
    by (simp_all add: demo_wait_def Let_def demo_kernel_def arg_def tf_get_def tf_set_def tf_a0_def tf_a7_def load_u64_store_other)
  then show "unat (arg 0 tf_a7 demo_wait) = SYS_WAIT" "MAXVA \<le> unat (arg 0 tf_a0 demo_wait)"
    by (simp_all add: SYS_WAIT_def MAXVA_def)
qed (simp_all add: demo_wait_def Let_def demo_kernel_def NPROC_def)

end
