(* ===== verification/Fs_More.thy ===== *)
theory Fs_More
  imports Fs_Ops
begin

text \<open>
  The file system leaves the rest of the kernel's state alone: its operations act on the disk, the buffer cache and
  the inode cache only.

  \<open>leaves g k m\<close> says that \<open>m\<close> panics or has a result with \<open>g\<close> equal to \<open>k\<close>.  Its rules follow the structure of
  the code; the collection \<open>kept\<close> holds them and one fact per operation.
\<close>

named_theorems kept

definition leaves :: "('r \<Rightarrow> 'm) \<Rightarrow> 'm \<Rightarrow> 'r res \<Rightarrow> bool" where
  "leaves g k m \<longleftrightarrow> (\<forall>x. m = Ok x \<longrightarrow> g x = k)"

lemma leavesD: "leaves g k m \<Longrightarrow> m = Ok x \<Longrightarrow> g x = k"
  by (simp add: leaves_def)

lemma leaves_bind [kept]: "leaves g k m \<Longrightarrow> (\<And>x. g x = k \<Longrightarrow> leaves h k (f x)) \<Longrightarrow> leaves h k (bindE m f)"
  by (auto simp: leaves_def bindE_Ok_iff)

lemma leaves_simps [simp]: "leaves g k (Ok x) \<longleftrightarrow> g x = k" "leaves g k (Inl e)"
  by (simp_all add: leaves_def)

lemma leaves_if [kept]: "(b \<Longrightarrow> leaves g k m) \<Longrightarrow> (\<not> b \<Longrightarrow> leaves g k m') \<Longrightarrow> leaves g k (if b then m else m')"
  by simp

lemma leaves_option [kept]:
  "(r = None \<Longrightarrow> leaves g k m) \<Longrightarrow> (\<And>y. r = Some y \<Longrightarrow> leaves g k (f y)) \<Longrightarrow> leaves g k (case r of None \<Rightarrow> m | Some y \<Rightarrow> f y)"
  by (simp split: option.splits)

lemma leaves_prod [kept]: "(\<And>a b. x = (a, b) \<Longrightarrow> leaves g k (f a b)) \<Longrightarrow> leaves g k (case x of (a, b) \<Rightarrow> f a b)"
  by (cases x) simp

lemma leaves_prod' [kept]: "(\<And>a b. x = (a, b) \<Longrightarrow> leaves g k (f a b y)) \<Longrightarrow> leaves g k ((case x of (a, b) \<Rightarrow> f a b) y)"
  by (cases x) simp

abbreviation more1 :: "'a \<times> 'z bstate_scheme \<Rightarrow> 'z" where "more1 r \<equiv> bstate.more (snd r)"
abbreviation more2 :: "'a \<times> 'b \<times> 'z bstate_scheme \<Rightarrow> 'z" where "more2 r \<equiv> bstate.more (snd (snd r))"

section \<open>Blocks and inodes on disk\<close>

lemma bread_kept [simp]: "more1 (bread b s) = bstate.more s"
  by (simp add: bread_def bget_def split: if_splits prod.splits option.splits)

lemma expect_kept [kept]: "more1 r = k \<Longrightarrow> leaves more1 k (expect msg r)"
  by (cases r; cases "fst r") auto

lemma bwrite_kept [kept]: "bstate.more s = k \<Longrightarrow> leaves bstate.more k (bwrite b s)"
  by (simp add: bwrite_def)

lemma brelse_kept [kept]: "bstate.more s = k \<Longrightarrow> leaves bstate.more k (brelse b s)"
  by (simp add: brelse_def)

lemma set_data_kept [simp]: "bstate.more (set_data bp d s) = bstate.more s"
  by (simp add: set_data_def)

lemma read_dinode_kept [kept]: "bstate.more s = k \<Longrightarrow> leaves more1 k (read_dinode i s)"
  unfolding read_dinode_def Let_def by (rule kept | simp)+

lemma write_dinode_kept [kept]: "bstate.more s = k \<Longrightarrow> leaves bstate.more k (write_dinode i d s)"
  unfolding write_dinode_def Let_def by (rule kept | simp)+

lemma iupdate_kept [kept]: "bstate.more s = k \<Longrightarrow> leaves bstate.more k (iupdate ip s)"
  unfolding iupdate_def by (rule write_dinode_kept)

lemma balloc_loop_kept: "bstate.more s = k \<Longrightarrow> leaves more1 k (balloc_loop ns s)"
proof (induction ns arbitrary: s)
  case (Cons n ns)
  show ?case unfolding balloc_loop.simps Let_def by (rule kept Cons.IH | simp add: Cons.prems)+
qed simp

lemma balloc_kept [kept]: "bstate.more s = k \<Longrightarrow> leaves more1 k (balloc s)"
  unfolding balloc_def by (rule balloc_loop_kept)

lemma bfree_kept [kept]: "bstate.more s = k \<Longrightarrow> leaves bstate.more k (bfree b s)"
  unfolding bfree_def Let_def by (rule kept | simp)+

section \<open>File contents\<close>

lemma bmap_lookup_kept [kept]: "bstate.more s = k \<Longrightarrow> leaves more1 k (bmap_lookup ip n s)"
  unfolding bmap_lookup_def Let_def by (rule kept | simp)+

lemma bmap_alloc_ind_kept [kept]: "bstate.more s = k \<Longrightarrow> leaves more2 k (bmap_alloc_ind ip n s)"
  unfolding bmap_alloc_ind_def Let_def by (rule kept | simp)+

lemma bmap_alloc_kept [kept]: "bstate.more s = k \<Longrightarrow> leaves more2 k (bmap_alloc ip n s)"
  unfolding bmap_alloc_def Let_def by (rule kept | simp)+

lemma chunk_pos: "tot < n \<Longrightarrow> n - (tot + min (n - tot) (BSIZE - k mod BSIZE)) < n - tot"
  by (simp add: BSIZE_def)

lemma readi_loop_kept [kept]: "bstate.more s = k \<Longrightarrow> leaves more2 k (readi_loop ip off n tot dst s)"
proof (induction "n - tot" arbitrary: tot dst s rule: less_induct)
  case less
  show ?case
    by (subst readi_loop.simps, unfold Let_def) (rule kept less.hyps chunk_pos | simp add: less.prems)+
qed

lemma inode_readi_kept [kept]: "bstate.more s = k \<Longrightarrow> leaves more2 k (inode_readi ip off dst s)"
  unfolding inode_readi_def Let_def by (rule kept | simp)+

lemma zero_fill_loop_kept [kept]: "bstate.more s = k \<Longrightarrow> leaves more2 k (zero_fill_loop ip from n tot s)"
proof (induction "n - tot" arbitrary: tot ip s rule: less_induct)
  case less
  show ?case
    by (subst zero_fill_loop.simps, unfold Let_def) (rule kept less.hyps chunk_pos | simp add: less.prems)+
qed

lemma writei_loop_kept [kept]: "bstate.more s = k \<Longrightarrow> leaves more2 k (writei_loop ip off src tot s)"
proof (induction "length src - tot" arbitrary: tot ip s rule: less_induct)
  case less
  show ?case
    by (subst writei_loop.simps, unfold Let_def) (rule kept less.hyps chunk_pos | simp add: less.prems)+
qed

lemma zero_fill_kept [kept]: "bstate.more s = k \<Longrightarrow> leaves more2 k (zero_fill ip a b s)"
  unfolding zero_fill_def by (rule kept | simp)+

lemma writei_tail_kept [kept]: "bstate.more s = k \<Longrightarrow> leaves more2 k (writei_tail ip off src c s)"
  unfolding writei_tail_def Let_def by (rule kept | simp)+

lemma inode_writei_kept [kept]: "bstate.more s = k \<Longrightarrow> leaves more2 k (inode_writei ip off src s)"
  unfolding inode_writei_def by (rule kept | simp)+

lemma itrunc_direct_kept [kept]: "bstate.more s = k \<Longrightarrow> leaves more1 k (itrunc_direct is ip s)"
proof (induction "is" arbitrary: ip s)
  case (Cons i "is")
  show ?case unfolding itrunc_direct.simps Let_def by (rule kept Cons.IH | simp add: Cons.prems)+
qed simp

lemma itrunc_indirect_kept [kept]: "bstate.more s = k \<Longrightarrow> leaves bstate.more k (itrunc_indirect bp is s)"
proof (induction "is" arbitrary: s)
  case (Cons i "is")
  show ?case unfolding itrunc_indirect.simps Let_def by (rule kept Cons.IH | simp add: Cons.prems)+
qed simp

lemma itrunc_kept [kept]: "bstate.more s = k \<Longrightarrow> leaves more1 k (itrunc ip s)"
  unfolding itrunc_def Let_def by (rule leaves_bind [where g = more1] kept | simp)+

section \<open>Directories\<close>

lemma read_dirent_kept [kept]: "bstate.more s = k \<Longrightarrow> leaves more1 k (read_dirent dp off s)"
  unfolding read_dirent_def by (rule kept | simp)+

lemma write_dirent_kept [kept]: "bstate.more s = k \<Longrightarrow> leaves more2 k (write_dirent dp off de s)"
  unfolding write_dirent_def Let_def by (rule kept | simp)+

lemma leaves_next: "(\<And>off'. next_off off = Ok off' \<Longrightarrow> leaves g k (f off')) \<Longrightarrow> leaves g k (bindE (next_off off) f)"
  by (auto simp: leaves_def bindE_Ok_iff)

lemma dirlookup_loop_kept [kept]: "bstate.more s = k \<Longrightarrow> leaves more1 k (dirlookup_loop dp name off s)"
proof (induction "unat (i_size dp) - unat off" arbitrary: off s rule: less_induct)
  case less
  show ?case
    by (subst dirlookup_loop.simps) (rule leaves_next kept less.hyps | (rule next_off_less, assumption, assumption) | simp add: less.prems)+
qed

lemma dirlink_loop_kept [kept]: "bstate.more s = k \<Longrightarrow> leaves more1 k (dirlink_loop dp off s)"
proof (induction "unat (i_size dp) - unat off" arbitrary: off s rule: less_induct)
  case less
  show ?case
    by (subst dirlink_loop.simps) (rule leaves_next kept less.hyps | (rule next_off_less, assumption, assumption) | simp add: less.prems)+
qed

lemma dirlookup_kept [kept]: "bstate.more s = k \<Longrightarrow> leaves more1 k (dirlookup dp name s)"
  unfolding dirlookup_def by (rule kept | simp)+

lemma dirlink_kept [kept]: "bstate.more s = k \<Longrightarrow> leaves more2 k (dirlink dp name inum s)"
  unfolding dirlink_def by (rule kept | simp)+

section \<open>Operations on the inode cache\<close>

text \<open>The same for the extension by the inode cache.\<close>

named_theorems fkept

abbreviation fmore1 :: "'a \<times> 'z fs_scheme \<Rightarrow> 'z" where "fmore1 r \<equiv> fs.more (snd r)"
abbreviation fmore2 :: "'a \<times> 'b \<times> 'z fs_scheme \<Rightarrow> 'z" where "fmore2 r \<equiv> fs.more (snd (snd r))"

lemma fs_more: "bstate.more s' = bstate.more s \<Longrightarrow> fs.more s' = fs.more s"
  by (cases s; cases s') simp

lemma lift0: "leaves bstate.more (bstate.more s) m \<Longrightarrow> fs.more s = k \<Longrightarrow> leaves fs.more k m"
  using fs_more by (auto simp: leaves_def)

lemma lift1: "leaves more1 (bstate.more s) m \<Longrightarrow> fs.more s = k \<Longrightarrow> leaves fmore1 k m"
  using fs_more by (auto simp: leaves_def)

lemma lift2: "leaves more2 (bstate.more s) m \<Longrightarrow> fs.more s = k \<Longrightarrow> leaves fmore2 k m"
  using fs_more by (auto simp: leaves_def)

lemmas [fkept] =
  leaves_bind leaves_if leaves_option leaves_prod leaves_prod'
  lift0 [OF write_dinode_kept [OF refl]] lift0 [OF iupdate_kept [OF refl]]
  lift1 [OF read_dinode_kept [OF refl]] lift1 [OF dirlookup_kept [OF refl]] lift1 [OF itrunc_kept [OF refl]]
  lift2 [OF dirlink_kept [OF refl]] lift2 [OF inode_readi_kept [OF refl]] lift2 [OF inode_writei_kept [OF refl]]

lemma set_inode_kept [simp]: "fs.more (set_inode r ip s) = fs.more s"
  by (simp add: set_inode_def)

lemma iget_kept [simp]: "fmore1 (iget i s) = fs.more s"
  by (simp add: iget_def split: prod.splits)

lemma iput_kept [fkept]: "fs.more s = k \<Longrightarrow> leaves fs.more k (iput r s)"
  by (simp add: iput_def Let_def)

lemma idup_kept [fkept]: "fs.more s = k \<Longrightarrow> leaves fmore1 k (idup r s)"
  by (simp add: idup_def Let_def)

lemma ilock_kept [fkept]: "fs.more s = k \<Longrightarrow> leaves fmore1 k (ilock r s)"
  unfolding ilock_def Let_def by (rule fkept | simp)+

lemma ialloc_kept [fkept]: "fs.more s = k \<Longrightarrow> leaves fmore1 k (ialloc ty s)"
proof -
  have "fs.more s = k \<Longrightarrow> leaves fmore1 k (ialloc_loop is ty s)" for "is"
  proof (induction "is" arbitrary: s)
    case (Cons i "is")
    show ?case unfolding ialloc_loop.simps Let_def by (rule fkept Cons.IH | simp add: Cons.prems)+
  qed simp
  then show "fs.more s = k \<Longrightarrow> ?thesis" by (simp add: ialloc_def)
qed

lemma inc_nlink_kept [fkept]: "fs.more s = k \<Longrightarrow> leaves fs.more k (inc_nlink r s)"
  unfolding inc_nlink_def Let_def by (rule fkept | simp)+

lemma guard_dirlink_kept [fkept]: "fs.more s = k \<Longrightarrow> leaves fmore1 k (guard_dirlink r name i s)"
  unfolding guard_dirlink_def by (rule fkept | simp)+

lemma link_child_kept [fkept]: "fs.more s = k \<Longrightarrow> leaves fmore1 k (link_child r name i s)"
  unfolding link_child_def by (rule fkept | simp)+

lemma mkdir_dots_kept [fkept]: "fs.more s = k \<Longrightarrow> leaves fmore1 k (mkdir_dots r p s)"
  unfolding mkdir_dots_def Let_def by (rule leaves_bind [where g = fmore1] fkept | simp)+

lemma mkdir_child_kept [fkept]: "fs.more s = k \<Longrightarrow> leaves fmore1 k (mkdir_child p name s)"
  unfolding mkdir_child_def Let_def by (rule fkept | simp)+

lemma create_empty_file_kept [fkept]: "fs.more s = k \<Longrightarrow> leaves fmore1 k (create_empty_file p name s)"
  unfolding create_empty_file_def Let_def by (rule fkept | simp)+

section \<open>Paths and the entry points\<close>

lemma path_start_kept [fkept]: "fs.more s = k \<Longrightarrow> leaves fmore1 k (path_start cwd path s)"
  unfolding path_start_def by (rule fkept | simp)+

lemma leaves_iget:
  "fs.more s = k \<Longrightarrow> (\<And>q s. fs.more s = k \<Longrightarrow> leaves g k (f q s)) \<Longrightarrow> leaves g k (case iget i s of (q, s) \<Rightarrow> f q s)"
  using iget_kept [of i s] by (cases "iget i s") auto

lemma walk_step_kept [fkept]: "fs.more s = k \<Longrightarrow> leaves fmore1 k (walk_step r name s)"
  unfolding walk_step_def by (rule leaves_bind [where g = fmore1] leaves_iget fkept | simp)+

lemma namei_loop_kept [fkept]: "fs.more s = k \<Longrightarrow> leaves fmore1 k (namei_loop r rest s)"
proof (induction "length rest" arbitrary: r rest s rule: less_induct)
  case less
  show ?case
    by (subst namei_loop.simps) (rule fkept less.hyps | (auto dest: skipelem_shorter; fail) | simp add: less.prems)+
qed

lemma nameiparent_loop_kept [fkept]: "fs.more s = k \<Longrightarrow> leaves fmore1 k (nameiparent_loop r rest s)"
proof (induction "length rest" arbitrary: r rest s rule: less_induct)
  case less
  show ?case
    by (subst nameiparent_loop.simps) (rule fkept less.hyps | (auto dest: skipelem_shorter; fail) | simp add: less.prems)+
qed

lemma namei_kept [fkept]: "fs.more s = k \<Longrightarrow> leaves fmore1 k (namei cwd path s)"
  unfolding namei_def by (rule fkept | simp)+

lemma nameiparent_kept [fkept]: "fs.more s = k \<Longrightarrow> leaves fmore1 k (nameiparent cwd path s)"
  unfolding nameiparent_def by (rule fkept | simp)+

lemma inode_type_kept [fkept]: "fs.more s = k \<Longrightarrow> leaves fmore1 k (inode_type r s)"
  unfolding inode_type_def by (rule fkept | simp)+

lemma create_kept [fkept]: "fs.more s = k \<Longrightarrow> leaves fmore1 k (create cwd path s)"
  unfolding create_def by (rule leaves_iget fkept | simp)+

lemma mkdir_kept [fkept]: "fs.more s = k \<Longrightarrow> leaves fmore1 k (mkdir cwd path s)"
  unfolding mkdir_def by (rule fkept | simp)+

lemma stati_kept [fkept]: "fs.more s = k \<Longrightarrow> leaves fmore1 k (stati r s)"
  unfolding stati_def by (rule fkept | simp)+

lemma readi_kept [fkept]: "fs.more s = k \<Longrightarrow> leaves fmore2 k (readi r off dst s)"
  unfolding readi_def by (rule fkept | simp)+

lemma writei_kept [fkept]: "fs.more s = k \<Longrightarrow> leaves fmore1 k (writei r off src s)"
  unfolding writei_def by (rule fkept | simp)+

lemma appendi_kept [fkept]: "fs.more s = k \<Longrightarrow> leaves fmore1 k (appendi r src s)"
  unfolding appendi_def Let_def by (rule fkept | simp)+

lemma trunc_kept [fkept]: "fs.more s = k \<Longrightarrow> leaves fs.more k (trunc r s)"
  unfolding trunc_def by (rule fkept | simp)+

end
