(* ===== verification/Descriptors.thy ===== *)
theory Descriptors
  imports Prelude
begin

text \<open>
  The descriptor table of a process as programs see it: what \<open>close\<close>, \<open>dup\<close>, \<open>pipe\<close> and \<open>open\<close> of
  \<open>user/src/lib.rs\<close> return and what they do to the table.  An entry is the open file behind a descriptor.
  That the system calls of the kernel act this way on \<open>ofile\<close> is shown in \<open>File_Refs\<close>.

  Every call that makes a descriptor takes the lowest one that is free (\<open>fdalloc\<close> in \<open>src/syscall.rs\<close>).
\<close>

type_synonym 'f fdtab = "'f option list"

abbreviation lowest :: "'f fdtab \<Rightarrow> nat option" where
  "lowest t \<equiv> find_slot (\<lambda>x. x = None) t"

definition fd_open :: "int \<Rightarrow> 'f fdtab \<Rightarrow> bool" where
  "fd_open fd t \<longleftrightarrow> 0 \<le> fd \<and> fd < int (length t) \<and> t ! nat fd \<noteq> None"

definition user_close :: "int \<Rightarrow> 'f fdtab \<Rightarrow> int \<times> 'f fdtab" where
  "user_close fd t = (if fd_open fd t then (0, t[nat fd := None]) else (-1, t))"

definition user_dup :: "int \<Rightarrow> 'f fdtab \<Rightarrow> int \<times> 'f fdtab" where
  "user_dup fd t =
     (if \<not> fd_open fd t then (-1, t)
      else
        (case lowest t of
           None \<Rightarrow> (-1, t)
         | Some k \<Rightarrow> (int k, t[k := t ! nat fd])))"

text \<open>\<open>ends\<close> are the two files of the new pipe, \<open>None\<close> when the kernel has no pipe or no file left.\<close>

definition user_pipe :: "('f \<times> 'f) option \<Rightarrow> 'f fdtab \<Rightarrow> (int \<times> int) option \<times> 'f fdtab" where
  "user_pipe ends t =
     (case ends of
        None \<Rightarrow> (None, t)
      | Some (rd, wr) \<Rightarrow>
          (case lowest t of
             None \<Rightarrow> (None, t)
           | Some r \<Rightarrow>
               (case lowest (t[r := Some rd]) of
                  None \<Rightarrow> (None, t)
                | Some w \<Rightarrow> (Some (int r, int w), t[r := Some rd, w := Some wr]))))"

text \<open>\<open>f\<close> is the file the path and the flags lead to, \<open>None\<close> when it cannot be opened.\<close>

definition user_open :: "'f option \<Rightarrow> 'f fdtab \<Rightarrow> int \<times> 'f fdtab" where
  "user_open f t =
     (case f of
        None \<Rightarrow> (-1, t)
      | Some x \<Rightarrow>
          (case lowest t of
             None \<Rightarrow> (-1, t)
           | Some k \<Rightarrow> (int k, t[k := Some x])))"

section \<open>The lowest free descriptor\<close>

lemma lowest_update: "n < length t \<Longrightarrow> \<forall>m < n. t ! m \<noteq> None \<Longrightarrow> lowest (t[n := None]) = Some n"
  by (simp add: find_slot_Some_iff)

lemma length_user_close [simp]: "length (snd (user_close fd t)) = length t"
  by (simp add: user_close_def)

lemma nth_user_close:
  assumes "x < length t"
  shows "snd (user_close fd t) ! x = (if int x = fd then None else t ! x)"
  using assms by (auto simp: user_close_def fd_open_def nth_list_update)

text \<open>Replacing a descriptor: it is closed, and the next descriptor made takes its place.\<close>

lemma user_close_nth: "n < length t \<Longrightarrow> t ! n \<noteq> None \<Longrightarrow> user_close (int n) t = (0, t[n := None])"
  by (simp add: user_close_def fd_open_def)

lemma dup_onto:
  assumes n: "n < length t" "\<forall>m \<le> n. t ! m \<noteq> None" and fd: "0 \<le> fd" "nat fd < length t" "nat fd \<noteq> n" "t ! nat fd = Some f"
  shows "user_dup fd (snd (user_close (int n) t)) = (int n, t[n := Some f])"
proof -
  have "fd_open fd (t[n := None])" using fd by (simp add: fd_open_def nat_less_iff)
  then show ?thesis using lowest_update [of n t] user_close_nth [of n t] n fd by (simp add: user_dup_def)
qed

lemma open_onto:
  assumes "n < length t" and "\<forall>m \<le> n. t ! m \<noteq> None"
  shows "user_open f (snd (user_close (int n) t)) = (case f of None \<Rightarrow> (-1, t[n := None]) | Some x \<Rightarrow> (int n, t[n := f]))"
  using lowest_update [of n t] user_close_nth [of n t] assms by (simp add: user_open_def split: option.splits)

end
