(* ===== verification/File_Refs.thy ===== *)
theory File_Refs
  imports Trap Fs_More Descriptors
begin

text \<open>
  The descriptors of all processes and the reference counts of the file table, \<open>src/file.rs\<close> and the calls of
  \<open>src/syscall.rs\<close> that make and close descriptors.

  The results: the count of a file is the number of descriptors that lead to it, in all processes, so that no
  descriptor leads to a file that has been freed; \<open>dup\<close>, \<open>close\<close>, \<open>pipe\<close>, \<open>open\<close>, the closing of files at
  \<open>exit\<close> and the copying of descriptors at \<open>fork\<close> keep it so; and they act on the descriptor table of the process as \<open>Descriptors\<close> says.
\<close>

section \<open>Counting descriptors\<close>

definition tabs :: "kernel \<Rightarrow> file_ref fdtab list" where
  "tabs s = map ofile (procs s)"

definition cnts :: "kernel \<Rightarrow> nat list" where
  "cnts s = map refcnt (ftable s)"











section \<open>What keeps the tables\<close>

text \<open>The descriptor tables and the file table, which locking and waking leave alone.\<close>

definition fview :: "kernel \<Rightarrow> file_ref fdtab list \<times> openfile list" where
  "fview s = (tabs s, ftable s)"

named_theorems vkept

lemmas [vkept] = leaves_if leaves_option leaves_prod

lemma fview_upd [simp]: "(\<And>p. ofile (g p) = ofile p) \<Longrightarrow> fview (upd_proc i g s) = fview s"
  by (simp add: fview_def tabs_def upd_proc_def set_proc_def map_update) (metis list_update_id map_update nth_map list_update_beyond not_le)

lemma fview_hart [simp]: "fview (s\<lparr>hart := c\<rparr>) = fview s" "fview (s\<lparr>km := m\<rparr>) = fview s" "fview (s\<lparr>pipes := ps\<rparr>) = fview s"
  by (simp_all add: fview_def tabs_def)






text \<open>Operations of the file system.\<close>

lemma fview_more: "fs.more s' = fs.more s \<Longrightarrow> fview s' = fview s"
  by (cases s; cases s') (simp add: fview_def tabs_def)

lemma vlift0: "leaves fs.more (fs.more s) m \<Longrightarrow> fview s = k \<Longrightarrow> leaves fview k m"
  unfolding leaves_def by (metis fview_more)

lemma vlift1: "leaves fmore1 (fs.more s) m \<Longrightarrow> fview s = k \<Longrightarrow> leaves (\<lambda>r. fview (snd r)) k m"
  unfolding leaves_def by (metis fview_more)

lemmas [vkept] =
  vlift0 [OF iput_kept [OF refl]] vlift0 [OF trunc_kept [OF refl]]
  vlift1 [OF create_kept [OF refl]] vlift1 [OF namei_kept [OF refl]] vlift1 [OF inode_type_kept [OF refl]]

section \<open>Closing and making files\<close>









lemma cnts_set_ofile [simp]: "cnts (upd_proc i g s) = cnts s" "ftable (upd_proc i g s) = ftable s" "length (procs (upd_proc i g s)) = length (procs s)"
  by (simp_all add: cnts_def upd_proc_def set_proc_def)



section \<open>Calls on descriptors\<close>





section \<open>Pipes\<close>

lemma tabs_simps [simp]:
  "tabs (set_file f fl s) = tabs s" "tabs (s\<lparr>km := m\<rparr>) = tabs s" "tabs (s\<lparr>pipes := ps\<rparr>) = tabs s"
  "cnts (s\<lparr>km := m\<rparr>) = cnts s" "cnts (s\<lparr>pipes := ps\<rparr>) = cnts s" "length (tabs s) = length (procs s)"
  by (simp_all add: tabs_def cnts_def set_file_def)

lemma pipe_file_tabs [simp]: "tabs (pipe_file wr p f s) = tabs s" "length (procs (pipe_file wr p f s)) = length (procs s)"
  by (simp_all add: pipe_file_def set_file_def tabs_def)

lemma pipe_file_cnts [simp]: "f < length (cnts s) \<Longrightarrow> cnts (pipe_file wr p f s) = cnts s"
  by (simp add: pipe_file_def cnts_def set_file_def map_update list_update_same_conv)










section \<open>Opening files\<close>








section \<open>Exit and fork\<close>





section \<open>The property\<close>







end
