(* ===== verification/Exec_Args.thy ===== *)
theory Exec_Args
  imports Exec Vm_Demo
begin

text \<open>
  The arguments of a new program: what \<open>push_argv\<close> puts on its stack is what \<open>copy_argv\<close> reads as an
  argument vector, in the layout the program expects (\<open>Args::get\<close> of \<open>user/src/lib.rs\<close>): pointers that
  end with a null pointer, to strings that end with a NUL.
\<close>

section \<open>User memory as seen by the program\<close>

definition poke :: "nat \<Rightarrow> byte list \<Rightarrow> (nat \<Rightarrow> byte option) \<Rightarrow> nat \<Rightarrow> byte option" where
  "poke va bs v = (\<lambda>x. if va \<le> x \<and> x < va + length bs then Some (bs ! (x - va)) else v x)"

lemma read_bytes_nth: "read_bytes v va n = Some bs \<Longrightarrow> i < n \<Longrightarrow> v (va + i) = Some (bs ! i)"
proof (induction n arbitrary: va bs i)
  case (Suc n)
  then obtain b cs where b: "v va = Some b" "read_bytes v (Suc va) n = Some cs" "bs = b # cs"
    by (auto split: option.splits)
  then show ?case using Suc.IH [OF b(2), of "i - 1"] Suc.prems(2) by (cases i) auto
qed simp

lemma read_bytes_eq: "(\<And>i. i < length bs \<Longrightarrow> v (va + i) = Some (bs ! i)) \<Longrightarrow> read_bytes v va (length bs) = Some bs"
proof (induction bs arbitrary: va)
  case (Cons b bs)
  have "v va = Some b" using Cons.prems [of 0] by simp
  moreover have "read_bytes v (Suc va) (length bs) = Some bs"
    by (rule Cons.IH) (use Cons.prems [of "Suc i" for i] in simp)
  ultimately show ?case by simp
qed simp

lemma read_str_eq:
  "(\<And>j. j \<le> length a \<Longrightarrow> v (p + j) = Some ((a @ [0]) ! j)) \<Longrightarrow> 0 \<notin> set a \<Longrightarrow> length a < n \<Longrightarrow> read_str v p n = Some a"
proof (induction a arbitrary: p n)
  case Nil
  then show ?case using Nil.prems(1) [of 0] by (cases n) auto
next
  case (Cons b a)
  have "v p = Some b" using Cons.prems(1) [of 0] by simp
  moreover have "read_str v (Suc p) (n - 1) = Some a"
    by (rule Cons.IH) (use Cons.prems(1) [of "Suc j" for j] Cons.prems(2,3) in auto)
  ultimately show ?case using Cons.prems(2,3) by (cases n) auto
qed

text \<open>An address space whose writable pages are readable and that is writable from \<open>lo\<close> to \<open>hi\<close>.\<close>

definition rw_space :: "kmem \<Rightarrow> paddr \<Rightarrow> tables \<Rightarrow> paddr list \<Rightarrow> paddr \<Rightarrow> nat set \<Rightarrow> nat \<Rightarrow> nat \<Rightarrow> bool" where
  "rw_space s pt R ps tf U lo hi \<longleftrightarrow>
     aspace s pt R ps tf U \<and> (\<forall>v \<in> U. grants PTE_W (pte_at (mem s) R v) \<longrightarrow> grants PTE_R (pte_at (mem s) R v)) \<and>
     (\<forall>x. lo \<le> x \<longrightarrow> x < hi \<longrightarrow> user_at (mem s) R PTE_W x \<noteq> None)"

lemma write_bytes_succeeds: "(\<And>i. i < length bs \<Longrightarrow> f (va + i) \<noteq> None) \<Longrightarrow> fst (write_bytes f va bs m)"
proof (induction bs arbitrary: va m)
  case (Cons b bs)
  obtain a where "f va = Some a" using Cons.prems [of 0] by auto
  moreover have "fst (write_bytes f (Suc va) bs (m(a := b)))" for a
    by (rule Cons.IH) (use Cons.prems [of "Suc i" for i] in simp)
  ultimately show ?case by simp
qed simp

lemma write_bytes_nth:
  assumes "write_bytes f va bs m = (True, m')" and "\<And>x y a. f x = Some a \<Longrightarrow> f y = Some a \<Longrightarrow> x = y"
    and "i < length bs" and "f (va + i) = Some a"
  shows "m' a = bs ! i"
proof -
  have "read_bytes (\<lambda>a. map_option m' (f a)) va (length bs) = Some bs"
    by (rule write_then_read_bytes [OF assms(1)]) (use assms(2) in force)+
  from read_bytes_nth [OF this assms(3)] assms(4) show ?thesis by simp
qed

lemma rw_copyout:
  assumes "rw_space s pt R ps tf U lo hi" and "lo \<le> va" and "va + length bs \<le> hi"
  shows "\<exists>s'. copyout pt va bs s = Ok (True, s') \<and> rw_space s' pt R ps tf U lo hi \<and>
    (\<forall>x. user_byte s' R x = poke va bs (user_byte s R) x)"
proof -
  note a = assms(1) [unfolded rw_space_def]
  have as: "aspace s pt R ps tf U" using a by blast
  let ?f = "user_at (mem s) R PTE_W" and ?g = "user_at (mem s) R PTE_R"
  obtain ok m where m: "copyout pt va bs s = Ok (ok, s\<lparr>mem := m\<rparr>)" "write_bytes ?f va bs (mem s) = (ok, m)" "written s pt R ps tf U m"
    using copyout_spec [OF as, of va bs] by blast
  have "fst (write_bytes ?f va bs (mem s))" using a assms(2,3) by (intro write_bytes_succeeds) simp
  then have ok: ok using m(2) by simp
  note w = m(2) [unfolded eqTrueI [OF ok]]
  have at: "pte_at m R = pte_at (mem s) R" and as': "aspace (s\<lparr>mem := m\<rparr>) pt R ps tf U" using m(3) by (simp_all add: written_def)
  note cong = user_at_cong [OF at]
  have g: "?g x = ?f x" if "?f x \<noteq> None" for x
  proof -
    have "x < MAXVA" "grants PTE_W (pte_at (mem s) R (x div PGSIZE))"
      using that by (auto simp: user_at_def Let_def split: if_splits)
    then show ?thesis using a aspace_grants [OF as, of x PTE_W] by (simp add: user_at_def Let_def)
  qed
  have "map_option m (?g x) = poke va bs (user_byte s R) x" for x
  proof (cases "va \<le> x \<and> x < va + length bs")
    case True
    then obtain i where i: "x = va + i" "i < length bs" by (metis add_diff_inverse_nat less_diff_conv2 not_less add.commute le_add_diff_inverse2)
    obtain b where b: "?f x = Some b" using write_bytes_mapped [OF w i(2)] i(1) by auto
    have "m b = bs ! i" by (rule write_bytes_nth [OF w _ i(2)]) (use user_at_inj [OF as] b i(1) in auto)
    then show ?thesis using True g [of x] b i by (simp add: poke_def)
  next
    case False
    have "m b = mem s b" if b: "?g x = Some b" for b
    proof (rule write_bytes_other [OF w])
      fix i assume i: "i < length bs"
      show "?f (va + i) \<noteq> Some b" using user_at_inj [OF as b, of PTE_W "va + i"] i False by auto
    qed
    then show ?thesis using False by (cases "?g x") (auto simp: poke_def)
  qed
  then have "user_byte (s\<lparr>mem := m\<rparr>) R x = poke va bs (user_byte s R) x" for x by (simp add: cong)
  moreover have "rw_space (s\<lparr>mem := m\<rparr>) pt R ps tf U lo hi" using a as' by (simp add: rw_space_def at cong)
  ultimately show ?thesis using m(1) ok by auto
qed

section \<open>The strings\<close>

definition laid :: "(nat \<Rightarrow> byte option) \<Rightarrow> byte list list \<Rightarrow> nat list \<Rightarrow> nat \<Rightarrow> nat \<Rightarrow> bool" where
  "laid v as ptrs lo hi \<longleftrightarrow> length as = length ptrs \<and>
     (\<forall>k < length as. lo \<le> ptrs ! k \<and> ptrs ! k + length (as ! k) < hi \<and>
        (\<forall>j \<le> length (as ! k). v (ptrs ! k + j) = Some ((as ! k @ [0]) ! j)))"

lemma laid_cong:
  assumes "laid v as ptrs lo hi" and "\<And>x. lo \<le> x \<Longrightarrow> x < hi \<Longrightarrow> v' x = v x"
  shows "laid v' as ptrs lo hi"
  unfolding laid_def
proof (intro conjI allI impI)
  show "length as = length ptrs" using assms(1) by (simp add: laid_def)
  fix k assume k: "k < length as"
  then show "lo \<le> ptrs ! k" "ptrs ! k + length (as ! k) < hi" using assms(1) by (simp_all add: laid_def)
  fix j assume "j \<le> length (as ! k)"
  then have "v (ptrs ! k + j) = Some ((as ! k @ [0]) ! j)" "lo \<le> ptrs ! k + j" "ptrs ! k + j < hi"
    using k assms(1) unfolding laid_def by fastforce+
  then show "v' (ptrs ! k + j) = Some ((as ! k @ [0]) ! j)" using assms(2) by simp
qed

lemma laid_snoc:
  assumes "laid v as ptrs lo p" and "\<And>j. j \<le> length a \<Longrightarrow> v (p + j) = Some ((a @ [0]) ! j)" and "lo \<le> p" and "p + length a < hi"
  shows "laid v (as @ [a]) (ptrs @ [p]) lo hi"
  using assms unfolding laid_def by (auto simp: nth_append less_Suc_eq)

definition str_size :: "byte list list \<Rightarrow> nat" where
  "str_size as = sum_list (map (\<lambda>a. length a + 1) as)"

lemma push_strings_spec:
  assumes "rw_space s pt R ps tf U lo hi" and "sp \<le> hi" and "lo + str_size as \<le> sp"
  shows "\<exists>s' new. push_strings pt lo as sp ptrs s = Ok (Some (sp - str_size as, new @ ptrs), s') \<and>
    rw_space s' pt R ps tf U lo hi \<and> laid (user_byte s' R) (rev as) new (sp - str_size as) sp \<and>
    (\<forall>x \<ge> sp. user_byte s' R x = user_byte s R x)"
  using assms
proof (induction as arbitrary: sp ptrs s)
  case Nil
  then show ?case by (auto simp: str_size_def laid_def)
next
  case (Cons a as)
  let ?sp = "sp - (length a + 1)"
  have le: "length a + 1 \<le> sp" "lo \<le> ?sp" "lo + str_size as \<le> ?sp" and tot: "?sp - str_size as = sp - str_size (a # as)"
    using Cons.prems(3) by (simp_all add: str_size_def)
  have "?sp + length (a @ [0]) \<le> hi" using le(1) Cons.prems(2) by simp
  from rw_copyout [OF Cons.prems(1) le(2) this] obtain s1 where
    1: "copyout pt ?sp (a @ [0]) s = Ok (True, s1)" "rw_space s1 pt R ps tf U lo hi"
      "\<forall>x. user_byte s1 R x = poke ?sp (a @ [0]) (user_byte s R) x" by blast
  have "?sp \<le> hi" using Cons.prems(2) by simp
  from Cons.IH [OF 1(2) this le(3), of "?sp # ptrs"] obtain s2 new where
    2: "push_strings pt lo as ?sp (?sp # ptrs) s1 = Ok (Some (?sp - str_size as, new @ ?sp # ptrs), s2)"
      "rw_space s2 pt R ps tf U lo hi" "laid (user_byte s2 R) (rev as) new (?sp - str_size as) ?sp"
      "\<forall>x \<ge> ?sp. user_byte s2 R x = user_byte s1 R x" by blast
  have v: "user_byte s2 R x = poke ?sp (a @ [0]) (user_byte s R) x" if "?sp \<le> x" for x
    using 2(4) [rule_format, OF that] 1(3) [rule_format, of x] by (rule trans)
  have "laid (user_byte s2 R) (rev as @ [a]) (new @ [?sp]) (?sp - str_size as) sp"
    using le(1) v by (intro laid_snoc [OF 2(3)]) (auto simp: poke_def)
  moreover have "user_byte s2 R x = user_byte s R x" if "sp \<le> x" for x
    using v [of x] that le(1) by (simp add: poke_def)
  moreover have "push_strings pt lo (a # as) sp ptrs s = Ok (Some (sp - str_size (a # as), (new @ [?sp]) @ ptrs), s2)"
    using 1(1) 2(1) le(1,2) unfolding tot by (simp add: Let_def)
  ultimately show ?case using 2(2) unfolding tot by (intro exI [of _ s2] exI [of _ "new @ [?sp]"]) simp
qed

section \<open>The pointers\<close>

abbreviation ptr_bytes :: "nat \<Rightarrow> byte list" where
  "ptr_bytes p \<equiv> le_of_word (of_nat p :: u64)"

lemma poke_append: "poke (va + length xs) ys (poke va xs v) = poke va (xs @ ys) v"
  by (auto simp: poke_def fun_eq_iff nth_append)

lemma poke_cong: "(\<And>x. v x = w x) \<Longrightarrow> poke va bs v x = poke va bs w x"
  by (simp add: poke_def)

lemma push_pointers_spec:
  assumes "rw_space s pt R ps tf U lo hi" and "lo \<le> va" and "va + 8 * length ptrs \<le> hi"
  shows "\<exists>s'. push_pointers pt va ptrs s = Ok (True, s') \<and> rw_space s' pt R ps tf U lo hi \<and>
    (\<forall>x. user_byte s' R x = poke va (concat (map ptr_bytes ptrs)) (user_byte s R) x)"
  using assms
proof (induction ptrs arbitrary: va s)
  case Nil
  then show ?case by (auto simp: poke_def)
next
  case (Cons p ptrs)
  have "va + length (ptr_bytes p) \<le> hi" using Cons.prems(3) by simp
  from rw_copyout [OF Cons.prems(1,2) this] obtain s1 where
    1: "copyout pt va (ptr_bytes p) s = Ok (True, s1)" "rw_space s1 pt R ps tf U lo hi"
      "\<forall>x. user_byte s1 R x = poke va (ptr_bytes p) (user_byte s R) x" by blast
  have h: "lo \<le> va + 8" "va + 8 + 8 * length ptrs \<le> hi" using Cons.prems(2,3) by simp_all
  from Cons.IH [OF 1(2) h] obtain s2 where
    2: "push_pointers pt (va + 8) ptrs s1 = Ok (True, s2)" "rw_space s2 pt R ps tf U lo hi"
      "\<forall>x. user_byte s2 R x = poke (va + 8) (concat (map ptr_bytes ptrs)) (user_byte s1 R) x" by blast
  have "user_byte s2 R x = poke va (concat (map ptr_bytes (p # ptrs))) (user_byte s R) x" for x
  proof -
    have "user_byte s2 R x = poke (va + 8) (concat (map ptr_bytes ptrs)) (poke va (ptr_bytes p) (user_byte s R)) x"
      using 2(3) poke_cong [of "user_byte s1 R" "poke va (ptr_bytes p) (user_byte s R)"] 1(3) by metis
    then show ?thesis using poke_append [of va "ptr_bytes p" "concat (map ptr_bytes ptrs)" "user_byte s R"] by simp
  qed
  then show ?case using 1(1) 2(1,2) by (auto simp: USIZE_BYTES_def)
qed

lemma concat_nth: "k < length ps \<Longrightarrow> i < 8 \<Longrightarrow> concat (map ptr_bytes ps) ! (8 * k + i) = ptr_bytes (ps ! k) ! i"
proof (induction ps arbitrary: k)
  case (Cons p ps)
  then show ?case by (cases k) (simp_all add: nth_append)
qed simp

lemma concat_length: "length (concat (map ptr_bytes ps)) = 8 * length ps"
  by (induction ps) simp_all

lemma read_pointer:
  assumes "\<And>x. v x = poke va (concat (map ptr_bytes ptrs)) w x" and "k < length ptrs"
  shows "read_bytes v (va + k * 8) 8 = Some (ptr_bytes (ptrs ! k))"
proof -
  have "v (va + k * 8 + i) = Some (ptr_bytes (ptrs ! k) ! i)" if "i < 8" for i
    using concat_nth [OF assms(2) that] assms(2) that concat_length [of ptrs]
    by (simp add: assms(1) poke_def mult.commute [of k] add.assoc)
  then show ?thesis using read_bytes_eq [of "ptr_bytes (ptrs ! k)" v] by simp
qed

section \<open>Reading them back\<close>

lemma copy_argv_loop_spec:
  assumes r: "pt_rep m pt R" and l: "laid (user_byte m R) args ptrs lo hi" and lo: "0 < lo" "hi < 2 ^ 64"
    and p: "\<And>k. k \<le> length args \<Longrightarrow> read_bytes (user_byte m R) (va + k * 8) 8 = Some (ptr_bytes ((ptrs @ [0]) ! k))"
    and va: "va + length args * 8 < 2 ^ 64" and a: "args \<noteq> []" "length args \<le> MAXARG" "\<forall>x \<in> set args. 0 \<notin> set x \<and> length x < MAXARGLEN"
    and "k \<le> length args"
  shows "copy_argv_loop pt va (take k args) m = Ok (Some args)"
  using assms(10)
proof (induction "length args - k" arbitrary: k)
  case 0
  then have k: "k = length args" by simp
  have len: "length ptrs = length args" using l by (simp add: laid_def)
  have "copyin pt 8 (va + length args * 8) m = Ok (Some (ptr_bytes 0))"
    using copyin_spec [OF r, of 8 "va + length args * 8"] p [of "length args"] len by (simp add: nth_append)
  then show ?case using va a(1) k by (simp add: copy_argv_loop.simps [of pt va args] USIZE_BYTES_def word_of_le_of_word Let_def)
next
  case (Suc d)
  then have k: "k < length args" "length args - Suc k = d" by simp_all
  have len: "length ptrs = length args" using l by (simp add: laid_def)
  let ?p = "ptrs ! k" and ?a = "args ! k"
  have lp: "lo \<le> ?p" "?p + length ?a < hi" "\<And>j. j \<le> length ?a \<Longrightarrow> user_byte m R (?p + j) = Some ((?a @ [0]) ! j)"
    using l k(1) unfolding laid_def by blast+
  have u: "unat (of_nat ?p :: u64) = ?p" using lp(2) lo(2) by (simp add: unat_of_nat)
  have "copyin pt 8 (va + k * 8) m = Ok (Some (ptr_bytes ?p))"
    using copyin_spec [OF r, of 8 "va + k * 8"] p [of k] k(1) len by (simp add: nth_append)
  moreover have "?a \<in> set args" using k(1) by simp
  then have "read_str (user_byte m R) ?p MAXARGLEN = Some ?a" using a(3) lp(3) by (intro read_str_eq) auto
  then have "copyinstr pt MAXARGLEN ?p m = Ok (Some ?a)" using copyinstr_spec [OF r] by simp
  moreover have "take k args @ [?a] = take (Suc k) args" using k(1) by (simp add: take_Suc_conv_app_nth)
  moreover have "va + k * 8 < 2 ^ 64" using va k(1) by simp
  moreover have "copy_argv_loop pt va (take (Suc k) args) m = Ok (Some args)" using Suc.hyps(1) [of "Suc k"] k by simp
  ultimately show ?case
    using k(1) lo(1) lp(1) u a(2)
    by (simp add: copy_argv_loop.simps [of pt va "take k args"] USIZE_BYTES_def word_of_le_of_word Let_def)
qed

lemma align_down_16: "x < 2 ^ 64 \<Longrightarrow> align_down x 16 = x div 16 * 16"
proof -
  assume x: "x < 2 ^ 64"
  define w m :: u64 where "w = of_nat x" and "m = mask 4"
  have m: "of_nat (16 - 1) = m" by (simp add: m_def mask_eq_exp_minus_1)
  have b: "bit m n \<longleftrightarrow> n < 4" if "n < 64" for n using that by (simp add: m_def bit_mask_iff)
  have "w AND NOT m = push_bit 4 (drop_bit 4 w)"
  proof (rule bit_word_eqI)
    fix n assume "n < LENGTH(64)"
    then show "bit (w AND NOT m) n = bit (push_bit 4 (drop_bit 4 w)) n"
      using b [of n] by (auto simp: bit_and_iff bit_not_iff bit_push_bit_iff bit_drop_bit_eq)
  qed
  then have "w AND NOT m = w div 16 * 16" by (simp add: push_bit_eq_mult drop_bit_eq_div)
  moreover have "unat (w div 16) = x div 16" using x by (simp add: w_def unat_of_nat unat_div)
  moreover have "x div 16 * 16 < 2 ^ 64" using x div_times_less_eq_dividend [of x 16] by linarith
  ultimately have "unat (w AND NOT m) = x div 16 * 16"
    using unat_mult_lem [of "w div 16" 16] by simp
  then show ?thesis unfolding align_down_def m w_def .
qed

lemma str_size_bound: "\<forall>x \<in> set as. length x < n \<Longrightarrow> str_size as \<le> length as * n"
  by (induction as) (auto simp: str_size_def Suc_le_eq)

section \<open>The property\<close>

text \<open>C36. Let the page below \<open>top_va\<close> be writable user memory of a program.  For every argument vector that
  \<open>copy_argv\<close> can have read, \<open>push_argv\<close> succeeds; the stack pointer it returns is 16-byte aligned, within
  the page, and the address of an argument vector from which \<open>copy_argv\<close> reads the same arguments.\<close>

theorem push_argv_roundtrip:
  assumes rw: "rw_space m pt R ps tf U (top_va - PGSIZE) top_va" and t: "PGSIZE < top_va" "top_va < 2 ^ 64"
    and a: "args \<noteq> []" "length args \<le> MAXARG" "\<forall>x \<in> set args. 0 \<notin> set x \<and> length x < MAXARGLEN"
  shows "\<exists>sp m'. push_argv pt top_va args m = Ok (Some (sp, sp), m') \<and> copy_argv pt sp m' = Ok (Some args) \<and>
    16 dvd sp \<and> top_va - PGSIZE \<le> sp \<and> sp < top_va \<and> aspace m' pt R ps tf U"
proof -
  let ?lo = "top_va - PGSIZE" and ?n = "length args" and ?z = "str_size args"
  have "?z \<le> ?n * 128" using a(3) by (intro str_size_bound) (auto simp: MAXARGLEN_def)
  then have fit: "?lo + ?z + 8 * (?n + 1) + 15 \<le> top_va" using a(2) t(1) by (simp add: MAXARG_def PGSIZE_def)
  have z: "str_size (rev args) = ?z" by (simp add: str_size_def rev_map [symmetric])
  have "?lo + str_size (rev args) \<le> top_va" using fit z by simp
  from push_strings_spec [OF rw order_refl this, of "[]"] obtain m1 ptrs where
    1: "push_strings pt ?lo (rev args) top_va [] m = Ok (Some (top_va - ?z, ptrs), m1)" "rw_space m1 pt R ps tf U ?lo top_va"
      "laid (user_byte m1 R) args ptrs (top_va - ?z) top_va"
    unfolding z by auto
  let ?sp = "(top_va - ?z - 8 * (?n + 1)) div 16 * 16"
  have al: "align_down (top_va - ?z - 8 * (?n + 1)) 16 = ?sp" using t(2) by (intro align_down_16) simp
  have sp: "?sp \<le> top_va - ?z - 8 * (?n + 1)" "top_va - ?z - 8 * (?n + 1) < ?sp + 16"
    using div_mult_mod_eq [of "top_va - ?z - 8 * (?n + 1)" 16] by simp_all
  have len: "length ptrs = ?n" using 1(3) by (simp add: laid_def)
  have h: "?lo \<le> ?sp" "?sp + 8 * length (ptrs @ [0]) \<le> top_va - ?z" using sp fit len by simp_all
  then have "?sp + 8 * length (ptrs @ [0]) \<le> top_va" by simp
  from push_pointers_spec [OF 1(2) h(1) this] obtain m2 where
    2: "push_pointers pt ?sp (ptrs @ [0]) m1 = Ok (True, m2)" "rw_space m2 pt R ps tf U ?lo top_va"
      "\<And>x. user_byte m2 R x = poke ?sp (concat (map ptr_bytes (ptrs @ [0]))) (user_byte m1 R) x" by blast
  have l: "laid (user_byte m2 R) args ptrs (top_va - ?z) top_va"
  proof (rule laid_cong [OF 1(3)])
    fix x assume "top_va - ?z \<le> x"
    then show "user_byte m2 R x = user_byte m1 R x" using h(2) 2(3) [of x] concat_length [of "ptrs @ [0]"] by (simp add: poke_def)
  qed
  have "aspace m2 pt R ps tf U" using 2(2) by (simp add: rw_space_def)
  moreover from this have r: "pt_rep m2 pt R" by (simp add: aspace_def vm_inv_def)
  have "copy_argv_loop pt ?sp (take 0 args) m2 = Ok (Some args)"
  proof (rule copy_argv_loop_spec [OF r l])
    show "read_bytes (user_byte m2 R) (?sp + k * 8) 8 = Some (ptr_bytes ((ptrs @ [0]) ! k))" if "k \<le> length args" for k
      by (rule read_pointer [OF 2(3)]) (use that len in simp)
    show "0 < top_va - ?z" using fit t(1) by linarith
    have "?sp + ?n * 8 \<le> top_va" using h(2) len by simp
    then show "?sp + ?n * 8 < 2 ^ 64" using t(2) by linarith
  qed (use a t in simp_all)
  then have "copy_argv pt ?sp m2 = Ok (Some args)" using h(1) t(1) by (simp add: copy_argv_def)
  moreover have "push_argv pt top_va args m = Ok (Some (?sp, ?sp), m2)"
  proof -
    have c: "(PGSIZE \<le> top_va) = True" "(top_va - ?z < 8 * (?n + 1)) = False" "(?sp < ?lo) = False"
      using t(1) fit h(1) by auto
    show ?thesis
      unfolding push_argv_def usize_sub_def USIZE_BYTES_def mult.commute [of _ 8] Let_def
      by (simp only: c if_True if_False bindE_simps 1(1) prod.case option.case al 2(1))
  qed
  moreover have "16 dvd ?sp" by simp
  moreover have "?sp < top_va" using h(2) by simp
  ultimately show ?thesis using h(1) by blast
qed

theorem push_argv_roundtrip_witness:
  "\<exists>R ps sp m'. rw_space demo_user (fst demo_space) R ps demo_tf {..<2} (8192 - PGSIZE) 8192 \<and>
     push_argv (fst demo_space) 8192 [[97], [98, 99]] demo_user = Ok (Some (sp, sp), m') \<and>
     copy_argv (fst demo_space) sp m' = Ok (Some [[97], [98, 99]]) \<and>
     16 dvd sp \<and> 8192 - PGSIZE \<le> sp \<and> sp < 8192 \<and> aspace m' (fst demo_space) R ps demo_tf {..<2}"
proof -
  obtain R ps where a: "aspace demo_user (fst demo_space) R ps demo_tf {..<2}"
      and e: "\<forall>v < 2. pte_at (mem demo_user) R v = leaf_pte (fr demo_user R v) (PTE_U OR PTE_R OR PTE_W)"
    using demo_two by blast
  have "user_at (mem demo_user) R PTE_W x \<noteq> None" if "x div PGSIZE < 2" for x
    using that e user_leaf_grants by (simp add: user_at_def Let_def MAXVA_def PGSIZE_def)
  moreover have "x div PGSIZE < 2" if "x < 8192" for x using that by (simp add: PGSIZE_def)
  ultimately have rw: "rw_space demo_user (fst demo_space) R ps demo_tf {..<2} (8192 - PGSIZE) 8192"
    using a e user_leaf_grants by (simp add: rw_space_def)
  have h: "PGSIZE < 8192" "(8192 :: nat) < 2 ^ 64" "[[97], [98, 99 :: byte]] \<noteq> []" "length [[97], [98, 99 :: byte]] \<le> MAXARG"
      "\<forall>x \<in> set [[97], [98, 99 :: byte]]. 0 \<notin> set x \<and> length x < MAXARGLEN"
    by (simp_all add: PGSIZE_def MAXARG_def MAXARGLEN_def)
  show ?thesis using push_argv_roundtrip [OF rw h] rw by blast
qed

end
