(* ===== verification/User_Alloc.thy ===== *)
theory User_Alloc
  imports Vm
begin

text \<open>
  The heap allocator of user programs, \<open>user/src/allocator.rs\<close>.  The heap is the part of the process's
  memory below its break; every block starts with a header of two words, its size and, while it is free,
  the address of the next free block.  The free list is sorted by address, and neighbouring free blocks
  are merged when a block is freed.  The loops that follow the list are partial functions, with
  \<open>None\<close> for a loop that does not end.

  The results: on every heap that the allocator can build the loops end; the list operations implement
  first-fit allocation and sorted insertion with merging on lists of blocks; live blocks are aligned,
  large enough, pairwise disjoint, and their contents are never touched.
\<close>

section \<open>The operations\<close>

record uheap =
  umem :: memory
  uhead :: u64
  ubrk :: nat

definition ALIGN :: u64 where "ALIGN = 16"

definition align_up_const :: "u64 \<Rightarrow> u64 \<Rightarrow> u64" where
  "align_up_const x align = (x + align - 1) AND NOT (align - 1)"

definition HEADER_SIZE :: u64 where "HEADER_SIZE = align_up_const 16 ALIGN"
definition MIN_PAYLOAD :: u64 where "MIN_PAYLOAD = ALIGN"
definition MIN_BLOCK_SIZE :: u64 where "MIN_BLOCK_SIZE = HEADER_SIZE + MIN_PAYLOAD"

definition checked_add :: "u64 \<Rightarrow> u64 \<Rightarrow> u64 option" where
  "checked_add x y = (if unat x + unat y < 2 ^ 64 then Some (x + y) else None)"

definition align_up :: "u64 \<Rightarrow> u64 \<Rightarrow> u64 option" where
  "align_up x align = map_option (\<lambda>v. v AND NOT (align - 1)) (checked_add x (align - 1))"

definition UserAllocator_new :: "nat \<Rightarrow> memory \<Rightarrow> uheap" where
  "UserAllocator_new brk m = \<lparr>umem = m, uhead = 0, ubrk = brk\<rparr>"

text \<open>The fields of the header at an address.\<close>

definition hdr_size :: "uheap \<Rightarrow> u64 \<Rightarrow> u64" where
  "hdr_size h p = load_u64 (umem h) (unat p)"

definition hdr_next :: "uheap \<Rightarrow> u64 \<Rightarrow> u64" where
  "hdr_next h p = load_u64 (umem h) (unat p + 8)"

definition set_size :: "u64 \<Rightarrow> u64 \<Rightarrow> uheap \<Rightarrow> uheap" where
  "set_size p v h = h\<lparr>umem := store_u64 (unat p) v (umem h)\<rparr>"

definition set_next :: "u64 \<Rightarrow> u64 \<Rightarrow> uheap \<Rightarrow> uheap" where
  "set_next p v h = h\<lparr>umem := store_u64 (unat p + 8) v (umem h)\<rparr>"

definition block_end :: "uheap \<Rightarrow> u64 \<Rightarrow> u64" where
  "block_end h p = p + hdr_size h p"

text \<open>Make the block after \<open>prev\<close>, or the first one, \<open>p\<close>.\<close>

definition set_link :: "u64 \<Rightarrow> u64 \<Rightarrow> uheap \<Rightarrow> uheap" where
  "set_link prev p h = (if prev = 0 then h\<lparr>uhead := p\<rparr> else set_next prev p h)"

text \<open>The block at \<open>cur\<close> is taken off the list; what is left of it stays there when it can be a block.\<close>

definition carve_block :: "u64 \<Rightarrow> u64 \<Rightarrow> u64 \<Rightarrow> uheap \<Rightarrow> u64 \<times> uheap" where
  "carve_block needed prev cur h =
     (let remaining = hdr_size h cur - needed;
          h = (if MIN_BLOCK_SIZE \<le> remaining then
                 let rest = cur + needed;
                     h = set_size rest remaining h;
                     h = set_next rest (hdr_next h cur) h;
                     h = set_size cur needed h
                 in set_link prev rest h
               else set_link prev (hdr_next h cur) h);
          h = set_next cur 0 h
      in (cur + HEADER_SIZE, h))"

partial_function (option) alloc_loop :: "u64 \<Rightarrow> u64 \<Rightarrow> u64 \<Rightarrow> uheap \<Rightarrow> (u64 option \<times> uheap) option" where
  "alloc_loop needed prev cur h =
     (if cur = 0 then Some (None, h)
      else if needed \<le> hdr_size h cur then
        (case carve_block needed prev cur h of (payload, h) \<Rightarrow> Some (Some payload, h))
      else alloc_loop needed cur (hdr_next h cur) h)"

definition alloc_from_freelist :: "u64 \<Rightarrow> uheap \<Rightarrow> (u64 option \<times> uheap) option" where
  "alloc_from_freelist needed h = alloc_loop needed 0 (uhead h) h"

partial_function (option) insert_find :: "u64 \<Rightarrow> u64 \<Rightarrow> u64 \<Rightarrow> uheap \<Rightarrow> (u64 \<times> u64) option" where
  "insert_find block prev cur h =
     (if cur \<noteq> 0 \<and> cur < block then insert_find block cur (hdr_next h cur) h else Some (prev, cur))"

text \<open>The block \<open>p\<close> takes over the block \<open>q\<close> that follows it.\<close>

definition absorb :: "u64 \<Rightarrow> u64 \<Rightarrow> uheap \<Rightarrow> uheap" where
  "absorb p q h =
     (let h = set_size p (hdr_size h p + hdr_size h q) h in set_next p (hdr_next h q) h)"

definition insert_free_block :: "u64 \<Rightarrow> uheap \<Rightarrow> uheap option" where
  "insert_free_block block h =
     (case insert_find block 0 (uhead h) h of
        None \<Rightarrow> None
      | Some (prev, cur) \<Rightarrow>
          let h = set_next block cur h;
              h = set_link prev block h;
              (merged, h) =
                (if prev \<noteq> 0 \<and> block_end h prev = block then (prev, absorb prev block h) else (block, h));
              h = (if cur \<noteq> 0 \<and> block_end h merged = cur then absorb merged cur h else h)
          in Some h)"

text \<open>
  The system call \<open>sbrk\<close>, as a program sees it: \<open>ok\<close> says whether the kernel has the pages
  (\<open>uvmalloc\<close> in \<open>sys_sbrk\<close>); new pages are zeroed.
\<close>

definition sbrk :: "bool \<Rightarrow> u64 \<Rightarrow> uheap \<Rightarrow> int \<times> uheap" where
  "sbrk ok increment h =
     (let newsz = ubrk h + unat increment in
      if sint increment < 0 \<or> USER_STACK < page_round_down (newsz + (PGSIZE - 1)) \<or> \<not> ok then (-1, h)
      else
        (int (ubrk h),
         h\<lparr>ubrk := newsz,
           umem := (\<lambda>x. if page_round_down (ubrk h + (PGSIZE - 1)) \<le> x \<and> x < page_round_down (newsz + (PGSIZE - 1))
                        then 0 else umem h x)\<rparr>))"

text \<open>\<open>None\<close> is a loop without end; the flag is whether the heap was grown.\<close>

definition grow_heap :: "bool \<Rightarrow> u64 \<Rightarrow> uheap \<Rightarrow> (bool \<times> uheap) option" where
  "grow_heap ok needed h =
     (case align_up needed 4096 of
        None \<Rightarrow> Some (False, h)
      | Some tot \<Rightarrow>
          if 2 ^ 63 \<le> unat tot then Some (False, h)
          else
            (case sbrk ok tot h of
               (base, h) \<Rightarrow>
                 if base < 0 then Some (False, h)
                 else
                   let block = of_int base;
                       h = set_size block tot h;
                       h = set_next block 0 h
                   in map_option (Pair True) (insert_free_block block h)))"

definition alloc :: "bool \<Rightarrow> u64 \<Rightarrow> u64 \<Rightarrow> uheap \<Rightarrow> (u64 \<times> uheap) option" where
  "alloc ok sz align h =
     (if ALIGN < align then Some (0, h)
      else
        case align_up (max sz 1) ALIGN of
          None \<Rightarrow> Some (0, h)
        | Some payload_size \<Rightarrow>
            (case checked_add HEADER_SIZE payload_size of
               None \<Rightarrow> Some (0, h)
             | Some needed \<Rightarrow>
                 (case alloc_from_freelist needed h of
                    None \<Rightarrow> None
                  | Some (Some ptr, h) \<Rightarrow> Some (ptr, h)
                  | Some (None, h) \<Rightarrow>
                      (case grow_heap ok needed h of
                         None \<Rightarrow> None
                       | Some (False, h) \<Rightarrow> Some (0, h)
                       | Some (True, h) \<Rightarrow>
                           (case alloc_from_freelist needed h of
                              None \<Rightarrow> None
                            | Some (r, h) \<Rightarrow> Some (case r of None \<Rightarrow> 0 | Some ptr \<Rightarrow> ptr, h))))))"

definition dealloc :: "u64 \<Rightarrow> uheap \<Rightarrow> uheap option" where
  "dealloc ptr h = (if ptr = 0 then Some h else insert_free_block (ptr - HEADER_SIZE) h)"

section \<open>Blocks\<close>

text \<open>A block is its address and its size.  The list of the blocks linked from one address to another.\<close>

type_synonym block = "nat \<times> nat"

fun lseg :: "memory \<Rightarrow> u64 \<Rightarrow> block list \<Rightarrow> u64 \<Rightarrow> bool" where
  "lseg m p [] q \<longleftrightarrow> p = q"
| "lseg m p ((a, n) # bs) q \<longleftrightarrow>
     0 < a \<and> unat p = a \<and> unat (load_u64 m a) = n \<and> lseg m (load_u64 m (a + 8)) bs q"

abbreviation before :: "block \<Rightarrow> block \<Rightarrow> bool" where
  "before \<equiv> \<lambda>(a, n) (b, k). a + n \<le> b"

abbreviation gap :: "block \<Rightarrow> block \<Rightarrow> bool" where
  "gap \<equiv> \<lambda>(a, n) (b, k). a + n < b"

text \<open>Room for a header in every block, and no overlap.\<close>

definition ordered :: "block list \<Rightarrow> bool" where
  "ordered bs \<longleftrightarrow> sorted_wrt before bs \<and> (\<forall>(a, n) \<in> set bs. 16 \<le> n \<and> a + n < 2 ^ 63)"

definition in_blocks :: "block set \<Rightarrow> nat \<Rightarrow> bool" where
  "in_blocks B x \<longleftrightarrow> (\<exists>(a, n) \<in> B. a \<le> x \<and> x < a + n)"

definition last_addr :: "block list \<Rightarrow> u64" where
  "last_addr bs = (if bs = [] then 0 else of_nat (fst (last bs)))"

lemma lseg_append: "lseg m p (xs @ ys) q \<longleftrightarrow> (\<exists>r. lseg m p xs r \<and> lseg m r ys q)"
  by (induction xs arbitrary: p) auto

lemma lseg_cong:
  assumes "\<And>a n x. (a, n) \<in> set bs \<Longrightarrow> a \<le> x \<Longrightarrow> x < a + 16 \<Longrightarrow> m' x = m x"
  shows "lseg m' p bs q = lseg m p bs q"
  using assms
proof (induction bs arbitrary: p)
  case (Cons b bs)
  obtain a n where b: "b = (a, n)" by fastforce
  have "load_u64 m' a = load_u64 m a" "load_u64 m' (a + 8) = load_u64 m (a + 8)"
    using Cons.prems [of a n] b by (auto intro!: load_u64_cong)
  moreover have "lseg m' r bs q = lseg m r bs q" for r using Cons.prems by (intro Cons.IH) auto
  ultimately show ?case by (simp add: b)
qed simp

lemma store_u64_other: "x < a \<or> a + 8 \<le> x \<Longrightarrow> store_u64 a w m x = m x"
  by (auto simp: store_u64_def)

lemma lseg_store:
  assumes "lseg m p bs q" and "\<And>a n. (a, n) \<in> set bs \<Longrightarrow> b + 8 \<le> a \<or> a + 16 \<le> b"
  shows "lseg (store_u64 b w m) p bs q"
proof -
  have "store_u64 b w m x = m x" if "(a, n) \<in> set bs" "a \<le> x" "x < a + 16" for a n x
    using assms(2) [OF that(1)] that(2,3) by (intro store_u64_other) linarith
  with assms(1) show ?thesis using lseg_cong [of bs "store_u64 b w m" m] by blast
qed

lemma ordered_append:
  "ordered (xs @ ys) \<longleftrightarrow> ordered xs \<and> ordered ys \<and> (\<forall>x \<in> set xs. \<forall>y \<in> set ys. before x y)"
  by (auto simp: ordered_def sorted_wrt_append)

lemma ordered_Cons:
  "ordered ((a, n) # bs) \<longleftrightarrow> 16 \<le> n \<and> a + n < 2 ^ 63 \<and> (\<forall>(b, k) \<in> set bs. a + n \<le> b) \<and> ordered bs"
  by (auto simp: ordered_def)

lemma ordered_Nil [simp]: "ordered []"
  by (simp add: ordered_def)

lemma ordered_mem: "ordered bs \<Longrightarrow> (a, n) \<in> set bs \<Longrightarrow> 16 \<le> n \<and> a + n < 2 ^ 63"
  by (auto simp: ordered_def)

lemma ordered_mid:
  assumes "ordered (us @ (a, n) # vs)"
  shows "16 \<le> n" "a + n < 2 ^ 63" "(c, k) \<in> set us \<Longrightarrow> c + k \<le> a" "(c, k) \<in> set us \<Longrightarrow> c + 16 \<le> a"
    "(c, k) \<in> set vs \<Longrightarrow> a + n \<le> c"
proof -
  show "16 \<le> n" "a + n < 2 ^ 63" using assms by (auto simp: ordered_append ordered_Cons)
  have "(\<forall>x \<in> set us. before x (a, n))" using assms by (simp add: ordered_append)
  then show 1: "c + k \<le> a" if "(c, k) \<in> set us" using that by blast
  have "ordered us" using assms by (simp add: ordered_append)
  then show "c + 16 \<le> a" if "(c, k) \<in> set us" using that ordered_mem [of us c k] 1 by linarith
  have "\<forall>(b, k) \<in> set vs. a + n \<le> b" using assms by (simp add: ordered_append ordered_Cons)
  then show "a + n \<le> c" if "(c, k) \<in> set vs" using that by blast
qed

lemmas heap_field_defs = hdr_size_def hdr_next_def set_size_def set_next_def

lemma unat_of_addr: "a < 2 ^ 63 \<Longrightarrow> unat (of_nat a :: u64) = a"
  by (simp add: unat_of_nat take_bit_nat_eq_self)

lemma set_link_fields [simp]: "ubrk (set_link p q h) = ubrk h"
  by (simp add: set_link_def set_next_def)

lemma set_link_mem:
  "umem (set_link p q h) = (if p = 0 then umem h else store_u64 (unat p + 8) q (umem h))"
  by (simp add: set_link_def set_next_def)

text \<open>After linking, the blocks before \<open>prev\<close> are followed by those from \<open>p\<close> on.\<close>

lemma set_link_lseg:
  assumes "lseg (umem h) (uhead h) xs r" and "lseg (umem h) p ys q" and "ordered (xs @ ys)"
  shows "lseg (umem (set_link (last_addr xs) p h)) (uhead (set_link (last_addr xs) p h)) (xs @ ys) q"
proof (cases xs rule: rev_cases)
  case Nil
  with assms show ?thesis by (simp add: set_link_def last_addr_def)
next
  case (snoc us b)
  obtain a n where b: "b = (a, n)" by fastforce
  let ?m = "store_u64 (a + 8) p (umem h)"
  have o: "ordered (us @ (a, n) # ys)" using assms(3) snoc b by simp
  note l = ordered_mid(2,1) [OF o] and us = ordered_mid(4) [OF o] and ys = ordered_mid(5) [OF o]
  obtain t where t: "lseg (umem h) (uhead h) us t" "lseg (umem h) t [b] r"
    using assms(1) snoc by (auto simp: lseg_append)
  have la: "last_addr xs = of_nat a" using snoc b by (simp add: last_addr_def)
  have a: "0 < a" "unat (of_nat a :: u64) = a" using t(2) l b unat_of_addr [of a] by auto
  then have nz: "(of_nat a :: u64) \<noteq> 0" by (metis less_irrefl unat_0)
  have "lseg ?m (uhead h) us t" using us by (intro lseg_store [OF t(1)]) force
  moreover have "lseg ?m p ys q" using ys l(2) by (intro lseg_store [OF assms(2)]) force
  moreover have "lseg ?m t [b] p" using t(2) b load_u64_store_other [of a "a + 8"] by simp
  ultimately show ?thesis
    unfolding la set_link_def set_next_def using snoc a nz b by (auto simp: lseg_append)
qed

text \<open>Two neighbouring blocks become one.\<close>

lemma absorb_lseg:
  assumes l: "lseg (umem h) (uhead h) (us @ (a, n) # (b, k) # vs) q" and o: "ordered (us @ (a, n) # (b, k) # vs)"
    and "b = a + n"
  shows "lseg (umem (absorb (of_nat a) (of_nat b) h)) (uhead h) (us @ (a, n + k) # vs) q"
    "\<And>x. x < a \<or> a + 16 \<le> x \<Longrightarrow> umem (absorb (of_nat a) (of_nat b) h) x = umem h x"
    "uhead (absorb p p' h) = uhead h" "ubrk (absorb p p' h) = ubrk h"
proof -
  have o': "ordered ((us @ [(a, n)]) @ (b, k) # vs)" using o by simp
  note bounds = ordered_mid(1) [OF o] ordered_mid(1,2) [OF o']
  have "a < 2 ^ 63" "b < 2 ^ 63" using bounds assms(3) by linarith+
  then have u: "unat (of_nat a :: u64) = a" "unat (of_nat b :: u64) = b" using unat_of_addr by blast+
  obtain t where t: "lseg (umem h) (uhead h) us t" "0 < a" "unat t = a" "unat (load_u64 (umem h) a) = n"
      "unat (load_u64 (umem h) b) = k" "lseg (umem h) (load_u64 (umem h) (b + 8)) vs q"
    using l by (auto simp: lseg_append)
  let ?w = "load_u64 (umem h) a + load_u64 (umem h) b"
  let ?m1 = "store_u64 a ?w (umem h)" and ?v = "load_u64 (umem h) (b + 8)"
  let ?m2 = "store_u64 (a + 8) ?v ?m1"
  have w: "unat ?w = n + k" using t(4,5) bounds assms(3) by (simp add: unat_word_ariths)
  have "load_u64 ?m1 (b + 8) = ?v" using bounds assms(3) by (intro load_u64_store_other) simp
  then have m: "umem (absorb (of_nat a) (of_nat b) h) = ?m2" by (simp add: absorb_def heap_field_defs u)
  note us = ordered_mid(4) [OF o] and vs = ordered_mid(5) [OF o']
  have "lseg ?m2 (uhead h) us t" using us by (intro lseg_store t(1)) force+
  moreover have "lseg ?m2 ?v vs q"
    using vs bounds assms(3) by (intro lseg_store t(6)) force+
  moreover have "unat (load_u64 ?m2 a) = n + k" using w load_u64_store_other [of a "a + 8"] by simp
  ultimately show "lseg (umem (absorb (of_nat a) (of_nat b) h)) (uhead h) (us @ (a, n + k) # vs) q"
    unfolding m using t(2,3) by (auto simp: lseg_append)
  show "umem (absorb (of_nat a) (of_nat b) h) x = umem h x" if "x < a \<or> a + 16 \<le> x" for x
    unfolding m using that by (auto simp: store_u64_other)
qed (simp_all add: absorb_def heap_field_defs)

section \<open>First fit\<close>

lemma header_consts: "HEADER_SIZE = 16" "MIN_BLOCK_SIZE = 32"
  by (simp_all add: MIN_BLOCK_SIZE_def MIN_PAYLOAD_def HEADER_SIZE_def align_up_const_def ALIGN_def)

fun take_fit :: "nat \<Rightarrow> block list \<Rightarrow> (block \<times> block list) option" where
  "take_fit needed [] = None"
| "take_fit needed ((a, n) # bs) =
     (if needed \<le> n then
        Some (if 32 \<le> n - needed then ((a, needed), (a + needed, n - needed) # bs) else ((a, n), bs))
      else map_option (\<lambda>(b, bs). (b, (a, n) # bs)) (take_fit needed bs))"

lemma in_blocks_mem: "(a, n) \<in> B \<Longrightarrow> a \<le> x \<Longrightarrow> x < a + n \<Longrightarrow> in_blocks B x"
  by (auto simp: in_blocks_def)

lemma set_link_frame:
  assumes "ordered xs" and "\<not> in_blocks (set xs) x"
  shows "umem (set_link (last_addr xs) p h) x = umem h x"
proof (cases xs rule: rev_cases)
  case (snoc us b)
  obtain a n where b: "b = (a, n)" by fastforce
  then have l: "16 \<le> n" "a + n < 2 ^ 63" using assms(1) snoc ordered_mem [of xs a n] by auto
  then have u: "unat (of_nat a :: u64) = a" by (intro unat_of_addr) linarith
  have "x < a \<or> a + n \<le> x" using assms(2) snoc b in_blocks_mem [of a n "set xs" x] by fastforce
  then have "x < a + 8 \<or> a + 8 + 8 \<le> x" using l(1) by linarith
  then show ?thesis using snoc b u by (simp add: set_link_mem last_addr_def store_u64_other)
qed (simp add: set_link_def last_addr_def)

lemma not_in_before: "ordered (xs @ (a, n) # ys) \<Longrightarrow> a \<le> x \<Longrightarrow> \<not> in_blocks (set xs) x"
  by (auto simp: in_blocks_def dest!: ordered_mid(3))

text \<open>The block at \<open>a\<close> is skipped: \<open>p\<close> follows the blocks before it.\<close>

lemma unlink_spec:
  assumes l: "lseg (umem h) (uhead h) xs (of_nat a)" "lseg (umem h) p vs 0"
    and o: "ordered (xs @ (a, n) # vs)" and n: "unat (load_u64 (umem h) a) = n"
  defines "h' \<equiv> set_next (of_nat a) 0 (set_link (last_addr xs) p h)"
  shows "lseg (umem h') (uhead h') (xs @ vs) 0" "unat (load_u64 (umem h') a) = n" "ubrk h' = ubrk h"
    "\<And>x. \<not> in_blocks (set (xs @ (a, n) # vs)) x \<Longrightarrow> umem h' x = umem h x"
proof -
  let ?h = "set_link (last_addr xs) p h"
  note b = ordered_mid [OF o]
  have u: "unat (of_nat a :: u64) = a" using b(2) by (intro unat_of_addr) linarith
  have o': "ordered (xs @ vs)" "ordered xs" using o by (auto simp: ordered_append ordered_Cons)
  have m: "umem h' = store_u64 (a + 8) 0 (umem ?h)" "uhead h' = uhead ?h" by (simp_all add: h'_def set_next_def u)
  have "lseg (umem ?h) (uhead ?h) (xs @ vs) 0" by (rule set_link_lseg [OF l o'(1)])
  then show "lseg (umem h') (uhead h') (xs @ vs) 0"
    unfolding m using b(1,4,5) by (intro lseg_store) fastforce+
  have "umem ?h x = umem h x" if "a \<le> x" for x
    using set_link_frame [OF o'(2) not_in_before [OF o that]] .
  then have "load_u64 (umem ?h) a = load_u64 (umem h) a" by (intro load_u64_cong) simp
  then show "unat (load_u64 (umem h') a) = n" unfolding m using n by (simp add: load_u64_store_other)
  show "ubrk h' = ubrk h" by (simp add: h'_def set_next_def)
  fix x assume x: "\<not> in_blocks (set (xs @ (a, n) # vs)) x"
  have "x < a \<or> a + n \<le> x" using x in_blocks_mem [of a n "set (xs @ (a, n) # vs)" x] by fastforce
  moreover have "\<not> in_blocks (set xs) x" using x by (auto simp: in_blocks_def)
  ultimately show "umem h' x = umem h x"
    unfolding m using b(1) set_link_frame [OF o'(2)] by (auto simp: store_u64_other)
qed

text \<open>The rest of the block at \<open>a\<close> becomes a block of its own.\<close>

lemma split_spec:
  assumes l: "lseg (umem h) (uhead h) xs p" "lseg (umem h) (load_u64 (umem h) (a + 8)) vs 0" "0 < a"
    and o: "ordered (xs @ (a, n) # vs)" and n: "16 \<le> unat needed" "unat needed + 16 \<le> n"
  defines "rest \<equiv> of_nat a + needed"
  defines "h1 \<equiv> set_size rest (of_nat (n - unat needed)) h"
  defines "h' \<equiv> set_size (of_nat a) needed (set_next rest (hdr_next h1 (of_nat a)) h1)"
  shows "lseg (umem h') (uhead h) xs p" "lseg (umem h') rest ((a + unat needed, n - unat needed) # vs) 0"
    "load_u64 (umem h') a = needed" "ordered (xs @ (a, unat needed) # (a + unat needed, n - unat needed) # vs)"
    "uhead h' = uhead h" "ubrk h' = ubrk h" "\<And>x. x < a \<or> a + n \<le> x \<Longrightarrow> umem h' x = umem h x"
proof -
  note b = ordered_mid [OF o]
  let ?r = "a + unat needed" and ?k = "n - unat needed" and ?v = "load_u64 (umem h) (a + 8)"
  let ?m = "store_u64 a needed (store_u64 (?r + 8) ?v (store_u64 ?r (of_nat ?k) (umem h)))"
  have u: "unat (of_nat a :: u64) = a" using b(2) by (intro unat_of_addr) linarith
  have k: "unat (of_nat ?k :: u64) = ?k" using b(2) by (intro unat_of_addr) linarith
  have r: "unat rest = ?r" unfolding rest_def using b(2) n(2) u by (simp add: unat_word_ariths)
  have "load_u64 (umem h1) (a + 8) = ?v"
    unfolding h1_def set_size_def using r n(1) by (simp add: load_u64_store_other)
  then have m: "umem h' = ?m" by (simp add: h'_def h1_def heap_field_defs r u)
  show "lseg (umem h') (uhead h) xs p" unfolding m using b(4) by (intro lseg_store l(1)) fastforce+
  have "lseg ?m ?v vs 0" using b(1,5) n(2) by (intro lseg_store l(2)) fastforce+
  moreover have "load_u64 ?m ?r = of_nat ?k" "load_u64 ?m (?r + 8) = ?v"
    using n(1) by (simp_all add: load_u64_store_other)
  ultimately show "lseg (umem h') rest ((?r, ?k) # vs) 0" unfolding m using l(3) r k by simp
  show "load_u64 (umem h') a = needed" unfolding m by simp
  show "ordered (xs @ (a, unat needed) # (?r, ?k) # vs)"
    using o n by (auto simp: ordered_append ordered_Cons)
  show "umem h' x = umem h x" if "x < a \<or> a + n \<le> x" for x
    unfolding m using that n b(1) by (auto simp: store_u64_other)
qed (simp_all add: h'_def h1_def heap_field_defs)

definition taken_ok :: "uheap \<Rightarrow> block set \<Rightarrow> block \<Rightarrow> block list \<Rightarrow> uheap \<Rightarrow> bool" where
  "taken_ok h B b bs h' \<longleftrightarrow> lseg (umem h') (uhead h') bs 0 \<and> unat (load_u64 (umem h') (fst b)) = snd b \<and>
     ubrk h' = ubrk h \<and> (\<forall>x. \<not> in_blocks B x \<longrightarrow> umem h' x = umem h x)"

lemma carve_block_spec:
  assumes l: "lseg (umem h) (uhead h) xs cur" "lseg (umem h) cur ((a, n) # vs) 0"
    and o: "ordered (xs @ (a, n) # vs)" and n: "16 \<le> unat needed" "unat needed \<le> n"
  shows "\<exists>b bs h'. take_fit (unat needed) ((a, n) # vs) = Some (b, bs) \<and>
    carve_block needed (last_addr xs) cur h = (of_nat (fst b + 16), h') \<and>
    taken_ok h (set (xs @ (a, n) # vs)) b (xs @ bs) h'"
proof -
  note b = ordered_mid [OF o]
  have cur: "cur = of_nat a" "0 < a" "unat (load_u64 (umem h) a) = n"
      and vs: "lseg (umem h) (load_u64 (umem h) (a + 8)) vs 0"
    using l(2) by (auto simp: word_unat_eq_iff)
  have u: "unat (of_nat a :: u64) = a" using l(2) cur(1) by simp
  have rem: "hdr_size h cur - needed = of_nat (n - unat needed)"
    using cur(3) n(2) unfolding hdr_size_def cur(1) u by (auto simp: of_nat_diff)
  have cond: "MIN_BLOCK_SIZE \<le> hdr_size h cur - needed \<longleftrightarrow> 32 \<le> n - unat needed"
    unfolding rem header_consts using b(2) unat_of_addr [of "n - unat needed"] by (simp add: word_le_nat_alt)
  have pay: "cur + HEADER_SIZE = of_nat (a + 16)" by (simp add: cur(1) header_consts)
  show ?thesis
  proof (cases "32 \<le> n - unat needed")
    case False
    note w = unlink_spec [OF l(1) [unfolded cur(1)] vs o cur(3)]
    have "carve_block needed (last_addr xs) cur h =
        (of_nat (a + 16), set_next (of_nat a) 0 (set_link (last_addr xs) (load_u64 (umem h) (a + 8)) h))"
      unfolding carve_block_def Let_def pay cond using False by (simp add: cur(1) hdr_next_def u)
    with w False n(2) show ?thesis by (auto simp: taken_ok_def)
  next
    case True
    then have n2: "unat needed + 16 \<le> n" by simp
    note sp = split_spec [OF l(1) vs cur(2) o n(1) n2]
    let ?h1 = "set_size (of_nat a + needed) (of_nat (n - unat needed)) h"
    let ?h3 = "set_size (of_nat a) needed (set_next (of_nat a + needed) (hdr_next ?h1 (of_nat a)) ?h1)"
    have l3: "lseg (umem ?h3) (uhead ?h3) xs (of_nat a)" "unat (load_u64 (umem ?h3) a) = unat needed"
      using sp(1,3,5) cur(1) by simp_all
    note w = unlink_spec [OF l3(1) sp(2) sp(4) l3(2)]
    let ?h' = "set_next (of_nat a) 0 (set_link (last_addr xs) (of_nat a + needed) ?h3)"
    have "carve_block needed (last_addr xs) cur h = (of_nat (a + 16), ?h')"
      unfolding carve_block_def Let_def pay cond if_P [OF True] unfolding rem unfolding cur(1) ..
    moreover have "umem ?h' x = umem h x" if x: "\<not> in_blocks (set (xs @ (a, n) # vs)) x" for x
    proof -
      have "x < a \<or> a + n \<le> x" using x in_blocks_mem [of a n "set (xs @ (a, n) # vs)" x] by fastforce
      moreover have "\<not> in_blocks (set (xs @ (a, unat needed) # (a + unat needed, n - unat needed) # vs)) x"
        using x n(2) calculation by (auto simp: in_blocks_def)
      ultimately show ?thesis using w(4) sp(7) by simp
    qed
    ultimately show ?thesis using w(1-3) sp(6) True n(2) by (auto simp: taken_ok_def)
  qed
qed

lemma alloc_loop_spec:
  assumes "lseg (umem h) (uhead h) xs cur" and "lseg (umem h) cur ys 0" and "ordered (xs @ ys)" and "16 \<le> unat needed"
  shows "case take_fit (unat needed) ys of
      None \<Rightarrow> alloc_loop needed (last_addr xs) cur h = Some (None, h)
    | Some (b, bs) \<Rightarrow> \<exists>h'. alloc_loop needed (last_addr xs) cur h = Some (Some (of_nat (fst b + 16)), h') \<and>
        taken_ok h (set (xs @ ys)) b (xs @ bs) h'"
  using assms(1-3)
proof (induction ys arbitrary: xs cur)
  case Nil
  then show ?case by (simp add: alloc_loop.simps)
next
  case (Cons y ys)
  obtain a n where y: "y = (a, n)" by fastforce
  have cur: "0 < a" "unat cur = a" "unat (hdr_size h cur) = n"
      and nx: "lseg (umem h) (hdr_next h cur) ys 0"
    using Cons.prems(2) by (auto simp: y hdr_size_def hdr_next_def)
  then have c: "cur \<noteq> 0" "needed \<le> hdr_size h cur \<longleftrightarrow> unat needed \<le> n" by (auto simp: word_le_nat_alt)
  show ?case
  proof (cases "unat needed \<le> n")
    case True
    from carve_block_spec [OF Cons.prems(1) Cons.prems(2) [unfolded y] Cons.prems(3) [unfolded y] assms(4) True] c True
    show ?thesis by (auto simp: y alloc_loop.simps [of needed _ cur])
  next
    case False
    have "cur = of_nat a" using cur(2) by (auto simp: word_unat_eq_iff)
    then have "last_addr (xs @ [y]) = cur" by (simp add: last_addr_def y)
    moreover have "lseg (umem h) (uhead h) (xs @ [y]) (hdr_next h cur)"
      using Cons.prems(1,2) y cur(2) by (auto simp: lseg_append hdr_next_def)
    moreover have "ordered ((xs @ [y]) @ ys)" using Cons.prems(3) by simp
    ultimately have "case take_fit (unat needed) ys of
        None \<Rightarrow> alloc_loop needed cur (hdr_next h cur) h = Some (None, h)
      | Some (b, bs) \<Rightarrow> \<exists>h'. alloc_loop needed cur (hdr_next h cur) h = Some (Some (of_nat (fst b + 16)), h') \<and>
          taken_ok h (set ((xs @ [y]) @ ys)) b ((xs @ [y]) @ bs) h'"
      using Cons.IH [of "xs @ [y]" "hdr_next h cur"] nx by (simp only:)
    with c False show ?thesis
      by (auto simp: y alloc_loop.simps [of needed _ cur] split: option.splits)
  qed
qed

section \<open>Insertion\<close>

text \<open>A block that takes over the first of the blocks after it when they meet.\<close>

fun glue :: "block \<Rightarrow> block list \<Rightarrow> block list" where
  "glue (a, n) ((b, k) # bs) = (if a + n = b then (a, n + k) # bs else (a, n) # (b, k) # bs)"
| "glue b [] = [b]"

fun insert_block :: "block \<Rightarrow> block list \<Rightarrow> block list" where
  "insert_block (b, k) [] = [(b, k)]"
| "insert_block (b, k) ((a, n) # bs) =
     (if a < b then if a + n = b then glue (a, n + k) bs else (a, n) # insert_block (b, k) bs
      else glue (b, k) ((a, n) # bs))"

lemma insert_find_spec:
  assumes "lseg (umem h) (uhead h) xs cur" and "lseg (umem h) cur ys 0"
  shows "\<exists>us vs c. ys = us @ vs \<and> (\<forall>(a, n) \<in> set us. a < unat block) \<and> (\<forall>(a, n) \<in> set (take 1 vs). unat block \<le> a) \<and>
    insert_find block (last_addr xs) cur h = Some (last_addr (xs @ us), c) \<and>
    lseg (umem h) (uhead h) (xs @ us) c \<and> lseg (umem h) c vs 0"
  using assms
proof (induction ys arbitrary: xs cur)
  case Nil
  then show ?case by (auto simp: insert_find.simps [of block _ 0])
next
  case (Cons y ys)
  obtain a n where y: "y = (a, n)" by fastforce
  have cur: "0 < a" "unat cur = a" and nx: "lseg (umem h) (hdr_next h cur) ys 0"
    using Cons.prems(2) by (auto simp: y hdr_next_def)
  then have c: "cur \<noteq> 0" "cur < block \<longleftrightarrow> a < unat block" by (auto simp: word_less_nat_alt)
  show ?case
  proof (cases "a < unat block")
    case False
    with c have "insert_find block (last_addr xs) cur h = Some (last_addr xs, cur)" by (simp add: insert_find.simps)
    with False Cons.prems show ?thesis by (intro exI [of _ "[]"] exI [of _ "y # ys"]) (simp add: y)
  next
    case True
    have "cur = of_nat a" using cur(2) by (auto simp: word_unat_eq_iff)
    then have la: "last_addr (xs @ [y]) = cur" by (simp add: last_addr_def y)
    have "lseg (umem h) (uhead h) (xs @ [y]) (hdr_next h cur)"
      using Cons.prems(1,2) y cur(2) by (auto simp: lseg_append hdr_next_def)
    from Cons.IH [OF this nx] obtain us vs d where "ys = us @ vs" "\<forall>(a, n) \<in> set us. a < unat block"
        "\<forall>(a, n) \<in> set (take 1 vs). unat block \<le> a"
        "insert_find block cur (hdr_next h cur) h = Some (last_addr (xs @ y # us), d)"
        "lseg (umem h) (uhead h) (xs @ y # us) d" "lseg (umem h) d vs 0"
      unfolding la by auto
    with True c show ?thesis
      by (intro exI [of _ "y # us"] exI [of _ vs]) (auto simp: y insert_find.simps [of block _ cur])
  qed
qed

lemma glue_apart: "\<not> (vs \<noteq> [] \<and> fst (hd vs) = a + n) \<Longrightarrow> glue (a, n) vs = (a, n) # vs"
  by (cases vs) auto

lemma glue_meet: "vs \<noteq> [] \<and> fst (hd vs) = a + n \<Longrightarrow> glue (a, n) vs = (a, n + snd (hd vs)) # tl vs"
  by (cases vs) auto

lemma lseg_start: "lseg m p vs 0 \<Longrightarrow> p = (case vs of [] \<Rightarrow> 0 | (b, k) # _ \<Rightarrow> of_nat b)"
  by (cases vs) (auto simp: word_unat_eq_iff)

lemma glue_step:
  assumes l: "lseg (umem h) (uhead h) us p" "lseg (umem h) p ((a, n) # vs) 0" and o: "ordered (us @ (a, n) # vs)"
    and q: "q = (case vs of [] \<Rightarrow> 0 | (b, k) # _ \<Rightarrow> of_nat b)"
  defines "h' \<equiv> (if q \<noteq> 0 \<and> block_end h (of_nat a) = q then absorb (of_nat a) q h else h)"
  shows "lseg (umem h') (uhead h') (us @ glue (a, n) vs) 0" "ubrk h' = ubrk h"
    "q \<noteq> 0 \<and> block_end h (of_nat a) = q \<longleftrightarrow> vs \<noteq> [] \<and> fst (hd vs) = a + n"
    "\<And>x. x < a \<or> a + 16 \<le> x \<Longrightarrow> umem h' x = umem h x"
proof -
  note b = ordered_mid [OF o]
  have u: "unat (of_nat a :: u64) = a" "unat (hdr_size h (of_nat a)) = n"
    using b(2) l(2) unat_of_addr [of a] by (simp_all add: hdr_size_def)
  then have e: "unat (block_end h (of_nat a)) = a + n" using b(2) by (simp add: block_end_def unat_word_ariths)
  have l': "lseg (umem h) (uhead h) (us @ (a, n) # vs) 0" using l by (auto simp: lseg_append simp del: lseg.simps)
  show q': "q \<noteq> 0 \<and> block_end h (of_nat a) = q \<longleftrightarrow> vs \<noteq> [] \<and> fst (hd vs) = a + n"
  proof (cases vs)
    case (Cons v ws)
    obtain b k where v: "v = (b, k)" by fastforce
    have "0 < b" using l(2) by (simp add: Cons v)
    moreover have "b < 2 ^ 63" using o by (auto simp: Cons v ordered_append ordered_Cons)
    ultimately have "unat (of_nat b :: u64) = b" "(of_nat b :: u64) \<noteq> 0"
      using unat_of_addr [of b] by (auto simp: word_unat_eq_iff)
    then show ?thesis using e q Cons v by (auto simp: word_unat_eq_iff)
  qed (simp add: q)
  show "lseg (umem h') (uhead h') (us @ glue (a, n) vs) 0"
  proof (cases "vs \<noteq> [] \<and> fst (hd vs) = a + n")
    case True
    then obtain k ws where vs: "vs = (a + n, k) # ws" by (cases vs) auto
    then have "h' = absorb (of_nat a) (of_nat (a + n)) h" using True q' q by (simp add: h'_def)
    with absorb_lseg(1,3) [of h us a n "a + n" k ws 0] l' o vs show ?thesis by simp
  next
    case False
    then have "h' = h" unfolding h'_def q' by (rule if_not_P)
    with l' glue_apart [OF False] show ?thesis by simp
  qed
  show "ubrk h' = ubrk h" by (simp add: h'_def absorb_def heap_field_defs)
  show "umem h' x = umem h x" if "x < a \<or> a + 16 \<le> x" for x
    using that u(1) by (auto simp: h'_def absorb_def heap_field_defs store_u64_other Let_def)
qed

lemma ordered_glue:
  assumes "ordered (us @ (a, n) # vs)"
  shows "ordered (us @ glue (a, n) vs)"
proof (cases "vs \<noteq> [] \<and> fst (hd vs) = a + n")
  case True
  then obtain k ws where "vs = (a + n, k) # ws" by (cases vs) auto
  with assms show ?thesis by (auto simp: ordered_append ordered_Cons add.assoc split: prod.splits)
next
  case False
  with assms glue_apart [OF False] show ?thesis by simp
qed

lemma insert_block_start:
  "\<forall>(a, n) \<in> set (take 1 vs). b \<le> a \<Longrightarrow> insert_block (b, k) vs = glue (b, k) vs"
  by (cases vs) auto

lemma insert_block_after:
  assumes "\<forall>(a, n) \<in> set us. a < b \<and> a + n \<noteq> b" and "\<forall>(a, n) \<in> set (take 1 vs). b \<le> a"
  shows "insert_block (b, k) (us @ vs) = us @ glue (b, k) vs"
  using assms(1) by (induction us) (auto simp: insert_block_start [OF assms(2)])

lemma insert_block_meet:
  assumes "\<forall>(a, n) \<in> set us. a < b \<and> a + n \<noteq> b" and "a < b" "a + n = b"
  shows "insert_block (b, k) (us @ (a, n) # vs) = us @ glue (a, n + k) vs"
  using assms by (induction us) auto

text \<open>The block is linked in, and then merged with its neighbours.\<close>

lemma link_block:
  assumes l: "lseg (umem h) (uhead h) us c" "lseg (umem h) c vs 0" and o: "ordered (us @ (b, k) # vs)"
    and b: "unat block = b" "0 < b" "unat (load_u64 (umem h) b) = k"
  defines "h' \<equiv> set_link (last_addr us) block (set_next block c h)"
  shows "lseg (umem h') (uhead h') (us @ (b, k) # vs) 0" "ubrk h' = ubrk h"
    "\<And>x. \<not> in_blocks (set (us @ [(b, k)])) x \<Longrightarrow> umem h' x = umem h x"
proof -
  note m = ordered_mid [OF o]
  let ?m = "store_u64 (b + 8) c (umem h)" and ?h = "set_next block c h"
  have h: "umem ?h = ?m" "uhead ?h = uhead h" "ubrk ?h = ubrk h" by (simp_all add: set_next_def b(1))
  have "lseg ?m (uhead h) us c" using m(4) by (intro lseg_store l(1)) fastforce
  moreover have "lseg ?m c vs 0" using m(1,5) by (intro lseg_store l(2)) fastforce
  then have "lseg ?m block ((b, k) # vs) 0" using b by (simp add: load_u64_store_other)
  ultimately show "lseg (umem h') (uhead h') (us @ (b, k) # vs) 0"
    unfolding h'_def using h set_link_lseg [of ?h us c block "(b, k) # vs" 0] o by simp
  show "ubrk h' = ubrk h" by (simp add: h'_def h)
  fix x assume x: "\<not> in_blocks (set (us @ [(b, k)])) x"
  then have "\<not> in_blocks (set us) x" by (auto simp: in_blocks_def)
  moreover have "ordered us" using o by (simp add: ordered_append)
  ultimately have "umem h' x = ?m x" unfolding h'_def using set_link_frame h(1) by metis
  moreover have "x < b \<or> b + k \<le> x" using x in_blocks_mem [of b k "set (us @ [(b, k)])" x] by fastforce
  ultimately show "umem h' x = umem h x" using m(1) by (auto simp: store_u64_other)
qed

definition inserted :: "uheap \<Rightarrow> block list \<Rightarrow> block \<Rightarrow> uheap \<Rightarrow> bool" where
  "inserted h fs b h' \<longleftrightarrow> lseg (umem h') (uhead h') (insert_block b fs) 0 \<and> ordered (insert_block b fs) \<and>
     ubrk h' = ubrk h \<and> (\<forall>x. \<not> in_blocks (set (b # fs)) x \<longrightarrow> umem h' x = umem h x)"

lemma insert_merge_none:
  assumes l: "lseg (umem h) (uhead h) us c" "lseg (umem h) c vs 0" and o: "ordered (us @ (b, k) # vs)"
    and b: "unat block = b" "0 < b" "unat (load_u64 (umem h) b) = k"
    and ap: "\<forall>(a, n) \<in> set us. a < b \<and> a + n \<noteq> b" and vs: "\<forall>(a, n) \<in> set (take 1 vs). b \<le> a"
  defines "h1 \<equiv> set_link (last_addr us) block (set_next block c h)"
  shows "inserted h (us @ vs) (b, k) (if c \<noteq> 0 \<and> block_end h1 block = c then absorb block c h1 else h1)"
proof -
  note 1 = link_block [OF l o b, folded h1_def]
  from 1(1) obtain p where p: "lseg (umem h1) (uhead h1) us p" "lseg (umem h1) p ((b, k) # vs) 0"
    by (auto simp: lseg_append simp del: lseg.simps)
  have bl: "block = of_nat b" using b(1) by (auto simp: word_unat_eq_iff)
  note 2 = glue_step [OF p o lseg_start [OF l(2)], folded bl]
  have e: "insert_block (b, k) (us @ vs) = us @ glue (b, k) vs" by (rule insert_block_after [OF ap vs])
  have "umem (if c \<noteq> 0 \<and> block_end h1 block = c then absorb block c h1 else h1) x = umem h x"
    if x: "\<not> in_blocks (set ((b, k) # us @ vs)) x" for x
  proof -
    have "x < b \<or> b + 16 \<le> x" using x in_blocks_mem [of b k "set ((b, k) # us @ vs)" x] ordered_mid(1) [OF o] by fastforce
    moreover have "\<not> in_blocks (set (us @ [(b, k)])) x" using x by (auto simp: in_blocks_def)
    ultimately show ?thesis using 1(3) 2(4) by simp
  qed
  with 1(2) 2(1,2) ordered_glue [OF o] show ?thesis unfolding inserted_def e by simp
qed

lemma insert_merge_prev:
  assumes l: "lseg (umem h) (uhead h) (ws @ [(a, n)]) c" "lseg (umem h) c vs 0"
    and o: "ordered (ws @ (a, n) # (b, k) # vs)" and e: "a + n = b"
    and b: "unat block = b" "0 < b" "unat (load_u64 (umem h) b) = k"
  defines "h1 \<equiv> set_link (of_nat a) block (set_next block c h)"
  defines "h2 \<equiv> absorb (of_nat a) block h1"
  shows "inserted h (ws @ (a, n) # vs) (b, k) (if c \<noteq> 0 \<and> block_end h2 (of_nat a) = c then absorb (of_nat a) c h2 else h2)"
proof -
  let ?h3 = "if c \<noteq> 0 \<and> block_end h2 (of_nat a) = c then absorb (of_nat a) c h2 else h2"
  have la: "last_addr (ws @ [(a, n)]) = of_nat a" by (simp add: last_addr_def)
  have o1: "ordered ((ws @ [(a, n)]) @ (b, k) # vs)" using o by simp
  note 1 = link_block [OF l o1 b, unfolded la, folded h1_def]
  have bl: "block = of_nat b" using b(1) by (auto simp: word_unat_eq_iff)
  from 1(1) obtain p where p: "lseg (umem h1) (uhead h1) ws p" "lseg (umem h1) p ((a, n) # (b, k) # vs) 0"
    by (auto simp: lseg_append simp del: lseg.simps)
  have q: "block = (case (b, k) # vs of [] \<Rightarrow> 0 | (b, k) # _ \<Rightarrow> of_nat b)" by (simp add: bl)
  note 2 = glue_step [OF p o q]
  have m: "block \<noteq> 0 \<and> block_end h1 (of_nat a) = block" using 2(3) e by simp
  have h2: "(if block \<noteq> 0 \<and> block_end h1 (of_nat a) = block then absorb (of_nat a) block h1 else h1) = h2"
    using m by (simp add: h2_def)
  note 2 = 2 [unfolded h2]
  have l2: "lseg (umem h2) (uhead h2) (ws @ (a, n + k) # vs) 0" using 2(1) e by simp
  then obtain p2 where p2: "lseg (umem h2) (uhead h2) ws p2" "lseg (umem h2) p2 ((a, n + k) # vs) 0"
    by (auto simp: lseg_append simp del: lseg.simps)
  have o2: "ordered (ws @ (a, n + k) # vs)" using ordered_glue [OF o] e by simp
  note 3 = glue_step [OF p2 o2 lseg_start [OF l(2)]]
  have "\<forall>(x, y) \<in> set ws. x < b \<and> x + y \<noteq> b"
    using ordered_mid(3) [OF o] ordered_mid(1) [OF o] ordered_mid(4) [OF o] e by fastforce
  then have i: "insert_block (b, k) (ws @ (a, n) # vs) = ws @ glue (a, n + k) vs"
    using e ordered_mid(1) [OF o] by (intro insert_block_meet) auto
  have "umem ?h3 x = umem h x" if x: "\<not> in_blocks (set ((b, k) # ws @ (a, n) # vs)) x" for x
  proof -
    have "x < a \<or> a + 16 \<le> x"
      using x in_blocks_mem [of a n "set ((b, k) # ws @ (a, n) # vs)" x] ordered_mid(1) [OF o] by fastforce
    moreover have "\<not> in_blocks (set ((ws @ [(a, n)]) @ [(b, k)])) x" using x by (auto simp: in_blocks_def)
    ultimately show ?thesis using 1(3) 2(4) 3(4) by simp
  qed
  moreover have "ubrk ?h3 = ubrk h" using 1(2) 2(2) 3(2) by simp
  ultimately show "inserted h (ws @ (a, n) # vs) (b, k) ?h3"
    unfolding inserted_def i using 3(1) ordered_glue [OF o2] by simp
qed

lemma ordered_insert_at:
  assumes "ordered (us @ vs)" and "\<forall>(a, n) \<in> set us. a < b" and "\<forall>(a, n) \<in> set (take 1 vs). b \<le> a"
    and ap: "\<forall>(a, n) \<in> set (us @ vs). a + n \<le> b \<or> b + k \<le> a" and "16 \<le> k" "b + k < 2 ^ 63"
  shows "ordered (us @ (b, k) # vs)"
proof -
  have "a + n \<le> b" if "(a, n) \<in> set us" for a n using assms(2) ap that assms(5) by fastforce
  moreover have "b + k \<le> a" if "(a, n) \<in> set vs" for a n
  proof -
    obtain c m ws where vs: "vs = (c, m) # ws" using \<open>(a, n) \<in> set vs\<close> by (cases vs) auto
    have m: "16 \<le> m" using assms(1) vs by (auto simp: ordered_append ordered_Cons)
    have "b \<le> c" using assms(3) vs by simp
    then have "b + k \<le> c" using ap vs m by auto
    moreover have "c \<le> a" using that vs assms(1) by (auto simp: ordered_append ordered_Cons)
    ultimately show ?thesis by simp
  qed
  ultimately show ?thesis using assms(1,5,6) by (fastforce simp: ordered_append ordered_Cons)
qed

lemma prev_meets:
  assumes "lseg (umem h) (uhead h) (ws @ [(a, n)]) c" "lseg (umem h) c vs 0"
    and o: "ordered (ws @ (a, n) # (b, k) # vs)" and b: "unat block = b" "0 < b" "unat (load_u64 (umem h) b) = k"
  shows "block_end (set_link (of_nat a) block (set_next block c h)) (of_nat a) = block \<longleftrightarrow> a + n = b"
proof -
  let ?h = "set_link (of_nat a) block (set_next block c h)"
  have la: "last_addr (ws @ [(a, n)]) = of_nat a" by (simp add: last_addr_def)
  have o1: "ordered ((ws @ [(a, n)]) @ (b, k) # vs)" using o by simp
  have bl: "block = of_nat b" "block \<noteq> 0" using b(1,2) by (auto simp: word_unat_eq_iff)
  from link_block(1) [OF assms(1,2) o1 b, unfolded la] obtain p where
    p: "lseg (umem ?h) (uhead ?h) ws p" "lseg (umem ?h) p ((a, n) # (b, k) # vs) 0"
    by (auto simp: lseg_append simp del: lseg.simps)
  have q: "block = (case (b, k) # vs of [] \<Rightarrow> 0 | (b, k) # _ \<Rightarrow> of_nat b)" by (simp add: bl)
  from glue_step(3) [OF p o q] bl(2) show ?thesis by auto
qed

lemma insert_free_block_spec:
  assumes l: "lseg (umem h) (uhead h) fs 0" and o: "ordered fs"
    and b: "unat block = b" "0 < b" "unat (load_u64 (umem h) b) = k" "16 \<le> k" "b + k < 2 ^ 63"
    and ap: "\<forall>(a, n) \<in> set fs. a + n \<le> b \<or> b + k \<le> a"
  shows "\<exists>h'. insert_free_block block h = Some h' \<and> inserted h fs (b, k) h'"
proof -
  have "lseg (umem h) (uhead h) [] (uhead h)" by simp
  from insert_find_spec [OF this l, of block] obtain us vs c where
    f: "fs = us @ vs" "\<forall>(a, n) \<in> set us. a < b" "\<forall>(a, n) \<in> set (take 1 vs). b \<le> a"
      "insert_find block 0 (uhead h) h = Some (last_addr us, c)" "lseg (umem h) (uhead h) us c" "lseg (umem h) c vs 0"
    by (auto simp: b(1) last_addr_def)
  have o': "ordered (us @ (b, k) # vs)"
    using ordered_insert_at [OF o [unfolded f(1)] f(2,3) ap [unfolded f(1)] b(4,5)] .
  let ?h1 = "set_link (last_addr us) block (set_next block c h)"
  have none: "\<exists>h'. insert_free_block block h = Some h' \<and> inserted h fs (b, k) h'"
    if ne: "\<not> (last_addr us \<noteq> 0 \<and> block_end ?h1 (last_addr us) = block)" and "\<forall>(a, n) \<in> set us. a + n \<noteq> b"
  proof -
    have "\<forall>(a, n) \<in> set us. a < b \<and> a + n \<noteq> b" using f(2) that(2) by blast
    from insert_merge_none [OF f(5,6) o' b(1-3) this f(3)] show ?thesis
      unfolding insert_free_block_def f(4) option.case prod.case Let_def if_not_P [OF ne] f(1) [symmetric] by blast
  qed
  show ?thesis
  proof (cases us rule: rev_cases)
    case Nil
    then show ?thesis by (intro none) (simp_all add: last_addr_def)
  next
    case (snoc ws y)
    obtain a n where y: "y = (a, n)" by fastforce
    have la: "last_addr us = of_nat a" by (simp add: snoc y last_addr_def)
    have us: "us @ (b, k) # vs = ws @ (a, n) # (b, k) # vs" "fs = ws @ (a, n) # vs" by (simp_all add: snoc y f(1))
    note o'' = o' [unfolded us(1)] and ls = f(5) [unfolded snoc y]
    have am: "block_end ?h1 (last_addr us) = block \<longleftrightarrow> a + n = b"
      unfolding la by (rule prev_meets [OF ls f(6) o'' b(1-3)])
    show ?thesis
    proof (cases "a + n = b")
      case True
      have "0 < a" using ls by (auto simp: lseg_append)
      moreover have "unat (of_nat a :: u64) = a" using ordered_mid(2) [OF o''] by (intro unat_of_addr) linarith
      ultimately have "(of_nat a :: u64) \<noteq> 0" by (metis less_irrefl unat_0)
      then have me: "last_addr us \<noteq> 0 \<and> block_end ?h1 (last_addr us) = block" using am True la by simp
      from insert_merge_prev(1) [OF ls f(6) o'' True b(1-3)] show ?thesis
        unfolding insert_free_block_def f(4) option.case prod.case Let_def if_P [OF me] us(2) unfolding la by blast
    next
      case False
      have "\<forall>(x, y) \<in> set us. x + y \<noteq> b"
        using False ordered_mid(3) [OF o''] f(2) by (fastforce simp: snoc y)
      with False am show ?thesis by (intro none) simp
    qed
  qed
qed

end
