(* ===== verification/User_Heap.thy ===== *)
theory User_Heap
  imports User_Alloc
begin

text \<open>
  Correctness of the allocator of user programs: the invariant of the heap, what \<open>alloc\<close> and \<open>dealloc\<close>
  do to it, and the safety of every program that uses its blocks as it may.
\<close>

section \<open>Sizes\<close>

lemma unat_and_not_mask: "unat (w AND NOT (mask k) :: u64) = unat w div 2 ^ k * 2 ^ k"
proof -
  have w: "unat w < 2 ^ 64" using unsigned_less [of w, where 'a = nat] by simp
  have "w AND NOT (mask k) = push_bit k (drop_bit k w)"
    by (rule bit_word_eqI) (auto simp: bit_simps)
  moreover have "unat (push_bit k (drop_bit k w)) = unat w div 2 ^ k * 2 ^ k mod 2 ^ 64"
    unfolding unsigned_push_bit_eq unsigned_drop_bit_eq using w
    by (simp add: take_bit_eq_mod push_bit_eq_mult drop_bit_eq_div)
  moreover have "unat w div 2 ^ k * 2 ^ k < 2 ^ 64"
    using div_times_less_eq_dividend w by (rule order_le_less_trans)
  ultimately show ?thesis by simp
qed

definition round_up :: "nat \<Rightarrow> nat \<Rightarrow> nat" where
  "round_up k x = (x + (k - 1)) div k * k"

lemma round_up_ge: "0 < k \<Longrightarrow> x \<le> round_up k x"
proof -
  assume k: "0 < k"
  have "x + (k - 1) = round_up k x + (x + (k - 1)) mod k" by (simp add: round_up_def)
  moreover have "(x + (k - 1)) mod k \<le> k - 1" using k mod_less_divisor [of k "x + (k - 1)"] by linarith
  ultimately show ?thesis by linarith
qed

lemma round_up_dvd [simp]: "k dvd round_up k x"
  by (simp add: round_up_def)

lemma checked_add_cases:
  "checked_add x y = None \<and> 2 ^ 64 \<le> unat x + unat y \<or> (\<exists>v. checked_add x y = Some v \<and> unat v = unat x + unat y)"
  by (auto simp: checked_add_def unat_word_ariths)

lemma align_up_cases:
  assumes "al - 1 = mask k" and "unat al = 2 ^ k"
  shows "align_up x al = None \<and> 2 ^ 64 \<le> unat x + (2 ^ k - 1) \<or>
    (\<exists>v. align_up x al = Some v \<and> unat v = round_up (2 ^ k) (unat x))"
proof -
  have "unat (mask k :: u64) = 2 ^ k - 1"
    using unat_minus_one [of al] assms by (metis power_not_zero unat_0 zero_neq_numeral)
  then show ?thesis
    using checked_add_cases [of x "mask k"] assms(1) by (auto simp: align_up_def unat_and_not_mask round_up_def)
qed

lemma align_up_16:
  "align_up x ALIGN = None \<and> 2 ^ 64 \<le> unat x + 15 \<or> (\<exists>v. align_up x ALIGN = Some v \<and> unat v = round_up 16 (unat x))"
proof -
  have "ALIGN - 1 = mask 4" "unat ALIGN = 2 ^ 4" by (simp_all add: ALIGN_def mask_eq_exp_minus_1)
  from align_up_cases [OF this] show ?thesis by simp
qed

lemma align_up_page:
  "align_up x 4096 = None \<and> 2 ^ 64 \<le> unat x + 4095 \<or> (\<exists>v. align_up x 4096 = Some v \<and> unat v = round_up 4096 (unat x))"
proof -
  have "(4096 :: u64) - 1 = mask 12" "unat (4096 :: u64) = 2 ^ 12" by (simp_all add: mask_eq_exp_minus_1)
  from align_up_cases [OF this] show ?thesis by simp
qed

text \<open>The size of the block for a request, header included.\<close>

definition block_size :: "u64 \<Rightarrow> nat" where
  "block_size sz = 16 + round_up 16 (max (unat sz) 1)"

lemma block_size_bounds: "32 \<le> block_size sz" "16 + unat sz \<le> block_size sz" "16 dvd block_size sz"
proof -
  have r: "max (unat sz) 1 \<le> round_up 16 (max (unat sz) 1)" by (rule round_up_ge) simp
  then have "16 \<le> round_up 16 (max (unat sz) 1)" by (intro dvd_imp_le) auto
  with r show "32 \<le> block_size sz" "16 + unat sz \<le> block_size sz" by (simp_all add: block_size_def)
  show "16 dvd block_size sz" by (simp add: block_size_def)
qed

section \<open>The heap\<close>

abbreviation apart :: "block \<Rightarrow> block \<Rightarrow> bool" where
  "apart \<equiv> \<lambda>(a, n) (b, k). a + n \<le> b \<or> b + k \<le> a"

definition block_ok :: "nat \<Rightarrow> block \<Rightarrow> bool" where
  "block_ok brk = (\<lambda>(a, n). 0 < a \<and> 16 dvd a \<and> 16 dvd n \<and> 32 \<le> n \<and> a + n \<le> brk)"

text \<open>
  \<open>fs\<close> are the free blocks, in the order of the list: sorted, and no two of them meet.  \<open>L\<close> are the
  blocks in use.
\<close>

definition heap_ok :: "uheap \<Rightarrow> block list \<Rightarrow> block set \<Rightarrow> bool" where
  "heap_ok h fs L \<longleftrightarrow>
     lseg (umem h) (uhead h) fs 0 \<and> sorted_wrt gap fs \<and> (\<forall>b \<in> set fs \<union> L. block_ok (ubrk h) b) \<and>
     (\<forall>(a, n) \<in> L. unat (load_u64 (umem h) a) = n) \<and> (\<forall>b \<in> L. \<forall>c \<in> set fs. apart b c) \<and> pairwise apart L \<and>
     0 < ubrk h \<and> PGSIZE dvd ubrk h \<and> ubrk h \<le> USER_STACK"

text \<open>The blocks in use keep their contents.\<close>

definition keeps :: "uheap \<Rightarrow> uheap \<Rightarrow> block set \<Rightarrow> bool" where
  "keeps h h' L \<longleftrightarrow> (\<forall>(a, n) \<in> L. \<forall>x. a \<le> x \<and> x < a + n \<longrightarrow> umem h' x = umem h x)"

lemma heap_okD:
  assumes "heap_ok h fs L"
  shows "lseg (umem h) (uhead h) fs 0" "sorted_wrt gap fs" "\<forall>b \<in> set fs \<union> L. block_ok (ubrk h) b"
    "\<forall>(a, n) \<in> L. unat (load_u64 (umem h) a) = n" "\<forall>b \<in> L. \<forall>c \<in> set fs. apart b c" "pairwise apart L"
    "0 < ubrk h" "PGSIZE dvd ubrk h" "ubrk h \<le> USER_STACK"
  by - (insert assms [unfolded heap_ok_def], elim conjE, assumption)+

lemma USER_STACK_bound: "USER_STACK < 2 ^ 38"
  by (simp add: USER_STACK_def MAXVA_def PGSIZE_def)

lemma heap_ok_ordered: "heap_ok h fs L \<Longrightarrow> ordered fs"
proof -
  assume h: "heap_ok h fs L"
  then have "sorted_wrt gap fs" "\<forall>b \<in> set fs. block_ok (ubrk h) b" "ubrk h < 2 ^ 63"
    using USER_STACK_bound by (auto simp: heap_ok_def)
  then show ?thesis
    unfolding ordered_def by (auto simp: block_ok_def elim!: sorted_wrt_mono_rel [rotated])
qed

abbreviation inside :: "block \<Rightarrow> block \<Rightarrow> bool" where
  "inside c d \<equiv> fst d \<le> fst c \<and> fst c + snd c \<le> fst d + snd d"

lemma take_fit_inside:
  "take_fit needed fs = Some (b, bs) \<Longrightarrow> c \<in> insert b (set bs) \<Longrightarrow> \<exists>d \<in> set fs. inside c d"
proof (induction fs arbitrary: b bs)
  case (Cons f fs)
  obtain a n where f: "f = (a, n)" by fastforce
  show ?case
  proof (cases "needed \<le> n")
    case True
    with Cons.prems show ?thesis by (auto simp: f split: if_splits intro: bexI [of _ c])
  next
    case False
    with Cons.prems(1) obtain bs' where "take_fit needed fs = Some (b, bs')" "bs = f # bs'" by (auto simp: f)
    with Cons.IH [of b bs'] Cons.prems(2) show ?thesis by auto
  qed
qed simp

lemma take_fit_facts:
  assumes "take_fit needed fs = Some (b, bs)" and "sorted_wrt gap fs" and "\<forall>b \<in> set fs. block_ok brk b"
    and "32 \<le> needed" "16 dvd needed"
  shows "sorted_wrt gap bs \<and> (\<forall>c \<in> insert b (set bs). block_ok brk c) \<and> needed \<le> snd b \<and> (\<forall>c \<in> set bs. apart b c) \<and>
    insert_block b bs = fs"
  using assms(1-3)
proof (induction fs arbitrary: b bs)
  case (Cons f fs)
  obtain a n where f: "f = (a, n)" by fastforce
  have g: "a + n < c" if "(c, k) \<in> set fs" for c k using Cons.prems(2) that by (auto simp: f)
  have ok: "block_ok brk (a, n)" using Cons.prems(3) f by simp
  show ?case
  proof (cases "needed \<le> n")
    case True
    have start: "insert_block (a, n) fs = (a, n) # fs" using g by (cases fs) fastforce+
    show ?thesis
    proof (cases "32 \<le> n - needed")
      case split: True
      then have "b = (a, needed)" "bs = (a + needed, n - needed) # fs" using Cons.prems(1) True by (simp_all add: f)
      moreover have "16 dvd n - needed" using ok assms(5) by (simp add: block_ok_def)
      ultimately show ?thesis using split Cons.prems(2,3) g assms(4,5) ok by (fastforce simp: f block_ok_def)
    next
      case False
      then have "b = (a, n)" "bs = fs" using Cons.prems(1) True by (simp_all add: f)
      then show ?thesis using start Cons.prems(2,3) True g by (fastforce simp: f)
    qed
  next
    case False
    with Cons.prems(1) obtain bs' where t: "take_fit needed fs = Some (b, bs')" "bs = f # bs'" by (auto simp: f)
    have IH: "sorted_wrt gap bs'" "\<forall>c \<in> insert b (set bs'). block_ok brk c" "needed \<le> snd b" "\<forall>c \<in> set bs'. apart b c"
        "insert_block b bs' = fs"
      using Cons.IH [OF t(1)] Cons.prems(2,3) by (auto simp: f)
    have in_gap: "a + n < fst c" if "c \<in> insert b (set bs')" for c
      using take_fit_inside [OF t(1) that] g by fastforce
    then have "insert_block b bs = f # fs" using IH(5) by (cases b) (fastforce simp: t(2) f)
    moreover have "sorted_wrt gap bs" using in_gap IH(1) by (fastforce simp: t(2) f)
    moreover have "\<forall>c \<in> set bs. apart b c" using in_gap [of b] IH(4) by (fastforce simp: t(2) f)
    ultimately show ?thesis using IH(2,3) ok by (simp add: t(2) f)
  qed
qed simp

lemma glue_fst: "c \<in> set (glue b bs) \<Longrightarrow> fst c = fst b \<or> c \<in> set bs"
  by (cases "(b, bs)" rule: glue.cases) (auto split: if_splits)

lemma insert_block_fst: "c \<in> set (insert_block b bs) \<Longrightarrow> fst c = fst b \<or> fst c \<in> fst ` set bs"
proof (induction b bs rule: insert_block.induct)
  case (2 b k a n bs)
  have g: "fst c = fst d \<or> fst c \<in> fst ` set bs" if "c \<in> set (glue d bs)" for d using glue_fst [OF that] by auto
  have g': "fst c = fst d \<or> fst c \<in> fst ` set ((a, n) # bs)" if "c \<in> set (glue d ((a, n) # bs))" for d
    using glue_fst [OF that] by auto
  show ?case using 2 g [of "(a, n + k)"] g' [of "(b, k)"] by (auto simp del: glue.simps split: if_splits)
qed simp

lemma glue_facts:
  assumes "sorted_wrt gap bs" and "\<forall>c \<in> set bs. block_ok brk c" and "block_ok brk (a, n)" and "\<forall>c \<in> set bs. a + n \<le> fst c"
  shows "sorted_wrt gap (glue (a, n) bs) \<and> (\<forall>c \<in> set (glue (a, n) bs). block_ok brk c) \<and>
    (\<exists>c \<in> set (glue (a, n) bs). n \<le> snd c) \<and>
    (\<forall>d. 0 < snd d \<longrightarrow> apart d (a, n) \<longrightarrow> (\<forall>c \<in> set bs. apart d c) \<longrightarrow> (\<forall>c \<in> set (glue (a, n) bs). apart d c))"
proof (cases "bs \<noteq> [] \<and> fst (hd bs) = a + n")
  case False
  have "sorted_wrt gap ((a, n) # bs)"
  proof (cases bs)
    case (Cons e cs)
    then have "a + n < fst e" using assms(4) False by (cases e) auto
    moreover have "fst e \<le> fst c" if "c \<in> set cs" for c using assms(1) that Cons by (cases e; cases c) auto
    ultimately have "a + n < fst c" if "c \<in> set bs" for c using that Cons by fastforce
    then show ?thesis using assms(1) by auto
  qed simp
  then show ?thesis
    unfolding glue_apart [OF False] using assms(2,3) by auto
next
  case True
  then obtain k cs where bs: "bs = (a + n, k) # cs" by (cases bs) auto
  have "block_ok brk (a, n + k)" using assms(2,3) by (auto simp: bs block_ok_def)
  moreover have "apart d (a, n + k)" if "0 < snd d" "apart d (a, n)" "apart d (a + n, k)" for d
    using that by (cases d) auto
  moreover have "sorted_wrt gap ((a, n + k) # cs)" using assms(1) by (auto simp: bs add.assoc split: prod.splits)
  ultimately show ?thesis
    using assms(2) by (simp add: bs)
qed

lemma insert_block_facts:
  assumes "sorted_wrt gap fs" and "\<forall>c \<in> set fs. block_ok brk c" and "block_ok brk b" and "\<forall>c \<in> set fs. apart b c"
  shows "sorted_wrt gap (insert_block b fs) \<and> (\<forall>c \<in> set (insert_block b fs). block_ok brk c) \<and>
    (\<exists>c \<in> set (insert_block b fs). snd b \<le> snd c) \<and>
    (\<forall>d. 0 < snd d \<longrightarrow> apart d b \<longrightarrow> (\<forall>c \<in> set fs. apart d c) \<longrightarrow> (\<forall>c \<in> set (insert_block b fs). apart d c))"
  using assms
proof (induction b fs rule: insert_block.induct)
  case (2 b k a n bs)
  have ok: "32 \<le> n" "32 \<le> k" using 2(3,4) by (auto simp: block_ok_def)
  have g: "\<forall>c \<in> set bs. a + n < fst c" using 2(2) by auto
  have ap: "a + n \<le> b \<or> b + k \<le> a" "\<forall>c \<in> set bs. apart (b, k) c" using 2(5) by auto
  consider (skip) "a + n < b" | (meet) "a + n = b" | (here) "b + k \<le> a" using ap by linarith
  then show ?case
  proof cases
    case skip
    then have i: "insert_block (b, k) ((a, n) # bs) = (a, n) # insert_block (b, k) bs" by simp
    have IH: "sorted_wrt gap (insert_block (b, k) bs) \<and> (\<forall>c \<in> set (insert_block (b, k) bs). block_ok brk c) \<and>
        (\<exists>c \<in> set (insert_block (b, k) bs). k \<le> snd c) \<and>
        (\<forall>d. 0 < snd d \<longrightarrow> apart d (b, k) \<longrightarrow> (\<forall>c \<in> set bs. apart d c) \<longrightarrow> (\<forall>c \<in> set (insert_block (b, k) bs). apart d c))"
      using 2(1) [OF _ _ _ _ 2(4) ap(2)] 2(2,3) skip by simp
    moreover have "a + n < fst c" if "c \<in> set (insert_block (b, k) bs)" for c
      using insert_block_fst [OF that] skip g by auto
    then have "sorted_wrt gap (insert_block (b, k) ((a, n) # bs))" unfolding i using IH by auto
    ultimately show ?thesis unfolding i using 2(3) by simp
  next
    case meet
    have below: "\<forall>c \<in> set bs. a + (n + k) \<le> fst c"
    proof
      fix c assume c: "c \<in> set bs"
      then have "b < fst c" "32 \<le> snd c" using g meet 2(3) by (auto simp: block_ok_def)
      then show "a + (n + k) \<le> fst c" using ap(2) c meet by (cases c) auto
    qed
    have "block_ok brk (a, n + k)" using 2(3,4) meet by (auto simp: block_ok_def)
    note gl = glue_facts [OF _ _ this below]
    have bs: "sorted_wrt gap bs" "\<forall>c \<in> set bs. block_ok brk c" using 2(2,3) by simp_all
    have i: "insert_block (b, k) ((a, n) # bs) = glue (a, n + k) bs" using meet ok by simp
    have "\<forall>c \<in> set (glue (a, n + k) bs). apart d c"
      if d: "0 < snd d" "apart d (b, k)" "\<forall>c \<in> set ((a, n) # bs). apart d c" for d
    proof (rule gl [OF bs, THEN conjunct2, THEN conjunct2, THEN conjunct2, THEN spec, THEN mp, THEN mp, THEN mp])
      show "apart d (a, n + k)" using d meet by (cases d) auto
    qed (use d in simp_all)
    moreover have "\<exists>c \<in> set (glue (a, n + k) bs). k \<le> snd c"
      using gl [OF bs] add_leD2 by blast
    ultimately show ?thesis unfolding i snd_conv using gl [OF bs] by blast
  next
    case here
    have "b + k \<le> fst c" if "c \<in> set ((a, n) # bs)" for c using that here g by force
    then have below: "\<forall>c \<in> set ((a, n) # bs). b + k \<le> fst c" by blast
    have i: "insert_block (b, k) ((a, n) # bs) = glue (b, k) ((a, n) # bs)" using here ok by simp
    show ?thesis unfolding i using glue_facts [OF 2(2,3,4) below] by (simp del: glue.simps)
  qed
qed auto

section \<open>The operations on the heap\<close>

lemma keeps_outside:
  assumes "\<forall>b \<in> L. \<forall>c \<in> B. apart b c" and "\<And>x. \<not> in_blocks B x \<Longrightarrow> umem h' x = umem h x"
  shows "keeps h h' L"
  unfolding keeps_def
proof clarify
  fix a n x assume x: "(a, n) \<in> L" "a \<le> x" "x < a + n"
  have "\<not> in_blocks B x"
  proof
    assume "in_blocks B x"
    then obtain b k where b: "(b, k) \<in> B" "b \<le> x" "x < b + k" by (auto simp: in_blocks_def)
    then have "apart (a, n) (b, k)" using assms(1) x(1) by blast
    then show False using b x by simp
  qed
  then show "umem h' x = umem h x" by (rule assms(2))
qed

lemma keeps_header:
  assumes "keeps h h' L" and "(a, n) \<in> L" and "8 \<le> n"
  shows "load_u64 (umem h') a = load_u64 (umem h) a"
proof (rule load_u64_cong)
  fix x assume "a \<le> x" "x < a + 8"
  then show "umem h' x = umem h x" using bspec [OF assms(1) [unfolded keeps_def] assms(2)] assms(3) by simp
qed

lemma keeps_headers:
  assumes "heap_ok h fs L" and "keeps h h' L"
  shows "\<forall>(a, n) \<in> L. unat (load_u64 (umem h') a) = n"
proof clarify
  fix a n assume a: "(a, n) \<in> L"
  then have "32 \<le> n" "unat (load_u64 (umem h) a) = n" using assms(1) by (auto simp: heap_ok_def block_ok_def)
  then show "unat (load_u64 (umem h') a) = n" using keeps_header [OF assms(2) a] by simp
qed

lemma apart_inside: "apart b d \<Longrightarrow> inside c d \<Longrightarrow> apart b c"
  by (auto split: prod.splits)

lemma apart_sym: "apart b c \<Longrightarrow> apart c b"
  by (auto split: prod.splits)

lemma alloc_from_freelist_ok:
  assumes h: "heap_ok h fs L" and n: "32 \<le> unat needed" "16 dvd unat needed"
  shows "case take_fit (unat needed) fs of
      None \<Rightarrow> alloc_from_freelist needed h = Some (None, h)
    | Some (b, bs) \<Rightarrow> \<exists>h'. alloc_from_freelist needed h = Some (Some (of_nat (fst b + 16)), h') \<and>
        heap_ok h' bs (insert b L) \<and> b \<notin> L \<and> keeps h h' L \<and> ubrk h' = ubrk h \<and> unat needed \<le> snd b \<and> insert_block b bs = fs"
proof -
  have l: "lseg (umem h) (uhead h) [] (uhead h)" "lseg (umem h) (uhead h) fs 0" "ordered ([] @ fs)"
    using h heap_ok_ordered [OF h] by (simp_all add: heap_ok_def)
  have n16: "16 \<le> unat needed" using n(1) by simp
  have la: "last_addr [] = 0" by (simp add: last_addr_def)
  note sp = alloc_loop_spec [OF l n16, unfolded la append_Nil, folded alloc_from_freelist_def]
  show ?thesis
  proof (cases "take_fit (unat needed) fs")
    case None
    with sp show ?thesis by simp
  next
    case (Some r)
    obtain b bs where r: "r = (b, bs)" by fastforce
    from sp Some r obtain h' where
      h': "alloc_from_freelist needed h = Some (Some (of_nat (fst b + 16)), h')" "taken_ok h (set fs) b bs h'" by auto
    note t = take_fit_facts [OF Some [unfolded r] _ _ n, of "ubrk h"]
    have in_fs: "\<exists>d \<in> set fs. inside c d" if "c \<in> insert b (set bs)" for c
      using take_fit_inside [OF Some [unfolded r] that] .
    have ap: "\<forall>d \<in> L. \<forall>c \<in> insert b (set bs). apart d c"
    proof (intro ballI)
      fix d c assume "d \<in> L" "c \<in> insert b (set bs)"
      moreover from in_fs [OF this(2)] obtain e where "e \<in> set fs" "inside c e" by blast
      ultimately show "apart d c" using heap_okD(5) [OF h] apart_inside [of d e c] by blast
    qed
    have k: "keeps h h' L" using heap_okD(5) [OF h] h'(2) unfolding taken_ok_def by (intro keeps_outside) blast+
    have ok: "\<forall>b \<in> set fs. block_ok (ubrk h) b" using heap_okD(3) [OF h] by blast
    note facts = take_fit_facts [OF Some [unfolded r] heap_okD(2) [OF h] ok n]
    have nb: "b \<notin> L"
    proof
      assume "b \<in> L"
      then have "apart b b" using ap by blast
      then show False using facts n(1) by (cases b) auto
    qed
    have 1: "pairwise apart (insert b L)"
      using ap heap_okD(6) [OF h] apart_sym unfolding pairwise_insert by blast
    have 2: "\<forall>(a, n) \<in> insert b L. unat (load_u64 (umem h') a) = n"
      using keeps_headers [OF h k] h'(2) by (cases b) (simp add: taken_ok_def)
    have 3: "\<forall>c \<in> set bs \<union> insert b L. block_ok (ubrk h) c" using facts heap_okD(3) [OF h] by blast
    have 4: "\<forall>d \<in> insert b L. \<forall>c \<in> set bs. apart d c" using facts ap by blast
    have 5: "lseg (umem h') (uhead h') bs 0" "ubrk h' = ubrk h" using h'(2) by (simp_all add: taken_ok_def)
    have "heap_ok h' bs (insert b L)"
      unfolding heap_ok_def 5(2) using 1 2 3 4 5(1) facts heap_okD(7-9) [OF h] by (simp only: simp_thms)
    with h'(1) k nb facts 5(2) show ?thesis unfolding Some r by auto
  qed
qed

lemma insert_ok:
  assumes h: "heap_ok h fs L" and b: "block_ok (ubrk h) (b, k)" "unat (load_u64 (umem h) b) = k"
    and ap: "\<forall>c \<in> set fs. apart (b, k) c" "\<forall>c \<in> L. apart (b, k) c" and p: "unat p = b"
  shows "\<exists>h'. insert_free_block p h = Some h' \<and> heap_ok h' (insert_block (b, k) fs) L \<and> keeps h h' L \<and> ubrk h' = ubrk h"
proof -
  have bk: "0 < b" "16 \<le> k" "b + k < 2 ^ 63" "block_ok (ubrk h) (b, k)"
    using b(1) heap_okD(9) [OF h] USER_STACK_bound by (auto simp: block_ok_def)
  have "\<forall>(a, n) \<in> set fs. a + n \<le> b \<or> b + k \<le> a" using ap(1) by fastforce
  from insert_free_block_spec [OF heap_okD(1) [OF h] heap_ok_ordered [OF h] p bk(1) b(2) bk(2,3) this]
  obtain h' where h': "insert_free_block p h = Some h'" "inserted h fs (b, k) h'" by blast
  have i: "lseg (umem h') (uhead h') (insert_block (b, k) fs) 0" "ubrk h' = ubrk h"
      "\<And>x. \<not> in_blocks (set ((b, k) # fs)) x \<Longrightarrow> umem h' x = umem h x"
    using h'(2) by (simp_all add: inserted_def)
  have db: "apart d (b, k)" if "d \<in> L" for d by (rule apart_sym) (rule bspec [OF ap(2) that])
  have "\<forall>d \<in> L. \<forall>c \<in> set ((b, k) # fs). apart d c"
  proof (intro ballI)
    fix d c assume d: "d \<in> L" and "c \<in> set ((b, k) # fs)"
    then consider "c = (b, k)" | "c \<in> set fs" by auto
    then show "apart d c"
    proof cases
      case 1
      with db [OF d] show ?thesis by simp
    next
      case 2
      show ?thesis by (rule bspec [OF bspec [OF heap_okD(5) [OF h] d] 2])
    qed
  qed
  then have k: "keeps h h' L" using i(3) by (rule keeps_outside)
  have ok: "\<forall>c \<in> set fs. block_ok (ubrk h) c" using heap_okD(3) [OF h] by blast
  note f = insert_block_facts [OF heap_okD(2) [OF h] ok b(1) ap(1)]
  note f1 = f [THEN conjunct1] and f2 = f [THEN conjunct2, THEN conjunct1]
    and f3 = f [THEN conjunct2, THEN conjunct2, THEN conjunct2, THEN spec, THEN mp, THEN mp, THEN mp]
  have 1: "\<forall>d \<in> L. \<forall>c \<in> set (insert_block (b, k) fs). apart d c"
  proof
    fix d assume d: "d \<in> L"
    then have "block_ok (ubrk h) d" using heap_okD(3) [OF h] by blast
    then have "0 < snd d" by (cases d) (simp add: block_ok_def)
    moreover have "apart d (b, k)" using d by (rule db)
    moreover have "\<forall>c \<in> set fs. apart d c" using heap_okD(5) [OF h] d by (rule bspec)
    ultimately show "\<forall>c \<in> set (insert_block (b, k) fs). apart d c" by (rule f3)
  qed
  have 2: "\<forall>c \<in> set (insert_block (b, k) fs) \<union> L. block_ok (ubrk h) c" using f2 heap_okD(3) [OF h] by blast
  have "heap_ok h' (insert_block (b, k) fs) L"
    unfolding heap_ok_def i(2)
    using i(1) f1 1 2 keeps_headers [OF h k] heap_okD(6-9) [OF h] by (simp only: simp_thms)
  with h'(1) k i(2) show ?thesis by simp
qed

lemma block_ok_mono: "block_ok brk b \<Longrightarrow> brk \<le> brk' \<Longrightarrow> block_ok brk' b"
  by (auto simp: block_ok_def)

lemma ball_subsetD: "\<forall>x \<in> L. P x \<Longrightarrow> M \<subseteq> L \<Longrightarrow> \<forall>x \<in> M. P x"
  by blast

lemma heap_ok_subset:
  assumes "heap_ok h fs L" and "M \<subseteq> L"
  shows "heap_ok h fs M"
proof -
  note d = heap_okD [OF assms(1)]
  have "\<forall>b \<in> set fs \<union> M. block_ok (ubrk h) b" using d(3) assms(2) by blast
  moreover have "\<forall>(a, n) \<in> M. unat (load_u64 (umem h) a) = n" using d(4) assms(2) by (rule ball_subsetD)
  moreover have "\<forall>b \<in> M. \<forall>c \<in> set fs. apart b c" using d(5) assms(2) by (rule ball_subsetD)
  moreover have "pairwise apart M" using d(6) assms(2) by (rule pairwise_subset)
  ultimately show ?thesis unfolding heap_ok_def using d(1,2,7-9) by (simp only: simp_thms)
qed

lemma heap_ok_grow:
  assumes h: "heap_ok h fs L" and "\<And>x. x < ubrk h \<Longrightarrow> umem h' x = umem h x" and "uhead h' = uhead h"
    and "ubrk h \<le> ubrk h'" "PGSIZE dvd ubrk h'" "ubrk h' \<le> USER_STACK"
  shows "heap_ok h' fs L" "keeps h h' L"
proof -
  have ok: "a + n \<le> ubrk h" "32 \<le> n" if "(a, n) \<in> set fs \<union> L" for a n
    using heap_okD(3) [OF h] that by (auto simp: block_ok_def)
  show k: "keeps h h' L"
    unfolding keeps_def
  proof clarify
    fix a n x assume "(a, n) \<in> L" "x < a + n"
    then show "umem h' x = umem h x" using ok [of a n] by (intro assms(2)) simp
  qed
  have "umem h' x = umem h x" if "(a, n) \<in> set fs" "x < a + 16" for a n x
    using ok [of a n] that by (intro assms(2)) simp
  then have "lseg (umem h') (uhead h') fs 0"
    using heap_okD(1) [OF h] lseg_cong [of fs "umem h'" "umem h"] assms(3) by simp
  moreover have "\<forall>b \<in> set fs \<union> L. block_ok (ubrk h') b"
    using heap_okD(3) [OF h] block_ok_mono [OF _ assms(4)] by blast
  moreover have "0 < ubrk h'" using heap_okD(7) [OF h] assms(4) by simp
  ultimately show "heap_ok h' fs L"
    unfolding heap_ok_def using heap_okD(2,5,6) [OF h] keeps_headers [OF h k] assms(5,6) by (simp only: simp_thms)
qed

lemma sint_nonneg: "unat (w :: u64) < 2 ^ 63 \<Longrightarrow> \<not> sint w < 0"
proof -
  assume "unat w < 2 ^ 63"
  then have "int (unat w) < int (2 ^ 63)" by (simp only: of_nat_less_iff)
  then have "uint w < 2 ^ 63" by simp
  then have "signed_take_bit 63 (uint w) = uint w" by (intro signed_take_bit_int_eq_self) (simp_all add: order_trans [OF _ uint_ge_0])
  then have "sint w = uint w" by (simp add: sint_uint)
  then show ?thesis by simp
qed

lemma keeps_blocks_trans: "keeps h h1 L \<Longrightarrow> keeps h1 h2 L \<Longrightarrow> keeps h h2 L"
  by (auto simp: keeps_def split: prod.splits)

lemma sbrk_page:
  assumes "PGSIZE dvd ubrk h" and "PGSIZE dvd unat inc" and "unat inc < 2 ^ 63"
  shows "sbrk ok inc h =
    (if ok \<and> ubrk h + unat inc \<le> USER_STACK
     then (int (ubrk h), h\<lparr>ubrk := ubrk h + unat inc,
        umem := (\<lambda>x. if ubrk h \<le> x \<and> x < ubrk h + unat inc then 0 else umem h x)\<rparr>)
     else (-1, h))"
proof -
  have r: "page_round_down (x + (PGSIZE - 1)) = x" if "PGSIZE dvd x" for x
    using that by (auto simp: page_round_down_eq PGSIZE_def elim!: dvdE)
  have e: "page_round_down (ubrk h + unat inc + (PGSIZE - 1)) = ubrk h + unat inc"
    using assms(1,2) by (intro r) simp
  show ?thesis
    unfolding sbrk_def Let_def e r [OF assms(1)] using sint_nonneg [OF assms(3)] by auto
qed

lemma grow_heap_ok:
  assumes h: "heap_ok h fs L" and n: "32 \<le> unat needed" "16 dvd unat needed"
  shows "if ok \<and> ubrk h + round_up 4096 (unat needed) \<le> USER_STACK
    then \<exists>h'. grow_heap ok needed h = Some (True, h') \<and>
      heap_ok h' (insert_block (ubrk h, round_up 4096 (unat needed)) fs) L \<and> keeps h h' L
    else grow_heap ok needed h = Some (False, h)"
proof -
  let ?t = "round_up 4096 (unat needed)" and ?b = "ubrk h"
  have t: "unat needed \<le> ?t" "4096 dvd ?t" by (simp_all add: round_up_ge)
  consider (over) "align_up needed 4096 = None" "2 ^ 64 \<le> unat needed + 4095"
    | (big) v where "align_up needed 4096 = Some v" "unat v = ?t" "2 ^ 63 \<le> ?t"
    | (fit) v where "align_up needed 4096 = Some v" "unat v = ?t" "?t < 2 ^ 63"
    using align_up_page [of needed] by fastforce
  then show ?thesis
  proof cases
    case over
    then show ?thesis using t USER_STACK_bound by (simp add: grow_heap_def)
  next
    case big
    then show ?thesis using USER_STACK_bound by (simp add: grow_heap_def)
  next
    case fit
    have sb: "sbrk ok v h = (if ok \<and> ?b + ?t \<le> USER_STACK
        then (int ?b, h\<lparr>ubrk := ?b + ?t, umem := (\<lambda>x. if ?b \<le> x \<and> x < ?b + ?t then 0 else umem h x)\<rparr>) else (-1, h))"
      using sbrk_page [OF heap_okD(8) [OF h], of v ok] fit t(2) by (simp add: PGSIZE_def)
    show ?thesis
    proof (cases "ok \<and> ?b + ?t \<le> USER_STACK")
      case False
      then have "sbrk ok v h = (-1, h)" using sb by (simp only: if_False)
      with False fit show ?thesis by (auto simp: grow_heap_def)
    next
      case True
      let ?h1 = "h\<lparr>ubrk := ?b + ?t, umem := (\<lambda>x. if ?b \<le> x \<and> x < ?b + ?t then 0 else umem h x)\<rparr>"
      let ?h2 = "set_next (of_nat ?b) 0 (set_size (of_nat ?b) v ?h1)"
      have u: "unat (of_nat ?b :: u64) = ?b" using True USER_STACK_bound by (intro unat_of_addr) simp
      have m: "umem ?h2 = store_u64 (?b + 8) 0 (store_u64 ?b v (umem ?h1))" "ubrk ?h2 = ?b + ?t" "uhead ?h2 = uhead h"
        by (simp_all add: set_next_def set_size_def u)
      have "umem ?h2 x = umem h x" if "x < ?b" for x unfolding m using that by (simp add: store_u64_other)
      moreover have "PGSIZE dvd ?b + ?t" using heap_okD(8) [OF h] t(2) by (simp add: PGSIZE_def)
      ultimately have h2: "heap_ok ?h2 fs L" "keeps h ?h2 L"
        using heap_ok_grow [OF h, of ?h2] m(2,3) True by auto
      have "16 dvd ?b" using heap_okD(8) [OF h] by (rule dvd_trans [rotated]) (simp add: PGSIZE_def)
      moreover have "16 dvd ?t" using t(2) by (rule dvd_trans [rotated]) simp
      ultimately have b: "block_ok (ubrk ?h2) (?b, ?t)" "unat (load_u64 (umem ?h2) ?b) = ?t"
        unfolding m using t(1) n(1) heap_okD(7) [OF h] fit(2) by (simp_all add: block_ok_def load_u64_store_other)
      have below: "\<forall>c \<in> set fs \<union> L. apart (?b, ?t) c"
        using heap_okD(3) [OF h] by (auto simp: block_ok_def)
      have ins: "\<exists>h'. insert_free_block (of_nat ?b) ?h2 = Some h' \<and> heap_ok h' (insert_block (?b, ?t) fs) L \<and> keeps ?h2 h' L \<and> ubrk h' = ubrk ?h2"
        using below by (intro insert_ok [OF h2(1) b _ _ u]) blast+
      have "sbrk ok v h = (int ?b, ?h1)" using sb unfolding if_P [OF True] .
      then have "grow_heap ok needed h = map_option (Pair True) (insert_free_block (of_nat ?b) ?h2)"
        using fit by (simp add: grow_heap_def Let_def)
      with ins True show ?thesis using keeps_blocks_trans [OF h2(2)] by auto
    qed
  qed
qed

lemma take_fit_None: "take_fit needed fs = None \<longleftrightarrow> (\<forall>(a, n) \<in> set fs. n < needed)"
  by (induction needed fs rule: take_fit.induct) auto

lemma glue_ge: "\<exists>c \<in> set (glue b bs). snd b \<le> snd c"
  by (cases "(b, bs)" rule: glue.cases) auto

lemma insert_block_ge: "\<exists>c \<in> set (insert_block b fs). snd b \<le> snd c"
proof (induction b fs rule: insert_block.induct)
  case (2 b k a n bs)
  obtain c where "c \<in> set (glue (a, n + k) bs)" "n + k \<le> snd c" using glue_ge [of "(a, n + k)" bs] by (metis snd_conv)
  then have "\<exists>c \<in> set (glue (a, n + k) bs). k \<le> snd c" by (intro bexI [of _ c]) simp_all
  with 2 glue_ge [of "(b, k)" "(a, n) # bs"] show ?case by (auto simp del: glue.simps)
qed simp

text \<open>What a request needs: a free block that is large enough, or room for the heap to grow.\<close>

definition can_alloc :: "bool \<Rightarrow> u64 \<Rightarrow> uheap \<Rightarrow> block list \<Rightarrow> bool" where
  "can_alloc ok sz h fs \<longleftrightarrow> (\<exists>(a, n) \<in> set fs. block_size sz \<le> n) \<or>
     ok \<and> ubrk h + round_up 4096 (block_size sz) \<le> USER_STACK"

definition allocated :: "uheap \<Rightarrow> block list \<Rightarrow> block set \<Rightarrow> u64 \<Rightarrow> u64 \<Rightarrow> uheap \<Rightarrow> bool" where
  "allocated h fs L sz p h' \<longleftrightarrow> (\<exists>a n bs. unat p = a + 16 \<and> 16 + unat sz \<le> n \<and> (a, n) \<notin> L \<and>
     heap_ok h' bs (insert (a, n) L) \<and> keeps h h' L \<and> ((\<exists>(b, k) \<in> set fs. block_size sz \<le> k) \<longrightarrow> insert_block (a, n) bs = fs))"

lemma fits_pointer:
  assumes "heap_ok h' bs (insert (a, n) L)"
  shows "unat (of_nat (a + 16) :: u64) = a + 16"
proof -
  have "block_ok (ubrk h') (a, n)" using heap_okD(3) [OF assms] by blast
  then show ?thesis using heap_okD(9) [OF assms] USER_STACK_bound by (intro unat_of_addr) (auto simp: block_ok_def)
qed

lemma alloc_needed:
  assumes h: "heap_ok h fs L" and "unat needed = block_size sz"
    and alloc: "alloc ok sz al h =
      (case alloc_from_freelist needed h of
         None \<Rightarrow> None
       | Some (Some ptr, h) \<Rightarrow> Some (ptr, h)
       | Some (None, h) \<Rightarrow>
           (case grow_heap ok needed h of
              None \<Rightarrow> None
            | Some (False, h) \<Rightarrow> Some (0, h)
            | Some (True, h) \<Rightarrow>
                (case alloc_from_freelist needed h of
                   None \<Rightarrow> None
                 | Some (r, h) \<Rightarrow> Some (case r of None \<Rightarrow> 0 | Some ptr \<Rightarrow> ptr, h))))"
  shows "if can_alloc ok sz h fs then \<exists>p h'. alloc ok sz al h = Some (p, h') \<and> allocated h fs L sz p h'
    else alloc ok sz al h = Some (0, h)"
proof -
  have n: "32 \<le> unat needed" "16 dvd unat needed" "16 + unat sz \<le> unat needed"
    using block_size_bounds [of sz] assms(2) by simp_all
  let ?t = "round_up 4096 (unat needed)"
  note f = alloc_from_freelist_ok [OF h n(1,2)]
  show ?thesis
  proof (cases "take_fit (unat needed) fs")
    case (Some r)
    obtain a k bs where r: "r = ((a, k), bs)" by (metis prod.collapse)
    from f Some r obtain h' where h': "alloc_from_freelist needed h = Some (Some (of_nat (a + 16)), h')"
        "heap_ok h' bs (insert (a, k) L)" "(a, k) \<notin> L" "keeps h h' L" "unat needed \<le> k" "insert_block (a, k) bs = fs"
      by auto
    have "can_alloc ok sz h fs"
      using Some take_fit_None [of "unat needed" fs] assms(2) unfolding can_alloc_def by fastforce
    moreover have "allocated h fs L sz (of_nat (a + 16)) h'"
      unfolding allocated_def
      using h' fits_pointer [OF h'(2)] n(3) 
        by (intro exI [where x = a] exI [where x = k] exI [where x = bs]) simp
    ultimately show ?thesis unfolding alloc using h'(1) by simp
  next
    case None
    then have fl: "alloc_from_freelist needed h = Some (None, h)" using f by simp
    have nf: "\<not> (\<exists>(a, k) \<in> set fs. block_size sz \<le> k)" using None assms(2) by (force simp: take_fit_None)
    note g = grow_heap_ok [OF h n(1,2), of ok]
    show ?thesis
    proof (cases "ok \<and> ubrk h + ?t \<le> USER_STACK")
      case False
      then show ?thesis using g nf fl assms(2) unfolding alloc can_alloc_def by auto
    next
      case True
      then obtain h1 where h1: "grow_heap ok needed h = Some (True, h1)"
          "heap_ok h1 (insert_block (ubrk h, ?t) fs) L" "keeps h h1 L"
        using g by auto
      have "unat needed \<le> ?t" by (simp add: round_up_ge)
      moreover obtain b i where "(b, i) \<in> set (insert_block (ubrk h, ?t) fs)" "?t \<le> i"
        using insert_block_ge [of "(ubrk h, ?t)" fs] by auto
      ultimately have "take_fit (unat needed) (insert_block (ubrk h, ?t) fs) \<noteq> None"
        unfolding take_fit_None by (metis (mono_tags, lifting) case_prodD le_trans not_less)
      then obtain a k bs where "take_fit (unat needed) (insert_block (ubrk h, ?t) fs) = Some ((a, k), bs)" by auto
      with alloc_from_freelist_ok [OF h1(2) n(1,2)] obtain h' where
        h': "alloc_from_freelist needed h1 = Some (Some (of_nat (a + 16)), h')" "heap_ok h' bs (insert (a, k) L)"
          "(a, k) \<notin> L" "keeps h1 h' L" "unat needed \<le> k"
        by auto
      have "can_alloc ok sz h fs" using True assms(2) by (simp add: can_alloc_def)
      moreover have "allocated h fs L sz (of_nat (a + 16)) h'"
        unfolding allocated_def
        using h' fits_pointer [OF h'(2)] n(3) keeps_blocks_trans [OF h1(3) h'(4)] nf 
        by (intro exI [where x = a] exI [where x = k] exI [where x = bs]) simp
      ultimately show ?thesis unfolding alloc using h'(1) h1(1) fl by simp
    qed
  qed
qed

lemma alloc_cases:
  assumes h: "heap_ok h fs L" and al: "al \<le> 16"
  shows "if can_alloc ok sz h fs then \<exists>p h'. alloc ok sz al h = Some (p, h') \<and> allocated h fs L sz p h'
    else alloc ok sz al h = Some (0, h)"
proof -
  have m: "unat (max sz 1) = max (unat sz) 1" by (simp add: max_def word_le_nat_alt)
  have a: "\<not> ALIGN < al" using al by (simp add: ALIGN_def)
  have none: ?thesis if "2 ^ 63 \<le> block_size sz" "alloc ok sz al h = Some (0, h)"
  proof -
    have "2 ^ 63 \<le> round_up 4096 (block_size sz)" using that(1) round_up_ge [of 4096 "block_size sz"] by simp
    moreover have "n < 2 ^ 63" if "(a, n) \<in> set fs" for a n
      using heap_ok_ordered [OF h] that ordered_mem [of fs a n] by simp
    ultimately have "\<not> can_alloc ok sz h fs" using that(1) USER_STACK_bound by (fastforce simp: can_alloc_def)
    with that(2) show ?thesis by simp
  qed
  have ge: "max (unat sz) 1 \<le> round_up 16 (max (unat sz) 1)" by (simp only: round_up_ge)
  consider (no_payload) "align_up (max sz 1) ALIGN = None" "2 ^ 64 \<le> max (unat sz) 1 + 15"
    | (payload) v where "align_up (max sz 1) ALIGN = Some v" "unat v = round_up 16 (max (unat sz) 1)"
    using align_up_16 [of "max sz 1"] unfolding m by (elim disjE exE conjE)
  then show ?thesis
  proof cases
    case no_payload
    then have "2 ^ 63 \<le> block_size sz" using ge unfolding block_size_def by simp
    with no_payload a show ?thesis by (intro none) (simp_all add: alloc_def)
  next
    case payload
    have hs: "unat HEADER_SIZE = 16" by (simp add: header_consts)
    consider "checked_add HEADER_SIZE v = None" "2 ^ 64 \<le> 16 + unat v"
      | needed where "checked_add HEADER_SIZE v = Some needed" "unat needed = 16 + unat v"
      using checked_add_cases [of HEADER_SIZE v] unfolding hs by (elim disjE exE conjE)
    then show ?thesis
    proof cases
      case 1
      with payload a show ?thesis by (intro none) (simp_all add: alloc_def block_size_def)
    next
      case 2
      then have "unat needed = block_size sz" using payload(2) by (simp add: block_size_def)
      then show ?thesis
        by (rule alloc_needed [OF h]) (simp only: alloc_def if_not_P [OF a] payload(1) 2(1) option.case)
    qed
  qed
qed

lemma dealloc_ok:
  assumes h: "heap_ok h fs L" and "(a, n) \<in> L" and "unat p = a + 16"
  shows "\<exists>h'. dealloc p h = Some h' \<and> heap_ok h' (insert_block (a, n) fs) (L - {(a, n)}) \<and> keeps h h' (L - {(a, n)})"
proof -
  have "p \<noteq> 0" using assms(3) by auto
  have "16 \<le> p" using assms(3) by (simp add: word_le_nat_alt)
  then have "unat (p - HEADER_SIZE) = a" using assms(3) by (simp add: header_consts unat_sub)
  moreover have "heap_ok h fs (L - {(a, n)})" by (rule heap_ok_subset [OF h]) blast
  moreover have "block_ok (ubrk h) (a, n)" using heap_okD(3) [OF h] assms(2) by blast
  moreover have "unat (load_u64 (umem h) a) = n" using bspec [OF heap_okD(4) [OF h] assms(2)] by simp
  moreover have "\<forall>c \<in> set fs. apart (a, n) c" by (rule bspec [OF heap_okD(5) [OF h] assms(2)])
  moreover have "\<forall>c \<in> L - {(a, n)}. apart (a, n) c" using pairwiseD [OF heap_okD(6) [OF h] assms(2)] by blast
  ultimately have "\<exists>h'. insert_free_block (p - HEADER_SIZE) h = Some h' \<and>
      heap_ok h' (insert_block (a, n) fs) (L - {(a, n)}) \<and> keeps h h' (L - {(a, n)}) \<and> ubrk h' = ubrk h"
    by (intro insert_ok)
  with \<open>p \<noteq> 0\<close> show ?thesis by (auto simp: dealloc_def)
qed

section \<open>Programs that use the heap\<close>

text \<open>
  The states of a program that allocates, frees what it was given, and writes to its memory.  \<open>V\<close> holds
  the contents of the memory at the pointers in use as the program last wrote them.
\<close>

inductive heap_reach :: "uheap \<Rightarrow> (u64 \<rightharpoonup> byte list) \<Rightarrow> bool" where
  start: "0 < brk \<Longrightarrow> PGSIZE dvd brk \<Longrightarrow> brk \<le> USER_STACK \<Longrightarrow> heap_reach (UserAllocator_new brk m) Map.empty"
| alloc: "heap_reach h V \<Longrightarrow> alloc ok sz al h = Some (p, h') \<Longrightarrow> p \<noteq> 0 \<Longrightarrow>
    heap_reach h' (V(p \<mapsto> load_bytes (umem h') (unat p) (unat sz)))"
| alloc_fail: "heap_reach h V \<Longrightarrow> alloc ok sz al h = Some (0, h') \<Longrightarrow> heap_reach h' V"
| dealloc: "heap_reach h V \<Longrightarrow> V p = Some bs \<Longrightarrow> dealloc p h = Some h' \<Longrightarrow> heap_reach h' (V(p := None))"
| dealloc_null: "heap_reach h V \<Longrightarrow> dealloc 0 h = Some h' \<Longrightarrow> heap_reach h' V"
| store: "heap_reach h V \<Longrightarrow> V p = Some bs \<Longrightarrow> i < length bs \<Longrightarrow>
    heap_reach (h\<lparr>umem := (umem h)(unat p + i := v)\<rparr>) (V(p \<mapsto> bs[i := v]))"

definition holds_block :: "uheap \<Rightarrow> block set \<Rightarrow> u64 \<Rightarrow> byte list \<Rightarrow> bool" where
  "holds_block h L p bs \<longleftrightarrow> (\<exists>a n. unat p = a + 16 \<and> (a, n) \<in> L \<and> 16 + length bs \<le> n \<and>
     load_bytes (umem h) (unat p) (length bs) = bs)"

lemma holds_block_keeps:
  assumes "holds_block h L p bs" and "keeps h h' M" and "M \<subseteq> L" and "\<And>n. (unat p - 16, n) \<in> L \<Longrightarrow> (unat p - 16, n) \<in> M"
  shows "holds_block h' M p bs"
proof -
  from assms(1) obtain a n where a: "unat p = a + 16" "(a, n) \<in> L" "16 + length bs \<le> n"
      "load_bytes (umem h) (unat p) (length bs) = bs"
    by (auto simp: holds_block_def)
  then have m: "(a, n) \<in> M" using assms(4) [of n] by simp
  have "load_bytes (umem h') (unat p) (length bs) = load_bytes (umem h) (unat p) (length bs)"
    unfolding load_bytes_eq_iff using bspec [OF assms(2) [unfolded keeps_def] m] a(1,3) by simp
  with a m show ?thesis by (auto simp: holds_block_def)
qed

lemma heap_ok_new: "0 < brk \<Longrightarrow> PGSIZE dvd brk \<Longrightarrow> brk \<le> USER_STACK \<Longrightarrow> heap_ok (UserAllocator_new brk m) [] {}"
  by (simp add: heap_ok_def UserAllocator_new_def)

lemma heap_ok_store:
  assumes h: "heap_ok h fs L" and a: "(a, n) \<in> L" "a + 16 \<le> x" "x < a + n"
  shows "heap_ok (h\<lparr>umem := (umem h)(x := v)\<rparr>) fs L"
proof -
  let ?m = "(umem h)(x := v)"
  have free: "x < b \<or> b + k \<le> x" "32 \<le> k" if "(b, k) \<in> set fs" for b k
  proof -
    have "apart (a, n) (b, k)" by (rule bspec [OF bspec [OF heap_okD(5) [OF h] a(1)] that])
    then show "x < b \<or> b + k \<le> x" using a by auto
    have "block_ok (ubrk h) (b, k)" using heap_okD(3) [OF h] that by blast
    then show "32 \<le> k" by (simp add: block_ok_def)
  qed
  have "?m y = umem h y" if "(b, k) \<in> set fs" "b \<le> y" "y < b + 16" for b k y
    using free [OF that(1)] that by auto
  then have 1: "lseg ?m (uhead h) fs 0" using heap_okD(1) [OF h] lseg_cong [of fs ?m "umem h"] by blast
  have 2: "\<forall>(b, k) \<in> L. unat (load_u64 ?m b) = k"
  proof clarify
    fix b k assume b: "(b, k) \<in> L"
    then have "block_ok (ubrk h) (b, k)" using heap_okD(3) [OF h] by blast
    then have k: "32 \<le> k" by (simp add: block_ok_def)
    have "\<not> (b \<le> x \<and> x < b + 8)"
    proof (cases "(a, n) = (b, k)")
      case False
      then have "apart (a, n) (b, k)" using pairwiseD [OF heap_okD(6) [OF h] a(1) b] by blast
      then show ?thesis using a k by auto
    qed (use a in simp)
    then have "load_u64 ?m b = load_u64 (umem h) b" by (intro load_u64_cong) auto
    then show "unat (load_u64 ?m b) = k" using bspec [OF heap_okD(4) [OF h] b] by simp
  qed
  have f: "umem (h\<lparr>umem := ?m\<rparr>) = ?m" "uhead (h\<lparr>umem := ?m\<rparr>) = uhead h" "ubrk (h\<lparr>umem := ?m\<rparr>) = ubrk h" by simp_all
  show ?thesis
    unfolding heap_ok_def f using 1 2 heap_okD(2,3,5-9) [OF h] by (simp only: simp_thms)
qed

definition heap_inv :: "uheap \<Rightarrow> (u64 \<rightharpoonup> byte list) \<Rightarrow> block list \<Rightarrow> block set \<Rightarrow> bool" where
  "heap_inv h V fs L \<longleftrightarrow> heap_ok h fs L \<and> (\<forall>p bs. V p = Some bs \<longrightarrow> holds_block h L p bs)"

lemma heap_inv_alloc:
  assumes "heap_inv h V fs L" and "allocated h fs L sz p h'"
  shows "\<exists>fs L. heap_inv h' (V(p \<mapsto> load_bytes (umem h') (unat p) (unat sz))) fs L"
proof -
  from assms(2) obtain a n bs where a: "unat p = a + 16" "16 + unat sz \<le> n" "heap_ok h' bs (insert (a, n) L)" "keeps h h' L"
    by (auto simp: allocated_def)
  have "holds_block h' (insert (a, n) L) q cs" if "V q = Some cs" for q cs
  proof -
    have "holds_block h L q cs" using assms(1) that by (simp add: heap_inv_def)
    from holds_block_keeps [OF this a(4)] show ?thesis by (auto simp: holds_block_def)
  qed
  moreover have "holds_block h' (insert (a, n) L) p (load_bytes (umem h') (unat p) (unat sz))"
    unfolding holds_block_def using a(1,2) by auto
  ultimately have "heap_inv h' (V(p \<mapsto> load_bytes (umem h') (unat p) (unat sz))) bs (insert (a, n) L)"
    using a(3) by (simp add: heap_inv_def)
  then show ?thesis by blast
qed

lemma heap_inv_dealloc:
  assumes i: "heap_inv h V fs L" and "V p = Some bs"
  shows "\<exists>h'. dealloc p h = Some h' \<and> (\<exists>fs L. heap_inv h' (V(p := None)) fs L)"
proof -
  have ok: "heap_ok h fs L" and "holds_block h L p bs" using assms by (simp_all add: heap_inv_def)
  then obtain a n where a: "unat p = a + 16" "(a, n) \<in> L" by (auto simp: holds_block_def)
  from dealloc_ok [OF ok a(2,1)] obtain h' where
    h': "dealloc p h = Some h'" "heap_ok h' (insert_block (a, n) fs) (L - {(a, n)})" "keeps h h' (L - {(a, n)})" by blast
  have "holds_block h' (L - {(a, n)}) q cs" if "V q = Some cs" "q \<noteq> p" for q cs
  proof (rule holds_block_keeps [OF _ h'(3)])
    show b: "holds_block h L q cs" using i that(1) by (simp add: heap_inv_def)
    have "unat q \<noteq> unat p" "16 \<le> unat q" using that(2) b by (auto simp: word_unat_eq_iff holds_block_def)
    then show "(unat q - 16, k) \<in> L - {(a, n)}" if "(unat q - 16, k) \<in> L" for k using that a(1) by auto
  qed blast
  then have "heap_inv h' (V(p := None)) (insert_block (a, n) fs) (L - {(a, n)})"
    using h'(2) by (simp add: heap_inv_def)
  with h'(1) show ?thesis by blast
qed

lemma heap_inv_disjoint:
  assumes i: "heap_inv h V fs L" and "V p = Some bs" "V q = Some cs" "p \<noteq> q"
  shows "unat p + length bs \<le> unat q \<or> unat q + length cs \<le> unat p"
proof -
  have "holds_block h L p bs" "holds_block h L q cs" using assms(1-3) by (simp_all add: heap_inv_def)
  then obtain a n b k where a: "unat p = a + 16" "(a, n) \<in> L" "16 + length bs \<le> n"
      and b: "unat q = b + 16" "(b, k) \<in> L" "16 + length cs \<le> k"
    by (auto simp: holds_block_def)
  have "unat p \<noteq> unat q" using assms(4) by (simp add: word_unat_eq_iff)
  then have "(a, n) \<noteq> (b, k)" using a(1) b(1) by auto
  moreover have "heap_ok h fs L" using i by (simp add: heap_inv_def)
  ultimately have "apart (a, n) (b, k)" using pairwiseD [OF heap_okD(6) a(2) b(2)] by blast
  then show ?thesis using a b by auto
qed

lemma heap_inv_store:
  assumes i: "heap_inv h V fs L" and "V p = Some bs" "j < length bs"
  shows "heap_inv (h\<lparr>umem := (umem h)(unat p + j := v)\<rparr>) (V(p \<mapsto> bs[j := v])) fs L"
proof -
  let ?h = "h\<lparr>umem := (umem h)(unat p + j := v)\<rparr>"
  have ok: "heap_ok h fs L" and b: "holds_block h L p bs" using assms by (simp_all add: heap_inv_def)
  then obtain a n where a: "unat p = a + 16" "(a, n) \<in> L" "16 + length bs \<le> n" "load_bytes (umem h) (unat p) (length bs) = bs"
    by (auto simp: holds_block_def)
  have "load_bytes (umem ?h) (unat p) (length bs) = bs[j := v]"
  proof (rule nth_equalityI)
    fix i assume "i < length (load_bytes (umem ?h) (unat p) (length bs))"
    then have "i < length bs" by simp
    moreover have "umem h (unat p + i) = bs ! i" using arg_cong [OF a(4), of "\<lambda>l. l ! i"] calculation by simp
    ultimately show "load_bytes (umem ?h) (unat p) (length bs) ! i = bs[j := v] ! i" by (simp add: nth_list_update)
  qed simp
  then have "holds_block ?h L p (bs[j := v])" using a(1-3) by (auto simp: holds_block_def)
  moreover have "holds_block ?h L q cs" if q: "V q = Some cs" "q \<noteq> p" for q cs
  proof -
    have "holds_block h L q cs" using i q(1) by (simp add: heap_inv_def)
    moreover have "unat p + length bs \<le> unat q \<or> unat q + length cs \<le> unat p"
      using heap_inv_disjoint [OF i assms(2) q(1)] q(2) by auto
    then have "load_bytes (umem ?h) (unat q) (length cs) = load_bytes (umem h) (unat q) (length cs)"
      using assms(3) by (auto simp: load_bytes_eq_iff)
    ultimately show ?thesis by (simp add: holds_block_def)
  qed
  moreover have "heap_ok ?h fs L" using a assms(3) by (intro heap_ok_store [OF ok a(2)]) simp_all
  ultimately show ?thesis by (simp add: heap_inv_def)
qed

lemma alloc_total:
  assumes "heap_ok h fs L"
  shows "\<exists>p h'. alloc ok sz al h = Some (p, h') \<and> (p = 0 \<and> h' = h \<or> p \<noteq> 0 \<and> allocated h fs L sz p h')"
proof (cases "al \<le> 16")
  case True
  have "p \<noteq> 0" if "allocated h fs L sz p h'" for p h' using that by (auto simp: allocated_def)
  with alloc_cases [OF assms True, of ok sz] show ?thesis by (fastforce split: if_splits)
next
  case False
  then show ?thesis by (simp add: alloc_def ALIGN_def not_le)
qed

lemma heap_reach_inv: "heap_reach h V \<Longrightarrow> \<exists>fs L. heap_inv h V fs L"
proof (induction rule: heap_reach.induct)
  case (start brk m)
  then have "heap_inv (UserAllocator_new brk m) Map.empty [] {}" using heap_ok_new by (simp add: heap_inv_def)
  then show ?case by blast
next
  case (alloc h V ok sz al p h')
  then obtain fs L where i: "heap_inv h V fs L" by blast
  from alloc_total [of h fs L ok sz al] i alloc.hyps(2,3) have "allocated h fs L sz p h'" by (auto simp: heap_inv_def)
  from heap_inv_alloc [OF i this] show ?case .
next
  case (alloc_fail h V ok sz al h')
  then obtain fs L where i: "heap_inv h V fs L" by blast
  from alloc_total [of h fs L ok sz al] i alloc_fail.hyps(2) have "h' = h" by (auto simp: heap_inv_def)
  with i show ?case by blast
next
  case (dealloc h V p bs h')
  then obtain fs L where "heap_inv h V fs L" by blast
  from heap_inv_dealloc [OF this dealloc.hyps(2)] dealloc.hyps(3) show ?case by (metis option.inject)
next
  case (dealloc_null h V h')
  then show ?case by (simp add: dealloc_def)
next
  case (store h V p bs i v)
  then show ?case using heap_inv_store by blast
qed

section \<open>The properties\<close>

text \<open>C37. On every well-formed heap \<open>alloc\<close> with an alignment of at most 16 returns.  If a free block is large enough, or the kernel lets the
  heap grow, the result is the payload of a new block that holds the requested size, is aligned, and
  overlaps no block in use; the blocks in use keep their contents.  Otherwise the result is null and
  nothing changes.\<close>

theorem alloc_correct:
  assumes "heap_ok h fs L" and "al \<le> 16"
  shows "\<exists>p h'. alloc ok sz al h = Some (p, h') \<and>
    (if can_alloc ok sz h fs
     then \<exists>a n fs'. unat p = a + 16 \<and> 16 dvd unat p \<and> 16 + unat sz \<le> n \<and> (a, n) \<notin> L \<and>
       heap_ok h' fs' (insert (a, n) L) \<and> keeps h h' L
     else p = 0 \<and> h' = h)"
proof (cases "can_alloc ok sz h fs")
  case True
  then obtain p h' where p: "alloc ok sz al h = Some (p, h')" "allocated h fs L sz p h'"
    using alloc_cases [OF assms, of ok sz] by auto
  from p(2) obtain a n bs where a: "unat p = a + 16" "16 + unat sz \<le> n" "(a, n) \<notin> L"
      "heap_ok h' bs (insert (a, n) L)" "keeps h h' L"
    by (auto simp: allocated_def)
  have "block_ok (ubrk h') (a, n)" using heap_okD(3) [OF a(4)] by blast
  then have "16 dvd unat p" using a(1) by (simp add: block_ok_def)
  with p(1) a True show ?thesis by metis
next
  case False
  then show ?thesis using alloc_cases [OF assms, of ok sz] by simp
qed

theorem alloc_correct_witness:
  "\<exists>p h'. alloc True 100 8 (UserAllocator_new 8192 (\<lambda>_. 0)) = Some (p, h') \<and> 16 dvd unat p \<and> 16 \<le> unat p"
proof -
  let ?h = "UserAllocator_new 8192 (\<lambda>_. 0)"
  have h: "heap_ok ?h [] {}" by (rule heap_ok_new) (simp_all add: PGSIZE_def USER_STACK_def MAXVA_def)
  have "can_alloc True 100 ?h []"
    by (simp add: can_alloc_def block_size_def round_up_def UserAllocator_new_def USER_STACK_def MAXVA_def PGSIZE_def)
  with alloc_correct [OF h, of 8 True 100] show ?thesis by fastforce
qed

text \<open>C38. A block that was taken from the free list and is freed right away is merged back: the free list is
  what it was, and no block in use has changed.\<close>

theorem alloc_then_dealloc:
  assumes "heap_ok h fs L" and "al \<le> 16" and "\<exists>(a, n) \<in> set fs. block_size sz \<le> n"
  shows "\<exists>p h' h''. alloc ok sz al h = Some (p, h') \<and> p \<noteq> 0 \<and> dealloc p h' = Some h'' \<and> heap_ok h'' fs L \<and> keeps h h'' L"
proof -
  have "can_alloc ok sz h fs" using assms(3) by (simp add: can_alloc_def)
  then obtain p h' where p: "alloc ok sz al h = Some (p, h')" "allocated h fs L sz p h'"
    using alloc_cases [OF assms(1,2), of ok sz] by auto
  from p(2) assms(3) obtain a n bs where a: "unat p = a + 16" "(a, n) \<notin> L"
      "heap_ok h' bs (insert (a, n) L)" "keeps h h' L" "insert_block (a, n) bs = fs"
    unfolding allocated_def by blast
  have "insert (a, n) L - {(a, n)} = L" using a(2) by blast
  with dealloc_ok [OF a(3) insertI1 a(1)] obtain h'' where "dealloc p h' = Some h''" "heap_ok h'' fs L" "keeps h' h'' L"
    by (auto simp: a(5))
  moreover have "p \<noteq> 0" using a(1) by auto
  ultimately show ?thesis using p(1) keeps_blocks_trans [OF a(4)] by blast
qed

theorem alloc_then_dealloc_witness:
  "\<exists>p h' h''. alloc False 24 8 \<lparr>umem = store_u64 8192 4096 (\<lambda>_. 0), uhead = 8192, ubrk = 12288\<rparr> = Some (p, h') \<and>
     p \<noteq> 0 \<and> dealloc p h' = Some h'' \<and> heap_ok h'' [(8192, 4096)] {}"
proof -
  let ?h = "\<lparr>umem = store_u64 8192 4096 (\<lambda>_. 0), uhead = 8192, ubrk = 12288\<rparr>"
  have z: "load_u64 (\<lambda>_. 0) 8200 = 0" by (simp add: load_u64_def load_bytes_def upt_rec)
  have "heap_ok ?h [(8192, 4096)] {}"
    by (simp add: heap_ok_def block_ok_def load_u64_store_other z PGSIZE_def USER_STACK_def MAXVA_def)
  moreover have "\<exists>(a, n) \<in> set [(8192 :: nat, 4096)]. block_size 24 \<le> n" by (simp add: block_size_def round_up_def)
  ultimately show ?thesis using alloc_then_dealloc [of ?h "[(8192, 4096)]" "{}" 8 24 False] by auto
qed

text \<open>C3. However a program allocates, frees what it was given and writes to its memory: \<open>alloc\<close> and \<open>dealloc\<close>
  return (no loop over the free list runs forever), the memory at every pointer in use holds what the
  program last wrote there, it is aligned and below the break, and no two pointers in use overlap.\<close>

theorem heap_safe:
  assumes "heap_reach h V"
  shows "(\<forall>ok sz al. alloc ok sz al h \<noteq> None) \<and> (\<forall>p \<in> dom V. dealloc p h \<noteq> None) \<and>
    (\<forall>p bs. V p = Some bs \<longrightarrow> 16 dvd unat p \<and> unat p + length bs \<le> ubrk h \<and>
       load_bytes (umem h) (unat p) (length bs) = bs) \<and>
    (\<forall>p q bs cs. V p = Some bs \<longrightarrow> V q = Some cs \<longrightarrow> p \<noteq> q \<longrightarrow>
       unat p + length bs \<le> unat q \<or> unat q + length cs \<le> unat p)"
proof -
  obtain fs L where i: "heap_inv h V fs L" using heap_reach_inv [OF assms] by blast
  then have ok: "heap_ok h fs L" by (simp add: heap_inv_def)
  have "16 dvd unat p \<and> unat p + length bs \<le> ubrk h \<and> load_bytes (umem h) (unat p) (length bs) = bs" if "V p = Some bs" for p bs
  proof -
    have "holds_block h L p bs" using i that by (simp add: heap_inv_def)
    then obtain a n where a: "unat p = a + 16" "(a, n) \<in> L" "16 + length bs \<le> n" "load_bytes (umem h) (unat p) (length bs) = bs"
      by (auto simp: holds_block_def)
    have "block_ok (ubrk h) (a, n)" using heap_okD(3) [OF ok] a(2) by blast
    then show ?thesis using a by (simp add: block_ok_def)
  qed
  moreover have "alloc ok sz al h \<noteq> None" for ok sz al using alloc_total [OF ok, of _ sz al] by fastforce
  moreover have "\<forall>p \<in> dom V. dealloc p h \<noteq> None" using heap_inv_dealloc [OF i] by fastforce
  ultimately show ?thesis using heap_inv_disjoint [OF i] by blast
qed

theorem heap_safe_witness:
  "\<exists>h' V. heap_reach h' V \<and> alloc False 8 8 h' \<noteq> None \<and> (\<exists>p. V p = Some [7])"
proof -
  let ?h = "UserAllocator_new 8192 (\<lambda>_. 0)"
  have h: "heap_ok ?h [] {}" by (rule heap_ok_new) (simp_all add: PGSIZE_def USER_STACK_def MAXVA_def)
  have r: "heap_reach ?h Map.empty" by (rule heap_reach.start) (simp_all add: PGSIZE_def USER_STACK_def MAXVA_def)
  have "can_alloc True 1 ?h []"
    by (simp add: can_alloc_def block_size_def round_up_def UserAllocator_new_def USER_STACK_def MAXVA_def PGSIZE_def)
  with alloc_cases [OF h, of 8 True 1] obtain p h' where p: "alloc True 1 8 ?h = Some (p, h')" "allocated ?h [] {} 1 p h'" by auto
  then have "p \<noteq> 0" by (auto simp: allocated_def)
  from heap_reach.alloc [OF r p(1) this] have "heap_reach h' [p \<mapsto> load_bytes (umem h') (unat p) 1]" by simp
  from heap_reach.store [OF this, of p _ 0 7] have "heap_reach (h'\<lparr>umem := (umem h')(unat p := 7)\<rparr>) [p \<mapsto> [7]]"
    by (simp add: load_bytes_def)
  then show ?thesis using heap_safe [of "h'\<lparr>umem := (umem h')(unat p := 7)\<rparr>" "[p \<mapsto> [7]]"]
    by (intro exI [of _ "h'\<lparr>umem := (umem h')(unat p := 7)\<rparr>"] exI [of _ "[p \<mapsto> [7]]"]) auto
qed

end
