(* ===== verification/Shell_Run.thy ===== *)
theory Shell_Run
  imports Shell Descriptors
begin

unbundle bit_operations_syntax

text \<open>
  The shell, \<open>user/src/bin/sh.rs\<close>: what it does with a line.  A command runs in a child whose descriptors 0
  and 1 are the files it is redirected to or the ends of the pipes to its neighbours.

  The shell is modelled on its descriptor table and on what the system calls answer, which is the record
  \<open>answers\<close>.  A child that is started is the value of type \<open>child\<close>: the program it executes with its
  arguments and its descriptors, or the status it exits with.

  The results: every process of a pipeline reads from the process before it and writes to the one after it,
  and holds no other end of a pipe; the shell itself has the descriptors it had before.
\<close>

section \<open>Children\<close>

definition O_RDONLY :: u32 where "O_RDONLY = 0x000"
definition CREATE_APPEND :: u32 where "CREATE_APPEND = 0x200 OR 0x001 OR 0x800"
definition CREATE_TRUNC :: u32 where "CREATE_TRUNC = 0x200 OR 0x001 OR 0x400"

text \<open>
  What the kernel answers: the ends of the \<open>k\<close>-th pipe, the result of the \<open>k\<close>-th \<open>fork\<close> in the shell, the
  file a path and flags lead to, whether a program can be executed, the results of \<open>chdir\<close>, and the result of the
  \<open>k\<close>-th \<open>wait\<close>.
\<close>

record 'f answers =
  a_pipe :: "nat \<Rightarrow> ('f \<times> 'f) option"
  a_fork :: "nat \<Rightarrow> int"
  a_open :: "byte list \<Rightarrow> u32 \<Rightarrow> 'f option"
  a_exec :: "byte list \<Rightarrow> token list \<Rightarrow> bool"
  a_chdir :: "byte list \<Rightarrow> int"
  a_wait :: "nat \<Rightarrow> int"

datatype 'f child = Program "byte list" "token list" "'f fdtab" | Exited int

text \<open>\<open>CString::new\<close> fails on a string with a NUL byte, and then so do \<open>open\<close>, \<open>exec\<close> and \<open>chdir\<close> of
  \<open>user/src/lib.rs\<close>.\<close>

definition lib_open :: "'f answers \<Rightarrow> byte list \<Rightarrow> u32 \<Rightarrow> 'f fdtab \<Rightarrow> int \<times> 'f fdtab" where
  "lib_open e path flags t = (if 0 \<in> set path then (-1, t) else user_open (a_open e path flags) t)"

definition lib_exec :: "'f answers \<Rightarrow> byte list \<Rightarrow> token list \<Rightarrow> bool" where
  "lib_exec e path args \<longleftrightarrow> 0 \<notin> set path \<and> (\<forall>a \<in> set args. 0 \<notin> set a) \<and> a_exec e path args"

definition lib_chdir :: "'f answers \<Rightarrow> byte list \<Rightarrow> int" where
  "lib_chdir e path = (if 0 \<in> set path then -1 else a_chdir e path)"

definition apply_redirects :: "'f answers \<Rightarrow> Command \<Rightarrow> 'f fdtab \<Rightarrow> bool \<times> 'f fdtab" where
  "apply_redirects e cmd t =
     (let (ok, t) =
        (case c_input cmd of
           None \<Rightarrow> (True, t)
         | Some path \<Rightarrow>
             (let t = snd (user_close 0 t);
                  (v, t) = lib_open e path O_RDONLY t
              in (v = 0, t)))
      in
        if \<not> ok then (False, t)
        else
          (case c_output cmd of
             None \<Rightarrow> (True, t)
           | Some out \<Rightarrow>
               (let t = snd (user_close 1 t);
                    flags = (if o_append out then CREATE_APPEND else CREATE_TRUNC);
                    (v, t) = lib_open e (o_path out) flags t
                in (v = 1, t))))"

definition exec_command :: "'f answers \<Rightarrow> Command \<Rightarrow> 'f fdtab \<Rightarrow> 'f child" where
  "exec_command e cmd t =
     (let path = resolve_command (argv cmd ! 0);
          (ok, t) = apply_redirects e cmd t
      in
        if \<not> ok then Exited 1
        else if lib_exec e path (argv cmd) then Program path (argv cmd) t
        else Exited 1)"

section \<open>Pipelines\<close>

fun close_pipes :: "(int \<times> int) list \<Rightarrow> 'f fdtab \<Rightarrow> 'f fdtab" where
  "close_pipes [] t = t"
| "close_pipes (fds # pipes) t = close_pipes pipes (snd (user_close (snd fds) (snd (user_close (fst fds) t))))"

text \<open>\<open>None\<close> is the branch in which the child exits with status 1.\<close>

definition setup_pipeline_fds :: "nat \<Rightarrow> (int \<times> int) list \<Rightarrow> 'f fdtab \<Rightarrow> 'f fdtab option" where
  "setup_pipeline_fds i pipes t =
     (let (ok, t) =
        (if 0 < i then
           (let t = snd (user_close 0 t);
                (v, t) = user_dup (fst (pipes ! (i - 1))) t
            in (v = 0, t))
         else (True, t))
      in
        if \<not> ok then None
        else
          (let (ok, t) =
             (if i < length pipes then
                (let t = snd (user_close 1 t);
                     (v, t) = user_dup (snd (pipes ! i)) t
                 in (v = 1, t))
              else (True, t))
           in if \<not> ok then None else Some (close_pipes pipes t)))"

text \<open>The loop that makes the pipes, from the \<open>k\<close>-th on, and whether every call of \<open>pipe\<close> succeeded.\<close>

fun open_pipes :: "'f answers \<Rightarrow> nat \<Rightarrow> nat \<Rightarrow> (int \<times> int) list \<Rightarrow> 'f fdtab \<Rightarrow> bool \<times> (int \<times> int) list \<times> 'f fdtab" where
  "open_pipes e k 0 pipes t = (True, pipes, t)"
| "open_pipes e k (Suc n) pipes t =
     (case user_pipe (a_pipe e k) t of
        (None, t) \<Rightarrow> (False, pipes, t)
      | (Some fds, t) \<Rightarrow> open_pipes e (Suc k) n (pipes @ [fds]) t)"

text \<open>The loop that starts the children, from the \<open>i\<close>-th on, and whether every call of \<open>fork\<close> succeeded.  A child
  has a copy of the shell's table.\<close>

fun start_children :: "'f answers \<Rightarrow> nat \<Rightarrow> Command list \<Rightarrow> (int \<times> int) list \<Rightarrow> 'f fdtab \<Rightarrow> bool \<times> 'f child list" where
  "start_children e i [] pipes t = (True, [])"
| "start_children e i (cmd # cmds) pipes t =
     (if a_fork e i < 0 then (False, [])
      else
        (let c = (case setup_pipeline_fds i pipes t of None \<Rightarrow> Exited 1 | Some t' \<Rightarrow> exec_command e cmd t');
             (ok, cs) = start_children e (Suc i) cmds pipes t
         in (ok, c # cs)))"

text \<open>The results of \<open>wait\<close> from the \<open>k\<close>-th on; \<open>False\<close> is the branch in which the shell exits.\<close>

fun wait_children :: "'f answers \<Rightarrow> nat \<Rightarrow> nat \<Rightarrow> bool" where
  "wait_children e k 0 = True"
| "wait_children e k (Suc n) = (if a_wait e k < 0 then False else wait_children e (Suc k) n)"

text \<open>How a job ends: the shell goes on, after a message or without one, or it exits.\<close>

datatype ending = Goes_on "string option" | Leaves int

definition run_pipeline :: "'f answers \<Rightarrow> Command list \<Rightarrow> 'f fdtab \<Rightarrow> ending \<times> 'f child list \<times> 'f fdtab" where
  "run_pipeline e cmds t =
     (case open_pipes e 0 (length cmds - 1) [] t of
        (False, pipes, t) \<Rightarrow> (Goes_on (Some ''[sh] pipe failed''), [], close_pipes pipes t)
      | (True, pipes, t) \<Rightarrow>
          (let (ok, cs) = start_children e 0 cmds pipes t;
               t = close_pipes pipes t
           in
             (if \<not> wait_children e 0 (length cs) then Leaves 1
              else Goes_on (if ok then None else Some ''[sh] fork failed''), cs, t)))"

section \<open>Single commands and lines\<close>

definition run_single :: "'f answers \<Rightarrow> Command \<Rightarrow> 'f fdtab \<Rightarrow> ending \<times> 'f child list" where
  "run_single e cmd t =
     (if argv cmd = [] then (Goes_on None, [])
      else if argv cmd ! 0 = [99, 100] then
        (if length (argv cmd) \<noteq> 2 then (Goes_on (Some ''[sh] usage: cd DIR''), [])
         else if lib_chdir e (argv cmd ! 1) < 0 then (Goes_on (Some ''[sh] cd failed''), [])
         else (Goes_on None, []))
      else if argv cmd ! 0 = [101, 120, 105, 116] then (Leaves 0, [])
      else if a_fork e 0 < 0 then (Goes_on (Some ''[sh] fork failed''), [])
      else (if a_wait e 0 < 0 then Leaves 1 else Goes_on None, [exec_command e cmd t]))"

definition MAXLEN :: nat where "MAXLEN = 64"

text \<open>What the shell does with the result of reading a line.\<close>

datatype action = Quit int | Discard | Ignore | Syntax_error | Run job

definition line_action :: "int \<Rightarrow> byte list \<Rightarrow> action" where
  "line_action n buf =
     (if n = 0 then Quit 0
      else if n < 0 then Quit 1
      else if nat n = MAXLEN + 1 \<and> buf ! (nat n - 1) \<noteq> 10 then Discard
      else if trim_input (take (nat n) buf) = [] then Ignore
      else
        (case parse_line (take (nat n) buf) of
           Some job \<Rightarrow> Run job
         | None \<Rightarrow> Syntax_error))"

text \<open>The rest of a line that is too long: the reads that follow, up to one that holds a line end, fails or is
  the end of the input.\<close>

fun discard_line :: "byte list option list \<Rightarrow> byte list option list" where
  "discard_line [] = []"
| "discard_line (None # rs) = rs"
| "discard_line (Some bs # rs) = (if bs = [] then rs else if 10 \<in> set bs then rs else discard_line rs)"

section \<open>The pipes of a pipeline\<close>

definition pipe_fds :: "(int \<times> int) list \<Rightarrow> nat set" where
  "pipe_fds pipes = nat ` (fst ` set pipes \<union> snd ` set pipes)"

lemma pipe_fds_simps [simp]:
  "pipe_fds [] = {}"
  "pipe_fds (p # ps) = insert (nat (fst p)) (insert (nat (snd p)) (pipe_fds ps))"
  "pipe_fds (ps @ qs) = pipe_fds ps \<union> pipe_fds qs"
  by (auto simp: pipe_fds_def)

text \<open>\<open>t'\<close> is the table \<open>t\<close> with the pipes \<open>ps\<close> in descriptors that were free.\<close>

definition piped :: "'f answers \<Rightarrow> 'f fdtab \<Rightarrow> (int \<times> int) list \<Rightarrow> 'f fdtab \<Rightarrow> bool" where
  "piped e t ps t' \<longleftrightarrow> length t' = length t \<and> (\<forall>(r, w) \<in> set ps. 0 \<le> r \<and> 0 \<le> w) \<and>
     (\<forall>x \<in> pipe_fds ps. x < length t \<and> t ! x = None) \<and>
     (\<forall>x < length t. x \<notin> pipe_fds ps \<longrightarrow> t' ! x = t ! x) \<and>
     (\<forall>j < length ps. \<exists>rd wr. a_pipe e j = Some (rd, wr) \<and> t' ! nat (fst (ps ! j)) = Some rd \<and> t' ! nat (snd (ps ! j)) = Some wr)"

lemma close_pipes_nth:
  "x < length t \<Longrightarrow> \<forall>(r, w) \<in> set ps. 0 \<le> r \<and> 0 \<le> w \<Longrightarrow> close_pipes ps t ! x = (if x \<in> pipe_fds ps then None else t ! x)"
  by (induction ps arbitrary: t) (auto simp: nth_user_close)

lemma length_close_pipes [simp]: "length (close_pipes ps t) = length t"
  by (induction ps arbitrary: t) auto

lemma close_pipes_piped: "piped e t ps t' \<Longrightarrow> close_pipes ps t' = t"
  by (rule nth_equalityI) (auto simp: piped_def close_pipes_nth)

lemma user_pipe_piped:
  assumes p: "piped e t ps t'" and u: "user_pipe (a_pipe e (length ps)) t' = (Some fds, t'')"
  shows "piped e t (ps @ [fds]) t''"
proof -
  obtain rd wr r w where ends: "a_pipe e (length ps) = Some (rd, wr)" and r: "lowest t' = Some r"
      and w: "lowest (t'[r := Some rd]) = Some w" and fds: "fds = (int r, int w)" and t'': "t'' = t'[r := Some rd, w := Some wr]"
    using u by (auto simp: user_pipe_def split: option.splits)
  have rl: "r < length t" "t' ! r = None" using find_slot_SomeD [OF r] p by (auto simp: piped_def)
  have "w < length t'" "t'[r := Some rd] ! w = None" using find_slot_SomeD [OF w] by auto
  then have wl: "w < length t" "w \<noteq> r" "t' ! w = None" using p rl by (auto simp: piped_def nth_list_update split: if_splits)
  have out: "x \<notin> pipe_fds ps" if "t' ! x = None" for x
  proof
    assume "x \<in> pipe_fds ps"
    then obtain j where "j < length ps" "x = nat (fst (ps ! j)) \<or> x = nat (snd (ps ! j))"
      by (auto simp: pipe_fds_def in_set_conv_nth)
    then show False using p that unfolding piped_def by fastforce
  qed
  have new: "r \<notin> pipe_fds ps" "w \<notin> pipe_fds ps" using out rl(2) wl(3) by auto
  have old: "nat (fst (ps ! j)) \<in> pipe_fds ps" "nat (snd (ps ! j)) \<in> pipe_fds ps" if "j < length ps" for j
    using nth_mem [OF that] by (auto simp: pipe_fds_def)
  have "\<exists>rd wr. a_pipe e j = Some (rd, wr) \<and> t'' ! nat (fst ((ps @ [fds]) ! j)) = Some rd \<and> t'' ! nat (snd ((ps @ [fds]) ! j)) = Some wr"
    if "j < Suc (length ps)" for j
  proof (cases "j = length ps")
    case True
    then show ?thesis using ends rl(1) wl(1,2) p by (simp add: fds t'' piped_def)
  next
    case False
    then have j: "j < length ps" using that by simp
    then have "nat (fst (ps ! j)) \<noteq> r" "nat (fst (ps ! j)) \<noteq> w" "nat (snd (ps ! j)) \<noteq> r" "nat (snd (ps ! j)) \<noteq> w"
      using old [OF j] new by auto
    then show ?thesis using p j by (simp add: piped_def t'' nth_append)
  qed
  moreover have "t ! r = None" "t ! w = None" using p rl wl new by (auto simp: piped_def)
  ultimately show ?thesis
    using p rl(1) wl(1) by (auto simp: piped_def fds t'')
qed

lemma open_pipes_piped:
  "piped e t ps t' \<Longrightarrow> open_pipes e (length ps) n ps t' = (ok, qs, t'') \<Longrightarrow>
   piped e t qs t'' \<and> (ok \<longrightarrow> length qs = length ps + n)"
proof (induction n arbitrary: ps t')
  case (Suc n)
  show ?case
  proof (cases "user_pipe (a_pipe e (length ps)) t'")
    case (Pair r u)
    then show ?thesis
    proof (cases r)
      case None
      then have "u = t'" using Pair by (auto simp: user_pipe_def split: option.splits prod.splits)
      then show ?thesis using Suc.prems Pair None by auto
    next
      case (Some fds)
      with Suc.IH [OF user_pipe_piped [OF Suc.prems(1), of fds u]] Suc.prems(2) Pair show ?thesis by simp
    qed
  qed
qed simp

text \<open>Pipes can be made as long as descriptors are free.\<close>

definition free_fds :: "'f fdtab \<Rightarrow> nat" where
  "free_fds t = card {x. x < length t \<and> t ! x = None}"

lemma free_fds_update:
  assumes "lowest t = Some k"
  shows "free_fds (t[k := Some f]) = free_fds t - 1"
proof -
  have k: "k < length t" "t ! k = None" using find_slot_SomeD [OF assms] by auto
  then have "{x. x < length t \<and> t[k := Some f] ! x = None} = {x. x < length t \<and> t ! x = None} - {k}"
    by (auto simp: nth_list_update)
  then show ?thesis using k by (simp add: free_fds_def)
qed

lemma lowest_free:
  assumes "0 < free_fds t"
  shows "\<exists>k. lowest t = Some k"
proof -
  have "{x. x < length t \<and> t ! x = None} \<noteq> {}" using assms unfolding free_fds_def card_gt_0_iff by blast
  then have "\<exists>x \<in> set t. x = None" by (auto simp: in_set_conv_nth)
  from find_slot_ex [OF this] show ?thesis .
qed

lemma user_pipe_free:
  assumes "2 \<le> free_fds t" and "ends \<noteq> None"
  shows "\<exists>fds t'. user_pipe ends t = (Some fds, t') \<and> free_fds t' = free_fds t - 2"
proof -
  obtain rd wr where ends: "ends = Some (rd, wr)" using assms(2) by auto
  obtain r where r: "lowest t = Some r" using lowest_free [of t] assms(1) by auto
  note f = free_fds_update [OF r, of rd]
  then obtain w where w: "lowest (t[r := Some rd]) = Some w" using lowest_free [of "t[r := Some rd]"] assms(1) by auto
  show ?thesis using f free_fds_update [OF w, of wr] by (simp add: user_pipe_def ends r w)
qed

lemma open_pipes_free:
  "\<forall>j < k + n. a_pipe e j \<noteq> None \<Longrightarrow> 2 * n \<le> free_fds t \<Longrightarrow> fst (open_pipes e k n ps t)"
proof (induction n arbitrary: k ps t)
  case (Suc n)
  have "a_pipe e k \<noteq> None" "2 \<le> free_fds t" using Suc.prems by auto
  then obtain fds t' where "user_pipe (a_pipe e k) t = (Some fds, t')" "free_fds t' = free_fds t - 2"
    using user_pipe_free by blast
  then show ?case using Suc.IH [of "Suc k" t' "ps @ [fds]"] Suc.prems by simp
qed simp

section \<open>The descriptors of a child\<close>

definition pipe_in :: "'f answers \<Rightarrow> nat \<Rightarrow> 'f fdtab \<Rightarrow> 'f option" where
  "pipe_in e i t = (if 0 < i then map_option fst (a_pipe e (i - 1)) else t ! 0)"

definition pipe_out :: "'f answers \<Rightarrow> nat \<Rightarrow> nat \<Rightarrow> 'f fdtab \<Rightarrow> 'f option" where
  "pipe_out e n i t = (if i < n then map_option snd (a_pipe e i) else t ! 1)"

lemma all_le_Suc: "(\<forall>m \<le> Suc 0. P m) \<longleftrightarrow> P 0 \<and> P (Suc 0)"
  using le_Suc_eq by auto

lemma setup_pipeline_fds_ok:
  assumes p: "piped e t ps t'" and l: "1 < length t" and o: "t ! 0 \<noteq> None" "t ! 1 \<noteq> None" and i: "i \<le> length ps"
  shows "setup_pipeline_fds i ps t' = Some (t[0 := pipe_in e i t, 1 := pipe_out e (length ps) i t])"
proof -
  have len: "length t' = length t" using p by (simp add: piped_def)
  have out: "0 \<notin> pipe_fds ps" "Suc 0 \<notin> pipe_fds ps" using p o by (auto simp: piped_def)
  have l0: "0 < length t" using l by linarith
  with out have o': "t' ! 0 = t ! 0" "t' ! Suc 0 = t ! Suc 0" using p l by (simp_all add: piped_def)
  have fd: "0 \<le> fst (ps ! j)" "0 \<le> snd (ps ! j)" "nat (fst (ps ! j)) \<in> pipe_fds ps" "nat (snd (ps ! j)) \<in> pipe_fds ps"
      "nat (fst (ps ! j)) < length t" "nat (snd (ps ! j)) < length t" if "j < length ps" for j
    using nth_mem [OF that] p by (auto simp: pipe_fds_def piped_def)
  have ends: "t' ! nat (fst (ps ! j)) = map_option fst (a_pipe e j)" "t' ! nat (snd (ps ! j)) = map_option snd (a_pipe e j)" "a_pipe e j \<noteq> None"
    if "j < length ps" for j
    using p that by (fastforce simp: piped_def)+
  define u where "u = t'[0 := pipe_in e i t]"
  have "(if 0 < i then (let t = snd (user_close 0 t'); (v, t) = user_dup (fst (ps ! (i - 1))) t in (v = 0, t)) else (True, t')) = (True, u)"
  proof (cases "0 < i")
    case True
    then have j: "i - 1 < length ps" using i by simp
    obtain f where f: "a_pipe e (i - 1) = Some f" using ends(3) [OF j] by blast
    have "nat (fst (ps ! (i - 1))) \<noteq> 0" using fd(3) [OF j] out by metis
    then show ?thesis
      using dup_onto [of 0 t' "fst (ps ! (i - 1))" "fst f"] fd [OF j] ends(1) [OF j] f len l0 o o' True by (simp add: u_def pipe_in_def)
  next
    case False
    have "t'[0 := t ! 0] = t'" using o'(1) by (metis list_update_id)
    then show ?thesis using False by (simp add: u_def pipe_in_def)
  qed
  moreover have u: "length u = length t" "u ! 0 = pipe_in e i t" "pipe_in e i t \<noteq> None" "u ! Suc 0 = t ! Suc 0"
    using len l l0 o o' ends(3) [of "i - 1"] i by (auto simp: u_def pipe_in_def)
  define w where "w = u[1 := pipe_out e (length ps) i t]"
  have "(if i < length ps then (let t = snd (user_close 1 u); (v, t) = user_dup (snd (ps ! i)) t in (v = 1, t)) else (True, u)) = (True, w)"
  proof (cases "i < length ps")
    case True
    obtain f where f: "a_pipe e i = Some f" using ends(3) [OF True] by blast
    have ne: "nat (snd (ps ! i)) \<noteq> 0" "nat (snd (ps ! i)) \<noteq> Suc 0" using fd(4) [OF True] out by metis+
    then have "u ! nat (snd (ps ! i)) = Some (snd f)" using ends(2) [OF True] f by (simp add: u_def)
    then show ?thesis
      using dup_onto [of 1 u "snd (ps ! i)" "snd f"] fd [OF True] ne u l o f True by (simp add: w_def pipe_out_def all_le_Suc)
  next
    case False
    have "u[1 := t ! 1] = u" using u(4) by (metis One_nat_def list_update_id)
    then show ?thesis using False by (simp add: w_def pipe_out_def)
  qed
  ultimately have "setup_pipeline_fds i ps t' = Some (close_pipes ps w)"
    by (simp add: setup_pipeline_fds_def)
  moreover have "close_pipes ps w ! x = t[0 := pipe_in e i t, 1 := pipe_out e (length ps) i t] ! x" if x: "x < length t" for x
    using close_pipes_nth [of x w ps] x p out u(1) len l l0
    by (auto simp: w_def u_def piped_def nth_list_update)
  then have "close_pipes ps w = t[0 := pipe_in e i t, 1 := pipe_out e (length ps) i t]"
    by (intro nth_equalityI) (simp_all add: w_def u(1))
  ultimately show ?thesis by simp
qed

text \<open>The file behind a path, and the descriptors of a command with its redirections; \<open>None\<close> when a file cannot
  be opened.\<close>

definition lib_file :: "'f answers \<Rightarrow> byte list \<Rightarrow> u32 \<Rightarrow> 'f option" where
  "lib_file e path flags = (if 0 \<in> set path then None else a_open e path flags)"

definition stdin_of :: "'f answers \<Rightarrow> Command \<Rightarrow> 'f option \<Rightarrow> 'f option" where
  "stdin_of e cmd inh = (case c_input cmd of None \<Rightarrow> inh | Some path \<Rightarrow> lib_file e path O_RDONLY)"

definition stdout_of :: "'f answers \<Rightarrow> Command \<Rightarrow> 'f option \<Rightarrow> 'f option" where
  "stdout_of e cmd inh =
     (case c_output cmd of None \<Rightarrow> inh | Some out \<Rightarrow> lib_file e (o_path out) (if o_append out then CREATE_APPEND else CREATE_TRUNC))"

definition command_child :: "'f answers \<Rightarrow> Command \<Rightarrow> 'f fdtab \<Rightarrow> 'f option \<Rightarrow> 'f option \<Rightarrow> 'f child" where
  "command_child e cmd t inp out =
     (if inp = None \<or> out = None \<or> \<not> lib_exec e (resolve_command (argv cmd ! 0)) (argv cmd) then Exited 1
      else Program (resolve_command (argv cmd ! 0)) (argv cmd) (t[0 := inp, 1 := out]))"

lemma lib_open_onto:
  assumes "n < length t" and "\<forall>m \<le> n. t ! m \<noteq> None"
  shows "lib_open e path flags (snd (user_close (int n) t)) =
    (case lib_file e path flags of None \<Rightarrow> (-1, t[n := None]) | Some x \<Rightarrow> (int n, t[n := Some x]))"
  using open_onto [OF assms] user_close_nth [of n t] assms by (auto simp: lib_open_def lib_file_def split: option.splits)

lemma exec_command_child:
  assumes "1 < length t" and "t ! 0 \<noteq> None" and "t ! 1 \<noteq> None"
  shows "exec_command e cmd t = command_child e cmd t (stdin_of e cmd (t ! 0)) (stdout_of e cmd (t ! 1))"
proof -
  have l0: "0 < length t" using assms(1) by linarith
  let ?in = "stdin_of e cmd (t ! 0)" and ?out = "stdout_of e cmd (t ! 1)"
  have i: "(case c_input cmd of None \<Rightarrow> (True, t)
         | Some path \<Rightarrow> (let t = snd (user_close 0 t); (v, t) = lib_open e path O_RDONLY t in (v = 0, t))) = (?in \<noteq> None, t[0 := ?in])"
    using lib_open_onto [of 0 t e _ O_RDONLY] assms l0 by (auto simp: stdin_of_def Let_def split: option.splits)
  show ?thesis
  proof (cases ?in)
    case None
    then show ?thesis using i by (simp add: exec_command_def apply_redirects_def command_child_def)
  next
    case (Some f)
    have "\<forall>m \<le> Suc 0. t[0 := Some f] ! m \<noteq> None" using assms l0 by (simp add: all_le_Suc)
    note o = lib_open_onto [OF _ this]
    have "t[0 := Some f, 1 := t ! 1] = t[0 := Some f]" using assms(1) by (simp add: list_update_same_conv)
    then have "(case c_output cmd of None \<Rightarrow> (True, t[0 := Some f])
        | Some out \<Rightarrow>
            (let t = snd (user_close 1 (t[0 := Some f]));
                 flags = (if o_append out then CREATE_APPEND else CREATE_TRUNC);
                 (v, t) = lib_open e (o_path out) flags t
             in (v = 1, t))) = (?out \<noteq> None, t[0 := Some f, 1 := ?out])"
      using o assms by (auto simp: stdout_of_def Let_def split: option.splits)
    then show ?thesis using i Some
      by (auto simp: exec_command_def apply_redirects_def command_child_def Let_def [of "resolve_command (argv cmd ! 0)"])
  qed
qed

section \<open>Pipelines as a whole\<close>

text \<open>Child \<open>i\<close> of \<open>n + 1\<close>.\<close>

definition pipeline_child :: "'f answers \<Rightarrow> nat \<Rightarrow> 'f fdtab \<Rightarrow> nat \<Rightarrow> Command \<Rightarrow> 'f child" where
  "pipeline_child e n t i cmd = command_child e cmd t (stdin_of e cmd (pipe_in e i t)) (stdout_of e cmd (pipe_out e n i t))"

lemma start_children_ok:
  assumes p: "piped e t ps t'" and l: "1 < length t" and o: "t ! 0 \<noteq> None" "t ! 1 \<noteq> None"
  shows "i + length cmds \<le> Suc (length ps) \<Longrightarrow>
    \<exists>ok m. start_children e i cmds ps t' = (ok, map (\<lambda>j. pipeline_child e (length ps) t (i + j) (cmds ! j)) [0..<m]) \<and> m \<le> length cmds \<and>
      (ok \<longrightarrow> m = length cmds) \<and> ((\<forall>k. 0 \<le> a_fork e k) \<longrightarrow> ok)"
proof (induction cmds arbitrary: i)
  case (Cons cmd cmds)
  let ?t = "t[0 := pipe_in e i t, 1 := pipe_out e (length ps) i t]"
  have i: "i \<le> length ps" using Cons.prems by simp
  have ends: "a_pipe e j \<noteq> None" if "j < length ps" for j using p that by (fastforce simp: piped_def)
  have nn: "pipe_in e i t \<noteq> None" "pipe_out e (length ps) i t \<noteq> None"
    using o i ends [of i] ends [of "i - 1"] by (auto simp: pipe_in_def pipe_out_def)
  have "?t ! 0 = pipe_in e i t" "?t ! 1 = pipe_out e (length ps) i t" using l order.strict_trans [OF zero_less_one l] by simp_all
  then have "exec_command e cmd ?t = pipeline_child e (length ps) t i cmd"
    using exec_command_child [of ?t e cmd] nn l
    by (simp add: pipeline_child_def command_child_def list_update_swap)
  then have c: "(case setup_pipeline_fds i ps t' of None \<Rightarrow> Exited 1 | Some t' \<Rightarrow> exec_command e cmd t') = pipeline_child e (length ps) t i cmd"
    using setup_pipeline_fds_ok [OF p l o i] by simp
  have "Suc i + length cmds \<le> Suc (length ps)" using Cons.prems by simp
  from Cons.IH [OF this] obtain ok m where m: "start_children e (Suc i) cmds ps t' = (ok, map (\<lambda>j. pipeline_child e (length ps) t (Suc i + j) (cmds ! j)) [0..<m])"
      "m \<le> length cmds" "ok \<longrightarrow> m = length cmds" "(\<forall>k. 0 \<le> a_fork e k) \<longrightarrow> ok" by blast
  show ?case
  proof (cases "a_fork e i < 0")
    case True
    then show ?thesis by (intro exI [of _ False] exI [of _ 0]) (auto simp: not_le)
  next
    case False
    have "map (\<lambda>j. pipeline_child e (length ps) t (i + j) ((cmd # cmds) ! j)) [0..<Suc m] =
        pipeline_child e (length ps) t i cmd # map (\<lambda>j. pipeline_child e (length ps) t (Suc i + j) (cmds ! j)) [0..<m]"
      by (simp add: upt_conv_Cons map_Suc_upt [symmetric] del: upt_Suc)
    then show ?thesis using False c m by (intro exI [of _ ok] exI [of _ "Suc m"]) simp
  qed
qed auto

lemma wait_children_ok: "(\<forall>k. 0 \<le> a_wait e k) \<Longrightarrow> wait_children e k n"
  by (induction n arbitrary: k) (auto simp: not_less)

text \<open>C39. Running a pipeline from a shell with descriptors 0 and 1 open: the children that are started are the
  first ones of the pipeline.  Each executes its command with the read end of the pipe before it as descriptor 0,
  the write end of the pipe after it as descriptor 1, the files of its redirections at the two ends of the
  pipeline, and otherwise the descriptors of the shell, so that no process holds an end of a pipe it does not use.
  The shell has its own descriptors back, also when a call fails.  When there are enough descriptors and every
  call succeeds, all children are started and the shell goes on.\<close>

theorem pipeline_correct:
  assumes "job_ok (Pipeline cmds)" and "1 < length t" and "t ! 0 \<noteq> None" and "t ! 1 \<noteq> None"
  shows "\<exists>en m. run_pipeline e cmds t = (en, map (\<lambda>i. pipeline_child e (length cmds - 1) t i (cmds ! i)) [0..<m], t) \<and> m \<le> length cmds \<and>
    ((\<forall>j. a_pipe e j \<noteq> None) \<and> (\<forall>k. 0 \<le> a_fork e k \<and> 0 \<le> a_wait e k) \<and> 2 * (length cmds - 1) \<le> free_fds t \<longrightarrow>
       m = length cmds \<and> en = Goes_on None)"
proof -
  have p0: "piped e t [] t" by (simp add: piped_def)
  obtain ok ps t' where opn: "open_pipes e 0 (length cmds - 1) [] t = (ok, ps, t')" by (cases "open_pipes e 0 (length cmds - 1) [] t") auto
  have p: "piped e t ps t'" "ok \<Longrightarrow> length ps = length cmds - 1"
    using open_pipes_piped [OF p0, of "length cmds - 1" ok ps t'] opn by auto
  have many: ok if "\<forall>j. a_pipe e j \<noteq> None" "2 * (length cmds - 1) \<le> free_fds t"
    using open_pipes_free [of 0 "length cmds - 1" e t "[]"] that opn by simp
  note restored = close_pipes_piped [OF p(1)]
  show ?thesis
  proof (cases ok)
    case False
    then show ?thesis using opn restored many
      by (intro exI [of _ "Goes_on (Some ''[sh] pipe failed'')"] exI [of _ 0]) (auto simp: run_pipeline_def)
  next
    case True
    then have n: "length ps = length cmds - 1" "0 + length cmds \<le> Suc (length ps)" using p(2) assms(1) by auto
    from start_children_ok [OF p(1) assms(2-4) n(2)] obtain ok' m where
      m: "start_children e 0 cmds ps t' = (ok', map (\<lambda>j. pipeline_child e (length ps) t (0 + j) (cmds ! j)) [0..<m])" "m \<le> length cmds"
        "ok' \<longrightarrow> m = length cmds" "(\<forall>k. 0 \<le> a_fork e k) \<longrightarrow> ok'" by blast
    show ?thesis using opn True restored m n(1) wait_children_ok [of e 0 m]
      by (intro exI [of _ "if \<not> wait_children e 0 m then Leaves 1 else Goes_on (if ok' then None else Some ''[sh] fork failed'')"] exI [of _ m])
        (auto simp: run_pipeline_def)
  qed
qed

definition demo_answers :: "string answers" where
  "demo_answers = \<lparr>a_pipe = (\<lambda>k. Some (''read end'', ''write end'')), a_fork = (\<lambda>k. 5), a_open = (\<lambda>p f. Some ''file''),
     a_exec = (\<lambda>p a. True), a_chdir = (\<lambda>p. 0), a_wait = (\<lambda>k. 5)\<rparr>"

definition demo_commands :: "Command list" where
  "demo_commands = [\<lparr>argv = [[108, 115]], c_input = None, c_output = None\<rparr>,
     \<lparr>argv = [[119, 99]], c_input = None, c_output = Some \<lparr>o_path = [120], o_append = False\<rparr>\<rparr>]"

theorem pipeline_correct_witness:
  "run_pipeline demo_answers demo_commands ([Some ''console'', Some ''console'', Some ''console''] @ replicate 13 None) =
    (Goes_on None,
     [Program [47, 98, 105, 110, 47, 108, 115] [[108, 115]] ([Some ''console'', Some ''write end'', Some ''console''] @ replicate 13 None),
      Program [47, 98, 105, 110, 47, 119, 99] [[119, 99]] ([Some ''read end'', Some ''file'', Some ''console''] @ replicate 13 None)],
     [Some ''console'', Some ''console'', Some ''console''] @ replicate 13 None)"
proof -
  let ?t = "[Some ''console'', Some ''console'', Some ''console''] @ replicate 13 None"
  have "job_ok (Pipeline demo_commands)"
    by (simp add: demo_commands_def command_ok_def operator_defs)
  moreover have "{x. x < length ?t \<and> ?t ! x = None} \<supseteq> {3..<16}" by (auto simp: nth_append nth_Cons split: nat.splits)
  then have "card {3..<16 :: nat} \<le> free_fds ?t" unfolding free_fds_def by (intro card_mono) auto
  then have "2 * (length demo_commands - 1) \<le> free_fds ?t" by (simp add: demo_commands_def)
  ultimately show ?thesis
    using pipeline_correct [of demo_commands ?t demo_answers]
    by (auto simp: demo_answers_def demo_commands_def pipeline_child_def command_child_def stdin_of_def stdout_of_def pipe_in_def pipe_out_def
      lib_file_def lib_exec_def resolve_command_def)
qed

end
