(* ===== verification/Spec2Isabelle.thy ===== *)
theory Spec2Isabelle
  imports Fs_Theorems Pipe Console Vm_Theorems Wc Proc_Boot Trap File_Refs Exec_Args User_Heap Shell_Run
begin

text \<open>
  A verification of toy-os-riscv, a Unix-like kernel for one RISC-V hart written in Rust, and of the parts of its
  user programs that compute something.  The kernel is under \<open>src/src\<close>, the user programs are under
  \<open>src/user/src\<close>; file names below are relative to these.

  \<^bold>\<open>The program.\<close>  A program in user mode enters the kernel through \<open>usertrap\<close> (\<open>trap.rs\<close>), which calls
  \<open>syscall\<close> (\<open>syscall.rs\<close>) or an interrupt handler and ends in \<open>usertrapret\<close>.  System calls work on the process
  table (\<open>proc.rs\<close>), the open files (\<open>file.rs\<close>), and through them on pipes (\<open>pipe.rs\<close>), the console
  (\<open>console.rs\<close>) and the file system (\<open>fs.rs\<close>), which lives on a RAM disk behind a buffer cache and an inode
  cache.  Address spaces are Sv39 page tables (\<open>vm.rs\<close>) in pages of the page allocator (\<open>kalloc.rs\<close>); \<open>exec\<close> fills
  them from ELF files (\<open>loader.rs\<close>).  Processes give up the hart in \<open>sched\<close>, and spin locks (\<open>spinlock.rs\<close>,
  \<open>cpu.rs\<close>) switch interrupts off.

  \<^bold>\<open>How the code is modelled.\<close>  Every function is a HOL function with the name it has in the source, on the state
  it changes; the state is a chain of records, \<open>bstate\<close> (disk and buffer cache), \<open>fs\<close> (inode cache), \<open>kst\<close> (pipes,
  console, open files) and \<open>kernel\<close> (memory, hart, processes), each extending the one before.  A panic, a failed
  assertion or an overflow of checked arithmetic is \<open>Inl\<close> of the type \<open>res\<close> of \<open>Prelude\<close>.  References into
  static tables are indices, null pointers \<open>None\<close> or 0.  Machine words are of type \<open>word\<close> where their width
  matters, and natural numbers with the bound written out elsewhere.  Memory is a function from addresses to
  bytes: page tables, the free list of pages, trapframes and the headers of the user heap are stored in it byte by
  byte.  A call that blocks is cut at the sleep: it returns \<open>Sleep\<close> with its channel and what it needs to continue, a
  function with \<open>_resume\<close> in its name continues it, and step relations interleave the parts.  Loops are recursive
  functions with termination proofs.  Only the walk over the free list of the user heap needs a bound: it
  stops when the code would follow a cycle, which is excluded for every well-formed heap.

  \<^bold>\<open>The theories.\<close>
  \<^item> \<open>Prelude\<close>: results that may panic, loops over tables, little-endian bytes.  \<open>Ring\<close> and \<open>Slot_Cache\<close>: the
    locales \<open>ring\<close> and \<open>slot_cache\<close>, the contracts of a ring buffer with growing counters and of a reference-counted
    cache.  The first is interpreted by pipes and the console, the second by the buffer cache and the inode cache.
  \<^item> File system, \<open>fs.rs\<close>: \<open>Bcache\<close> (\<open>bread\<close>, \<open>bwrite\<close>, \<open>brelse\<close>), \<open>Dinode\<close>, \<open>Balloc\<close>, \<open>Bmap\<close>, \<open>Fileio\<close>,
    \<open>Icache\<close>, \<open>Dir\<close> and \<open>Fs_Ops\<close> hold the code in the order of the file.  \<open>Filespec\<close> and \<open>Trunc\<close> have the contracts
    of writing and truncating, \<open>Fs_Inv\<close> the invariant, \<open>Fs_Spec\<close>, \<open>Fs_Walk\<close>, \<open>Fs_Create\<close> and \<open>Fs_Paths\<close> the operations
    over the abstract file system, \<open>Fs_Boot\<close> the first state, and \<open>Fs_Theorems\<close> the properties: names resolve as on
    the abstract tree, files hold what was written, creation and truncation change one file only, nothing panics.
  \<^item> \<open>Pipe\<close> (\<open>pipe.rs\<close>) and \<open>Console\<close> (\<open>console.rs\<close>): order of bytes, no lost wake-up, line editing.
  \<^item> Memory: \<open>Kalloc\<close> (\<open>kalloc.rs\<close>, \<open>memlayout.rs\<close>) and \<open>Vm\<close> (\<open>vm.rs\<close>) hold the code.  \<open>Pte\<close>, \<open>Page_Table\<close>, \<open>Walk\<close>,
    \<open>Unmap\<close>, \<open>Freewalk\<close>, \<open>Aspace\<close>, \<open>Uvm\<close>, \<open>Uvm_Copy\<close> and \<open>Copyio\<close> build the abstract view of an address space and of
    the pages it owns; \<open>Vm_Demo\<close> is a concrete machine, \<open>Vm_Theorems\<close> the properties: translation, ownership of
    frames, no page lost or freed twice, copies to and from user memory equal to bytewise ones.
  \<^item> Processes: \<open>Lock\<close> (\<open>cpu.rs\<close>, \<open>spinlock.rs\<close>), \<open>Ftable\<close> (\<open>file.rs\<close>), \<open>Proc\<close> (\<open>proc.rs\<close>, and \<open>usertrapret\<close>).
    \<open>Proc_Inv\<close> and \<open>Proc_Protocol\<close> say what each operation does to the locks and the table; \<open>Proc_Protocol\<close> has the
    step relation \<open>pstep\<close>, \<open>Proc_Theorems\<close> its invariant and \<open>Proc_Boot\<close> that \<open>userinit\<close> starts it.
  \<^item> System calls: \<open>Loader\<close> (\<open>loader.rs\<close>), \<open>Exec\<close> (\<open>exec\<close> and \<open>userinit\<close> of \<open>proc.rs\<close>), \<open>Syscall\<close> (\<open>syscall.rs\<close>) and
    \<open>Trap\<close> (\<open>trap.rs\<close>, \<open>timer.rs\<close>, \<open>plic.rs\<close>).  \<open>Exec_Args\<close>: the layout of arguments on the new stack.
    \<open>Fs_More\<close> and \<open>File_Refs\<close>: reference counts of open files, and that the calls on descriptors implement the
    table of \<open>Descriptors\<close>.
  \<^item> User programs: \<open>User_Alloc\<close> (\<open>allocator.rs\<close>) and \<open>User_Heap\<close> (its invariant and properties), \<open>Shell\<close> and
    \<open>Shell_Run\<close> (\<open>bin/sh.rs\<close>: parsing; descriptors of the processes of a pipeline), \<open>Wc\<close> (\<open>bin/wc.rs\<close>).

  \<^bold>\<open>What the process machine covers.\<close>  The steps of \<open>pstep\<close> are the functions of \<open>proc.rs\<close> and \<open>usertrapret\<close>, and
  one rule, \<open>io_work\<close>, for work that changes neither the information on processes nor a lock.  A call that panics
  has no next state.  The \<open>wait\<close> that cannot store the exit status is such a call: it keeps \<open>WAIT_LOCK\<close>, and
  \<open>usertrapret\<close> panics (\<open>wait_bad_status\<close> in \<open>Trap\<close>).  \<open>NEXT_PID\<close> wraps around at \<open>2 ^ 64\<close>, so identifiers are
  unique for fewer than \<open>2 ^ 64 - 2\<close> forks.

  \<^bold>\<open>Parameters and bounds.\<close>  Values of control registers, symbols of the linker, bytes received by the UART, the
  embedded program images, the answers of the kernel to the shell and whether the kernel grants \<open>sbrk\<close> are arguments
  of the definitions.  Statements about counters that only grow assume that they stay below \<open>2 ^ 64\<close>.  Reference
  counts of the two caches are natural numbers; the slots that hold references are too few to overflow them.

  \<^bold>\<open>What is not modelled.\<close>  Assembly (\<open>entry.S\<close>, \<open>swtch.S\<close>, \<open>trampoline.S\<close>, \<open>trap_entry\<close>), register accesses of the UART, the
  PLIC and the timer, \<open>main.rs\<close>, messages, the typed wrapper of the spin lock, the locks around the caches and
  the tables of files and pipes (one hart runs the kernel and interrupts are off in them), the self tests, the
  remaining user programs, and the bytes a failing \<open>copyin\<close> leaves in a buffer that is then not used.
\<close>

end
